(* ===== verification/Kernel_Prelude.thy ===== *)
theory Kernel_Prelude
  imports Main "HOL-Library.Word" "HOL-Library.Multiset"
begin

text \<open>
  Shared vocabulary of the development: the C types at their widths, kernel panics as
  values of a sum type, and the table scans of the kernel.  Nearly every table of the
  kernel is an array of structs searched from index 0 for the first entry that satisfies
  a condition; \<open>find_slot\<close> is that loop, and the lemmas below carry the proofs of every
  component that owns such a table.
\<close>

unbundle bit_operations_syntax

type_synonym u8 = "8 word"
type_synonym u16 = "16 word"
type_synonym u32 = "32 word"
type_synonym u64 = "64 word"

text \<open>
  \<open>panic(msg)\<close> stops the kernel: an operation that may panic returns \<open>Inl msg\<close> for the
  panic and \<open>Inr\<close> of its result otherwise.
\<close>

type_synonym 'a kres = "string + 'a"

text \<open>Outcome of an operation that may also have to wait on a sleep lock or a channel.\<close>

datatype 'a outcome = Done 'a | Panics string | Sleeps

definition obind :: "'a outcome \<Rightarrow> ('a \<Rightarrow> 'b outcome) \<Rightarrow> 'b outcome" where
  "obind m f = (case m of Done a \<Rightarrow> f a | Panics e \<Rightarrow> Panics e | Sleeps \<Rightarrow> Sleeps)"

lemma obind_simps [simp]:
  "obind (Done a) f = f a" "obind (Panics e) f = Panics e" "obind Sleeps f = Sleeps"
  by (simp_all add: obind_def)

lemma obind_Done: "obind m f = Done r \<longleftrightarrow> (\<exists>a. m = Done a \<and> f a = Done r)"
  by (cases m) auto

named_theorems kdefs \<comment> \<open>definitions of operations, unfolded by the component proofs\<close>
named_theorems kinv  \<comment> \<open>preservation lemmas of component invariants\<close>

subsection \<open>The first slot that satisfies a condition\<close>

primrec find_slot :: "('a \<Rightarrow> bool) \<Rightarrow> 'a list \<Rightarrow> nat option" where
  "find_slot P [] = None"
| "find_slot P (x # xs) = (if P x then Some 0 else map_option Suc (find_slot P xs))"

lemma find_slot_None_iff: "find_slot P xs = None \<longleftrightarrow> (\<forall>x \<in> set xs. \<not> P x)"
  by (induction xs) auto

lemma find_slot_Some_iff:
  "find_slot P xs = Some i \<longleftrightarrow> i < length xs \<and> P (xs ! i) \<and> (\<forall>j < i. \<not> P (xs ! j))"
proof (induction xs arbitrary: i)
  case Nil
  then show ?case by simp
next
  case (Cons x xs)
  show ?case
  proof (cases i)
    case 0
    then show ?thesis by auto
  next
    case (Suc k)
    then show ?thesis
      using Cons.IH [of k] by (auto simp: less_Suc_eq_0_disj)
  qed
qed

lemma find_slot_SomeD:
  assumes "find_slot P xs = Some i"
  shows "i < length xs" and "P (xs ! i)" and "j < i \<Longrightarrow> \<not> P (xs ! j)"
  using assms by (auto simp: find_slot_Some_iff)

lemma find_slot_ex: "x \<in> set xs \<Longrightarrow> P x \<Longrightarrow> \<exists>i. find_slot P xs = Some i"
  using find_slot_None_iff [of P xs] by auto

lemma find_slot_cong:
  "(\<And>x. x \<in> set xs \<Longrightarrow> P x = Q x) \<Longrightarrow> find_slot P xs = find_slot Q xs"
  by (induction xs) auto

text \<open>With at most one matching slot, the search finds exactly that slot.\<close>

lemma find_slot_unique:
  assumes "i < length xs" and "P (xs ! i)"
    and "\<And>j. j < length xs \<Longrightarrow> P (xs ! j) \<Longrightarrow> j = i"
  shows "find_slot P xs = Some i"
proof -
  have "j < length xs" if "j < i" for j
    using that assms(1) by simp
  then have "\<forall>j < i. \<not> P (xs ! j)"
    using assms(3) by fastforce
  with assms(1,2) show ?thesis by (simp add: find_slot_Some_iff)
qed

lemma set_list_update_conv: "i < length xs \<Longrightarrow> set (xs[i := x]) = insert x {xs ! j |j. j < length xs \<and> j \<noteq> i}"
  by (auto simp: set_conv_nth nth_list_update)

subsection \<open>Replacing one element of a list or one list of a list of lists\<close>

lemma mset_concat_update:
  "i < length xss \<Longrightarrow> mset (concat (xss[i := ys])) + mset (xss ! i) = mset (concat xss) + mset ys"
proof (induction xss arbitrary: i)
  case Nil
  then show ?case by simp
next
  case (Cons xs xss)
  show ?case
  proof (cases i)
    case 0
    then show ?thesis by (simp add: ac_simps)
  next
    case (Suc k)
    with Cons.prems Cons.IH [of k] show ?thesis by (simp add: ac_simps)
  qed
qed

lemma set_concat_update:
  "i < length xss \<Longrightarrow>
     set (concat (xss[i := ys])) = set ys \<union> (\<Union>j \<in> {..<length xss} - {i}. set (xss ! j))"
  by (auto simp: set_list_update_conv)

lemma nth_concat_subset: "i < length xss \<Longrightarrow> set (xss ! i) \<subseteq> set (concat xss)"
  using nth_mem by fastforce

lemma distinct_map_inj: "distinct (map f xs) \<Longrightarrow> x \<in> set xs \<Longrightarrow> y \<in> set xs \<Longrightarrow> f x = f y \<Longrightarrow> x = y"
  by (auto simp: distinct_map inj_on_def)

lemma mset_trade:
  assumes "A + P = S + C" and "C + X = P + Y"
  shows "A + X = S + (Y :: 'a multiset)"
proof -
  have "A + X + P = (A + P) + X" by (simp add: ac_simps)
  also have "\<dots> = S + (C + X)" unfolding assms(1) by (simp add: ac_simps)
  also have "\<dots> = S + Y + P" unfolding assms(2) by (simp add: ac_simps)
  finally show ?thesis by simp
qed

text \<open>Replacing or adding one element of a list whose elements have distinct keys.\<close>

lemma distinct_keys_swap:
  assumes d: "distinct (map f xs)" and a: "a \<in> set xs" and fb: "f b = f a"
    and m: "mset ys + {#a#} = mset xs + {#b#}"
  shows "distinct (map f ys)" and "set ys = set xs - {a} \<union> {b}"
proof -
  have "mset (map f ys) + {#f a#} = mset (map f xs) + {#f b#}"
    using arg_cong [OF m, of "image_mset f"] by simp
  then have "mset (map f ys) = mset (map f xs)" using fb by simp
  then show "distinct (map f ys)" using d mset_eq_imp_distinct_iff by blast
  define r where "r = remove1 a xs"
  have "mset xs = add_mset a (mset r)" unfolding r_def using a by simp
  with m have "add_mset a (mset ys) = add_mset a (add_mset b (mset r))"
    by (simp add: add_mset_commute)
  then have "mset ys = add_mset b (mset (remove1 a xs))" unfolding r_def by (simp only: add_mset_add_mset_same_iff)
  then have "set ys = insert b (set (remove1 a xs))" by (metis set_mset_add_mset_insert set_mset_mset)
  moreover have "distinct xs" using d by (simp add: distinct_map)
  ultimately show "set ys = set xs - {a} \<union> {b}" by (simp add: set_remove1_eq)
qed

lemma distinct_keys_add:
  assumes d: "distinct (map f xs)" and fb: "f b \<notin> f ` set xs" and m: "mset ys = add_mset b (mset xs)"
  shows "distinct (map f ys)" and "set ys = insert b (set xs)"
proof -
  have "mset (map f ys) = mset (map f (b # xs))" using m by simp
  then show "distinct (map f ys)" using d fb mset_eq_imp_distinct_iff
    by (metis distinct.simps(2) list.simps(9) set_map)
  show "set ys = insert b (set xs)" using m by (metis set_mset_add_mset_insert set_mset_mset)
qed

lemma UN_swap:
  assumes "a \<in> A" and "\<And>x. x \<in> A \<Longrightarrow> x \<noteq> a \<Longrightarrow> f x \<inter> f a = {}"
  shows "(\<Union>x \<in> A - {a} \<union> {b}. f x) = ((\<Union>x \<in> A. f x) - f a) \<union> f b"
  using assms by blast

subsection \<open>Counting the used slots of a table\<close>

lemma count_fill:
  "i < length xs \<Longrightarrow> \<not> P (xs ! i) \<Longrightarrow> P y \<Longrightarrow> length (filter P (xs[i := y])) = Suc (length (filter P xs))"
  by (induction xs arbitrary: i) (auto split: nat.splits)

lemma count_clear:
  "i < length xs \<Longrightarrow> P (xs ! i) \<Longrightarrow> \<not> P y \<Longrightarrow> Suc (length (filter P (xs[i := y]))) = length (filter P xs)"
  by (induction xs arbitrary: i) (auto split: nat.splits)

lemma count_keep:
  "i < length xs \<Longrightarrow> P y = P (xs ! i) \<Longrightarrow> length (filter P (xs[i := y])) = length (filter P xs)"
  by (induction xs arbitrary: i) (auto split: nat.splits)

lemma count_full: "length (filter P xs) = length xs \<longleftrightarrow> (\<forall>x \<in> set xs. P x)"
proof (induction xs)
  case (Cons x xs)
  have "length (filter P xs) \<noteq> Suc (length xs)"
    using length_filter_le [of P xs] by linarith
  with Cons show ?case by simp
qed simp

end
