(* ===== verification/Page_Allocator.thy ===== *)
theory Page_Allocator
  imports Kernel_Prelude
begin

text \<open>
  The contract of a reference-counted page allocator, as the rest of the kernel relies on
  it: \<open>alloc\<close> hands out a page nobody holds or reports that the pool is empty, \<open>dup\<close> adds a
  reference, \<open>free\<close> drops one and returns the page to the pool with the last.  The first
  argument of \<open>alloc\<close> and \<open>free\<close> is the CPU the call runs on.
\<close>

locale page_allocator =
  fixes alloc :: "'c \<Rightarrow> 's \<Rightarrow> 'p \<times> 's"
    and dup :: "'p \<Rightarrow> 's \<Rightarrow> int \<times> 's"
    and free :: "'c \<Rightarrow> 'p \<Rightarrow> 's \<Rightarrow> 's kres"
    and null :: 'p
    and cpus :: "'c set"
    and managed :: "'p set"
    and invar :: "'s \<Rightarrow> bool"
    and pool :: "'s \<Rightarrow> 'p set"
    and refs :: "'p \<Rightarrow> 's \<Rightarrow> int"
  assumes null_not_managed: "invar s \<Longrightarrow> null \<notin> managed"
    and pool_managed: "invar s \<Longrightarrow> pool s \<subseteq> managed"
    and refs_nonneg: "invar s \<Longrightarrow> p \<in> managed \<Longrightarrow> 0 \<le> refs p s"
    and refs_zero_iff: "invar s \<Longrightarrow> p \<in> managed \<Longrightarrow> refs p s = 0 \<longleftrightarrow> p \<in> pool s"
    and alloc_null: "invar s \<Longrightarrow> c \<in> cpus \<Longrightarrow> alloc c s = (null, s') \<Longrightarrow> pool s = {} \<and> s' = s"
    and alloc_page: "invar s \<Longrightarrow> c \<in> cpus \<Longrightarrow> alloc c s = (p, s') \<Longrightarrow> p \<noteq> null \<Longrightarrow>
        p \<in> pool s \<and> invar s' \<and> pool s' = pool s - {p} \<and> refs p s' = 1 \<and>
        (\<forall>q \<in> managed. q \<noteq> p \<longrightarrow> refs q s' = refs q s)"
    and dup_page: "invar s \<Longrightarrow> p \<in> managed \<Longrightarrow> 0 < refs p s \<Longrightarrow> dup p s = (e, s') \<Longrightarrow>
        e = 0 \<and> invar s' \<and> pool s' = pool s \<and> refs p s' = refs p s + 1 \<and>
        (\<forall>q \<in> managed. q \<noteq> p \<longrightarrow> refs q s' = refs q s)"
    and free_page: "invar s \<Longrightarrow> c \<in> cpus \<Longrightarrow> p \<in> managed \<Longrightarrow> 0 < refs p s \<Longrightarrow>
        \<exists>s'. free c p s = Inr s' \<and> invar s' \<and>
          pool s' = (if refs p s = 1 then insert p (pool s) else pool s) \<and>
          refs p s' = refs p s - 1 \<and> (\<forall>q \<in> managed. q \<noteq> p \<longrightarrow> refs q s' = refs q s)"
    and free_unmanaged: "p \<notin> managed \<Longrightarrow> \<exists>e. free c p s = Inl e"
begin

lemma alloc_invar: "invar s \<Longrightarrow> c \<in> cpus \<Longrightarrow> alloc c s = (p, s') \<Longrightarrow> invar s'"
  using alloc_null [of s c s'] alloc_page [of s c p s'] by (cases "p = null") auto

lemma alloc_pool: "invar s \<Longrightarrow> c \<in> cpus \<Longrightarrow> alloc c s = (p, s') \<Longrightarrow> pool s' = pool s - {p}"
  using alloc_null [of s c s'] alloc_page [of s c p s'] by (cases "p = null") auto

lemma alloc_fails_iff:
  assumes "invar s" and "c \<in> cpus" and "alloc c s = (p, s')"
  shows "p = null \<longleftrightarrow> pool s = {}"
  using alloc_null [of s c s'] alloc_page [of s c p s'] assms by (cases "p = null") auto

lemma alloc_managed:
  "invar s \<Longrightarrow> c \<in> cpus \<Longrightarrow> alloc c s = (p, s') \<Longrightarrow> p \<noteq> null \<Longrightarrow> p \<in> managed"
  using alloc_page [of s c p s'] pool_managed [of s] by auto

lemma alloc_unheld:
  "invar s \<Longrightarrow> c \<in> cpus \<Longrightarrow> alloc c s = (p, s') \<Longrightarrow> p \<noteq> null \<Longrightarrow> refs p s = 0"
  using alloc_page [of s c p s'] refs_zero_iff [of s p] pool_managed [of s] by auto

text \<open>Two allocations in a row never hand out the same page.\<close>

lemma alloc_alloc_distinct:
  assumes "invar s" and "c \<in> cpus" and "c' \<in> cpus"
    and "alloc c s = (p, s1)" and "alloc c' s1 = (q, s2)" and "p \<noteq> null" and "q \<noteq> null"
  shows "p \<noteq> q"
  using alloc_page [OF assms(1,2,4,6)] alloc_page [of s1 c' q s2] assms by auto

text \<open>Freeing what was just allocated restores the pool and every count.\<close>

lemma alloc_free_roundtrip:
  assumes s: "invar s" and c: "c \<in> cpus" "c' \<in> cpus" and a: "alloc c s = (p, s1)" and p: "p \<noteq> null"
  obtains s2 where "free c' p s1 = Inr s2" and "invar s2" and "pool s2 = pool s"
    and "\<And>q. q \<in> managed \<Longrightarrow> refs q s2 = refs q s"
proof -
  have m: "p \<in> managed" by (rule alloc_managed [OF s c(1) a p])
  note A = alloc_page [OF s c(1) a p]
  obtain s2 where F: "free c' p s1 = Inr s2" "invar s2" "pool s2 = insert p (pool s1)"
      "refs p s2 = refs p s1 - 1" "\<forall>q \<in> managed. q \<noteq> p \<longrightarrow> refs q s2 = refs q s1"
    using free_page [of s1 c' p] A c(2) m by auto
  have "refs q s2 = refs q s" if "q \<in> managed" for q
    using that F A alloc_unheld [OF s c(1) a p] by (cases "q = p") auto
  moreover have "pool s2 = pool s" using F A by auto
  ultimately show ?thesis using that F by blast
qed

end

end
