(* ===== verification/Kalloc.thy ===== *)
theory Kalloc
  imports Kernel_Prelude Page_Allocator
begin

text \<open>
  The physical page allocator, \<open>kernel/mm/kalloc.c\<close>.  Free pages are chained through
  their own first eight bytes (\<open>struct run\<close>), one chain per CPU, and every page has a
  reference count for copy-on-write.  The model keeps the chains where the code keeps
  them: in physical memory, read as eight-byte cells, with \<open>0\<close> as the null pointer.

  Each function is one atomic step: the code runs it under \<open>ref.lock\<close> and the
  \<open>kmem[i].lock\<close>s with interrupts off.  \<open>cpuid()\<close> is the argument \<open>cpu\<close>; the linker
  symbol \<open>end\<close> (first address after the kernel image) is the argument \<open>kend\<close>.
\<close>

subsection \<open>Layout constants and state\<close>

abbreviation PGSIZE :: nat where "PGSIZE \<equiv> 4096"
abbreviation KERNBASE :: nat where "KERNBASE \<equiv> 2147483648"
abbreviation PHYSTOP :: nat where "PHYSTOP \<equiv> 2281701376" \<comment> \<open>KERNBASE + 128*1024*1024\<close>
abbreviation NCPU :: nat where "NCPU \<equiv> 8"

definition PGROUNDUP :: "nat \<Rightarrow> nat" where
  "PGROUNDUP sz = (sz + PGSIZE - 1) div PGSIZE * PGSIZE"

definition PGROUNDDOWN :: "nat \<Rightarrow> nat" where
  "PGROUNDDOWN a = a div PGSIZE * PGSIZE"

record kmem_state =
  mem :: "nat \<Rightarrow> u64"      \<comment> \<open>physical memory: the eight-byte cell at an address\<close>
  cnt :: "nat \<Rightarrow> int"      \<comment> \<open>\<open>ref.cnt[]\<close>, by page number\<close>
  freelist :: "nat list"  \<comment> \<open>\<open>kmem[i].freelist\<close>, one head per CPU\<close>

text \<open>\<open>memset(pa, c, PGSIZE)\<close> on cells; the argument is the byte \<open>c\<close> repeated eight times.\<close>

definition memset_page :: "(nat \<Rightarrow> u64) \<Rightarrow> nat \<Rightarrow> u64 \<Rightarrow> nat \<Rightarrow> u64" where
  "memset_page m pa c = (\<lambda>a. if pa \<le> a \<and> a < pa + PGSIZE then c else m a)"

definition junk_free :: u64 where "junk_free = 0x0101010101010101"
definition junk_alloc :: u64 where "junk_alloc = 0x0505050505050505"

definition bad_page :: "nat \<Rightarrow> nat \<Rightarrow> bool" where
  "bad_page kend pa \<longleftrightarrow> pa mod PGSIZE \<noteq> 0 \<or> pa < kend \<or> PHYSTOP \<le> pa"

subsection \<open>Operations\<close>

definition kfree :: "nat \<Rightarrow> nat \<Rightarrow> nat \<Rightarrow> kmem_state \<Rightarrow> kmem_state kres" where
  "kfree kend cpu pa s =
    (if bad_page kend pa then Inl ''kfree''
     else let n = pa div PGSIZE; c = cnt s n - 1; s1 = s\<lparr>cnt := (cnt s)(n := c)\<rparr> in
       if c = 0
       then let m = memset_page (mem s1) pa junk_free in
         Inr (s1\<lparr>mem := m(pa := of_nat (freelist s1 ! cpu)),
                 freelist := (freelist s1)[cpu := pa]\<rparr>)
       else Inr s1)"

text \<open>Pop the head \<open>r\<close> of CPU \<open>i\<close>'s chain and give it one reference.\<close>

definition take_run :: "nat \<Rightarrow> kmem_state \<Rightarrow> kmem_state" where
  "take_run i s =
    (let r = freelist s ! i in
     s\<lparr>freelist := (freelist s)[i := unat (mem s r)], cnt := (cnt s)(r div PGSIZE := 1)\<rparr>)"

primrec kalloc_steal :: "nat \<Rightarrow> nat list \<Rightarrow> kmem_state \<Rightarrow> nat \<times> kmem_state" where
  "kalloc_steal cpu [] s = (0, s)"
| "kalloc_steal cpu (antid # rest) s =
    (if antid = cpu then kalloc_steal cpu rest s
     else if freelist s ! antid \<noteq> 0 then (freelist s ! antid, take_run antid s)
     else kalloc_steal cpu rest s)"

definition kalloc :: "nat \<Rightarrow> kmem_state \<Rightarrow> nat \<times> kmem_state" where
  "kalloc cpu s =
    (let (r, s1) = (if freelist s ! cpu \<noteq> 0 then (freelist s ! cpu, take_run cpu s)
                    else kalloc_steal cpu [0..<NCPU] s)
     in (r, if r \<noteq> 0 then s1\<lparr>mem := memset_page (mem s1) r junk_alloc\<rparr> else s1))"

definition krefcnt :: "nat \<Rightarrow> kmem_state \<Rightarrow> int" where
  "krefcnt pa s = cnt s (pa div PGSIZE)"

definition kaddrefcnt :: "nat \<Rightarrow> nat \<Rightarrow> kmem_state \<Rightarrow> int \<times> kmem_state" where
  "kaddrefcnt kend pa s =
    (if bad_page kend pa then (-1, s)
     else (0, s\<lparr>cnt := (cnt s)(pa div PGSIZE := cnt s (pa div PGSIZE) + 1)\<rparr>))"

text \<open>\<open>freerange\<close>: the loop over the pages from \<open>p\<close> to \<open>pa_end\<close>.\<close>

function freerange_from :: "nat \<Rightarrow> nat \<Rightarrow> nat \<Rightarrow> nat \<Rightarrow> kmem_state \<Rightarrow> kmem_state kres" where
  "freerange_from kend cpu p pa_end s =
    (if p + PGSIZE \<le> pa_end
     then case kfree kend cpu p (s\<lparr>cnt := (cnt s)(p div PGSIZE := 1)\<rparr>) of
            Inl e \<Rightarrow> Inl e
          | Inr s' \<Rightarrow> freerange_from kend cpu (p + PGSIZE) pa_end s'
     else Inr s)"
  by pat_completeness auto
termination
  by (relation "measure (\<lambda>(_, _, p, e, _). e - p)") auto

declare freerange_from.simps [simp del]

definition freerange :: "nat \<Rightarrow> nat \<Rightarrow> nat \<Rightarrow> nat \<Rightarrow> kmem_state \<Rightarrow> kmem_state kres" where
  "freerange kend cpu pa_start pa_end s = freerange_from kend cpu (PGROUNDUP pa_start) pa_end s"

text \<open>\<open>kinit\<close> starts from zeroed static data, whatever memory holds.\<close>

definition kmem_boot :: "(nat \<Rightarrow> u64) \<Rightarrow> kmem_state" where
  "kmem_boot m = \<lparr>mem = m, cnt = (\<lambda>_. 0), freelist = replicate NCPU 0\<rparr>"

definition kinit :: "nat \<Rightarrow> nat \<Rightarrow> kmem_state \<Rightarrow> kmem_state kres" where
  "kinit kend cpu s = freerange kend cpu kend PHYSTOP s"

text \<open>
  \<open>freebytes\<close> walks every chain.  The walk is a \<open>while\<close> over memory, so it is given fuel;
  \<open>None\<close> is a walk that has not ended.
\<close>

primrec chain_bytes :: "nat \<Rightarrow> (nat \<Rightarrow> u64) \<Rightarrow> nat \<Rightarrow> u64 \<Rightarrow> u64 option" where
  "chain_bytes 0 m p acc = None"
| "chain_bytes (Suc fuel) m p acc =
    (if p = 0 then Some acc else chain_bytes fuel m (unat (m p)) (acc + of_nat PGSIZE))"

primrec chains_bytes :: "nat \<Rightarrow> (nat \<Rightarrow> u64) \<Rightarrow> nat list \<Rightarrow> u64 \<Rightarrow> u64 option" where
  "chains_bytes fuel m [] acc = Some acc"
| "chains_bytes fuel m (p # ps) acc =
    (case chain_bytes fuel m p acc of None \<Rightarrow> None | Some acc' \<Rightarrow> chains_bytes fuel m ps acc')"

definition freebytes :: "nat \<Rightarrow> kmem_state \<Rightarrow> u64 option" where
  "freebytes fuel s = chains_bytes fuel (mem s) (freelist s) 0"

subsection \<open>Chains in memory\<close>

primrec run_list :: "(nat \<Rightarrow> u64) \<Rightarrow> nat \<Rightarrow> nat list \<Rightarrow> bool" where
  "run_list m p [] \<longleftrightarrow> p = 0"
| "run_list m p (q # qs) \<longleftrightarrow> p = q \<and> q \<noteq> 0 \<and> run_list m (unat (m q)) qs"

lemma run_list_null [simp]: "run_list m 0 xs \<longleftrightarrow> xs = []"
  by (cases xs) auto

lemma run_list_nonnull: "p \<noteq> 0 \<Longrightarrow> run_list m p xs \<longleftrightarrow> (\<exists>ys. xs = p # ys \<and> run_list m (unat (m p)) ys)"
  by (cases xs) auto

lemma run_list_cong: "(\<And>q. q \<in> set xs \<Longrightarrow> m' q = m q) \<Longrightarrow> run_list m' p xs = run_list m p xs"
  by (induction xs arbitrary: p) auto

lemma run_list_unique: "run_list m p xs \<Longrightarrow> run_list m p ys \<Longrightarrow> xs = ys"
proof (induction xs arbitrary: p ys)
  case Nil
  then show ?case by simp
next
  case (Cons x xs)
  then have "p \<noteq> 0" by auto
  with Cons show ?case by (auto simp: run_list_nonnull)
qed

text \<open>The pages free in a state: those on some CPU's chain.\<close>

definition free_pages :: "kmem_state \<Rightarrow> nat set" where
  "free_pages s = {p. \<exists>h \<in> set (freelist s). \<exists>xs. run_list (mem s) h xs \<and> p \<in> set xs}"

definition valid_page :: "nat \<Rightarrow> nat \<Rightarrow> bool" where
  "valid_page kend p \<longleftrightarrow> p mod PGSIZE = 0 \<and> kend \<le> p \<and> p < PHYSTOP"

lemma bad_page_iff [simp]: "bad_page kend p \<longleftrightarrow> \<not> valid_page kend p"
  by (auto simp: bad_page_def valid_page_def)

lemma valid_page_apart:
  "valid_page kend p \<Longrightarrow> valid_page kend q \<Longrightarrow> p \<noteq> q \<Longrightarrow> \<not> (p \<le> q \<and> q < p + PGSIZE)"
proof
  assume v: "valid_page kend p" "valid_page kend q" and "p \<noteq> q" and r: "p \<le> q \<and> q < p + PGSIZE"
  from v obtain a b where p: "p = PGSIZE * a" and q: "q = PGSIZE * b"
    unfolding valid_page_def by (metis dvdE mod_0_imp_dvd)
  from r have "a \<le> b" and "b < a + 1"
    unfolding p q by auto
  with \<open>p \<noteq> q\<close> show False unfolding p q by simp
qed

lemma valid_page_number_inj:
  "valid_page kend p \<Longrightarrow> valid_page kend q \<Longrightarrow> p div PGSIZE = q div PGSIZE \<longleftrightarrow> p = q"
  unfolding valid_page_def by (metis div_mult_mod_eq)

lemma valid_page_nonnull: "0 < kend \<Longrightarrow> valid_page kend p \<Longrightarrow> p \<noteq> 0"
  by (simp add: valid_page_def)

lemma valid_page_unat: "valid_page kend p \<Longrightarrow> unat (of_nat p :: u64) = p"
  by (rule of_nat_inverse [OF refl]) (simp add: valid_page_def)

lemma memset_page_other:
  "valid_page kend p \<Longrightarrow> valid_page kend q \<Longrightarrow> p \<noteq> q \<Longrightarrow> memset_page m p c q = m q"
  using valid_page_apart [of kend p q] by (auto simp: memset_page_def)

text \<open>
  The chain relation: \<open>fls\<close> lists, CPU by CPU, the pages the chains of \<open>s\<close> hold.  No page
  is on two chains, every chained page is a managed page, and none has references.
\<close>

definition chains :: "nat \<Rightarrow> kmem_state \<Rightarrow> nat list list \<Rightarrow> bool" where
  "chains kend s fls \<longleftrightarrow>
     length (freelist s) = NCPU \<and> length fls = NCPU \<and>
     (\<forall>i < NCPU. run_list (mem s) (freelist s ! i) (fls ! i)) \<and>
     (\<forall>i < NCPU. \<forall>j < NCPU. i \<noteq> j \<longrightarrow> set (fls ! i) \<inter> set (fls ! j) = {}) \<and>
     (\<forall>i < NCPU. \<forall>p \<in> set (fls ! i). valid_page kend p \<and> cnt s (p div PGSIZE) = 0)"

lemma run_list_distinct: "run_list m p xs \<Longrightarrow> distinct xs"
proof (induction xs arbitrary: p)
  case Nil
  then show ?case by simp
next
  case (Cons x xs)
  have "x \<notin> set xs"
  proof
    assume "x \<in> set xs"
    then obtain as bs where xs: "xs = as @ x # bs"
      by (meson split_list)
    have tail: "run_list m h (as @ x # bs) \<Longrightarrow> run_list m x (x # bs)" for h
      by (induction as arbitrary: h) auto
    from Cons.prems have p: "p = x" and r: "run_list m (unat (m x)) xs" by auto
    from r have "run_list m x (x # bs)" unfolding xs by (rule tail)
    moreover have "run_list m x (x # xs)" using Cons.prems p by simp
    ultimately have "x # xs = x # bs" by (rule run_list_unique [rotated])
    then show False unfolding xs by simp
  qed
  with Cons show ?case by auto
qed

lemma chainsD:
  assumes "chains kend s fls" and "i < NCPU"
  shows "run_list (mem s) (freelist s ! i) (fls ! i)"
    and "p \<in> set (fls ! i) \<Longrightarrow> valid_page kend p"
    and "p \<in> set (fls ! i) \<Longrightarrow> cnt s (p div PGSIZE) = 0"
    and "j < NCPU \<Longrightarrow> i \<noteq> j \<Longrightarrow> p \<in> set (fls ! i) \<Longrightarrow> p \<notin> set (fls ! j)"
  using assms unfolding chains_def by blast+

lemma chains_length:
  assumes "chains kend s fls"
  shows "length (freelist s) = NCPU" and "length fls = NCPU"
  using assms by (auto simp: chains_def)

lemma chains_free_pages:
  assumes "chains kend s fls"
  shows "free_pages s = (\<Union>i < NCPU. set (fls ! i))"
proof -
  have "p \<in> free_pages s \<longleftrightarrow> (\<exists>i < NCPU. p \<in> set (fls ! i))" for p
  proof
    assume "p \<in> free_pages s"
    then obtain h xs where h: "h \<in> set (freelist s)" and xs: "run_list (mem s) h xs" "p \<in> set xs"
      unfolding free_pages_def by blast
    from h obtain i where "i < NCPU" and "h = freelist s ! i"
      using chains_length [OF assms] by (metis in_set_conv_nth)
    with xs have "i < NCPU" and "run_list (mem s) (freelist s ! i) xs" and "p \<in> set xs" by auto
    moreover from this have "xs = fls ! i"
      using chainsD(1) [OF assms] run_list_unique by blast
    ultimately show "\<exists>i < NCPU. p \<in> set (fls ! i)" by blast
  next
    assume "\<exists>i < NCPU. p \<in> set (fls ! i)"
    then show "p \<in> free_pages s"
      using chainsD(1) [OF assms] chains_length [OF assms] nth_mem
      by (fastforce simp: free_pages_def)
  qed
  then show ?thesis by auto
qed

text \<open>
  The allocator's invariant: the chains are well formed, no count is negative, and the
  managed pages with count \<open>0\<close> are exactly the free ones.
\<close>

definition kmem_inv :: "nat \<Rightarrow> kmem_state \<Rightarrow> bool" where
  "kmem_inv kend s \<longleftrightarrow> 0 < kend \<and> (\<exists>fls. chains kend s fls) \<and>
     (\<forall>p. valid_page kend p \<longrightarrow> 0 \<le> krefcnt p s \<and> (krefcnt p s = 0 \<longleftrightarrow> p \<in> free_pages s))"

subsection \<open>Popping and pushing a page\<close>

lemma chains_take_run:
  assumes c: "chains kend s fls" and i: "i < NCPU" and r: "freelist s ! i \<noteq> 0"
  shows "chains kend ((take_run i s)\<lparr>mem := memset_page (mem s) (freelist s ! i) c\<rparr>)
           (fls[i := tl (fls ! i)])"
    and "fls ! i = freelist s ! i # tl (fls ! i)"
proof -
  let ?r = "freelist s ! i"
  let ?s = "(take_run i s)\<lparr>mem := memset_page (mem s) ?r c\<rparr>"
  let ?fls = "fls[i := tl (fls ! i)]"
  note len = chains_length [OF c]
  from chainsD(1) [OF c i] r show hd: "fls ! i = ?r # tl (fls ! i)"
    by (auto simp: run_list_nonnull)
  have rin: "?r \<in> set (fls ! i)" by (subst hd) simp
  have notin: "?r \<notin> set (tl (fls ! i))"
    using run_list_distinct [OF chainsD(1) [OF c i]] hd by (metis distinct.simps(2))
  have sub: "set (?fls ! j) \<subseteq> set (fls ! j)" if "j < NCPU" for j
    using that len hd by (cases "j = i") (auto, metis list.set_intros(2))
  have rout: "?r \<notin> set (?fls ! j)" if "j < NCPU" for j
    using that notin chainsD(4) [OF c i that] rin len by (cases "j = i") auto
  have same: "memset_page (mem s) ?r c q = mem s q" and cnt: "cnt ?s (q div PGSIZE) = 0"
    and vq: "valid_page kend q"
    if "j < NCPU" and q: "q \<in> set (?fls ! j)" for j q
  proof -
    from sub [OF that(1)] q have q': "q \<in> set (fls ! j)" by blast
    show "valid_page kend q" by (rule chainsD(2) [OF c that(1) q'])
    have ne: "?r \<noteq> q" using rout [OF that(1)] q by blast
    show "memset_page (mem s) ?r c q = mem s q"
      by (rule memset_page_other [OF chainsD(2) [OF c i rin] chainsD(2) [OF c that(1) q'] ne])
    show "cnt ?s (q div PGSIZE) = 0"
      using ne valid_page_number_inj [OF chainsD(2) [OF c i rin] chainsD(2) [OF c that(1) q']]
        chainsD(3) [OF c that(1) q']
      by (simp add: take_run_def Let_def)
  qed
  have heads: "run_list (mem ?s) (freelist ?s ! j) (?fls ! j)" if j: "j < NCPU" for j
  proof -
    have "run_list (mem s) (freelist ?s ! j) (?fls ! j)"
      using chainsD(1) [OF c j] hd len j i r
      by (cases "j = i") (auto simp: take_run_def Let_def run_list_nonnull)
    then show ?thesis
      using same [OF j] by (subst run_list_cong [of _ _ "mem s"]) auto
  qed
  have disj: "set (?fls ! j) \<inter> set (?fls ! k) = {}" if "j < NCPU" "k < NCPU" "j \<noteq> k" for j k
    using sub [OF that(1)] sub [OF that(2)] chainsD(4) [OF c that(1,2,3)] by blast
  show "chains kend ?s ?fls"
    unfolding chains_def using len heads disj cnt vq by (auto simp: take_run_def Let_def)
qed

lemma chains_push:
  assumes c: "chains kend s fls" and i: "i < NCPU" and kend: "0 < kend"
    and v: "valid_page kend pa" and out: "\<And>j. j < NCPU \<Longrightarrow> pa \<notin> set (fls ! j)"
  shows "chains kend (s\<lparr>cnt := (cnt s)(pa div PGSIZE := 0),
           mem := (memset_page (mem s) pa c)(pa := of_nat (freelist s ! i)),
           freelist := (freelist s)[i := pa]\<rparr>)
           (fls[i := pa # fls ! i])"
    (is "chains kend ?s ?fls")
proof -
  note len = chains_length [OF c]
  have head: "unat (of_nat (freelist s ! i) :: u64) = freelist s ! i"
  proof (cases "fls ! i")
    case Nil
    with chainsD(1) [OF c i] show ?thesis by simp
  next
    case (Cons x xs)
    with chainsD(1) [OF c i] chainsD(2) [OF c i] show ?thesis
      by (auto intro: valid_page_unat)
  qed
  have same: "mem ?s q = mem s q" if "j < NCPU" and q: "q \<in> set (fls ! j)" for j q
    using memset_page_other [OF v chainsD(2) [OF c that], of "mem s" c] out [OF that(1)] q by auto
  have old: "run_list (mem ?s) h (fls ! j) = run_list (mem s) h (fls ! j)" if "j < NCPU" for j h
    using same [OF that] by (intro run_list_cong)
  have heads: "run_list (mem ?s) (freelist ?s ! j) (?fls ! j)" if j: "j < NCPU" for j
    using chainsD(1) [OF c j] old [OF j] len i j head valid_page_nonnull [OF kend v]
    by (cases "j = i") auto
  have disj: "set (?fls ! j) \<inter> set (?fls ! k) = {}" if "j < NCPU" "k < NCPU" "j \<noteq> k" for j k
    using that len i out [OF that(1)] out [OF that(2)] chainsD(4) [OF c that]
    by (auto simp: nth_list_update)
  have good: "valid_page kend q \<and> cnt ?s (q div PGSIZE) = 0"
    if j: "j < NCPU" and q: "q \<in> set (?fls ! j)" for j q
    using q v len i j chainsD(2,3) [OF c j, of q] by (cases "j = i") auto
  show ?thesis
    unfolding chains_def using len heads disj good by (auto simp del: fun_upd_apply)
qed

lemma kmem_invI:
  assumes "0 < kend" and "chains kend s fls"
    and "\<And>p. valid_page kend p \<Longrightarrow> 0 \<le> krefcnt p s"
    and "\<And>p. valid_page kend p \<Longrightarrow> krefcnt p s = 0 \<Longrightarrow> \<exists>i < NCPU. p \<in> set (fls ! i)"
  shows "kmem_inv kend s"
  using assms chainsD(3) [OF assms(2)]
  unfolding kmem_inv_def chains_free_pages [OF assms(2)] by (auto simp: krefcnt_def Bex_def)

lemma kmem_invD:
  assumes "kmem_inv kend s" and "valid_page kend p"
  shows "0 \<le> krefcnt p s" and "krefcnt p s = 0 \<longleftrightarrow> p \<in> free_pages s"
  using assms by (auto simp: kmem_inv_def)

lemma kmem_inv_chains:
  assumes "kmem_inv kend s"
  obtains fls where "chains kend s fls" and "0 < kend"
  using assms by (auto simp: kmem_inv_def)

lemma kmem_inv_free_valid: "kmem_inv kend s \<Longrightarrow> p \<in> free_pages s \<Longrightarrow> valid_page kend p"
  by (erule kmem_inv_chains) (auto simp: chains_free_pages dest: chainsD(2))

subsection \<open>Allocation\<close>

lemma kalloc_steal_cases:
  assumes "kalloc_steal cpu as s = (r, s')"
  shows "r = 0 \<and> s' = s \<and> (\<forall>a \<in> set as. a \<noteq> cpu \<longrightarrow> freelist s ! a = 0) \<or>
         (\<exists>a \<in> set as. r = freelist s ! a \<and> r \<noteq> 0 \<and> s' = take_run a s)"
  using assms by (induction as) (auto split: if_splits)

lemma kalloc_cases:
  assumes "kalloc cpu s = (r, s')" and "cpu < NCPU"
  obtains (empty) "r = 0" and "s' = s" and "\<And>i. i < NCPU \<Longrightarrow> freelist s ! i = 0"
  | (page) i where "i < NCPU" and "r = freelist s ! i" and "r \<noteq> 0"
      and "s' = (take_run i s)\<lparr>mem := memset_page (mem s) r junk_alloc\<rparr>"
proof (cases "freelist s ! cpu = 0")
  case True
  obtain q t where st: "kalloc_steal cpu [0..<NCPU] s = (q, t)"
    by (cases "kalloc_steal cpu [0..<NCPU] s")
  with True assms(1) have r: "r = q"
    and s': "s' = (if q \<noteq> 0 then t\<lparr>mem := memset_page (mem t) q junk_alloc\<rparr> else t)"
    by (auto simp: kalloc_def)
  from kalloc_steal_cases [OF st] show ?thesis
  proof (elim disjE bexE)
    assume *: "q = 0 \<and> t = s \<and> (\<forall>a \<in> set [0..<NCPU]. a \<noteq> cpu \<longrightarrow> freelist s ! a = 0)"
    then have "freelist s ! i = 0" if "i < NCPU" for i
      using True that by (cases "i = cpu") auto
    with * r s' show ?thesis by (intro empty) auto
  next
    fix a assume "a \<in> set [0..<NCPU]" and "q = freelist s ! a \<and> q \<noteq> 0 \<and> t = take_run a s"
    with r s' show ?thesis by (intro page [of a]) (auto simp: take_run_def Let_def)
  qed
next
  case False
  with assms show ?thesis by (intro page [of cpu]) (auto simp: kalloc_def take_run_def Let_def)
qed

lemma kalloc_spec:
  assumes inv: "kmem_inv kend s" and cpu: "cpu < NCPU" and ka: "kalloc cpu s = (r, s')"
  shows "kmem_inv kend s'"
    and "r = 0 \<Longrightarrow> free_pages s = {} \<and> s' = s"
    and "r \<noteq> 0 \<Longrightarrow> r \<in> free_pages s \<and> free_pages s' = free_pages s - {r} \<and> krefcnt r s' = 1"
    and "valid_page kend q \<Longrightarrow> q \<noteq> r \<Longrightarrow> krefcnt q s' = krefcnt q s"
proof -
  obtain fls where c: "chains kend s fls" and kend: "0 < kend"
    by (rule kmem_inv_chains [OF inv])
  note free = chains_free_pages [OF c]
  have "kmem_inv kend s' \<and> (r = 0 \<longrightarrow> free_pages s = {} \<and> s' = s) \<and>
    (r \<noteq> 0 \<longrightarrow> r \<in> free_pages s \<and> free_pages s' = free_pages s - {r} \<and> krefcnt r s' = 1) \<and>
    (\<forall>q. valid_page kend q \<longrightarrow> q \<noteq> r \<longrightarrow> krefcnt q s' = krefcnt q s)"
    using ka cpu
  proof (cases rule: kalloc_cases)
    case empty
    have "fls ! i = []" if "i < NCPU" for i
      using chainsD(1) [OF c that] empty(3) [OF that] by simp
    then have "free_pages s = {}" unfolding free by auto
    with empty inv show ?thesis by simp
  next
    case (page i)
    let ?fls = "fls[i := tl (fls ! i)]"
    have c': "chains kend s' ?fls" and hd: "fls ! i = r # tl (fls ! i)"
      using chains_take_run(1) [OF c page(1), of junk_alloc] chains_take_run(2) [OF c page(1)] page
      by auto
    have rin: "r \<in> set (fls ! i)" by (subst hd) simp
    have rv: "valid_page kend r" by (rule chainsD(2) [OF c page(1) rin])
    have other: "krefcnt q s' = krefcnt q s" if "valid_page kend q" "q \<noteq> r" for q
      using page valid_page_number_inj [OF that(1) rv] that(2)
      by (simp add: krefcnt_def take_run_def Let_def)
    have one: "krefcnt r s' = 1"
      using page by (simp add: krefcnt_def take_run_def Let_def)
    have rfree: "r \<in> free_pages s" using rin page(1) unfolding free by auto
    have upd: "p \<in> set (?fls ! j) \<longleftrightarrow> p \<in> set (fls ! j) \<and> p \<noteq> r" if "j < NCPU" for p j
    proof (cases "j = i")
      case True
      have "r \<notin> set (tl (fls ! i))"
        using run_list_distinct [OF chainsD(1) [OF c page(1)]] hd by (metis distinct.simps(2))
      moreover have "set (fls ! i) = insert r (set (tl (fls ! i)))"
        by (subst hd) simp
      ultimately show ?thesis using True that chains_length(2) [OF c] by auto
    next
      case False
      then show ?thesis using chainsD(4) [OF c page(1) that _ rin] by auto
    qed
    have free': "free_pages s' = free_pages s - {r}"
      unfolding free chains_free_pages [OF c'] using upd by auto
    have "kmem_inv kend s'"
    proof (rule kmem_invI [OF kend c'])
      fix p assume vp: "valid_page kend p"
      show "0 \<le> krefcnt p s'"
        using other [OF vp] one kmem_invD(1) [OF inv vp] by (cases "p = r") auto
      assume z: "krefcnt p s' = 0"
      with one have ne: "p \<noteq> r" by auto
      with other [OF vp] z kmem_invD(2) [OF inv vp] have "p \<in> free_pages s" by simp
      with ne show "\<exists>j < NCPU. p \<in> set (?fls ! j)"
        using upd unfolding free by auto
    qed
    with page(3) rfree free' one other show ?thesis by simp
  qed
  then show "kmem_inv kend s'"
    and "r = 0 \<Longrightarrow> free_pages s = {} \<and> s' = s"
    and "r \<noteq> 0 \<Longrightarrow> r \<in> free_pages s \<and> free_pages s' = free_pages s - {r} \<and> krefcnt r s' = 1"
    and "valid_page kend q \<Longrightarrow> q \<noteq> r \<Longrightarrow> krefcnt q s' = krefcnt q s"
    by blast+
qed

subsection \<open>Release and reference counts\<close>

lemma kfree_spec:
  assumes inv: "kmem_inv kend s" and cpu: "cpu < NCPU" and v: "valid_page kend pa"
    and held: "0 < krefcnt pa s"
  obtains s' where "kfree kend cpu pa s = Inr s'" and "kmem_inv kend s'"
    and "free_pages s' = (if krefcnt pa s = 1 then insert pa (free_pages s) else free_pages s)"
    and "krefcnt pa s' = krefcnt pa s - 1"
    and "\<And>q. valid_page kend q \<Longrightarrow> q \<noteq> pa \<Longrightarrow> krefcnt q s' = krefcnt q s"
proof -
  obtain fls where c: "chains kend s fls" and kend: "0 < kend"
    by (rule kmem_inv_chains [OF inv])
  note free = chains_free_pages [OF c]
  have notfree: "pa \<notin> free_pages s" using kmem_invD(2) [OF inv v] held by auto
  then have out: "\<And>j. j < NCPU \<Longrightarrow> pa \<notin> set (fls ! j)" unfolding free by auto
  obtain s' where k: "kfree kend cpu pa s = Inr s'"
    using v by (cases "kfree kend cpu pa s") (auto simp: kfree_def Let_def split: if_splits)
  have other: "krefcnt q s' = krefcnt q s" if "valid_page kend q" "q \<noteq> pa" for q
    using k v valid_page_number_inj [OF that(1) v] that(2)
    by (auto simp: kfree_def Let_def krefcnt_def split: if_splits)
  have dec: "krefcnt pa s' = krefcnt pa s - 1"
    using k v by (auto simp: kfree_def Let_def krefcnt_def split: if_splits)
  have "\<exists>fls'. chains kend s' fls' \<and>
      (\<forall>p. (\<exists>i < NCPU. p \<in> set (fls' ! i)) \<longleftrightarrow>
           (\<exists>i < NCPU. p \<in> set (fls ! i)) \<or> p = pa \<and> krefcnt pa s = 1)"
  proof (cases "krefcnt pa s = 1")
    case True
    then have s': "s' = s\<lparr>cnt := (cnt s)(pa div PGSIZE := 0),
           mem := (memset_page (mem s) pa junk_free)(pa := of_nat (freelist s ! cpu)),
           freelist := (freelist s)[cpu := pa]\<rparr>"
      using k v by (auto simp: kfree_def Let_def krefcnt_def)
    have "(\<exists>i < NCPU. p \<in> set (fls[cpu := pa # fls ! cpu] ! i)) \<longleftrightarrow>
           (\<exists>i < NCPU. p \<in> set (fls ! i)) \<or> p = pa \<and> krefcnt pa s = 1" for p
      using True cpu chains_length(2) [OF c] by (auto simp: nth_list_update)
    with chains_push [OF c cpu kend v out, of junk_free] show ?thesis
      unfolding s' by blast
  next
    case False
    then have s': "s' = s\<lparr>cnt := (cnt s)(pa div PGSIZE := cnt s (pa div PGSIZE) - 1)\<rparr>"
      using k v by (auto simp: kfree_def Let_def krefcnt_def)
    have "q div PGSIZE \<noteq> pa div PGSIZE" if "j < NCPU" "q \<in> set (fls ! j)" for j q
      using valid_page_number_inj [OF chainsD(2) [OF c that] v] out [OF that(1)] that(2) by auto
    then have "chains kend s' fls" using c unfolding chains_def s' by simp
    with False show ?thesis by blast
  qed
  then obtain fls' where c': "chains kend s' fls'"
    and sets: "\<And>p. (\<exists>i < NCPU. p \<in> set (fls' ! i)) \<longleftrightarrow>
           (\<exists>i < NCPU. p \<in> set (fls ! i)) \<or> p = pa \<and> krefcnt pa s = 1"
    by blast
  have mem': "p \<in> free_pages s' \<longleftrightarrow> p \<in> free_pages s \<or> p = pa \<and> krefcnt pa s = 1" for p
    using sets [of p] unfolding free chains_free_pages [OF c'] by auto
  have "kmem_inv kend s'"
  proof (rule kmem_invI [OF kend c'])
    fix p assume vp: "valid_page kend p"
    show "0 \<le> krefcnt p s'"
      using other [OF vp] dec held kmem_invD(1) [OF inv vp] by (cases "p = pa") auto
    assume "krefcnt p s' = 0"
    then have "p \<in> free_pages s'"
      unfolding mem' using other [OF vp] dec kmem_invD(2) [OF inv vp] by (cases "p = pa") auto
    then show "\<exists>i < NCPU. p \<in> set (fls' ! i)"
      unfolding chains_free_pages [OF c'] by auto
  qed
  moreover have "free_pages s' = (if krefcnt pa s = 1 then insert pa (free_pages s) else free_pages s)"
    using mem' by auto
  ultimately show ?thesis using that k other dec by blast
qed

lemma kaddrefcnt_spec:
  assumes inv: "kmem_inv kend s" and v: "valid_page kend pa" and held: "0 < krefcnt pa s"
    and k: "kaddrefcnt kend pa s = (e, s')"
  shows "e = 0" and "kmem_inv kend s'" and "free_pages s' = free_pages s"
    and "krefcnt pa s' = krefcnt pa s + 1"
    and "valid_page kend q \<Longrightarrow> q \<noteq> pa \<Longrightarrow> krefcnt q s' = krefcnt q s"
proof -
  from k v show "e = 0" by (simp add: kaddrefcnt_def)
  have s': "s' = s\<lparr>cnt := (cnt s)(pa div PGSIZE := cnt s (pa div PGSIZE) + 1)\<rparr>"
    using k v by (simp add: kaddrefcnt_def)
  show free: "free_pages s' = free_pages s" by (simp add: s' free_pages_def)
  show dec: "krefcnt pa s' = krefcnt pa s + 1" by (simp add: s' krefcnt_def)
  have other: "krefcnt q s' = krefcnt q s" if "valid_page kend q" "q \<noteq> pa" for q
    using valid_page_number_inj [OF that(1) v] that(2) by (simp add: s' krefcnt_def)
  then show "valid_page kend q \<Longrightarrow> q \<noteq> pa \<Longrightarrow> krefcnt q s' = krefcnt q s" .
  obtain fls where c: "chains kend s fls" and kend: "0 < kend"
    by (rule kmem_inv_chains [OF inv])
  have out: "pa \<notin> set (fls ! j)" if "j < NCPU" for j
    using chainsD(3) [OF c that] held by (auto simp: krefcnt_def)
  have "q div PGSIZE \<noteq> pa div PGSIZE" if "j < NCPU" "q \<in> set (fls ! j)" for j q
    using valid_page_number_inj [OF chainsD(2) [OF c that] v] out [OF that(1)] that(2) by auto
  then have c': "chains kend s' fls" using c unfolding chains_def s' by simp
  have "0 \<le> krefcnt p s' \<and> (krefcnt p s' = 0 \<longleftrightarrow> p \<in> free_pages s)" if "valid_page kend p" for p
    using kmem_invD [OF inv that] other [OF that] dec held by (cases "p = pa") auto
  then show "kmem_inv kend s'"
    using c' kend free unfolding kmem_inv_def by auto
qed

text \<open>The model's functions provide the page allocator interface.\<close>

interpretation kp: page_allocator kalloc "kaddrefcnt kend" "kfree kend" 0 "{..<NCPU}"
  "{p. valid_page kend p}" "kmem_inv kend" free_pages krefcnt for kend
proof (unfold_locales, goal_cases)
  case (1 s) then show ?case by (auto simp: kmem_inv_def valid_page_def)
next
  case (2 s) then show ?case using kmem_inv_free_valid by blast
next
  case (3 s p) then show ?case using kmem_invD(1) by simp
next
  case (4 s p) then show ?case using kmem_invD(2) by simp
next
  case (5 s c s') then show ?case using kalloc_spec(2) by simp
next
  case (6 s c p s') then show ?case
    using kalloc_spec(1) [of kend s c p s'] kalloc_spec(3) [of kend s c p s']
      kalloc_spec(4) [of kend s c p s'] by simp
next
  case (7 s p e s') then show ?case
    using kaddrefcnt_spec [of kend s p e s'] by simp
next
  case (8 s c p)
  then have "kmem_inv kend s" "c < NCPU" "valid_page kend p" "0 < krefcnt p s" by auto
  then show ?case by (rule kfree_spec) auto
next
  case (9 p c s) then show ?case by (auto simp: kfree_def)
qed

subsection \<open>Boot\<close>

lemma PGROUNDUP_aligned: "PGROUNDUP a mod PGSIZE = 0"
  by (simp add: PGROUNDUP_def)

lemma PGROUNDUP_ge: "a \<le> PGROUNDUP a"
  using div_mult_mod_eq [of "a + 4095" PGSIZE] mod_less_divisor [of PGSIZE "a + 4095"]
  by (simp add: PGROUNDUP_def)

lemma aligned_obtain:
  assumes "p mod PGSIZE = 0"
  obtains k where "p = PGSIZE * k"
  using assms by (metis dvdE mod_0_imp_dvd)

lemma PGROUNDUP_le:
  assumes "q mod PGSIZE = 0" and "a \<le> q"
  shows "PGROUNDUP a \<le> q"
proof -
  from assms(1) obtain k where q: "q = PGSIZE * k" by (rule aligned_obtain)
  have "(a + 4095) div PGSIZE \<le> (PGSIZE * k + 4095) div PGSIZE"
    using assms(2) unfolding q by (intro div_le_mono) simp
  also have "\<dots> = k" by simp
  finally show ?thesis unfolding q PGROUNDUP_def by simp
qed

lemma aligned_next:
  assumes "p mod PGSIZE = 0" and "q mod PGSIZE = 0" and "p < q"
  shows "p + PGSIZE \<le> q"
proof -
  from assms(1,2) obtain a b where "p = PGSIZE * a" and "q = PGSIZE * b"
    by (metis aligned_obtain)
  with assms(3) show ?thesis by simp
qed

lemma freerange_from_ok:
  assumes "p mod PGSIZE = 0" and "kend \<le> p" and "0 < kend" and "cpu < NCPU"
    and "chains kend s fls" and "\<And>q. q \<in> free_pages s \<Longrightarrow> q < p"
  shows "\<exists>s' fls'. freerange_from kend cpu p PHYSTOP s = Inr s' \<and> chains kend s' fls' \<and>
           free_pages s' = free_pages s \<union> {q. valid_page kend q \<and> p \<le> q}"
  using assms
proof (induction "PHYSTOP - p" arbitrary: p s fls rule: less_induct)
  case less
  show ?case
  proof (cases "p < PHYSTOP")
    case False
    then have "freerange_from kend cpu p PHYSTOP s = Inr s"
      by (simp add: freerange_from.simps)
    moreover from False have "{q. valid_page kend q \<and> p \<le> q} = {}"
      by (auto simp: valid_page_def)
    ultimately show ?thesis using less.prems(5) by auto
  next
    case True
    then have vp: "valid_page kend p" using less.prems by (simp add: valid_page_def)
    have fits: "p + PGSIZE \<le> PHYSTOP" by (rule aligned_next [OF less.prems(1) _ True]) simp
    note free = chains_free_pages [OF less.prems(5)]
    have out: "p \<notin> set (fls ! j)" if "j < NCPU" for j
      using less.prems(6) [of p] that unfolding free by auto
    let ?s1 = "s\<lparr>cnt := (cnt s)(p div PGSIZE := 0),
           mem := (memset_page (mem s) p junk_free)(p := of_nat (freelist s ! cpu)),
           freelist := (freelist s)[cpu := p]\<rparr>"
    let ?fls = "fls[cpu := p # fls ! cpu]"
    have c1: "chains kend ?s1 ?fls"
      by (rule chains_push [OF less.prems(5,4,3) vp out])
    have free1: "free_pages ?s1 = insert p (free_pages s)"
      unfolding free chains_free_pages [OF c1]
      using less.prems(4) chains_length(2) [OF less.prems(5)]
      by (auto simp: nth_list_update split: if_splits)
    have "freerange_from kend cpu p PHYSTOP s = freerange_from kend cpu (p + PGSIZE) PHYSTOP ?s1"
      using fits vp by (simp add: freerange_from.simps [of kend cpu p] kfree_def Let_def)
    moreover have "\<exists>s' fls'. freerange_from kend cpu (p + PGSIZE) PHYSTOP ?s1 = Inr s' \<and>
        chains kend s' fls' \<and>
        free_pages s' = free_pages ?s1 \<union> {q. valid_page kend q \<and> p + PGSIZE \<le> q}"
    proof (rule less.hyps [OF _ _ _ less.prems(3,4) c1])
      show "PHYSTOP - (p + PGSIZE) < PHYSTOP - p" using True by simp
      show "(p + PGSIZE) mod PGSIZE = 0" using less.prems(1) by simp
      show "kend \<le> p + PGSIZE" using less.prems(2) by simp
      show "q < p + PGSIZE" if "q \<in> free_pages ?s1" for q
        using that less.prems(6) [of q] unfolding free1 by auto
    qed
    moreover have "insert p {q. valid_page kend q \<and> p + PGSIZE \<le> q} = {q. valid_page kend q \<and> p \<le> q}"
      using vp aligned_next [OF less.prems(1)] by (auto simp: valid_page_def)
    ultimately show ?thesis unfolding free1 by (metis Un_insert_left Un_insert_right)
  qed
qed

lemma chains_boot: "chains kend (kmem_boot m) (replicate NCPU [])"
  by (simp add: chains_def kmem_boot_def)

lemma kinit_ok:
  assumes kend: "0 < kend" and cpu: "cpu < NCPU"
  obtains s where "kinit kend cpu (kmem_boot m) = Inr s" and "kmem_inv kend s"
    and "free_pages s = {p. valid_page kend p}"
proof -
  have none: "free_pages (kmem_boot m) = {}"
    unfolding chains_free_pages [OF chains_boot [of kend m]] by simp
  obtain s fls where k: "kinit kend cpu (kmem_boot m) = Inr s" and c: "chains kend s fls"
    and free: "free_pages s = {q. valid_page kend q \<and> PGROUNDUP kend \<le> q}"
    using freerange_from_ok [OF PGROUNDUP_aligned PGROUNDUP_ge kend cpu chains_boot, of m] none
    unfolding kinit_def freerange_def by auto
  have all: "free_pages s = {p. valid_page kend p}"
    unfolding free using PGROUNDUP_le [of _ kend] by (auto simp: valid_page_def)
  have zero: "krefcnt p s = 0 \<and> (\<exists>i < NCPU. p \<in> set (fls ! i))" if "valid_page kend p" for p
    using that all chains_free_pages [OF c] chainsD(3) [OF c] by (auto simp: krefcnt_def)
  have "kmem_inv kend s"
    by (rule kmem_invI [OF kend c]) (use zero in auto)
  with k all show ?thesis using that by blast
qed

subsection \<open>Counting the free memory\<close>

lemma chain_bytes_run_list:
  "run_list m p xs \<Longrightarrow> length xs < fuel \<Longrightarrow>
     chain_bytes fuel m p acc = Some (acc + of_nat (PGSIZE * length xs))"
proof (induction xs arbitrary: p fuel acc)
  case Nil
  then show ?case by (cases fuel) auto
next
  case (Cons x xs)
  then obtain f where f: "fuel = Suc f" by (cases fuel) auto
  from Cons.prems f have "chain_bytes f m (unat (m x)) (acc + of_nat PGSIZE) =
      Some (acc + of_nat PGSIZE + of_nat (PGSIZE * length xs))"
    by (intro Cons.IH) auto
  with Cons.prems f show ?case by (simp add: algebra_simps)
qed

lemma chains_bytes_run_lists:
  "list_all2 (run_list m) hs xss \<Longrightarrow> \<forall>xs \<in> set xss. length xs < fuel \<Longrightarrow>
     chains_bytes fuel m hs acc = Some (acc + of_nat (PGSIZE * sum_list (map length xss)))"
proof (induction arbitrary: acc rule: list_all2_induct)
  case Nil
  then show ?case by simp
next
  case (Cons h hs xs xss)
  then show ?case by (simp add: chain_bytes_run_list algebra_simps)
qed

lemma finite_valid_pages: "finite {p. valid_page kend p}"
  by (rule finite_subset [of _ "{..<PHYSTOP}"]) (auto simp: valid_page_def)

lemma card_valid_pages: "card {p. valid_page kend p} \<le> PHYSTOP div PGSIZE"
proof -
  have "inj_on (\<lambda>p. p div PGSIZE) {p. valid_page kend p}"
    using valid_page_number_inj by (auto simp: inj_on_def)
  moreover have "(\<lambda>p. p div PGSIZE) ` {p. valid_page kend p} \<subseteq> {..<PHYSTOP div PGSIZE}"
  proof
    fix n assume "n \<in> (\<lambda>p. p div PGSIZE) ` {p. valid_page kend p}"
    then obtain p where "valid_page kend p" and n: "n = p div PGSIZE" by blast
    then obtain k where "p = PGSIZE * k" and "p < PHYSTOP"
      by (auto simp: valid_page_def elim: aligned_obtain)
    with n show "n \<in> {..<PHYSTOP div PGSIZE}" by simp
  qed
  ultimately have "card {p. valid_page kend p} \<le> card {..<PHYSTOP div PGSIZE}"
    by (intro card_inj_on_le) auto
  then show ?thesis by simp
qed

lemma chains_card:
  assumes c: "chains kend s fls"
  shows "sum_list (map length fls) = card (free_pages s)"
proof -
  have "card (free_pages s) = (\<Sum>i \<in> {..<NCPU}. card (set (fls ! i)))"
    unfolding chains_free_pages [OF c]
    by (rule card_UN_disjoint) (use c in \<open>auto simp: chains_def\<close>)
  also have "\<dots> = (\<Sum>i \<in> {..<NCPU}. length (fls ! i))"
    using run_list_distinct [OF chainsD(1) [OF c]]
    by (intro sum.cong) (auto simp: distinct_card)
  also have "\<dots> = sum_list (map length fls)"
    using chains_length(2) [OF c] by (simp add: sum_list_sum_nth lessThan_atLeast0)
  finally show ?thesis by simp
qed

lemma freebytes_exact:
  assumes inv: "kmem_inv kend s" and fuel: "PHYSTOP div PGSIZE < fuel"
  shows "freebytes fuel s = Some (of_nat (PGSIZE * card (free_pages s)))"
    and "card (free_pages s) \<le> PHYSTOP div PGSIZE"
proof -
  obtain fls where c: "chains kend s fls" by (rule kmem_inv_chains [OF inv])
  have sub: "free_pages s \<subseteq> {p. valid_page kend p}" using kmem_inv_free_valid [OF inv] by blast
  show bound: "card (free_pages s) \<le> PHYSTOP div PGSIZE"
    by (rule order_trans [OF card_mono [OF finite_valid_pages sub] card_valid_pages])
  have "length xs < fuel" if "xs \<in> set fls" for xs
    using member_le_sum_list [of "length xs" "map length fls"] that chains_card [OF c] bound fuel
    by simp
  moreover have "list_all2 (run_list (mem s)) (freelist s) fls"
    using chainsD(1) [OF c] chains_length [OF c] by (auto simp: list_all2_conv_all_nth)
  ultimately show "freebytes fuel s = Some (of_nat (PGSIZE * card (free_pages s)))"
    using chains_bytes_run_lists [of "mem s" "freelist s" fls fuel 0] chains_card [OF c]
    by (simp add: freebytes_def)
qed

subsection \<open>Clients\<close>

text \<open>
  The kernel around the allocator: after boot, clients on any CPU allocate, duplicate and
  drop references, and write into pages they hold a reference to.  \<open>held p\<close> is the number
  of references all clients together hold to page \<open>p\<close>.
\<close>

inductive kmem_reach :: "nat \<Rightarrow> kmem_state \<Rightarrow> (nat \<Rightarrow> nat) \<Rightarrow> bool" for kend where
  boot: "0 < kend \<Longrightarrow> cpu < NCPU \<Longrightarrow> kinit kend cpu (kmem_boot m) = Inr s \<Longrightarrow>
    kmem_reach kend s (\<lambda>_. 0)"
| alloc: "kmem_reach kend s held \<Longrightarrow> cpu < NCPU \<Longrightarrow> kalloc cpu s = (r, s') \<Longrightarrow>
    kmem_reach kend s' (if r = 0 then held else held(r := Suc (held r)))"
| dup: "kmem_reach kend s held \<Longrightarrow> 0 < held p \<Longrightarrow> kaddrefcnt kend p s = (e, s') \<Longrightarrow>
    kmem_reach kend s' (held(p := Suc (held p)))"
| drop: "kmem_reach kend s held \<Longrightarrow> cpu < NCPU \<Longrightarrow> 0 < held p \<Longrightarrow> kfree kend cpu p s = Inr s' \<Longrightarrow>
    kmem_reach kend s' (held(p := held p - 1))"
| store: "kmem_reach kend s held \<Longrightarrow> 0 < held p \<Longrightarrow> p \<le> a \<Longrightarrow> a < p + PGSIZE \<Longrightarrow>
    kmem_reach kend (s\<lparr>mem := (mem s)(a := v)\<rparr>) held"

lemma held_page_write_inv:
  assumes inv: "kmem_inv kend s" and v: "valid_page kend p" and held: "0 < krefcnt p s"
    and out: "\<And>a. \<not> (p \<le> a \<and> a < p + PGSIZE) \<Longrightarrow> m' a = mem s a"
  shows "kmem_inv kend (s\<lparr>mem := m'\<rparr>)" (is "kmem_inv kend ?s")
    and "free_pages (s\<lparr>mem := m'\<rparr>) = free_pages s"
proof -
  obtain fls where c: "chains kend s fls" and kend: "0 < kend"
    by (rule kmem_inv_chains [OF inv])
  have "m' q = mem s q" if "i < NCPU" "q \<in> set (fls ! i)" for i q
  proof -
    have "p \<noteq> q" using chainsD(3) [OF c that] held by (auto simp: krefcnt_def)
    with valid_page_apart [OF v chainsD(2) [OF c that]] show ?thesis by (intro out)
  qed
  then have "run_list (mem ?s) h (fls ! i) = run_list (mem s) h (fls ! i)" if "i < NCPU" for i h
    using that by (intro run_list_cong) auto
  then have c': "chains kend ?s fls"
    using c by (auto simp: chains_def)
  show free: "free_pages ?s = free_pages s"
    unfolding chains_free_pages [OF c] chains_free_pages [OF c'] ..
  have "krefcnt q ?s = krefcnt q s" for q by (simp add: krefcnt_def)
  then show "kmem_inv kend ?s" using inv c' free unfolding kmem_inv_def by auto
qed

lemma kmem_reach_inv:
  assumes "kmem_reach kend s held"
  shows "kmem_inv kend s \<and> (\<forall>p. 0 < held p \<longrightarrow> valid_page kend p) \<and>
         (\<forall>p. valid_page kend p \<longrightarrow> krefcnt p s = int (held p))"
  using assms
proof (induction rule: kmem_reach.induct)
  case (boot cpu m s)
  obtain t where "kinit kend cpu (kmem_boot m) = Inr t" and "kmem_inv kend t"
    and "free_pages t = {p. valid_page kend p}"
    by (rule kinit_ok [OF boot(1,2)])
  then show ?case using boot(3) kmem_invD(2) [of kend t] by auto
next
  case (alloc s held cpu r s')
  note spec = kalloc_spec [of kend s cpu r s', OF _ alloc(2,3)]
  show ?case
  proof (cases "r = 0")
    case True
    with alloc.IH spec(2) show ?thesis by auto
  next
    case False
    with alloc.IH spec(3) have r: "r \<in> free_pages s" and r1: "krefcnt r s' = 1" by auto
    then have "valid_page kend r" and "held r = 0"
      using alloc.IH kmem_inv_free_valid [of kend s r] kmem_invD(2) [of kend s r] by auto
    with False r1 alloc.IH spec(1) spec(4) show ?thesis by auto
  qed
next
  case (dup s held p e s')
  then have "valid_page kend p" and "0 < krefcnt p s" by auto
  with dup kaddrefcnt_spec [of kend s p e s'] show ?case by auto
next
  case (drop s held cpu p s')
  then have "valid_page kend p" and "0 < krefcnt p s" and inv: "kmem_inv kend s" by auto
  then obtain t where "kfree kend cpu p s = Inr t" and "kmem_inv kend t"
    and "krefcnt p t = krefcnt p s - 1"
    and "\<And>q. valid_page kend q \<Longrightarrow> q \<noteq> p \<Longrightarrow> krefcnt q t = krefcnt q s"
    using kfree_spec [OF inv drop(2)] by metis
  with drop show ?case by (auto split: if_splits)
next
  case (store s held p a v)
  then have "valid_page kend p" and "0 < krefcnt p s" by auto
  then have "kmem_inv kend (s\<lparr>mem := (mem s)(a := v)\<rparr>)"
    by (rule held_page_write_inv(1) [of kend s p, rotated]) (use store in auto)
  with store show ?case by (auto simp: krefcnt_def)
qed

subsection \<open>Properties\<close>

text \<open>
  A machine with two managed pages, used to exhibit instances of the properties below.
\<close>

lemma two_pages_boot:
  obtains s where "kinit 2281693184 0 (kmem_boot (\<lambda>_. 0)) = Inr s"
    and "kmem_reach 2281693184 s (\<lambda>_. 0)" and "freelist s ! 0 = 2281697280"
proof -
  obtain s where s: "kinit 2281693184 0 (kmem_boot (\<lambda>_. 0)) = Inr s"
    by (rule kinit_ok [of 2281693184 0 "\<lambda>_. 0"]) auto
  have "kmem_reach 2281693184 s (\<lambda>_. 0)"
    by (rule kmem_reach.boot [of _ 0 "\<lambda>_. 0"]) (use s in auto)
  moreover have "freelist s ! 0 = 2281697280"
    using s by (auto simp: kinit_def freerange_def PGROUNDUP_def freerange_from.simps kfree_def
        kmem_boot_def valid_page_def Let_def split: if_splits)
  ultimately show ?thesis using s that by blast
qed

text \<open>
  C24: Page exclusivity.  In every state the kernel reaches after boot, whatever the
  clients allocated, shared, freed or wrote into their own pages, \<open>kalloc\<close> on any CPU
  either returns a managed page that no client holds, with reference count \<open>1\<close>, or returns
  null, and then every managed page is held by some client: stealing from the other CPUs'
  lists leaves no free page behind.
\<close>

theorem kalloc_exclusive:
  assumes "kmem_reach kend s held" and "cpu < NCPU" and "kalloc cpu s = (r, s')"
  shows "if r = 0 then \<forall>p. valid_page kend p \<longrightarrow> 0 < held p
         else valid_page kend r \<and> held r = 0 \<and> krefcnt r s' = 1"
proof -
  have inv: "kmem_inv kend s" and refs: "\<And>p. valid_page kend p \<Longrightarrow> krefcnt p s = int (held p)"
    using kmem_reach_inv [OF assms(1)] by auto
  note spec = kalloc_spec [OF inv assms(2,3)]
  show ?thesis
  proof (cases "r = 0")
    case True
    then have "krefcnt p s \<noteq> 0" if "valid_page kend p" for p
      using spec(2) kmem_invD(2) [OF inv that] by auto
    with True refs show ?thesis by fastforce
  next
    case False
    then have "valid_page kend r" using spec(3) kmem_inv_free_valid [OF inv] by blast
    with False spec(3) kmem_invD(2) [OF inv] refs show ?thesis by simp
  qed
qed

theorem kalloc_exclusive_witness:
  "\<exists>s s'. kmem_reach 2281693184 s (\<lambda>_. 0) \<and> kalloc 0 s = (2281697280, s') \<and>
     valid_page 2281693184 2281697280 \<and> krefcnt 2281697280 s' = 1"
proof -
  obtain s where r: "kmem_reach 2281693184 s (\<lambda>_. 0)" and f: "freelist s ! 0 = 2281697280"
    by (rule two_pages_boot)
  obtain s' where k: "kalloc 0 s = (2281697280, s')"
    using f by (simp add: kalloc_def)
  from kalloc_exclusive [OF r _ k] r k show ?thesis by auto
qed

text \<open>
  C26: A client that holds a reference can always drop it: \<open>kfree\<close> does not panic, and it
  returns the page to the free lists exactly when this was the last reference anyone held.
\<close>

theorem kfree_by_holder:
  assumes "kmem_reach kend s held" and "cpu < NCPU" and "0 < held p"
  shows "\<exists>s'. kfree kend cpu p s = Inr s' \<and> krefcnt p s' = int (held p) - 1 \<and>
           (p \<in> free_pages s' \<longleftrightarrow> held p = 1) \<and> free_pages s \<subseteq> free_pages s'"
proof -
  have inv: "kmem_inv kend s" and v: "valid_page kend p" and ref: "krefcnt p s = int (held p)"
    using kmem_reach_inv [OF assms(1)] assms(3) by auto
  from ref assms(3) have "0 < krefcnt p s" by simp
  from kfree_spec [OF inv assms(2) v this] obtain s' where
    k: "kfree kend cpu p s = Inr s'" and c: "krefcnt p s' = krefcnt p s - 1"
    and f: "free_pages s' = (if krefcnt p s = 1 then insert p (free_pages s) else free_pages s)"
    by metis
  have "p \<notin> free_pages s" using kmem_invD(2) [OF inv v] ref assms(3) by auto
  with k c f ref show ?thesis by auto
qed

theorem kfree_by_holder_witness:
  "\<exists>s held s'. kmem_reach 2281693184 s held \<and> held 2281697280 = 1 \<and>
     kfree 2281693184 3 2281697280 s = Inr s' \<and> 2281697280 \<in> free_pages s'"
proof -
  obtain s where r: "kmem_reach 2281693184 s (\<lambda>_. 0)" and f: "freelist s ! 0 = 2281697280"
    by (rule two_pages_boot)
  obtain t where k: "kalloc 0 s = (2281697280, t)"
    using f by (simp add: kalloc_def)
  let ?h = "(\<lambda>_. 0 :: nat)(2281697280 := Suc 0)"
  have r': "kmem_reach 2281693184 t ?h"
    using kmem_reach.alloc [OF r _ k] by simp
  from kfree_by_holder [OF r', of 3 2281697280] r' show ?thesis by fastforce
qed

text \<open>
  Boot.  \<open>kinit\<close> on any CPU, whatever memory holds, ends without a panic in a state that
  satisfies the allocator's invariant, with every page between the kernel image and
  \<open>PHYSTOP\<close> free.
\<close>

theorem kinit_frees_all:
  assumes "0 < kend" and "cpu < NCPU"
  shows "\<exists>s. kinit kend cpu (kmem_boot m) = Inr s \<and> kmem_inv kend s \<and>
           free_pages s = {p. p mod PGSIZE = 0 \<and> kend \<le> p \<and> p < PHYSTOP}"
  by (rule kinit_ok [OF assms, of m]) (auto simp: valid_page_def)

theorem kinit_frees_all_witness:
  "\<exists>s. kinit 2281693184 0 (kmem_boot (\<lambda>_. 7)) = Inr s \<and> 2281693184 \<in> free_pages s"
  using kinit_frees_all [of 2281693184 0 "\<lambda>_. 7"] by auto

text \<open>
  \<open>freebytes\<close> ends and reports exactly the memory nobody holds: with fuel for one step
  per page of physical memory, the walk over the chains returns \<open>PGSIZE\<close> times the number
  of managed pages that no client holds, and the 64-bit sum does not wrap.
\<close>

theorem freebytes_counts_unheld:
  assumes "kmem_reach kend s held" and "PHYSTOP div PGSIZE < fuel"
  shows "\<exists>b. freebytes fuel s = Some b \<and>
           unat b = PGSIZE * card {p. valid_page kend p \<and> held p = 0}"
proof -
  have inv: "kmem_inv kend s" and refs: "\<And>p. valid_page kend p \<Longrightarrow> krefcnt p s = int (held p)"
    using kmem_reach_inv [OF assms(1)] by auto
  have "free_pages s = {p. valid_page kend p \<and> held p = 0}"
    using kmem_invD(2) [OF inv] refs kmem_inv_free_valid [OF inv] by auto
  moreover have "unat (of_nat (PGSIZE * card (free_pages s)) :: u64) = PGSIZE * card (free_pages s)"
    using freebytes_exact(2) [OF inv assms(2)] by (intro of_nat_inverse [OF refl]) simp
  ultimately show ?thesis using freebytes_exact(1) [OF inv assms(2)] by metis
qed

theorem freebytes_counts_unheld_witness:
  "\<exists>s b. kmem_reach 2281693184 s (\<lambda>_. 0) \<and> freebytes 557057 s = Some b \<and>
     unat b = PGSIZE * card {p. valid_page 2281693184 p}"
proof -
  obtain s where r: "kmem_reach 2281693184 s (\<lambda>_. 0)" by (rule two_pages_boot)
  from freebytes_counts_unheld [OF r, of 557057] r show ?thesis by auto
qed

end
