(* ===== verification/Slab.thy ===== *)
theory Slab
  imports Kalloc
begin

text \<open>
  The slab allocator for small objects, \<open>kernel/mm/slab.c\<close>, on top of the page allocator.
  Each of the five size classes keeps its pages on three lists.  The header at the start of a slab
  page is a record beside \<open>mem\<close>, with the lists of pages and of free objects as HOL lists.
  The link word of a free object is stored in \<open>mem\<close> too, where the code stores it: in the
  first word of the object.  Every function runs under its cache's lock and is one step.
  \<open>sizeof(struct slab_page)\<close> is 40 on RV64, which the code rounds up to 48.
\<close>

subsection \<open>State\<close>

definition slab_sizes :: "nat list" where
  "slab_sizes = [32, 64, 128, 256, 512]"

abbreviation SLAB_HEADER :: nat where "SLAB_HEADER \<equiv> 48"

record slab_page =
  sp_page :: nat             \<comment> \<open>the page's address, the identity of the struct\<close>
  sp_obj_size :: nat
  total_objs :: nat
  free_objs :: int
  sp_freelist :: "nat list"
  sp_start :: nat

record slab_cache =
  obj_size :: nat
  partial :: "slab_page list"
  full :: "slab_page list"
  empties :: "slab_page list"
  alloc_count :: u64
  free_count :: u64
  total_pages :: int

record slab_stats =
  total_allocs :: u64
  total_frees :: u64
  cache_hits :: u64
  cache_misses :: u64

record slab_state =
  caches :: "slab_cache list"
  stats :: slab_stats
  km :: kmem_state

definition slab_init :: "kmem_state \<Rightarrow> slab_state" where
  "slab_init k =
    \<lparr>caches = map (\<lambda>sz. \<lparr>obj_size = sz, partial = [], full = [], empties = [],
                        alloc_count = 0, free_count = 0, total_pages = 0\<rparr>) slab_sizes,
     stats = \<lparr>total_allocs = 0, total_frees = 0, cache_hits = 0, cache_misses = 0\<rparr>,
     km = k\<rparr>"

subsection \<open>Operations\<close>

text \<open>The loop of \<open>slab_page_init\<close> that threads the objects, last one first.\<close>

primrec slab_thread :: "nat \<Rightarrow> nat \<Rightarrow> nat \<Rightarrow> nat list \<Rightarrow> nat list" where
  "slab_thread start sz 0 fl = fl"
| "slab_thread start sz (Suc i) fl = slab_thread start sz i ((start + i * sz) # fl)"

text \<open>The stores of that loop: each object's first word points to the one after it.\<close>

primrec slab_links :: "nat \<Rightarrow> nat \<Rightarrow> nat \<Rightarrow> nat \<Rightarrow> (nat \<Rightarrow> u64) \<Rightarrow> nat \<Rightarrow> u64" where
  "slab_links start sz 0 nxt m = m"
| "slab_links start sz (Suc i) nxt m =
    slab_links start sz i (start + i * sz) (m(start + i * sz := of_nat nxt))"

definition slab_page_init :: "nat \<Rightarrow> nat \<Rightarrow> kmem_state \<Rightarrow> slab_page option \<times> kmem_state" where
  "slab_page_init cpu sz k =
    (let (page, k1) = kalloc cpu k in
     if page = 0 then (None, k1)
     else let total = (PGSIZE - SLAB_HEADER) div sz in
       (Some \<lparr>sp_page = page, sp_obj_size = sz, total_objs = total, free_objs = int total,
              sp_freelist = slab_thread (page + SLAB_HEADER) sz total [],
              sp_start = page + SLAB_HEADER\<rparr>,
        k1\<lparr>mem := slab_links (page + SLAB_HEADER) sz total 0 (memset_page (mem k1) page 0)\<rparr>))"

definition find_cache_index :: "int \<Rightarrow> nat option" where
  "find_cache_index n = find_slot (\<lambda>sz. n \<le> int sz) slab_sizes"

definition add_hit :: "slab_stats \<Rightarrow> slab_stats" where
  "add_hit t = t\<lparr>cache_hits := cache_hits t + 1\<rparr>"

definition add_miss :: "slab_stats \<Rightarrow> slab_stats" where
  "add_miss t = t\<lparr>cache_misses := cache_misses t + 1\<rparr>"

text \<open>
  The part of \<open>slab_alloc\<close> that makes the head of \<open>partial\<close> a page with a free object:
  an existing partial page, else an empty one, else a new one.  \<open>None\<close>: no memory.
\<close>

definition slab_refill ::
  "nat \<Rightarrow> slab_cache \<Rightarrow> slab_stats \<Rightarrow> kmem_state \<Rightarrow> (slab_cache \<times> slab_stats) option \<times> kmem_state" where
  "slab_refill cpu c t k =
    (case partial c of
       _ # _ \<Rightarrow> (Some (c, add_hit t), k)
     | [] \<Rightarrow>
       (case empties c of
          sp # rest \<Rightarrow> (Some (c\<lparr>empties := rest, partial := sp # partial c\<rparr>, add_hit t), k)
        | [] \<Rightarrow>
          (case slab_page_init cpu (obj_size c) k of
             (None, k1) \<Rightarrow> (None, k1)
           | (Some sp, k1) \<Rightarrow>
               (Some (c\<lparr>partial := sp # partial c, total_pages := total_pages c + 1\<rparr>, add_miss t),
                k1))))"

text \<open>
  Taking the first free object of the head page.  A head page without a free object would
  make the code read through a null pointer, which traps in the kernel.
\<close>

definition slab_take :: "slab_cache \<Rightarrow> (nat \<times> slab_cache) kres" where
  "slab_take c =
    (case partial c of
       [] \<Rightarrow> Inl ''kerneltrap''
     | sp # rest \<Rightarrow>
       (case sp_freelist sp of
          [] \<Rightarrow> Inl ''kerneltrap''
        | obj # fl \<Rightarrow>
          let sp' = sp\<lparr>sp_freelist := fl, free_objs := free_objs sp - 1\<rparr>;
              c1 = (if free_objs sp' = 0 then c\<lparr>partial := rest, full := sp' # full c\<rparr>
                    else c\<lparr>partial := sp' # rest\<rparr>)
          in Inr (obj, c1\<lparr>alloc_count := alloc_count c1 + 1\<rparr>)))"

definition memset_range :: "(nat \<Rightarrow> u64) \<Rightarrow> nat \<Rightarrow> nat \<Rightarrow> u64 \<Rightarrow> nat \<Rightarrow> u64" where
  "memset_range m a n c = (\<lambda>x. if a \<le> x \<and> x < a + n then c else m x)"

definition slab_alloc :: "nat \<Rightarrow> int \<Rightarrow> slab_state \<Rightarrow> (nat \<times> slab_state) kres" where
  "slab_alloc cpu n s =
    (case find_cache_index n of
       None \<Rightarrow> let (p, k) = kalloc cpu (km s) in Inr (p, s\<lparr>km := k\<rparr>)
     | Some i \<Rightarrow>
       (case slab_refill cpu (caches s ! i) (stats s) (km s) of
          (None, k) \<Rightarrow> Inr (0, s\<lparr>km := k\<rparr>)
        | (Some (c1, t), k) \<Rightarrow>
          (case slab_take c1 of
             Inl e \<Rightarrow> Inl e
           | Inr (obj, c2) \<Rightarrow>
               Inr (obj, s\<lparr>caches := (caches s)[i := c2],
                           stats := t\<lparr>total_allocs := total_allocs t + 1\<rparr>,
                           km := k\<lparr>mem := memset_range (mem k) obj (obj_size c2) 0\<rparr>\<rparr>))))"

definition remove_at :: "nat \<Rightarrow> 'a list \<Rightarrow> 'a list" where
  "remove_at i xs = take i xs @ drop (Suc i) xs"

text \<open>
  \<open>slab_free\<close>, the search for the page: from \<open>full\<close> the page moves to the front of
  \<open>partial\<close>; in \<open>partial\<close> it stays where it is.  The result is the new lists and the
  position of the page in \<open>partial\<close>.
\<close>

definition slab_locate :: "nat \<Rightarrow> slab_cache \<Rightarrow> (slab_cache \<times> nat) option" where
  "slab_locate page_addr c =
    (case find_slot (\<lambda>sp. sp_page sp = page_addr) (full c) of
       Some i \<Rightarrow> Some (c\<lparr>full := remove_at i (full c), partial := (full c ! i) # partial c\<rparr>, 0)
     | None \<Rightarrow>
       (case find_slot (\<lambda>sp. sp_page sp = page_addr) (partial c) of
          Some j \<Rightarrow> Some (c, j)
        | None \<Rightarrow> None))"

definition slab_put :: "nat \<Rightarrow> nat \<Rightarrow> slab_cache \<Rightarrow> slab_cache" where
  "slab_put ptr j c =
    (let sp = partial c ! j;
         sp' = sp\<lparr>sp_freelist := ptr # sp_freelist sp, free_objs := free_objs sp + 1\<rparr>;
         c1 = (if free_objs sp' = int (total_objs sp')
               then c\<lparr>partial := remove_at j (partial c), empties := sp' # empties c\<rparr>
               else c\<lparr>partial := (partial c)[j := sp']\<rparr>)
     in c1\<lparr>free_count := free_count c1 + 1\<rparr>)"

definition first_free :: "slab_page \<Rightarrow> nat" where
  "first_free sp = (case sp_freelist sp of [] \<Rightarrow> 0 | x # _ \<Rightarrow> x)"

definition slab_free :: "nat \<Rightarrow> nat \<Rightarrow> nat \<Rightarrow> int \<Rightarrow> slab_state \<Rightarrow> slab_state kres" where
  "slab_free kend cpu ptr n s =
    (if ptr = 0 then Inr s
     else case find_cache_index n of
       None \<Rightarrow> (case kfree kend cpu ptr (km s) of Inl e \<Rightarrow> Inl e | Inr k \<Rightarrow> Inr (s\<lparr>km := k\<rparr>))
     | Some i \<Rightarrow>
       (case slab_locate (PGROUNDDOWN ptr) (caches s ! i) of
          None \<Rightarrow> Inr s
        | Some (c, j) \<Rightarrow>
            Inr (s\<lparr>caches := (caches s)[i := slab_put ptr j c],
                   stats := (stats s)\<lparr>total_frees := total_frees (stats s) + 1\<rparr>,
                   km := (km s)\<lparr>mem := (mem (km s))(ptr := of_nat (first_free (partial c ! j)))\<rparr>\<rparr>)))"

text \<open>\<open>slab_shrink\<close>: give the empty pages of every class back, counting them.\<close>

primrec shrink_pages :: "nat \<Rightarrow> nat \<Rightarrow> slab_page list \<Rightarrow> kmem_state \<Rightarrow> kmem_state kres" where
  "shrink_pages kend cpu [] k = Inr k"
| "shrink_pages kend cpu (sp # rest) k =
    (case kfree kend cpu (sp_page sp) k of Inl e \<Rightarrow> Inl e | Inr k1 \<Rightarrow> shrink_pages kend cpu rest k1)"

definition shrink_cache :: "slab_cache \<Rightarrow> slab_cache" where
  "shrink_cache c = c\<lparr>empties := [], total_pages := total_pages c - int (length (empties c))\<rparr>"

primrec shrink_all :: "nat \<Rightarrow> nat \<Rightarrow> slab_cache list \<Rightarrow> kmem_state \<Rightarrow> nat \<Rightarrow>
    (nat \<times> slab_cache list \<times> kmem_state) kres" where
  "shrink_all kend cpu [] k freed = Inr (freed, [], k)"
| "shrink_all kend cpu (c # cs) k freed =
    (case shrink_pages kend cpu (empties c) k of
       Inl e \<Rightarrow> Inl e
     | Inr k1 \<Rightarrow>
       (case shrink_all kend cpu cs k1 (freed + length (empties c)) of
          Inl e \<Rightarrow> Inl e
        | Inr (n, cs', k2) \<Rightarrow> Inr (n, shrink_cache c # cs', k2)))"

definition slab_shrink :: "nat \<Rightarrow> nat \<Rightarrow> slab_state \<Rightarrow> (nat \<times> slab_state) kres" where
  "slab_shrink kend cpu s =
    (case shrink_all kend cpu (caches s) (km s) 0 of
       Inl e \<Rightarrow> Inl e
     | Inr (n, cs, k) \<Rightarrow> Inr (n, s\<lparr>caches := cs, km := k\<rparr>))"

definition slab_get_stats :: "slab_state \<Rightarrow> u64 \<times> u64 \<times> u64 \<times> u64" where
  "slab_get_stats s =
    (total_allocs (stats s), total_frees (stats s), cache_hits (stats s), cache_misses (stats s))"

subsection \<open>Pages, objects and the invariant\<close>

definition objs :: "slab_page \<Rightarrow> nat set" where
  "objs sp = (\<lambda>i. sp_start sp + i * sp_obj_size sp) ` {..<total_objs sp}"

definition live_in :: "slab_page \<Rightarrow> nat set" where
  "live_in sp = objs sp - set (sp_freelist sp)"

definition page_ok :: "nat \<Rightarrow> kmem_state \<Rightarrow> nat \<Rightarrow> slab_page \<Rightarrow> bool" where
  "page_ok kend k sz sp \<longleftrightarrow>
     valid_page kend (sp_page sp) \<and> krefcnt (sp_page sp) k = 1 \<and> sp_obj_size sp = sz \<and>
     sp_start sp = sp_page sp + SLAB_HEADER \<and> total_objs sp = (PGSIZE - SLAB_HEADER) div sz \<and>
     distinct (sp_freelist sp) \<and> set (sp_freelist sp) \<subseteq> objs sp \<and>
     free_objs sp = int (length (sp_freelist sp))"

definition cache_ok :: "nat \<Rightarrow> kmem_state \<Rightarrow> nat \<Rightarrow> slab_cache \<Rightarrow> bool" where
  "cache_ok kend k sz c \<longleftrightarrow>
     obj_size c = sz \<and>
     (\<forall>sp \<in> set (partial c). page_ok kend k sz sp \<and> 0 < free_objs sp \<and> free_objs sp < int (total_objs sp)) \<and>
     (\<forall>sp \<in> set (full c). page_ok kend k sz sp \<and> free_objs sp = 0) \<and>
     (\<forall>sp \<in> set (empties c). page_ok kend k sz sp \<and> free_objs sp = int (total_objs sp)) \<and>
     total_pages c = int (length (partial c) + length (full c) + length (empties c))"

definition pages_of :: "slab_cache \<Rightarrow> slab_page list" where
  "pages_of c = partial c @ full c @ empties c"

definition all_pages :: "slab_state \<Rightarrow> slab_page list" where
  "all_pages s = concat (map pages_of (caches s))"

definition slab_pages :: "slab_state \<Rightarrow> nat set" where
  "slab_pages s = sp_page ` set (all_pages s)"

text \<open>The objects handed out and not yet returned, each with the size of its class.\<close>

definition live :: "slab_state \<Rightarrow> (nat \<times> nat) set" where
  "live s = (\<Union>sp \<in> set (all_pages s). live_in sp \<times> {sp_obj_size sp})"

definition slab_inv :: "nat \<Rightarrow> slab_state \<Rightarrow> bool" where
  "slab_inv kend s \<longleftrightarrow>
     kmem_inv kend (km s) \<and> length (caches s) = length slab_sizes \<and>
     (\<forall>i < length slab_sizes. cache_ok kend (km s) (slab_sizes ! i) (caches s ! i)) \<and>
     distinct (map sp_page (all_pages s))"

lemma slab_sizes_bounds:
  assumes "sz \<in> set slab_sizes"
  shows "32 \<le> sz" and "sz \<le> 512" and "7 \<le> (PGSIZE - SLAB_HEADER) div sz"
  using assms by (auto simp: slab_sizes_def)

lemma page_ok_objs:
  assumes ok: "page_ok kend k sz sp" and o: "x \<in> objs sp"
  shows "sp_page sp + SLAB_HEADER \<le> x" and "x + sz \<le> sp_page sp + PGSIZE"
    and "sz \<in> set slab_sizes \<Longrightarrow> PGROUNDDOWN x = sp_page sp"
proof -
  from o obtain i where i: "i < (PGSIZE - SLAB_HEADER) div sz"
      and x: "x = sp_page sp + SLAB_HEADER + i * sz"
    using ok by (auto simp: objs_def page_ok_def)
  show "sp_page sp + SLAB_HEADER \<le> x" unfolding x by simp
  have "Suc i * sz \<le> (PGSIZE - SLAB_HEADER) div sz * sz" using i by (intro mult_le_mono1) simp
  also have "\<dots> \<le> PGSIZE - SLAB_HEADER" by (rule div_times_less_eq_dividend)
  finally show hi: "x + sz \<le> sp_page sp + PGSIZE" unfolding x by simp
  assume "sz \<in> set slab_sizes"
  then have "32 \<le> sz" by (rule slab_sizes_bounds)
  from ok obtain n where n: "sp_page sp = PGSIZE * n"
    by (auto simp: page_ok_def valid_page_def elim: aligned_obtain)
  from hi \<open>32 \<le> sz\<close> have "x < PGSIZE * n + PGSIZE" and "PGSIZE * n \<le> x" unfolding n x by auto
  then have "x div PGSIZE = n" by (intro div_nat_eqI) auto
  then show "PGROUNDDOWN x = sp_page sp" unfolding PGROUNDDOWN_def n by simp
qed

lemma page_ok_cong:
  "page_ok kend k sz sp \<Longrightarrow> krefcnt (sp_page sp) k' = 1 \<Longrightarrow> page_ok kend k' sz sp"
  by (simp add: page_ok_def)

lemma cache_ok_cong:
  assumes "cache_ok kend k sz c"
    and "\<And>sp. sp \<in> set (pages_of c) \<Longrightarrow> krefcnt (sp_page sp) k' = 1"
  shows "cache_ok kend k' sz c"
  using assms unfolding cache_ok_def pages_of_def by (auto intro: page_ok_cong)

lemma cache_ok_page: "cache_ok kend k sz c \<Longrightarrow> sp \<in> set (pages_of c) \<Longrightarrow> page_ok kend k sz sp"
  by (auto simp: cache_ok_def pages_of_def)

lemma slab_inv_page:
  assumes "slab_inv kend s" and "sp \<in> set (all_pages s)"
  obtains i where "i < length slab_sizes" and "sp \<in> set (pages_of (caches s ! i))"
    and "page_ok kend (km s) (slab_sizes ! i) sp"
proof -
  from assms(2) obtain i where "i < length (caches s)" and "sp \<in> set (pages_of (caches s ! i))"
    by (auto simp: all_pages_def in_set_conv_nth) (metis in_set_conv_nth)
  with assms(1) that show ?thesis
    by (auto simp: slab_inv_def dest: cache_ok_page)
qed

lemma slab_inv_nth_page:
  "slab_inv kend s \<Longrightarrow> i < length slab_sizes \<Longrightarrow> sp \<in> set (pages_of (caches s ! i)) \<Longrightarrow>
     sp \<in> set (all_pages s)"
  unfolding slab_inv_def all_pages_def using nth_mem by fastforce

lemma slab_inv_class_page:
  assumes "slab_inv kend s" and "sp \<in> set (all_pages s)" and "sp_obj_size sp = slab_sizes ! i"
    and "i < length slab_sizes"
  shows "sp \<in> set (pages_of (caches s ! i))"
proof -
  obtain j where j: "j < length slab_sizes" "sp \<in> set (pages_of (caches s ! j))"
    "page_ok kend (km s) (slab_sizes ! j) sp"
    by (rule slab_inv_page [OF assms(1,2)])
  have "distinct slab_sizes" by (simp add: slab_sizes_def)
  then have "j = i" using j(1,3) assms(3,4) by (simp add: page_ok_def nth_eq_iff_index_eq)
  then show ?thesis using j(2) by simp
qed

text \<open>An object of a page determines the page.\<close>

lemma slab_inv_objs_unique:
  assumes inv: "slab_inv kend s" and a: "a \<in> set (all_pages s)" and b: "b \<in> set (all_pages s)"
    and x: "x \<in> objs a" "x \<in> objs b"
  shows "a = b"
proof -
  obtain i where i: "i < length slab_sizes" "page_ok kend (km s) (slab_sizes ! i) a"
    by (rule slab_inv_page [OF inv a])
  obtain j where j: "j < length slab_sizes" "page_ok kend (km s) (slab_sizes ! j) b"
    by (rule slab_inv_page [OF inv b])
  have "sp_page a = sp_page b"
    using page_ok_objs(3) [OF i(2) x(1)] page_ok_objs(3) [OF j(2) x(2)] i(1) j(1) by simp
  then show ?thesis using inv a b by (auto simp: slab_inv_def distinct_map_inj)
qed

subsection \<open>Allocation\<close>

lemma slab_thread_eq: "slab_thread st sz n fl = map (\<lambda>i. st + i * sz) [0..<n] @ fl"
  by (induction n arbitrary: fl) auto

lemma slab_links_frame:
  "a < st \<or> st + n * sz \<le> a \<Longrightarrow> 0 < sz \<Longrightarrow> slab_links st sz n nxt m a = m a"
  by (induction n arbitrary: nxt m) auto

text \<open>A cache about to serve a request: the head page has a free object.\<close>

definition cache_ready :: "nat \<Rightarrow> kmem_state \<Rightarrow> nat \<Rightarrow> slab_cache \<Rightarrow> slab_page \<Rightarrow> slab_page list \<Rightarrow> bool" where
  "cache_ready kend k sz c sp rest \<longleftrightarrow>
     partial c = sp # rest \<and> page_ok kend k sz sp \<and> 0 < free_objs sp \<and>
     cache_ok kend k sz (c\<lparr>partial := rest, total_pages := total_pages c - 1\<rparr>)"

lemma slab_page_init_cases:
  assumes inv: "kmem_inv kend k" and cpu: "cpu < NCPU" and sz: "sz \<in> set slab_sizes"
    and init: "slab_page_init cpu sz k = (res, k')"
  shows "kmem_inv kend k'"
    and "res = None \<Longrightarrow> free_pages k = {} \<and> k' = k"
    and "res = Some sp \<Longrightarrow> sp_page sp \<in> free_pages k \<and> page_ok kend k' sz sp \<and>
           free_objs sp = int (total_objs sp) \<and> live_in sp = {}"
    and "res = Some sp \<Longrightarrow> valid_page kend q \<Longrightarrow> q \<noteq> sp_page sp \<Longrightarrow> krefcnt q k' = krefcnt q k"
proof -
  obtain page k1 where ka: "kalloc cpu k = (page, k1)" by (cases "kalloc cpu k")
  note spec = kalloc_spec [OF inv cpu ka]
  let ?n = "(PGSIZE - SLAB_HEADER) div sz"
  let ?k2 = "k1\<lparr>mem := slab_links (page + SLAB_HEADER) sz ?n 0 (memset_page (mem k1) page 0)\<rparr>"
  have fits: "SLAB_HEADER + ?n * sz \<le> PGSIZE"
    using div_times_less_eq_dividend [of "PGSIZE - SLAB_HEADER" sz] by linarith
  have sz0: "sz \<noteq> 0" using slab_sizes_bounds(1) [OF sz] by simp
  have null: "page = 0 \<Longrightarrow> res = None \<and> k' = k1"
    using init by (simp add: slab_page_init_def ka)
  have got: "page \<noteq> 0 \<Longrightarrow> k' = ?k2 \<and> res = Some
      \<lparr>sp_page = page, sp_obj_size = sz, total_objs = ?n, free_objs = int ?n,
       sp_freelist = map (\<lambda>i. page + SLAB_HEADER + i * sz) [0..<?n], sp_start = page + SLAB_HEADER\<rparr>"
    using init by (simp add: slab_page_init_def ka Let_def slab_thread_eq del: upt_conv_Cons)
  have ref: "krefcnt q ?k2 = krefcnt q k1" for q by (simp add: krefcnt_def)
  have valid: "page \<noteq> 0 \<Longrightarrow> valid_page kend page"
    using spec(3) kmem_inv_free_valid [OF inv] by blast
  have out: "slab_links (page + SLAB_HEADER) sz ?n 0 (memset_page (mem k1) page 0) a = mem k1 a"
    if "\<not> (page \<le> a \<and> a < page + PGSIZE)" for a
  proof -
    have "a < page + SLAB_HEADER \<or> page + SLAB_HEADER + ?n * sz \<le> a" using fits that by linarith
    then show ?thesis using sz0 that by (subst slab_links_frame) (auto simp: memset_page_def)
  qed
  have zeroed: "kmem_inv kend ?k2" if "page \<noteq> 0"
    using spec(3) [OF that] valid [OF that] by (intro held_page_write_inv(1) [OF spec(1), of page] out) auto
  show "kmem_inv kend k'"
    using null got zeroed spec(1) by (cases "page = 0") simp_all
  show "res = None \<Longrightarrow> free_pages k = {} \<and> k' = k"
    using null got spec(2) by (cases "page = 0") simp_all
  show "res = Some sp \<Longrightarrow> valid_page kend q \<Longrightarrow> q \<noteq> sp_page sp \<Longrightarrow> krefcnt q k' = krefcnt q k"
    using null got spec(4) [of q] ref [of q] by (cases "page = 0") auto
  assume res: "res = Some sp"
  then have p0: "page \<noteq> 0" using null by auto
  have k': "k' = ?k2" and sp: "sp_page sp = page" "sp_obj_size sp = sz" "total_objs sp = ?n"
      "free_objs sp = int ?n" "sp_start sp = page + SLAB_HEADER"
      "sp_freelist sp = map (\<lambda>i. page + SLAB_HEADER + i * sz) [0..<?n]"
    using got [OF p0] res by (simp_all del: upt_conv_Cons)
  have objs: "objs sp = set (sp_freelist sp)"
    unfolding objs_def sp by (simp add: lessThan_atLeast0)
  have "distinct (sp_freelist sp)"
    unfolding sp distinct_map using sz0 by (simp add: inj_on_def)
  moreover have "length (sp_freelist sp) = ?n" unfolding sp by simp
  ultimately show "sp_page sp \<in> free_pages k \<and> page_ok kend k' sz sp \<and>
      free_objs sp = int (total_objs sp) \<and> live_in sp = {}"
    using spec(3) [OF p0] objs valid [OF p0] sp(1-5) ref [of page]
    by (simp add: page_ok_def live_in_def k')
qed

lemma slab_refill_ok:
  assumes inv: "kmem_inv kend k" and cpu: "cpu < NCPU" and sz: "sz \<in> set slab_sizes"
    and ok: "cache_ok kend k sz c" and ref: "slab_refill cpu c t k = (res, k')"
  shows "kmem_inv kend k'"
    and "res = None \<Longrightarrow> free_pages k = {} \<and> k' = k"
    and "res = Some (c1, t1) \<Longrightarrow> \<exists>sp rest. cache_ready kend k' sz c1 sp rest \<and>
           (k' = k \<and> mset (pages_of c1) = mset (pages_of c) \<or>
            sp_page sp \<in> free_pages k \<and> live_in sp = {} \<and>
            mset (pages_of c1) = add_mset sp (mset (pages_of c)) \<and>
            (\<forall>q. valid_page kend q \<longrightarrow> q \<noteq> sp_page sp \<longrightarrow> krefcnt q k' = krefcnt q k))"
proof -
  obtain ini ki where init: "slab_page_init cpu (obj_size c) k = (ini, ki)"
    by (cases "slab_page_init cpu (obj_size c) k")
  have osz: "obj_size c = sz" using ok by (simp add: cache_ok_def)
  note I = slab_page_init_cases [OF inv cpu sz init [unfolded osz]]
  have "kmem_inv kend k' \<and> (res = None \<longrightarrow> free_pages k = {} \<and> k' = k)"
    using ref init I(1,2) inv
    by (cases "partial c"; cases "empties c"; cases ini) (auto simp: slab_refill_def)
  then show "kmem_inv kend k'" and "res = None \<Longrightarrow> free_pages k = {} \<and> k' = k" by auto
  assume res: "res = Some (c1, t1)"
  consider (part) sp rest where "partial c = sp # rest"
    | (emp) sp rest where "partial c = []" and "empties c = sp # rest"
    | (none) "partial c = []" and "empties c = []"
    by (metis list.exhaust)
  then show "\<exists>sp rest. cache_ready kend k' sz c1 sp rest \<and>
           (k' = k \<and> mset (pages_of c1) = mset (pages_of c) \<or>
            sp_page sp \<in> free_pages k \<and> live_in sp = {} \<and>
            mset (pages_of c1) = add_mset sp (mset (pages_of c)) \<and>
            (\<forall>q. valid_page kend q \<longrightarrow> q \<noteq> sp_page sp \<longrightarrow> krefcnt q k' = krefcnt q k))"
  proof cases
    case (part sp rest)
    then have "c1 = c" "k' = k" using ref res by (auto simp: slab_refill_def)
    moreover from part ok have "cache_ready kend k sz c sp rest"
      by (auto simp: cache_ready_def cache_ok_def)
    ultimately show ?thesis by blast
  next
    case (emp sp rest)
    then have c1: "c1 = c\<lparr>empties := rest, partial := [sp]\<rparr>" and "k' = k"
      using ref res by (auto simp: slab_refill_def)
    moreover from emp ok slab_sizes_bounds(3) [OF sz] have "cache_ready kend k sz c1 sp []"
      by (auto simp: cache_ready_def cache_ok_def c1 page_ok_def)
    moreover have "mset (pages_of c1) = mset (pages_of c)"
      using emp by (simp add: pages_of_def c1)
    ultimately show ?thesis by blast
  next
    case none
    then obtain sp where ini: "ini = Some sp" and k': "k' = ki"
      and c1: "c1 = c\<lparr>partial := [sp], total_pages := total_pages c + 1\<rparr>"
      using ref res init by (auto simp: slab_refill_def split: option.splits)
    have "cache_ok kend k' sz c"
    proof (rule cache_ok_cong [OF ok])
      fix x assume "x \<in> set (pages_of c)"
      then have x: "valid_page kend (sp_page x)" "krefcnt (sp_page x) k = 1"
        using cache_ok_page [OF ok] by (auto simp: page_ok_def)
      have "sp_page x \<notin> free_pages k" using kmem_invD(2) [OF inv x(1)] x(2) by auto
      then show "krefcnt (sp_page x) k' = 1"
        using I(3,4) [OF ini] x unfolding k' by (metis (no_types))
    qed
    moreover have "0 < free_objs sp"
      using I(3) [OF ini] slab_sizes_bounds(3) [OF sz] by (auto simp: page_ok_def)
    ultimately have "cache_ready kend k' sz c1 sp []"
      using I(3) [OF ini] none by (auto simp: cache_ready_def cache_ok_def c1 k')
    moreover have "mset (pages_of c1) = add_mset sp (mset (pages_of c))"
      using none by (simp add: pages_of_def c1)
    ultimately show ?thesis using I(3,4) [OF ini] k' by blast
  qed
qed

lemma slab_take_ok:
  assumes "cache_ready kend k sz c sp rest"
  obtains x sp' c2 where "slab_take c = Inr (x, c2)" and "cache_ok kend k sz c2"
    and "mset (pages_of c2) + {#sp#} = mset (pages_of c) + {#sp'#}"
    and "sp_page sp' = sp_page sp" and "x \<in> objs sp" and "x \<notin> live_in sp"
    and "live_in sp' = insert x (live_in sp)" and "objs sp' = objs sp"
proof -
  from assms have p: "partial c = sp # rest" and ok: "page_ok kend k sz sp"
    and pos: "0 < free_objs sp"
    and cok: "cache_ok kend k sz (c\<lparr>partial := rest, total_pages := total_pages c - 1\<rparr>)"
    by (auto simp: cache_ready_def)
  from ok pos obtain x fl where fl: "sp_freelist sp = x # fl"
    by (cases "sp_freelist sp") (auto simp: page_ok_def)
  let ?sp = "sp\<lparr>sp_freelist := fl, free_objs := free_objs sp - 1\<rparr>"
  have objs: "objs ?sp = objs sp" by (simp add: objs_def)
  have x: "x \<in> objs sp" "x \<notin> set fl" using ok fl by (auto simp: page_ok_def)
  have live: "live_in ?sp = insert x (live_in sp)" using x fl objs by (auto simp: live_in_def)
  have ok': "page_ok kend k sz ?sp" using ok fl objs by (auto simp: page_ok_def)
  have "card (set (sp_freelist sp)) \<le> card (objs sp)"
    using ok by (intro card_mono) (auto simp: page_ok_def objs_def)
  also have "card (objs sp) \<le> total_objs sp"
    unfolding objs_def using card_image_le [of "{..<total_objs sp}"] by simp
  finally have lt: "free_objs sp - 1 < int (total_objs sp)"
    using ok fl by (simp add: page_ok_def distinct_card)
  obtain c2 where t: "slab_take c = Inr (x, c2)"
    by (simp add: slab_take_def p fl Let_def)
  have c2: "c2 = (if free_objs sp - 1 = 0 then c\<lparr>partial := rest, full := ?sp # full c\<rparr>
       else c\<lparr>partial := ?sp # rest\<rparr>)\<lparr>alloc_count := alloc_count c + 1\<rparr>"
    using t by (auto simp: slab_take_def p fl Let_def split: if_splits)
  have "cache_ok kend k sz c2"
    using cok ok' lt pos p unfolding c2 by (auto simp: cache_ok_def)
  moreover have "mset (pages_of c2) + {#sp#} = mset (pages_of c) + {#?sp#}"
    unfolding c2 by (simp add: pages_of_def p)
  moreover have "x \<notin> live_in sp" using fl by (simp add: live_in_def)
  ultimately show ?thesis using that [OF t] live objs x by simp
qed

text \<open>The pages of the allocator when one page is replaced in place, or one is added.\<close>

lemma all_pages_update:
  assumes "i < length (caches s)"
  shows "mset (all_pages (s\<lparr>caches := (caches s)[i := c], stats := t, km := k\<rparr>)) +
           mset (pages_of (caches s ! i)) = mset (all_pages s) + mset (pages_of c)"
  using mset_concat_update [of i "map pages_of (caches s)" "pages_of c"] assms
  by (simp add: all_pages_def map_update)

lemma slab_inv_update:
  assumes "slab_inv kend s" and "i < length slab_sizes" and "kmem_inv kend k"
    and "cache_ok kend k (slab_sizes ! i) c"
    and "\<And>sp. sp \<in> set (all_pages s) \<Longrightarrow> krefcnt (sp_page sp) k = 1"
    and "s' = s\<lparr>caches := (caches s)[i := c], stats := t, km := k\<rparr>"
    and "distinct (map sp_page (all_pages s'))"
  shows "slab_inv kend s'"
proof -
  have "cache_ok kend k (slab_sizes ! j) (caches s ! j)" if "j < length slab_sizes" for j
  proof (rule cache_ok_cong)
    show "cache_ok kend (km s) (slab_sizes ! j) (caches s ! j)"
      using assms(1) that unfolding slab_inv_def by blast
  qed (rule assms(5) [OF slab_inv_nth_page [OF assms(1) that]])
  then show ?thesis using assms by (auto simp: slab_inv_def nth_list_update)
qed

lemma slab_inv_held:
  assumes "slab_inv kend s" and "sp \<in> set (all_pages s)"
  shows "krefcnt (sp_page sp) (km s) = 1" and "valid_page kend (sp_page sp)"
  using slab_inv_page [OF assms] by (auto simp: page_ok_def)

lemma slab_swap_page:
  assumes inv: "slab_inv kend s" and i: "i < length slab_sizes"
    and kinv: "kmem_inv kend k" and refs: "\<And>q. krefcnt q k = krefcnt q (km s)"
    and ok: "cache_ok kend k (slab_sizes ! i) c" and a: "a \<in> set (pages_of (caches s ! i))"
    and m: "mset (pages_of c) + {#a#} = mset (pages_of (caches s ! i)) + {#b#}"
    and b: "sp_page b = sp_page a" "objs b = objs a"
    and s': "s' = s\<lparr>caches := (caches s)[i := c], stats := t, km := k\<rparr>"
  shows "slab_inv kend s'" and "slab_pages s' = slab_pages s"
    and "live s' = (live s - live_in a \<times> {slab_sizes ! i}) \<union> live_in b \<times> {slab_sizes ! i}"
    and "live_in a \<times> {slab_sizes ! i} \<subseteq> live s"
proof -
  have len: "i < length (caches s)" and dist: "distinct (map sp_page (all_pages s))"
    using inv i by (auto simp: slab_inv_def)
  have all: "a \<in> set (all_pages s)" by (rule slab_inv_nth_page [OF inv i a])
  have "mset (all_pages s') + {#a#} = mset (all_pages s) + {#b#}"
    unfolding s' by (rule mset_trade [OF all_pages_update [OF len] m])
  note D = distinct_keys_swap [OF dist all b(1) this]
  show "slab_inv kend s'"
    using slab_inv_held(1) [OF inv] refs
    by (intro slab_inv_update [OF inv i kinv ok _ s' D(1)]) simp
  show "slab_pages s' = slab_pages s" using D(2) all b(1) by (auto simp: slab_pages_def)
  have "set (pages_of c) \<union> {a} = set (pages_of (caches s ! i)) \<union> {b}"
    using arg_cong [OF m, of set_mset] by simp
  moreover have "b = a \<Longrightarrow> set (pages_of c) = set (pages_of (caches s ! i))"
    using m mset_eq_setD [of "pages_of c"] by simp
  ultimately have "b \<in> set (pages_of c)" using a by blast
  then have bsz: "sp_obj_size b = slab_sizes ! i"
    using cache_ok_page [OF ok] by (simp add: page_ok_def)
  have asz: "sp_obj_size a = slab_sizes ! i"
    using inv i a cache_ok_page [of kend "km s" "slab_sizes ! i" "caches s ! i" a]
    by (simp add: slab_inv_def page_ok_def)
  let ?f = "\<lambda>x. live_in x \<times> {sp_obj_size x}"
  have disj: "?f x \<inter> ?f a = {}"
    if "x \<in> set (all_pages s)" "x \<noteq> a" for x
    using slab_inv_objs_unique [OF inv that(1) all] that(2) by (auto simp: live_in_def)
  have union: "(\<Union>x \<in> set (all_pages s) - {a} \<union> {b}. ?f x) = ((\<Union>x \<in> set (all_pages s). ?f x) - ?f a) \<union> ?f b"
    by (rule UN_swap) (use all disj in simp_all)
  show "live s' = (live s - live_in a \<times> {slab_sizes ! i}) \<union> live_in b \<times> {slab_sizes ! i}"
    unfolding live_def D(2) using union by (simp only: bsz asz)
  show "live_in a \<times> {slab_sizes ! i} \<subseteq> live s" using all asz by (auto simp: live_def)
qed

lemma slab_add_page:
  assumes inv: "slab_inv kend s" and i: "i < length slab_sizes"
    and kinv: "kmem_inv kend k"
    and refs: "\<And>q. valid_page kend q \<Longrightarrow> q \<noteq> sp_page b \<Longrightarrow> krefcnt q k = krefcnt q (km s)"
    and ok: "cache_ok kend k (slab_sizes ! i) c" and pok: "page_ok kend k (slab_sizes ! i) b"
    and m: "mset (pages_of c) = add_mset b (mset (pages_of (caches s ! i)))"
    and new: "sp_page b \<notin> slab_pages s"
    and s': "s' = s\<lparr>caches := (caches s)[i := c], stats := t, km := k\<rparr>"
  shows "slab_inv kend s'" and "slab_pages s' = insert (sp_page b) (slab_pages s)"
    and "live s' = live s \<union> live_in b \<times> {slab_sizes ! i}"
    and "x \<in> objs b \<Longrightarrow> (x, n) \<notin> live s"
proof -
  have len: "i < length (caches s)" and dist: "distinct (map sp_page (all_pages s))"
    using inv i by (auto simp: slab_inv_def)
  have all: "mset (all_pages s') = add_mset b (mset (all_pages s))"
    unfolding s' using mset_trade [OF all_pages_update [OF len], of c "{#}" "{#b#}"] m by simp
  note D = distinct_keys_add [OF dist new [unfolded slab_pages_def] all]
  have keep: "krefcnt (sp_page a) k = 1" if "a \<in> set (all_pages s)" for a
    using slab_inv_held [OF inv that] refs new that unfolding slab_pages_def by (metis imageI)
  show "slab_inv kend s'"
    by (rule slab_inv_update [OF inv i kinv ok keep s' D(1)])
  show "slab_pages s' = insert (sp_page b) (slab_pages s)" unfolding slab_pages_def D(2) by simp
  show "live s' = live s \<union> live_in b \<times> {slab_sizes ! i}"
    using pok unfolding live_def D(2) by (auto simp: page_ok_def)
  assume x: "x \<in> objs b"
  show "(x, n) \<notin> live s"
  proof
    assume "(x, n) \<in> live s"
    then obtain a where a: "a \<in> set (all_pages s)" "x \<in> objs a" by (auto simp: live_def live_in_def)
    obtain j where j: "j < length slab_sizes" "page_ok kend (km s) (slab_sizes ! j) a"
      by (rule slab_inv_page [OF inv a(1)])
    have "sp_page a = sp_page b"
      using page_ok_objs(3) [OF j(2) a(2)] page_ok_objs(3) [OF pok x] i j(1) by simp
    then show False using new a(1) by (metis imageI slab_pages_def)
  qed
qed

text \<open>
  References to a page other than the slab allocator's own.  The operations on small objects
  change none of them.
\<close>

definition foreign_refs :: "slab_state \<Rightarrow> nat \<Rightarrow> int" where
  "foreign_refs s q = krefcnt q (km s) - (if q \<in> slab_pages s then 1 else 0)"

text \<open>A request in a size class.\<close>

lemma slab_alloc_small:
  assumes inv: "slab_inv kend s" and cpu: "cpu < NCPU" and i: "find_cache_index n = Some i"
  obtains "free_pages (km s) = {}" and "slab_alloc cpu n s = Inr (0, s)"
  | x s' where "slab_alloc cpu n s = Inr (x, s')" and "slab_inv kend s'"
    and "\<And>m. (x, m) \<notin> live s" and "live s' = insert (x, slab_sizes ! i) (live s)"
    and "\<And>a. x \<le> a \<Longrightarrow> a < x + slab_sizes ! i \<Longrightarrow> mem (km s') a = 0"
    and "\<And>q. valid_page kend q \<Longrightarrow> foreign_refs s' q = foreign_refs s q"
proof -
  let ?sz = "slab_sizes ! i"
  have il: "i < length slab_sizes" using i by (auto simp: find_cache_index_def dest: find_slot_SomeD)
  then have sz: "?sz \<in> set slab_sizes" by simp
  have kinv: "kmem_inv kend (km s)" and ok: "cache_ok kend (km s) ?sz (caches s ! i)"
    using inv il by (auto simp: slab_inv_def)
  obtain res k' where ref: "slab_refill cpu (caches s ! i) (stats s) (km s) = (res, k')"
    by (cases "slab_refill cpu (caches s ! i) (stats s) (km s)")
  note R = slab_refill_ok [OF kinv cpu sz ok ref]
  show ?thesis
  proof (cases res)
    case None
    then show ?thesis using R(2) ref i that(1) by (simp add: slab_alloc_def)
  next
    case (Some r)
    then obtain c1 t where res: "res = Some (c1, t)" by (cases r) auto
    obtain sp rest where ready: "cache_ready kend k' ?sz c1 sp rest" and how:
      "k' = km s \<and> mset (pages_of c1) = mset (pages_of (caches s ! i)) \<or>
       sp_page sp \<in> free_pages (km s) \<and> live_in sp = {} \<and>
       mset (pages_of c1) = add_mset sp (mset (pages_of (caches s ! i))) \<and>
       (\<forall>q. valid_page kend q \<longrightarrow> q \<noteq> sp_page sp \<longrightarrow> krefcnt q k' = krefcnt q (km s))"
      using R(3) [OF res] by blast
    obtain x sp' c2 where T: "slab_take c1 = Inr (x, c2)" "cache_ok kend k' ?sz c2"
      "mset (pages_of c2) + {#sp#} = mset (pages_of c1) + {#sp'#}"
      "sp_page sp' = sp_page sp" "x \<in> objs sp" "x \<notin> live_in sp"
      "live_in sp' = insert x (live_in sp)" "objs sp' = objs sp"
      by (rule slab_take_ok [OF ready])
    have spok: "page_ok kend k' ?sz sp" using ready by (simp add: cache_ready_def)
    have c2sz: "obj_size c2 = ?sz" using T(2) by (simp add: cache_ok_def)
    note xin = page_ok_objs [OF spok T(5)]
    let ?t = "t\<lparr>total_allocs := total_allocs t + 1\<rparr>"
    let ?k = "k'\<lparr>mem := memset_range (mem k') x ?sz 0\<rparr>"
    let ?s = "s\<lparr>caches := (caches s)[i := c2], stats := ?t, km := ?k\<rparr>"
    have step: "slab_alloc cpu n s = Inr (x, ?s)"
      by (simp add: slab_alloc_def i ref res T(1) c2sz)
    have ref': "krefcnt q ?k = krefcnt q k'" for q by (simp add: krefcnt_def)
    have kinv': "kmem_inv kend ?k"
      using spok xin(1,2)
      by (intro held_page_write_inv(1) [OF R(1), of "sp_page sp"])
        (auto simp: page_ok_def memset_range_def)
    have ok2: "cache_ok kend ?k ?sz c2"
      by (rule cache_ok_cong [OF T(2)]) (use cache_ok_page [OF T(2)] in \<open>simp add: ref' page_ok_def\<close>)
    have zero: "\<And>a. x \<le> a \<Longrightarrow> a < x + ?sz \<Longrightarrow> mem (km ?s) a = 0" by (simp add: memset_range_def)
    from how show ?thesis
    proof (elim disjE conjE)
      assume k': "k' = km s" and m: "mset (pages_of c1) = mset (pages_of (caches s ! i))"
      have "sp \<in> set (pages_of c1)" using ready by (simp add: cache_ready_def pages_of_def)
      then have sp: "sp \<in> set (pages_of (caches s ! i))" using mset_eq_setD [OF m] by simp
      have "krefcnt q ?k = krefcnt q (km s)" for q using ref' k' by simp
      note S = slab_swap_page [OF inv il kinv' this ok2 sp T(3) [unfolded m] T(4,8) refl [of ?s]]
      have "(x, m) \<notin> live s" for m
        using slab_inv_objs_unique [OF inv _ slab_inv_nth_page [OF inv il sp] _ T(5)] T(6)
        by (auto simp: live_def live_in_def)
      moreover have "live ?s = insert (x, ?sz) (live s)" using S(3,4) T(7) by auto
      moreover have "foreign_refs ?s q = foreign_refs s q" for q
        using S(2) ref' k' by (simp add: foreign_refs_def)
      ultimately show ?thesis using that(2) [OF step S(1)] zero by blast
    next
      assume F: "sp_page sp \<in> free_pages (km s)" "live_in sp = {}"
        "mset (pages_of c1) = add_mset sp (mset (pages_of (caches s ! i)))"
        "\<forall>q. valid_page kend q \<longrightarrow> q \<noteq> sp_page sp \<longrightarrow> krefcnt q k' = krefcnt q (km s)"
      have spv: "valid_page kend (sp_page sp)" and r0: "krefcnt (sp_page sp) (km s) = 0"
        using kmem_inv_free_valid [OF kinv F(1)] kmem_invD(2) [OF kinv] F(1) by auto
      have new: "sp_page sp' \<notin> slab_pages s"
        unfolding T(4) slab_pages_def using slab_inv_held(1) [OF inv] r0 by force
      have m: "mset (pages_of c2) = add_mset sp' (mset (pages_of (caches s ! i)))"
        using T(3) F(3) by simp
      then have "sp' \<in> set (pages_of c2)" by (metis set_mset_mset union_single_eq_member)
      note pok = cache_ok_page [OF ok2 this]
      have refs: "krefcnt q ?k = krefcnt q (km s)" if "valid_page kend q" "q \<noteq> sp_page sp'" for q
        using F(4) that T(4) ref' by simp
      note S = slab_add_page [OF inv il kinv' refs ok2 pok m new refl [of ?s]]
      have "live ?s = insert (x, ?sz) (live s)" using S(3) T(7) F(2) by auto
      moreover have "(x, n) \<notin> live s" for n using S(4) T(5,8) by simp
      moreover have "foreign_refs ?s q = foreign_refs s q" if "valid_page kend q" for q
        using S(2) refs [OF that] new T(4) r0 pok by (auto simp: foreign_refs_def page_ok_def)
      ultimately show ?thesis using that(2) [OF step S(1)] zero by blast
    qed
  qed
qed

subsection \<open>Release\<close>

lemma page_ok_card:
  assumes "page_ok kend k sz sp" and "sz \<in> set slab_sizes"
  shows "card (objs sp) = total_objs sp" and "finite (objs sp)"
    and "card (live_in sp) = total_objs sp - length (sp_freelist sp)"
proof -
  have "sz \<noteq> 0" using slab_sizes_bounds(1) [OF assms(2)] by simp
  then have "inj_on (\<lambda>i. sp_start sp + i * sp_obj_size sp) {..<total_objs sp}"
    using assms(1) by (auto simp: inj_on_def page_ok_def)
  then show c: "card (objs sp) = total_objs sp" and f: "finite (objs sp)"
    by (simp_all add: objs_def card_image)
  show "card (live_in sp) = total_objs sp - length (sp_freelist sp)"
    using assms(1) c f by (simp add: live_in_def page_ok_def card_Diff_subset distinct_card)
qed

lemma mset_remove_at: "i < length xs \<Longrightarrow> add_mset (xs ! i) (mset (remove_at i xs)) = mset xs"
  by (subst (3) id_take_nth_drop [of i xs]) (simp_all add: remove_at_def)

lemma length_remove_at: "i < length xs \<Longrightarrow> length (remove_at i xs) = length xs - 1"
  by (simp add: remove_at_def)

lemma set_remove_at: "set (remove_at i xs) \<subseteq> set xs"
  by (auto simp: remove_at_def dest: in_set_takeD in_set_dropD)

text \<open>The search finds the page of a live object, and leaves it in \<open>partial\<close>.\<close>

lemma slab_locate_ok:
  assumes ok: "cache_ok kend k sz c" and sz: "sz \<in> set slab_sizes"
    and sp: "sp \<in> set (pages_of c)" and live: "live_in sp \<noteq> {}"
    and uniq: "\<And>a. a \<in> set (pages_of c) \<Longrightarrow> sp_page a = sp_page sp \<Longrightarrow> a = sp"
  obtains c1 j where "slab_locate (sp_page sp) c = Some (c1, j)" and "j < length (partial c1)"
    and "partial c1 ! j = sp" and "mset (pages_of c1) = mset (pages_of c)"
    and "cache_ok kend k sz (c1\<lparr>partial := remove_at j (partial c1), total_pages := total_pages c - 1\<rparr>)"
    and "empties c1 = empties c" and "total_pages c1 = total_pages c"
proof -
  have pok: "page_ok kend k sz sp" by (rule cache_ok_page [OF ok sp])
  have "sp \<notin> set (empties c)"
  proof
    assume "sp \<in> set (empties c)"
    then have "card (live_in sp) = 0"
      using ok page_ok_card(3) [OF pok sz] pok by (auto simp: cache_ok_def page_ok_def)
    then show False
      using live page_ok_card(2) [OF pok sz] by (simp add: live_in_def)
  qed
  then consider "sp \<in> set (full c)" | "sp \<notin> set (full c)" "sp \<in> set (partial c)"
    using sp by (auto simp: pages_of_def)
  then show ?thesis
  proof cases
    case 1
    then obtain i where i: "find_slot (\<lambda>a. sp_page a = sp_page sp) (full c) = Some i"
      using find_slot_ex [of sp "full c" "\<lambda>a. sp_page a = sp_page sp"] by auto
    from find_slot_SomeD [OF i] have il: "i < length (full c)" "full c ! i = sp"
      using uniq by (auto simp: pages_of_def)
    let ?c = "c\<lparr>full := remove_at i (full c), partial := sp # partial c\<rparr>"
    have "slab_locate (sp_page sp) c = Some (?c, 0)" using i il by (simp add: slab_locate_def)
    moreover have "mset (pages_of ?c) = mset (pages_of c)"
      using mset_remove_at [OF il(1)] il(2) by (simp add: pages_of_def)
    moreover have "cache_ok kend k sz (?c\<lparr>partial := partial c, total_pages := total_pages c - 1\<rparr>)"
      using ok il length_remove_at [OF il(1)] set_remove_at [of i "full c"]
      by (auto simp: cache_ok_def)
    ultimately show ?thesis using that [of ?c 0] by (simp add: remove_at_def)
  next
    case 2
    have "find_slot (\<lambda>a. sp_page a = sp_page sp) (full c) = None"
      using uniq 2 unfolding find_slot_None_iff by (auto simp: pages_of_def)
    moreover from 2 obtain j where j: "find_slot (\<lambda>a. sp_page a = sp_page sp) (partial c) = Some j"
      using find_slot_ex [of sp "partial c" "\<lambda>a. sp_page a = sp_page sp"] by auto
    moreover from find_slot_SomeD [OF j] have jl: "j < length (partial c)" "partial c ! j = sp"
      using uniq by (auto simp: pages_of_def)
    moreover have "cache_ok kend k sz (c\<lparr>partial := remove_at j (partial c), total_pages := total_pages c - 1\<rparr>)"
      using ok jl length_remove_at [OF jl(1)] set_remove_at [of j "partial c"]
      by (auto simp: cache_ok_def)
    ultimately show ?thesis using that [of c j] by (simp add: slab_locate_def)
  qed
qed

lemma slab_put_ok:
  assumes sz: "sz \<in> set slab_sizes" and j: "j < length (partial c)" "partial c ! j = sp"
    and ok: "cache_ok kend k sz (c\<lparr>partial := remove_at j (partial c), total_pages := total_pages c - 1\<rparr>)"
    and pok: "page_ok kend k sz sp" and x: "x \<in> live_in sp"
  obtains sp' where "cache_ok kend k sz (slab_put x j c)"
    and "mset (pages_of (slab_put x j c)) + {#sp#} = mset (pages_of c) + {#sp'#}"
    and "sp_page sp' = sp_page sp" and "live_in sp' = live_in sp - {x}" and "objs sp' = objs sp"
proof -
  let ?sp = "sp\<lparr>sp_freelist := x # sp_freelist sp, free_objs := free_objs sp + 1\<rparr>"
  have objs: "objs ?sp = objs sp" by (simp add: objs_def)
  have live: "live_in ?sp = live_in sp - {x}" using objs by (auto simp: live_in_def)
  have pok': "page_ok kend k sz ?sp" using pok x objs by (auto simp: page_ok_def live_in_def)
  have "card (live_in sp) \<noteq> 0"
    using x page_ok_card(2) [OF pok sz] by (auto simp: live_in_def)
  then have lt: "free_objs sp < int (total_objs sp)"
    using page_ok_card(3) [OF pok sz] pok by (simp add: page_ok_def)
  have pos: "0 \<le> free_objs sp" using pok by (simp add: page_ok_def)
  note len = length_remove_at [OF j(1)]
  have m: "mset (partial c) = add_mset sp (mset (remove_at j (partial c)))"
    using mset_remove_at [OF j(1)] j(2) by simp
  have m': "mset ((partial c)[j := ?sp]) = add_mset ?sp (mset (remove_at j (partial c)))"
    using j(1) by (simp add: mset_update m j(2))
  have "set ((partial c)[j := ?sp]) = insert ?sp (set (remove_at j (partial c)))"
    using m' by (metis set_mset_add_mset_insert set_mset_mset)
  then have "cache_ok kend k sz (slab_put x j c)"
    using ok pok' lt pos len j
    by (cases "free_objs sp + 1 = int (total_objs sp)") (auto simp: cache_ok_def slab_put_def)
  moreover have "mset (pages_of (slab_put x j c)) + {#sp#} = mset (pages_of c) + {#?sp#}"
    using m m' j by (cases "free_objs sp + 1 = int (total_objs sp)") (simp_all add: pages_of_def slab_put_def)
  ultimately show ?thesis using that [of ?sp] live objs by simp
qed

lemma slab_free_small:
  assumes inv: "slab_inv kend s" and i: "find_cache_index n = Some i"
    and x: "(x, slab_sizes ! i) \<in> live s"
  obtains s' where "slab_free kend cpu x n s = Inr s'" and "slab_inv kend s'"
    and "live s' = live s - {(x, slab_sizes ! i)}" and "cnt (km s') = cnt (km s)"
    and "free_pages (km s') = free_pages (km s)"
    and "\<And>a. a \<noteq> x \<Longrightarrow> mem (km s') a = mem (km s) a" and "slab_pages s' = slab_pages s"
proof -
  let ?sz = "slab_sizes ! i"
  have il: "i < length slab_sizes" using i by (auto simp: find_cache_index_def dest: find_slot_SomeD)
  then have sz: "?sz \<in> set slab_sizes" by simp
  have kinv: "kmem_inv kend (km s)" and ok: "cache_ok kend (km s) ?sz (caches s ! i)"
    and dist: "distinct (map sp_page (all_pages s))"
    using inv il by (auto simp: slab_inv_def)
  obtain sp where all: "sp \<in> set (all_pages s)" and xs: "x \<in> live_in sp" and "sp_obj_size sp = ?sz"
    using x by (auto simp: live_def)
  then have sp: "sp \<in> set (pages_of (caches s ! i))" by (intro slab_inv_class_page [OF inv _ _ il])
  have pok: "page_ok kend (km s) ?sz sp" by (rule cache_ok_page [OF ok sp])
  have xo: "x \<in> objs sp" using xs by (simp add: live_in_def)
  have x0: "x \<noteq> 0" and pg: "PGROUNDDOWN x = sp_page sp"
    using page_ok_objs(1) [OF pok xo] page_ok_objs(3) [OF pok xo sz] by simp_all
  have uniq: "a = sp" if "a \<in> set (pages_of (caches s ! i))" "sp_page a = sp_page sp" for a
    using dist all slab_inv_nth_page [OF inv il that(1)] that(2) by (simp add: distinct_map_inj)
  have "live_in sp \<noteq> {}" using xs by auto
  then obtain c1 j where L: "slab_locate (sp_page sp) (caches s ! i) = Some (c1, j)"
    "j < length (partial c1)" "partial c1 ! j = sp"
    "mset (pages_of c1) = mset (pages_of (caches s ! i))"
    "cache_ok kend (km s) ?sz (c1\<lparr>partial := remove_at j (partial c1), total_pages := total_pages (caches s ! i) - 1\<rparr>)"
    "total_pages c1 = total_pages (caches s ! i)"
    by (rule slab_locate_ok [OF ok sz sp _ uniq])
  obtain sp' where P: "cache_ok kend (km s) ?sz (slab_put x j c1)"
    "mset (pages_of (slab_put x j c1)) + {#sp#} = mset (pages_of c1) + {#sp'#}"
    "sp_page sp' = sp_page sp" "live_in sp' = live_in sp - {x}" "objs sp' = objs sp"
    by (rule slab_put_ok [OF sz L(2,3) L(5) [folded L(6)] pok xs])
  let ?t = "(stats s)\<lparr>total_frees := total_frees (stats s) + 1\<rparr>"
  let ?k = "(km s)\<lparr>mem := (mem (km s))(x := of_nat (first_free sp))\<rparr>"
  let ?s = "s\<lparr>caches := (caches s)[i := slab_put x j c1], stats := ?t, km := ?k\<rparr>"
  have step: "slab_free kend cpu x n s = Inr ?s"
    using x0 i pg L(1,3) by (simp add: slab_free_def)
  have ref: "krefcnt q ?k = krefcnt q (km s)" for q by (simp add: krefcnt_def)
  have x_in: "sp_page sp \<le> x \<and> x < sp_page sp + PGSIZE"
    using page_ok_objs(1,2) [OF pok xo] slab_sizes_bounds(1) [OF sz] by simp
  have held: "valid_page kend (sp_page sp)" "0 < krefcnt (sp_page sp) (km s)"
    using pok by (simp_all add: page_ok_def)
  have store: "kmem_inv kend ?k \<and> free_pages ?k = free_pages (km s)"
    by (intro conjI held_page_write_inv [OF kinv held]) (use x_in in auto)
  have okk: "cache_ok kend ?k ?sz (slab_put x j c1)"
    by (rule cache_ok_cong [OF P(1)]) (use cache_ok_page [OF P(1)] in \<open>simp add: ref page_ok_def\<close>)
  note S = slab_swap_page [OF inv il conjunct1 [OF store] ref okk sp P(2) [unfolded L(4)] P(3,5) refl [of ?s]]
  have "live ?s = live s - {(x, ?sz)}" using S(3,4) P(4) xs by auto
  then show ?thesis using that [OF step S(1)] S(2) store by simp
qed

subsection \<open>Shrinking\<close>

lemma shrink_pages_append:
  "shrink_pages kend cpu (ps @ qs) k =
     (case shrink_pages kend cpu ps k of Inl e \<Rightarrow> Inl e | Inr k1 \<Rightarrow> shrink_pages kend cpu qs k1)"
  by (induction ps arbitrary: k) (auto split: sum.splits)

lemma shrink_all_eq:
  "shrink_all kend cpu cs k n =
     (case shrink_pages kend cpu (concat (map empties cs)) k of
        Inl e \<Rightarrow> Inl e
      | Inr k' \<Rightarrow> Inr (n + length (concat (map empties cs)), map shrink_cache cs, k'))"
  by (induction cs arbitrary: k n) (auto simp: shrink_pages_append split: sum.splits)

lemma shrink_pages_ok:
  assumes "kmem_inv kend k" and "cpu < NCPU" and "distinct (map sp_page ps)"
    and "\<And>sp. sp \<in> set ps \<Longrightarrow> valid_page kend (sp_page sp) \<and> 0 < krefcnt (sp_page sp) k"
  shows "\<exists>k'. shrink_pages kend cpu ps k = Inr k' \<and> kmem_inv kend k' \<and>
    (\<forall>q. valid_page kend q \<longrightarrow>
       krefcnt q k' = krefcnt q k - (if q \<in> sp_page ` set ps then 1 else 0))"
  using assms
proof (induction ps arbitrary: k)
  case (Cons sp ps)
  have v: "valid_page kend (sp_page sp)" and h: "0 < krefcnt (sp_page sp) k"
    using Cons.prems(4) [of sp] by auto
  obtain k1 where k1: "kfree kend cpu (sp_page sp) k = Inr k1" "kmem_inv kend k1"
    "krefcnt (sp_page sp) k1 = krefcnt (sp_page sp) k - 1"
    "\<And>q. valid_page kend q \<Longrightarrow> q \<noteq> sp_page sp \<Longrightarrow> krefcnt q k1 = krefcnt q k"
    using kfree_spec [OF Cons.prems(1,2) v h] by metis
  have "valid_page kend (sp_page a) \<and> 0 < krefcnt (sp_page a) k1" if "a \<in> set ps" for a
  proof -
    have "sp_page a \<noteq> sp_page sp" using Cons.prems(3) that by (metis distinct.simps(2) image_eqI list.simps(9) set_map)
    then show ?thesis using Cons.prems(4) [of a] that k1(4) [of "sp_page a"] by simp
  qed
  then obtain k' where k': "shrink_pages kend cpu ps k1 = Inr k'" "kmem_inv kend k'"
    "\<And>q. valid_page kend q \<Longrightarrow>
       krefcnt q k' = krefcnt q k1 - (if q \<in> sp_page ` set ps then 1 else 0)"
    using Cons.IH [OF k1(2) Cons.prems(2)] Cons.prems(3) by auto
  have "krefcnt q k' = krefcnt q k - (if q \<in> sp_page ` set (sp # ps) then 1 else 0)"
    if "valid_page kend q" for q
    using k'(3) [OF that] k1(3) k1(4) [OF that] Cons.prems(3) by (cases "q = sp_page sp") simp_all
  then show ?case using k1(1) k'(1,2) by simp
qed simp

lemma mset_pages_shrink:
  "mset (concat (map pages_of cs)) =
     mset (concat (map (pages_of \<circ> shrink_cache) cs) @ concat (map empties cs))"
  by (induction cs) (simp_all add: pages_of_def shrink_cache_def)

lemma cache_ok_shrink: "cache_ok kend k sz c \<Longrightarrow> cache_ok kend k sz (shrink_cache c)"
  by (simp add: cache_ok_def shrink_cache_def)

lemma cache_ok_empties:
  assumes "cache_ok kend k sz c" and "sz \<in> set slab_sizes" and "sp \<in> set (empties c)"
  shows "live_in sp = {}"
proof -
  have pok: "page_ok kend k sz sp" and "free_objs sp = int (total_objs sp)"
    using assms(1,3) by (auto simp: cache_ok_def)
  then have "card (live_in sp) = 0"
    using page_ok_card(3) [OF pok assms(2)] by (simp add: page_ok_def)
  then show ?thesis using page_ok_card(2) [OF pok assms(2)] by (simp add: live_in_def)
qed

lemma slab_shrink_spec:
  assumes inv: "slab_inv kend s" and cpu: "cpu < NCPU"
  obtains s' where "slab_shrink kend cpu s = Inr (length (concat (map empties (caches s))), s')"
    and "slab_inv kend s'" and "live s' = live s" and "caches s' = map shrink_cache (caches s)"
    and "\<And>q. valid_page kend q \<Longrightarrow> krefcnt q (km s') = krefcnt q (km s) -
           (if q \<in> sp_page ` set (concat (map empties (caches s))) then 1 else 0)"
    and "distinct (map sp_page (concat (map empties (caches s))))"
    and "slab_pages s - slab_pages s' = sp_page ` set (concat (map empties (caches s)))"
    and "slab_pages s' \<subseteq> slab_pages s"
proof -
  let ?E = "concat (map empties (caches s))"
  let ?R = "concat (map (pages_of \<circ> shrink_cache) (caches s))"
  have m: "mset (all_pages s) = mset (?R @ ?E)"
    unfolding all_pages_def by (rule mset_pages_shrink)
  have "mset (map sp_page (all_pages s)) = mset (map sp_page (?R @ ?E))" using m by simp
  then have dist: "distinct (map sp_page (?R @ ?E))"
    using inv mset_eq_imp_distinct_iff unfolding slab_inv_def by blast
  have sets: "set (all_pages s) = set ?R \<union> set ?E"
    using mset_eq_setD [OF m] by (simp only: set_append)
  note held = slab_inv_held [OF inv]
  have kinv: "kmem_inv kend (km s)" using inv by (simp add: slab_inv_def)
  obtain k' where k': "shrink_pages kend cpu ?E (km s) = Inr k'" "kmem_inv kend k'"
    "\<And>q. valid_page kend q \<Longrightarrow>
       krefcnt q k' = krefcnt q (km s) - (if q \<in> sp_page ` set ?E then 1 else 0)"
    using shrink_pages_ok [OF kinv cpu, of ?E] dist held sets by auto
  let ?s = "s\<lparr>caches := map shrink_cache (caches s), km := k'\<rparr>"
  have step: "slab_shrink kend cpu s = Inr (length ?E, ?s)"
    by (simp add: slab_shrink_def shrink_all_eq k'(1))
  have all: "all_pages ?s = ?R" by (simp add: all_pages_def)
  have kept: "krefcnt (sp_page a) k' = 1" if "a \<in> set ?R" for a
  proof -
    have "sp_page a \<notin> sp_page ` set ?E" using dist that by auto
    then show ?thesis using k'(3) [of "sp_page a"] held [of a] that sets by simp
  qed
  have "cache_ok kend k' (slab_sizes ! i) (shrink_cache (caches s ! i))" if "i < length slab_sizes" for i
  proof (rule cache_ok_cong)
    show "cache_ok kend (km s) (slab_sizes ! i) (shrink_cache (caches s ! i))"
      using inv that by (simp add: slab_inv_def cache_ok_shrink)
    fix a assume "a \<in> set (pages_of (shrink_cache (caches s ! i)))"
    moreover have "caches s ! i \<in> set (caches s)" using inv that by (simp add: slab_inv_def)
    ultimately show "krefcnt (sp_page a) k' = 1" by (intro kept) auto
  qed
  then have inv': "slab_inv kend ?s" using inv k'(2) dist all by (simp add: slab_inv_def)
  have "live_in a = {}" if "a \<in> set ?E" for a
  proof -
    from that obtain i where "i < length (caches s)" "a \<in> set (empties (caches s ! i))"
      by (auto simp: in_set_conv_nth) (metis in_set_conv_nth)
    then show ?thesis using inv by (intro cache_ok_empties) (auto simp: slab_inv_def)
  qed
  then have "live ?s = live s" unfolding live_def all sets by auto
  moreover have "slab_pages s - slab_pages ?s = sp_page ` set ?E" "slab_pages ?s \<subseteq> slab_pages s"
    unfolding slab_pages_def all sets using dist by (auto simp: image_Un)
  ultimately show ?thesis using that [OF step inv'] k'(3) dist by simp
qed

subsection \<open>Clients\<close>

text \<open>
  The kernel around the allocator.  \<open>own x = Some n\<close>: a client holds the small object \<open>x\<close>,
  requested with size \<open>n\<close>; \<open>pg p\<close>: the references to page \<open>p\<close> held by clients of whole
  pages (requests above 512 bytes included).  A client returns an object with the size it
  requested, and only once.
\<close>

inductive slab_reach :: "nat \<Rightarrow> slab_state \<Rightarrow> (nat \<Rightarrow> int option) \<Rightarrow> (nat \<Rightarrow> nat) \<Rightarrow> bool" for kend where
  boot: "0 < kend \<Longrightarrow> cpu < NCPU \<Longrightarrow> kinit kend cpu (kmem_boot m) = Inr k \<Longrightarrow>
    slab_reach kend (slab_init k) (\<lambda>_. None) (\<lambda>_. 0)"
| alloc: "slab_reach kend s own pg \<Longrightarrow> cpu < NCPU \<Longrightarrow> n \<le> 512 \<Longrightarrow>
    slab_alloc cpu n s = Inr (x, s') \<Longrightarrow>
    slab_reach kend s' (if x = 0 then own else own(x \<mapsto> n)) pg"
| alloc_page: "slab_reach kend s own pg \<Longrightarrow> cpu < NCPU \<Longrightarrow> 512 < n \<Longrightarrow>
    slab_alloc cpu n s = Inr (x, s') \<Longrightarrow>
    slab_reach kend s' own (if x = 0 then pg else pg(x := Suc (pg x)))"
| free: "slab_reach kend s own pg \<Longrightarrow> own x = Some n \<Longrightarrow> slab_free kend cpu x n s = Inr s' \<Longrightarrow>
    slab_reach kend s' (own(x := None)) pg"
| free_page: "slab_reach kend s own pg \<Longrightarrow> cpu < NCPU \<Longrightarrow> 0 < pg x \<Longrightarrow> 512 < n \<Longrightarrow>
    slab_free kend cpu x n s = Inr s' \<Longrightarrow>
    slab_reach kend s' own (pg(x := pg x - 1))"
| shrink: "slab_reach kend s own pg \<Longrightarrow> cpu < NCPU \<Longrightarrow> slab_shrink kend cpu s = Inr (f, s') \<Longrightarrow>
    slab_reach kend s' own pg"

definition class_size :: "int \<Rightarrow> nat" where
  "class_size n = slab_sizes ! the (find_cache_index n)"

definition owned :: "(nat \<Rightarrow> int option) \<Rightarrow> (nat \<times> nat) set" where
  "owned own = {(x, class_size n) |x n. own x = Some n}"

lemma owned_alloc: "own x = None \<Longrightarrow> owned (own(x \<mapsto> n)) = insert (x, class_size n) (owned own)"
  by (auto simp: owned_def)

lemma owned_free: "own x = Some n \<Longrightarrow> owned (own(x := None)) = owned own - {(x, class_size n)}"
  unfolding owned_def by (auto split: if_splits) (metis option.inject)

definition slab_sys_inv :: "nat \<Rightarrow> slab_state \<Rightarrow> (nat \<Rightarrow> int option) \<Rightarrow> (nat \<Rightarrow> nat) \<Rightarrow> bool" where
  "slab_sys_inv kend s own pg \<longleftrightarrow>
     slab_inv kend s \<and> live s = owned own \<and>
     (\<forall>x n. own x = Some n \<longrightarrow> n \<le> 512) \<and>
     (\<forall>p. valid_page kend p \<longrightarrow> foreign_refs s p = int (pg p)) \<and>
     (\<forall>p. 0 < pg p \<longrightarrow> valid_page kend p)"

lemma find_cache_index_iff:
  "find_cache_index n = None \<longleftrightarrow> 512 < n"
  by (auto simp: find_cache_index_def find_slot_None_iff slab_sizes_def)

lemma class_size_fits: "n \<le> 512 \<Longrightarrow> n \<le> int (class_size n) \<and> class_size n \<in> set slab_sizes"
  using find_cache_index_iff [of n]
  by (auto simp: class_size_def find_cache_index_def dest: find_slot_SomeD intro!: nth_mem)

lemma slab_init_empty: "all_pages (slab_init k) = []" "km (slab_init k) = k"
  by (auto simp: slab_init_def all_pages_def pages_of_def)

lemma slab_init_inv: "kmem_inv kend k \<Longrightarrow> slab_inv kend (slab_init k)"
  by (simp add: slab_inv_def slab_init_empty) (simp add: slab_init_def cache_ok_def)

text \<open>Page operations leave the slab's own pages alone.\<close>

lemma slab_km_update:
  assumes inv: "slab_inv kend s" and k: "kmem_inv kend k"
    and refs: "\<And>p. p \<in> slab_pages s \<Longrightarrow> krefcnt p k = 1"
  shows "slab_inv kend (s\<lparr>km := k\<rparr>)" and "live (s\<lparr>km := k\<rparr>) = live s"
    and "foreign_refs (s\<lparr>km := k\<rparr>) q = foreign_refs s q + (krefcnt q k - krefcnt q (km s))"
proof -
  have all: "all_pages (s\<lparr>km := k\<rparr>) = all_pages s" by (simp add: all_pages_def)
  have "cache_ok kend k (slab_sizes ! i) (caches s ! i)" if "i < length slab_sizes" for i
  proof (rule cache_ok_cong)
    show "cache_ok kend (km s) (slab_sizes ! i) (caches s ! i)"
      using inv that by (simp add: slab_inv_def)
  qed (use slab_inv_nth_page [OF inv that] refs in \<open>simp add: slab_pages_def\<close>)
  then show "slab_inv kend (s\<lparr>km := k\<rparr>)" using inv k all by (simp add: slab_inv_def)
  show "live (s\<lparr>km := k\<rparr>) = live s" by (simp add: live_def all)
  show "foreign_refs (s\<lparr>km := k\<rparr>) q = foreign_refs s q + (krefcnt q k - krefcnt q (km s))"
    by (simp add: foreign_refs_def slab_pages_def all)
qed

lemma slab_pages_held:
  assumes "slab_inv kend s" and "p \<in> slab_pages s"
  shows "valid_page kend p" and "krefcnt p (km s) = 1"
  using slab_inv_held [OF assms(1)] assms(2) by (auto simp: slab_pages_def)

lemma slab_alloc_page:
  assumes inv: "slab_inv kend s" and cpu: "cpu < NCPU" and n: "512 < n"
  obtains "free_pages (km s) = {}" and "slab_alloc cpu n s = Inr (0, s)"
  | x s' where "slab_alloc cpu n s = Inr (x, s')" and "x \<noteq> 0" and "valid_page kend x"
    and "foreign_refs s x = 0" and "slab_inv kend s'" and "live s' = live s"
    and "\<And>q. valid_page kend q \<Longrightarrow> foreign_refs s' q = foreign_refs s q + (if q = x then 1 else 0)"
proof -
  have kinv: "kmem_inv kend (km s)" using inv by (simp add: slab_inv_def)
  obtain x k where ka: "kalloc cpu (km s) = (x, k)" by (cases "kalloc cpu (km s)")
  note K = kalloc_spec [OF kinv cpu ka]
  have step: "slab_alloc cpu n s = Inr (x, s\<lparr>km := k\<rparr>)"
    using n find_cache_index_iff [of n] by (simp add: slab_alloc_def ka)
  show ?thesis
  proof (cases "x = 0")
    case True
    then show ?thesis using K(2) step that(1) by simp
  next
    case False
    then have x: "x \<in> free_pages (km s)" "krefcnt x k = 1" using K(3) by auto
    then have v: "valid_page kend x" and r0: "krefcnt x (km s) = 0"
      using kmem_inv_free_valid [OF kinv] kmem_invD(2) [OF kinv] by auto
    then have out: "x \<notin> slab_pages s" using slab_pages_held(2) [OF inv] by force
    have "krefcnt p k = 1" if "p \<in> slab_pages s" for p
      using slab_pages_held [OF inv that] K(4) [of p] out that by auto
    note U = slab_km_update [OF inv K(1) this]
    have "foreign_refs (s\<lparr>km := k\<rparr>) q = foreign_refs s q + (if q = x then 1 else 0)"
      if "valid_page kend q" for q
      using U(3) [of q] K(4) [OF that] x(2) r0 by simp
    then show ?thesis
      using that(2) [OF step False v _ U(1,2)] r0 out by (simp add: foreign_refs_def)
  qed
qed

lemma slab_free_page:
  assumes inv: "slab_inv kend s" and cpu: "cpu < NCPU" and n: "512 < n"
    and v: "valid_page kend x" and held: "0 < foreign_refs s x"
  obtains s' where "slab_free kend cpu x n s = Inr s'" and "slab_inv kend s'" and "live s' = live s"
    and "\<And>q. valid_page kend q \<Longrightarrow> foreign_refs s' q = foreign_refs s q - (if q = x then 1 else 0)"
proof -
  have kinv: "kmem_inv kend (km s)" using inv by (simp add: slab_inv_def)
  have out: "x \<notin> slab_pages s" using held slab_pages_held(2) [OF inv] by (auto simp: foreign_refs_def)
  then have "0 < krefcnt x (km s)" using held by (simp add: foreign_refs_def)
  then obtain k where k: "kfree kend cpu x (km s) = Inr k" "kmem_inv kend k"
    "krefcnt x k = krefcnt x (km s) - 1"
    "\<And>q. valid_page kend q \<Longrightarrow> q \<noteq> x \<Longrightarrow> krefcnt q k = krefcnt q (km s)"
    using kfree_spec [OF kinv cpu v] by metis
  have "0 < kend" by (rule kmem_inv_chains [OF kinv])
  then have "x \<noteq> 0" using v by (auto simp: valid_page_def)
  then have step: "slab_free kend cpu x n s = Inr (s\<lparr>km := k\<rparr>)"
    using n find_cache_index_iff [of n] k(1) by (simp add: slab_free_def)
  have "krefcnt p k = 1" if "p \<in> slab_pages s" for p
    using slab_pages_held [OF inv that] k(4) [of p] out that by auto
  note U = slab_km_update [OF inv k(2) this]
  have "foreign_refs (s\<lparr>km := k\<rparr>) q = foreign_refs s q - (if q = x then 1 else 0)"
    if "valid_page kend q" for q
    using U(3) [of q] k(3) k(4) [OF that] by simp
  then show ?thesis using that [OF step U(1,2)] by blast
qed

lemma cache_ok_shrink_busy:
  assumes "cache_ok kend k sz c" and "sz \<in> set slab_sizes" and "sp \<in> set (pages_of (shrink_cache c))"
  shows "live_in sp \<noteq> {}"
proof -
  have ok: "page_ok kend k sz sp" and "free_objs sp < int (total_objs sp)"
    using assms(1,3) slab_sizes_bounds(3) [OF assms(2)]
    by (auto simp: cache_ok_def pages_of_def shrink_cache_def page_ok_def)
  then have "0 < card (live_in sp)"
    using page_ok_card(3) [OF ok assms(2)] by (simp add: page_ok_def)
  then show ?thesis by auto
qed

lemma slab_shrink_refs:
  assumes inv: "slab_inv kend s" and cpu: "cpu < NCPU"
  obtains f s' where "slab_shrink kend cpu s = Inr (f, s')" and "slab_inv kend s'"
    and "live s' = live s" and "\<And>q. valid_page kend q \<Longrightarrow> foreign_refs s' q = foreign_refs s q"
    and "slab_pages s' \<subseteq> slab_pages s" and "f = card (slab_pages s - slab_pages s')"
    and "free_pages (km s') = free_pages (km s) \<union> (slab_pages s - slab_pages s')"
    and "\<And>sp. sp \<in> set (all_pages s') \<Longrightarrow> live_in sp \<noteq> {}"
proof (rule slab_shrink_spec [OF inv cpu])
  let ?E = "concat (map empties (caches s))"
  fix s' assume S: "slab_shrink kend cpu s = Inr (length ?E, s')" "slab_inv kend s'" "live s' = live s"
    and caches: "caches s' = map shrink_cache (caches s)"
    and refs: "\<And>q. valid_page kend q \<Longrightarrow>
      krefcnt q (km s') = krefcnt q (km s) - (if q \<in> sp_page ` set ?E then 1 else 0)"
    and dist: "distinct (map sp_page ?E)"
    and E: "slab_pages s - slab_pages s' = sp_page ` set ?E" "slab_pages s' \<subseteq> slab_pages s"
  have kinv: "kmem_inv kend (km s)" "kmem_inv kend (km s')"
    using inv S(2) by (simp_all add: slab_inv_def)
  have len: "length ?E = card (slab_pages s - slab_pages s')"
    unfolding E(1) using distinct_card [OF dist] by simp
  have foreign: "foreign_refs s' q = foreign_refs s q" if "valid_page kend q" for q
    using refs [OF that] E by (auto simp: foreign_refs_def)
  have "p \<in> free_pages (km s') \<longleftrightarrow> p \<in> free_pages (km s) \<or> p \<in> sp_page ` set ?E"
    if "valid_page kend p" for p
    using kmem_invD(2) [OF kinv(1) that] kmem_invD(2) [OF kinv(2) that] refs [OF that]
      slab_pages_held(2) [OF inv, of p] unfolding E(1) [symmetric] by (auto split: if_splits)
  moreover have "valid_page kend p" if "p \<in> sp_page ` set ?E" for p
    using slab_pages_held(1) [OF inv] that E(1) by blast
  ultimately have "free_pages (km s') = free_pages (km s) \<union> (slab_pages s - slab_pages s')"
    using kmem_inv_free_valid [OF kinv(1)] kmem_inv_free_valid [OF kinv(2)] unfolding E(1) by blast
  moreover have "live_in sp \<noteq> {}" if sp: "sp \<in> set (all_pages s')" for sp
  proof (rule slab_inv_page [OF S(2) sp])
    fix i assume "i < length slab_sizes" "sp \<in> set (pages_of (caches s' ! i))"
    then show ?thesis using inv caches
      by (intro cache_ok_shrink_busy [of kend "km s" "slab_sizes ! i" "caches s ! i"])
        (simp_all add: slab_inv_def)
  qed
  ultimately show ?thesis using that [OF S foreign E(2) len] by blast
qed

lemma slab_live_pos:
  assumes inv: "slab_inv kend s" and x: "(x, n) \<in> live s"
  shows "x \<noteq> 0"
proof -
  from x obtain sp where sp: "sp \<in> set (all_pages s)" "x \<in> objs sp" by (auto simp: live_def live_in_def)
  show ?thesis by (rule slab_inv_page [OF inv sp(1)]) (use page_ok_objs(1) [OF _ sp(2)] in fastforce)
qed

lemma slab_sys_cong:
  assumes "slab_sys_inv kend s own pg" and "slab_inv kend s'" and "live s' = live s"
    and "\<And>q. valid_page kend q \<Longrightarrow> foreign_refs s' q = int (pg' q)"
    and "\<And>q. 0 < pg' q \<Longrightarrow> valid_page kend q"
  shows "slab_sys_inv kend s' own pg'"
  using assms by (simp add: slab_sys_inv_def)

lemma slab_reach_inv:
  assumes "slab_reach kend s own pg"
  shows "slab_sys_inv kend s own pg"
  using assms
proof induction
  case (boot cpu m k)
  have "kmem_inv kend k" "\<And>p. valid_page kend p \<Longrightarrow> krefcnt p k = 0"
    using boot by (auto elim!: kinit_ok [of kend cpu m] simp: kmem_invD(2))
  then show ?case
    by (auto simp: slab_sys_inv_def slab_init_inv slab_init_empty live_def foreign_refs_def slab_pages_def owned_def)
next
  case (alloc s own pg cpu n x s')
  then obtain i where i: "find_cache_index n = Some i" using find_cache_index_iff [of n] by auto
  have inv: "slab_inv kend s" using alloc.IH by (simp add: slab_sys_inv_def)
  show ?case
  proof (rule slab_alloc_small [OF inv alloc.hyps(2) i])
    assume "slab_alloc cpu n s = Inr (0, s)"
    then show ?thesis using alloc by simp
  next
    fix y t assume Y: "slab_alloc cpu n s = Inr (y, t)" "slab_inv kend t"
      "\<And>m. (y, m) \<notin> live s" "live t = insert (y, slab_sizes ! i) (live s)"
      "\<And>q. valid_page kend q \<Longrightarrow> foreign_refs t q = foreign_refs s q"
    have "class_size n = slab_sizes ! i" by (simp add: class_size_def i)
    moreover have "own y = None"
      using Y(3) alloc.IH by (cases "own y") (auto simp: slab_sys_inv_def owned_def)
    ultimately have "live t = owned (own(y \<mapsto> n))"
      using alloc.IH Y(4) by (simp add: slab_sys_inv_def owned_alloc)
    moreover have "y \<noteq> 0" using slab_live_pos [OF Y(2), of y "slab_sizes ! i"] by (simp add: Y(4))
    moreover have "\<forall>z m. (own(y \<mapsto> n)) z = Some m \<longrightarrow> m \<le> 512"
      using alloc.IH alloc.hyps(3) by (simp add: slab_sys_inv_def)
    moreover have "\<forall>q. valid_page kend q \<longrightarrow> foreign_refs t q = int (pg q)"
      using alloc.IH Y(5) by (simp add: slab_sys_inv_def)
    ultimately have "slab_sys_inv kend t (own(y \<mapsto> n)) pg"
      using alloc.IH Y(2) unfolding slab_sys_inv_def by blast
    then show ?thesis using \<open>y \<noteq> 0\<close> Y(1) alloc.hyps(4) by (simp add: fun_upd_def)
  qed
next
  case (alloc_page s own pg cpu n x s')
  have inv: "slab_inv kend s" and F: "\<And>p. valid_page kend p \<Longrightarrow> foreign_refs s p = int (pg p)"
    "\<And>p. 0 < pg p \<Longrightarrow> valid_page kend p"
    using alloc_page.IH by (auto simp: slab_sys_inv_def)
  show ?case
  proof (rule slab_alloc_page [OF inv alloc_page.hyps(2,3)])
    assume "slab_alloc cpu n s = Inr (0, s)"
    then show ?thesis using alloc_page by simp
  next
    fix y t assume Y: "slab_alloc cpu n s = Inr (y, t)" "y \<noteq> 0" "valid_page kend y"
      "slab_inv kend t" "live t = live s"
      "\<And>q. valid_page kend q \<Longrightarrow> foreign_refs t q = foreign_refs s q + (if q = y then 1 else 0)"
    then show ?thesis
      using alloc_page.hyps(4) F by (auto intro!: slab_sys_cong [OF alloc_page.IH] split: if_splits)
  qed
next
  case (free s own pg x n cpu s')
  then have inv: "slab_inv kend s" and n: "n \<le> 512" and L: "live s = owned own"
    by (auto simp: slab_sys_inv_def)
  obtain i where i: "find_cache_index n = Some i" using n find_cache_index_iff [of n] by auto
  have c: "class_size n = slab_sizes ! i" by (simp add: class_size_def i)
  have "(x, slab_sizes ! i) \<in> live s" unfolding L owned_def c [symmetric] using free.hyps(2) by blast
  then show ?case
  proof (rule slab_free_small [OF inv i])
    fix t assume T: "slab_free kend cpu x n s = Inr t" "slab_inv kend t"
      "live t = live s - {(x, slab_sizes ! i)}" "cnt (km t) = cnt (km s)" "slab_pages t = slab_pages s"
    have "live t = owned (own(x := None))" unfolding T(3) L owned_free [where own = own and x = x, OF free.hyps(2)] c ..
    moreover have "foreign_refs t q = foreign_refs s q" for q
      by (simp add: foreign_refs_def krefcnt_def T(4,5))
    moreover have "\<forall>y m. (own(x := None)) y = Some m \<longrightarrow> m \<le> 512"
      using free.IH by (simp add: slab_sys_inv_def)
    ultimately have "slab_sys_inv kend t (own(x := None)) pg"
      using free.IH T(2) unfolding slab_sys_inv_def by metis
    then show ?thesis using T(1) free.hyps(3) by (simp add: fun_upd_def)
  qed
next
  case (free_page s own pg cpu x n s')
  have inv: "slab_inv kend s" and F: "\<And>p. valid_page kend p \<Longrightarrow> foreign_refs s p = int (pg p)"
    "\<And>p. 0 < pg p \<Longrightarrow> valid_page kend p"
    using free_page.IH by (auto simp: slab_sys_inv_def)
  have "0 < foreign_refs s x" using F free_page.hyps(3) by simp
  then show ?case
  proof (rule slab_free_page [OF inv free_page.hyps(2,4) F(2) [OF free_page.hyps(3)]])
    fix t assume "slab_free kend cpu x n s = Inr t" "slab_inv kend t" "live t = live s"
      "\<And>q. valid_page kend q \<Longrightarrow> foreign_refs t q = foreign_refs s q - (if q = x then 1 else 0)"
    then show ?thesis
      using free_page.hyps(3,5) F by (auto intro!: slab_sys_cong [OF free_page.IH] split: if_splits)
  qed
next
  case (shrink s own pg cpu f s')
  then have inv: "slab_inv kend s" by (simp add: slab_sys_inv_def)
  show ?case
  proof (rule slab_shrink_refs [OF inv shrink.hyps(2)])
    fix g t assume "slab_shrink kend cpu s = Inr (g, t)" "slab_inv kend t" "live t = live s"
      "\<And>q. valid_page kend q \<Longrightarrow> foreign_refs t q = foreign_refs s q"
    then show ?thesis using shrink by (simp add: slab_sys_inv_def)
  qed
qed

subsection \<open>Objects do not overlap\<close>

lemma slab_live_page:
  assumes inv: "slab_inv kend s" and x: "(x, n) \<in> live s"
  obtains sp i where "sp \<in> set (all_pages s)" and "valid_page kend (sp_page sp)" and "sp_page sp \<in> slab_pages s"
    and "sp_page sp \<le> x" and "x + n \<le> sp_page sp + PGSIZE" and "0 < n"
    and "x = sp_start sp + i * n" and "sp_obj_size sp = n"
proof -
  from x obtain sp where sp: "sp \<in> set (all_pages s)" "x \<in> objs sp" "n = sp_obj_size sp"
    by (auto simp: live_def live_in_def)
  obtain j where j: "j < length slab_sizes" "page_ok kend (km s) (slab_sizes ! j) sp"
    by (rule slab_inv_page [OF inv sp(1)])
  then have n: "slab_sizes ! j = n" using sp(3) by (simp add: page_ok_def)
  have "32 \<le> n" using slab_sizes_bounds(1) [of n] j(1) n nth_mem by blast
  moreover obtain i where "x = sp_start sp + i * n" using sp(2,3) by (auto simp: objs_def)
  moreover have "sp_page sp \<le> x" "x + n \<le> sp_page sp + PGSIZE"
    using page_ok_objs(1,2) [OF j(2) sp(2)] n by simp_all
  moreover have "valid_page kend (sp_page sp)" "sp_page sp \<in> slab_pages s"
    using j(2) sp(1) by (simp_all add: page_ok_def slab_pages_def)
  ultimately show ?thesis using that sp(1,3) by (metis gr0I not_numeral_le_zero)
qed

lemma same_page:
  assumes "valid_page kend p" and "valid_page kend q"
    and "p \<le> z" "z < p + PGSIZE" and "q \<le> z" "z < q + PGSIZE"
  shows "p = q"
proof -
  obtain m n where m: "p = PGSIZE * m" and n: "q = PGSIZE * n"
    using assms(1,2) by (metis aligned_obtain valid_page_def)
  have "z div PGSIZE = m" using assms(3,4) unfolding m by (intro div_nat_eqI) auto
  moreover have "z div PGSIZE = n" using assms(5,6) unfolding n by (intro div_nat_eqI) auto
  ultimately show ?thesis unfolding m n by simp
qed

lemma multiples_apart:
  fixes n :: nat
  assumes "i \<noteq> j" and "st + i * n \<le> z" and "z < st + i * n + n" and "st + j * n \<le> z" and "z < st + j * n + n"
  shows "False"
proof -
  have "(z - st) div n = i" using assms(2,3) by (intro div_nat_eqI) (auto simp: mult.commute)
  moreover have "(z - st) div n = j" using assms(4,5) by (intro div_nat_eqI) (auto simp: mult.commute)
  ultimately show False using assms(1) by simp
qed

lemma slab_live_disjoint:
  assumes inv: "slab_inv kend s" and x: "(x, a) \<in> live s" and y: "(y, b) \<in> live s"
    and ne: "(x, a) \<noteq> (y, b)" and z: "x \<le> z" "z < x + a" "y \<le> z" "z < y + b"
  shows False
proof -
  obtain p i where P: "p \<in> set (all_pages s)" "valid_page kend (sp_page p)"
    "sp_page p \<le> x" "x + a \<le> sp_page p + PGSIZE" "x = sp_start p + i * a" "sp_obj_size p = a"
    by (rule slab_live_page [OF inv x])
  obtain q j where Q: "q \<in> set (all_pages s)" "valid_page kend (sp_page q)"
    "sp_page q \<le> y" "y + b \<le> sp_page q + PGSIZE" "y = sp_start q + j * b" "sp_obj_size q = b"
    by (rule slab_live_page [OF inv y])
  have "sp_page p = sp_page q" by (rule same_page [OF P(2) Q(2), of z]) (use P(3,4) Q(3,4) z in simp_all)
  then have "p = q" using inv P(1) Q(1) by (auto simp: slab_inv_def distinct_map_inj)
  then have "a = b" "i \<noteq> j" using P(5,6) Q(5,6) ne by auto
  then show False
    using multiples_apart [of i j "sp_start p" a z] z P(5) Q(5) \<open>p = q\<close> by simp
qed

lemma owned_live:
  assumes "slab_sys_inv kend s own pg" and "own x = Some n"
  shows "(x, class_size n) \<in> live s" and "n \<le> int (class_size n)"
  using assms class_size_fits [of n] by (auto simp: slab_sys_inv_def owned_def)

lemma owned_disjoint:
  assumes sys: "slab_sys_inv kend s own pg" and x: "own x = Some n" and y: "own y = Some m" and ne: "x \<noteq> y"
    and a: "x \<le> a" "int a < int x + n" "y \<le> a" "int a < int y + m"
  shows False
proof (rule slab_live_disjoint)
  show "slab_inv kend s" using sys by (simp add: slab_sys_inv_def)
  show "(x, class_size n) \<in> live s" "(y, class_size m) \<in> live s"
    using owned_live(1) [OF sys] x y by blast+
  show "a < x + class_size n" "a < y + class_size m"
    using owned_live(2) [OF sys x] owned_live(2) [OF sys y] a by linarith+
qed (use ne a in simp_all)

text \<open>The first word of a held object belongs to no other held object and lies in a slab page.\<close>

lemma owned_first_word:
  assumes sys: "slab_sys_inv kend s own pg" and x: "own x = Some n"
  shows "own y = Some m \<Longrightarrow> y \<noteq> x \<Longrightarrow> y \<le> a \<Longrightarrow> a < y + class_size m \<Longrightarrow> a \<noteq> x"
    and "PGROUNDDOWN a \<notin> slab_pages s \<Longrightarrow> a \<noteq> x"
proof -
  have inv: "slab_inv kend s" using sys by (simp add: slab_sys_inv_def)
  obtain sp :: slab_page where sp: "valid_page kend (sp_page sp)" "sp_page sp \<in> slab_pages s" "sp_page sp \<le> x"
    "x + class_size n \<le> sp_page sp + PGSIZE" "0 < class_size n"
    by (rule slab_live_page [OF inv owned_live(1) [OF sys x]]) blast
  show "a \<noteq> x" if "own y = Some m" "y \<noteq> x" "y \<le> a" "a < y + class_size m"
    using slab_live_disjoint [OF inv owned_live(1) [OF sys x] owned_live(1) [OF sys that(1)], of x]
      sp(5) that(2-4) by auto
  obtain k where k: "sp_page sp = PGSIZE * k"
    using sp(1) by (auto simp: valid_page_def elim: aligned_obtain)
  have "x div PGSIZE = k" using sp(3-5) unfolding k by (intro div_nat_eqI) auto
  then have "PGROUNDDOWN x = sp_page sp" unfolding PGROUNDDOWN_def k by simp
  then show "a \<noteq> x" if "PGROUNDDOWN a \<notin> slab_pages s" using sp(2) that by metis
qed

lemma owned_page_disjoint:
  assumes sys: "slab_sys_inv kend s own pg" and x: "own x = Some n" and p: "0 < pg p"
    and a: "x \<le> a" "int a < int x + n" "p \<le> a" "a < p + PGSIZE"
  shows False
proof -
  have inv: "slab_inv kend s" and v: "valid_page kend p" and "0 < foreign_refs s p"
    using sys p by (auto simp: slab_sys_inv_def)
  then have out: "p \<notin> slab_pages s" using slab_pages_held(2) [OF inv] by (auto simp: foreign_refs_def)
  have ax: "a < x + class_size n" using owned_live(2) [OF sys x] a by linarith
  show False
  proof (rule slab_live_page [OF inv owned_live(1) [OF sys x]])
    fix sp assume "valid_page kend (sp_page sp)" "sp_page sp \<in> slab_pages s"
      "sp_page sp \<le> x" "x + class_size n \<le> sp_page sp + PGSIZE"
    then show False using same_page [OF v, of "sp_page sp" a] a ax out by auto
  qed
qed

lemma slab_pool_empty:
  assumes "slab_sys_inv kend s own pg" and "free_pages (km s) = {}" and "valid_page kend p"
  shows "0 < pg p \<or> p \<in> slab_pages s"
proof -
  have "kmem_inv kend (km s)" using assms(1) by (simp add: slab_sys_inv_def slab_inv_def)
  from kmem_invD [OF this assms(3)] assms show ?thesis
    by (cases "p \<in> slab_pages s") (auto simp: slab_sys_inv_def foreign_refs_def)
qed

lemma slab_pages_live:
  assumes inv: "slab_inv kend s" and busy: "\<And>sp. sp \<in> set (all_pages s) \<Longrightarrow> live_in sp \<noteq> {}"
  shows "slab_pages s = (\<lambda>(x, n). PGROUNDDOWN x) ` live s"
proof -
  have pg: "PGROUNDDOWN x = sp_page sp" if sp: "sp \<in> set (all_pages s)" and x: "x \<in> live_in sp" for x sp
  proof (rule slab_inv_page [OF inv sp])
    fix i assume "i < length slab_sizes" "page_ok kend (km s) (slab_sizes ! i) sp"
    then show ?thesis using page_ok_objs(3) x by (simp add: live_in_def)
  qed
  have "slab_pages s \<subseteq> (\<lambda>(x, n). PGROUNDDOWN x) ` live s"
  proof
    fix p assume "p \<in> slab_pages s"
    then obtain sp where sp: "sp \<in> set (all_pages s)" "p = sp_page sp" by (auto simp: slab_pages_def)
    with busy obtain x where "x \<in> live_in sp" by auto
    with sp pg have "(x, sp_obj_size sp) \<in> live s" "p = PGROUNDDOWN x" by (auto simp: live_def)
    then show "p \<in> (\<lambda>(x, n). PGROUNDDOWN x) ` live s" by force
  qed
  moreover have "(\<lambda>(x, n). PGROUNDDOWN x) ` live s \<subseteq> slab_pages s"
    using pg by (auto simp: live_def slab_pages_def)
  ultimately show ?thesis by (rule equalityI)
qed

subsection \<open>Properties\<close>

text \<open>
  C28: A small allocation never traps.  It returns null only when every managed page is in use;
  otherwise the bytes it hands out are all zero and overlap no object and no page that a
  client holds.
\<close>

theorem slab_alloc_exclusive:
  assumes "slab_reach kend s own pg" and "cpu < NCPU" and "n \<le> 512"
  shows "\<exists>x s'. slab_alloc cpu n s = Inr (x, s') \<and>
    (if x = 0 then \<forall>p. valid_page kend p \<longrightarrow> 0 < pg p \<or> p \<in> slab_pages s
     else own x = None \<and>
       (\<forall>a. x \<le> a \<and> int a < int x + n \<longrightarrow> mem (km s') a = 0 \<and>
          (\<forall>y m. own y = Some m \<longrightarrow> \<not> (y \<le> a \<and> int a < int y + m)) \<and>
          (\<forall>p. 0 < pg p \<longrightarrow> \<not> (p \<le> a \<and> a < p + PGSIZE))))"
proof -
  have sys: "slab_sys_inv kend s own pg" by (rule slab_reach_inv [OF assms(1)])
  then have inv: "slab_inv kend s" by (simp add: slab_sys_inv_def)
  obtain i where i: "find_cache_index n = Some i" using assms(3) find_cache_index_iff [of n] by auto
  have sz: "n \<le> int (slab_sizes ! i)" using class_size_fits [OF assms(3)] by (simp add: class_size_def i)
  show ?thesis
  proof (rule slab_alloc_small [OF inv assms(2) i])
    assume "free_pages (km s) = {}" and "slab_alloc cpu n s = Inr (0, s)"
    then show ?thesis using slab_pool_empty [OF sys] by auto
  next
    fix x s' assume step: "slab_alloc cpu n s = Inr (x, s')" and S: "slab_inv kend s'"
      "\<And>m. (x, m) \<notin> live s" "live s' = insert (x, slab_sizes ! i) (live s)"
      "\<And>a. x \<le> a \<Longrightarrow> a < x + slab_sizes ! i \<Longrightarrow> mem (km s') a = 0"
    have x0: "x \<noteq> 0" using slab_live_pos [OF S(1), of x "slab_sizes ! i"] S(3) by simp
    have fresh: "own x = None" using owned_live(1) [OF sys, of x] S(2) by (cases "own x") auto
    let ?own = "own(x \<mapsto> n)"
    have sys': "slab_sys_inv kend s' ?own pg"
      using slab_reach_inv [OF slab_reach.alloc [OF assms step]] x0 by (simp add: fun_upd_def)
    have own: "?own x = Some n" by simp
    have "mem (km s') a = 0" if "x \<le> a" "int a < int x + n" for a
      using S(4) [of a] that sz by linarith
    moreover have False if "own y = Some m" "x \<le> a" "int a < int x + n" "y \<le> a" "int a < int y + m" for a y m
      using owned_disjoint [OF sys' own, of y m a] that fresh by (cases "y = x") auto
    moreover note owned_page_disjoint [OF sys' own]
    ultimately show ?thesis using step x0 fresh by (metis (no_types, lifting))
  qed
qed

lemma slab_two_pages_boot:
  obtains k where "slab_reach 2281693184 (slab_init k) (\<lambda>_. None) (\<lambda>_. 0)"
  by (rule kinit_ok [of 2281693184 0 "\<lambda>_. 0"])
    (use slab_reach.boot [of 2281693184 0 "\<lambda>_. 0"] in auto)

theorem slab_alloc_exclusive_witness:
  "\<exists>s x s'. slab_reach 2281693184 s (\<lambda>_. None) (\<lambda>_. 0) \<and> slab_alloc 2 100 s = Inr (x, s') \<and>
     x \<noteq> 0 \<and> mem (km s') x = 0 \<and> mem (km s') (x + 99) = 0"
proof -
  obtain k where r: "slab_reach 2281693184 (slab_init k) (\<lambda>_. None) (\<lambda>_. 0)"
    by (rule slab_two_pages_boot)
  have "valid_page 2281693184 2281693184" "2281693184 \<notin> slab_pages (slab_init k)"
    by (simp_all add: valid_page_def slab_pages_def slab_init_empty)
  with slab_alloc_exclusive [OF r, of 2 100] r show ?thesis by (auto split: if_splits)
qed

text \<open>
  C29: Returning an object with the size it was requested with never panics and takes exactly
  that object back: the objects still handed out are those of the other clients, every word of each
  of them keeps its contents, and so does all memory outside the slab pages.  The free pages and the
  reference counts of the page allocator do not change.  (The freed object's own first word, and the
  headers of the slab pages, are written.)
\<close>

theorem slab_free_takes_back:
  assumes "slab_reach kend s own pg" and "own x = Some n"
  shows "\<exists>s'. slab_free kend cpu x n s = Inr s' \<and> slab_inv kend s' \<and>
           live s' = {(y, class_size m) |y m. y \<noteq> x \<and> own y = Some m} \<and>
           (\<forall>y m a. y \<noteq> x \<and> own y = Some m \<and> y \<le> a \<and> a < y + class_size m \<longrightarrow>
              mem (km s') a = mem (km s) a) \<and>
           (\<forall>a. PGROUNDDOWN a \<notin> slab_pages s \<longrightarrow> mem (km s') a = mem (km s) a) \<and>
           free_pages (km s') = free_pages (km s) \<and> cnt (km s') = cnt (km s)"
proof -
  have sys: "slab_sys_inv kend s own pg" by (rule slab_reach_inv [OF assms(1)])
  then have inv: "slab_inv kend s" and n: "n \<le> 512" and L: "live s = owned own"
    using assms(2) by (auto simp: slab_sys_inv_def)
  obtain i where i: "find_cache_index n = Some i" using n find_cache_index_iff [of n] by auto
  have c: "class_size n = slab_sizes ! i" by (simp add: class_size_def i)
  have eq: "live s - {(x, slab_sizes ! i)} = {(y, class_size m) |y m. y \<noteq> x \<and> own y = Some m}"
    unfolding L c [symmetric] owned_free [where own = own and x = x, OF assms(2), symmetric] by (auto simp: owned_def)
  note xl = owned_live(1) [OF sys assms(2)]
  note first = owned_first_word [OF sys assms(2)]
  show ?thesis
  proof (rule slab_free_small [OF inv i xl [unfolded c], of cpu])
    fix s' assume S: "slab_free kend cpu x n s = Inr s'" "slab_inv kend s'"
      "live s' = live s - {(x, slab_sizes ! i)}" "cnt (km s') = cnt (km s)"
      "free_pages (km s') = free_pages (km s)" "\<And>a. a \<noteq> x \<Longrightarrow> mem (km s') a = mem (km s) a"
    have "mem (km s') a = mem (km s) a"
      if "y \<noteq> x \<and> own y = Some m \<and> y \<le> a \<and> a < y + class_size m" for y m a
      using that by (intro S(6)) (blast dest: first(1))
    moreover have "mem (km s') a = mem (km s) a" if "PGROUNDDOWN a \<notin> slab_pages s" for a
      by (rule S(6) [OF first(2) [OF that]])
    ultimately show ?thesis using S(1,2,4,5) S(3) [unfolded eq] by blast
  qed
qed

theorem slab_free_takes_back_witness:
  "\<exists>s own pg x s'. slab_reach 2281693184 s own pg \<and> own x = Some 100 \<and>
     slab_free 2281693184 1 x 100 s = Inr s' \<and> live s' = {}"
proof -
  obtain k where r: "slab_reach 2281693184 (slab_init k) (\<lambda>_. None) (\<lambda>_. 0)"
    by (rule slab_two_pages_boot)
  have inv: "slab_inv 2281693184 (slab_init k)" using slab_reach_inv [OF r] by (simp add: slab_sys_inv_def)
  have i: "find_cache_index 100 = Some 2" by (simp add: find_cache_index_def slab_sizes_def)
  have kinv: "kmem_inv 2281693184 k" using inv by (simp add: slab_inv_def slab_init_empty)
  have "foreign_refs (slab_init k) 2281693184 = 0"
    using slab_reach_inv [OF r] by (simp add: slab_sys_inv_def valid_page_def)
  then have pool: "free_pages (km (slab_init k)) \<noteq> {}"
    using kmem_invD(2) [OF kinv, of 2281693184]
    by (auto simp: foreign_refs_def slab_init_empty slab_pages_def valid_page_def)
  obtain x s where s: "slab_alloc 2 100 (slab_init k) = Inr (x, s)" "x \<noteq> 0"
    by (rule slab_alloc_small [OF inv, of 2 100 2])
      (use pool i slab_live_pos in \<open>auto\<close>)
  let ?own = "(\<lambda>_. None)(x \<mapsto> 100)"
  have r': "slab_reach 2281693184 s ?own (\<lambda>_. 0)"
    using slab_reach.alloc [OF r _ _ s(1)] s(2) by (simp add: fun_upd_def)
  have x: "?own x = Some 100" by simp
  have none: "{(y, class_size m) |y m. y \<noteq> x \<and> ?own y = Some m} = {}" by auto
  obtain s' where "slab_free 2281693184 1 x 100 s = Inr s'" "live s' = {}"
    using slab_free_takes_back [OF r' x, of 1] unfolding none by blast
  then show ?thesis using r' x by blast
qed

text \<open>
  \<open>slab_shrink\<close> never panics.  It returns to the page allocator exactly the slab pages
  with no live object, reports their number, and leaves every live object in place.
\<close>

theorem slab_shrink_returns_idle:
  assumes "slab_reach kend s own pg" and "cpu < NCPU"
  shows "\<exists>freed s'. slab_shrink kend cpu s = Inr (freed, s') \<and> live s' = live s \<and>
     freed = card (slab_pages s - slab_pages s') \<and>
     free_pages (km s') = free_pages (km s) \<union> (slab_pages s - slab_pages s') \<and>
     slab_pages s' = {p \<in> slab_pages s. \<exists>x n. (x, n) \<in> live s \<and> PGROUNDDOWN x = p}"
proof -
  have inv: "slab_inv kend s" using slab_reach_inv [OF assms(1)] by (simp add: slab_sys_inv_def)
  show ?thesis
  proof (rule slab_shrink_refs [OF inv assms(2)])
    fix f s' assume S: "slab_shrink kend cpu s = Inr (f, s')" "slab_inv kend s'" "live s' = live s"
      and F: "f = card (slab_pages s - slab_pages s')"
        "free_pages (km s') = free_pages (km s) \<union> (slab_pages s - slab_pages s')"
        "slab_pages s' \<subseteq> slab_pages s"
      and busy: "\<And>sp. sp \<in> set (all_pages s') \<Longrightarrow> live_in sp \<noteq> {}"
    have "slab_pages s' = {p \<in> slab_pages s. \<exists>x n. (x, n) \<in> live s \<and> PGROUNDDOWN x = p}"
      using slab_pages_live [OF S(2) busy] F(3) S(3) by force
    then show ?thesis using S F by blast
  qed
qed

theorem slab_shrink_returns_idle_witness:
  "\<exists>s freed s'. slab_reach 2281693184 s (\<lambda>_. None) (\<lambda>_. 0) \<and>
     slab_shrink 2281693184 0 s = Inr (freed, s') \<and> live s' = {} \<and> slab_pages s' = {}"
proof -
  obtain k where r: "slab_reach 2281693184 (slab_init k) (\<lambda>_. None) (\<lambda>_. 0)"
    by (rule slab_two_pages_boot)
  have "live (slab_init k) = {}" by (simp add: live_def slab_init_empty)
  with slab_shrink_returns_idle [OF r, of 0] r show ?thesis by fastforce
qed

end
