(* ===== verification/Disk_Block.thy ===== *)
theory Disk_Block
  imports Kernel_Prelude
begin

text \<open>
  Disk blocks as arrays of bytes, and the 32-bit little-endian integers the kernel reads and
  writes in them through pointer casts (\<open>struct logheader\<close>, the indirect blocks of \<open>fs.c\<close>).
  A block is a function of the byte offset; offsets at or above \<open>BSIZE\<close> are never used.
\<close>

abbreviation BSIZE :: nat where "BSIZE \<equiv> 1024"

type_synonym block = "nat \<Rightarrow> u8"

definition get32 :: "block \<Rightarrow> nat \<Rightarrow> u32" where
  "get32 b o32 = of_nat (unat (b o32) + 256 * (unat (b (o32 + 1)) + 256 * (unat (b (o32 + 2)) + 256 * unat (b (o32 + 3)))))"

definition put32 :: "nat \<Rightarrow> u32 \<Rightarrow> block \<Rightarrow> block" where
  "put32 o32 v b = b(o32 := of_nat (unat v), o32 + 1 := of_nat (unat v div 256),
     o32 + 2 := of_nat (unat v div 65536), o32 + 3 := of_nat (unat v div 16777216))"

lemma unat_of_nat_u8: "unat (of_nat n :: u8) = n mod 256"
  by (simp add: unat_of_nat)

lemma bytes_recombine:
  fixes n :: nat
  assumes "n < 4294967296"
  shows "n mod 256 + 256 * (n div 256 mod 256 + 256 * (n div 65536 mod 256 + 256 * (n div 16777216 mod 256))) = n"
proof -
  have a: "n div 16777216 mod 256 = n div 16777216" using assms by simp
  have b: "n div 65536 = 256 * (n div 16777216) + n div 65536 mod 256"
    using mult_div_mod_eq [of 256 "n div 65536"] by (simp add: div_mult2_eq [symmetric])
  have c: "n div 256 = 256 * (n div 65536) + n div 256 mod 256"
    using mult_div_mod_eq [of 256 "n div 256"] by (simp add: div_mult2_eq [symmetric])
  have d: "n = 256 * (n div 256) + n mod 256" by simp
  have "256 * (n div 65536 mod 256 + 256 * (n div 16777216 mod 256)) = 256 * (n div 65536)"
    unfolding a using b by simp
  moreover have "256 * (n div 256 mod 256 + 256 * (n div 65536)) = 256 * (n div 256)"
    using c by simp
  ultimately show ?thesis using d by simp
qed

lemma get32_put32 [simp]: "get32 (put32 k v b) k = v"
proof -
  have "unat v < 4294967296" using unsigned_less [of v, where ?'a = nat] by simp
  note sum = bytes_recombine [OF this]
  have bytes: "put32 k v b k = of_nat (unat v)" "put32 k v b (k + 1) = of_nat (unat v div 256)"
    "put32 k v b (k + 2) = of_nat (unat v div 65536)" "put32 k v b (k + 3) = of_nat (unat v div 16777216)"
    unfolding put32_def by (simp_all only: fun_upd_apply) simp_all
  show ?thesis unfolding get32_def bytes unat_of_nat_u8 sum by simp
qed

lemma get32_put32_other:
  "k + 4 \<le> j \<or> j + 4 \<le> k \<Longrightarrow> get32 (put32 k v b) j = get32 b j"
  by (auto simp: get32_def put32_def)

lemma put32_outside: "i < k \<or> k + 4 \<le> i \<Longrightarrow> put32 k v b i = b i"
  by (auto simp: put32_def)

end
