(* ===== verification/Bcache.thy ===== *)
theory Bcache
  imports Disk_Block
begin

text \<open>
  The buffer cache, \<open>kernel/filesystem/bio.c\<close>: \<open>NBUF\<close> buffers on \<open>NBUCKET\<close> hash buckets, with
  recycling of the least recently used free buffer.  Buffers are named by their index in
  \<open>bcache.buf\<close>; a bucket is the list of indices on its chain, head first.  The disk behind
  \<open>virtio_disk_rw\<close> is a function from block numbers to blocks (the driver ignores the device
  number), and \<open>writes\<close> records the blocks written, in order, so that a crash can be placed
  between any two of them.  A sleep lock is a flag; an operation that would wait for it is
  \<open>Sleeps\<close>.  Bucket locks are not represented: each function is one step.
\<close>

definition NBUF :: nat where "NBUF = 30"
definition NBUCKET :: nat where "NBUCKET = 13"
definition ROOTDEV :: nat where "ROOTDEV = 1"

lemma ROOTDEV_pos [simp]: "ROOTDEV \<noteq> 0" "0 \<noteq> ROOTDEV" by (simp_all add: ROOTDEV_def)

record buf =
  b_valid :: bool
  b_dev :: nat
  b_blockno :: nat
  b_locked :: bool
  b_refcnt :: u32
  b_data :: block
  b_time :: u32

record bcache =
  bufs :: "buf list"
  buckets :: "nat list list"
  disk :: "nat \<Rightarrow> block"
  writes :: "(nat \<times> block) list"
  ticks :: u32

definition HASH :: "nat \<Rightarrow> nat" where
  "HASH b = b mod NBUCKET"

text \<open>\<open>binit\<close>: every buffer on bucket 0, the last one in front.\<close>

definition empty_buf :: buf where
  "empty_buf = \<lparr>b_valid = False, b_dev = 0, b_blockno = 0, b_locked = False, b_refcnt = 0,
     b_data = (\<lambda>_. 0), b_time = 0\<rparr>"

definition binit :: "(nat \<Rightarrow> block) \<Rightarrow> u32 \<Rightarrow> bcache" where
  "binit d t = \<lparr>bufs = replicate NBUF empty_buf, buckets = (rev [0..<NBUF]) # replicate (NBUCKET - 1) [],
     disk = d, writes = [], ticks = t\<rparr>"

definition upd_buf :: "nat \<Rightarrow> (buf \<Rightarrow> buf) \<Rightarrow> bcache \<Rightarrow> bcache" where
  "upd_buf i f s = s\<lparr>bufs := (bufs s)[i := f (bufs s ! i)]\<rparr>"

text \<open>\<open>acquiresleep\<close> on a buffer's lock, at the end of \<open>bget\<close>.\<close>

definition lock_buf :: "nat \<Rightarrow> bcache \<Rightarrow> (nat \<times> bcache) outcome" where
  "lock_buf i s = (if b_locked (bufs s ! i) then Sleeps
     else Done (i, upd_buf i (b_locked_update (\<lambda>_. True)) s))"

text \<open>The scan of one bucket for the free buffer with the smallest time stamp.\<close>

primrec lru_pick :: "buf list \<Rightarrow> nat list \<Rightarrow> nat option \<Rightarrow> nat option" where
  "lru_pick bs [] b = b"
| "lru_pick bs (tmp # rest) b =
    lru_pick bs rest
      (if b_refcnt (bs ! tmp) = 0 \<and> (case b of None \<Rightarrow> True | Some i \<Rightarrow> b_time (bs ! tmp) < b_time (bs ! i))
       then Some tmp else b)"

text \<open>The walk over the buckets from the block's own; a buffer found elsewhere moves.\<close>

primrec bget_recycle :: "nat \<Rightarrow> nat list \<Rightarrow> bcache \<Rightarrow> (nat \<times> bcache) option" where
  "bget_recycle bid [] s = None"
| "bget_recycle bid (i # is) s =
    (case lru_pick (bufs s) (buckets s ! i) None of
       None \<Rightarrow> bget_recycle bid is s
     | Some b \<Rightarrow>
       Some (b, if i = bid then s
                else let bk = (buckets s)[i := remove1 b (buckets s ! i)]
                     in s\<lparr>buckets := bk[bid := b # (bk ! bid)]\<rparr>))"

definition bucket_order :: "nat \<Rightarrow> nat list" where
  "bucket_order bid = map (\<lambda>c. (bid + c) mod NBUCKET) [0..<NBUCKET]"

definition bget :: "nat \<Rightarrow> nat \<Rightarrow> bcache \<Rightarrow> (nat \<times> bcache) outcome" where
  "bget dev blockno s =
    (let bid = HASH blockno in
     case find (\<lambda>i. b_dev (bufs s ! i) = dev \<and> b_blockno (bufs s ! i) = blockno) (buckets s ! bid) of
       Some i \<Rightarrow> lock_buf i (upd_buf i (\<lambda>b. b\<lparr>b_refcnt := b_refcnt b + 1, b_time := ticks s\<rparr>) s)
     | None \<Rightarrow>
       (case bget_recycle bid (bucket_order bid) s of
          None \<Rightarrow> Panics ''bget: no buffers''
        | Some (i, s1) \<Rightarrow>
          lock_buf i (upd_buf i (\<lambda>b. b\<lparr>b_dev := dev, b_blockno := blockno, b_valid := False,
            b_refcnt := 1, b_time := ticks s\<rparr>) s1)))"

definition bread :: "nat \<Rightarrow> nat \<Rightarrow> bcache \<Rightarrow> (nat \<times> bcache) outcome" where
  "bread dev blockno s =
    (case bget dev blockno s of
       Done (i, s1) \<Rightarrow>
         Done (i, if b_valid (bufs s1 ! i) then s1
                  else upd_buf i (\<lambda>b. b\<lparr>b_data := disk s1 (b_blockno b), b_valid := True\<rparr>) s1)
     | Panics e \<Rightarrow> Panics e
     | Sleeps \<Rightarrow> Sleeps)"

definition bwrite :: "nat \<Rightarrow> bcache \<Rightarrow> bcache outcome" where
  "bwrite i s =
    (if \<not> b_locked (bufs s ! i) then Panics ''bwrite''
     else let b = bufs s ! i in
       Done (s\<lparr>disk := (disk s)(b_blockno b := b_data b), writes := writes s @ [(b_blockno b, b_data b)]\<rparr>))"

definition brelse :: "nat \<Rightarrow> bcache \<Rightarrow> bcache outcome" where
  "brelse i s =
    (if \<not> b_locked (bufs s ! i) then Panics ''brelse''
     else Done (upd_buf i (\<lambda>b. b\<lparr>b_locked := False, b_refcnt := b_refcnt b - 1, b_time := ticks s\<rparr>) s))"

definition bpin :: "nat \<Rightarrow> bcache \<Rightarrow> bcache" where
  "bpin i s = upd_buf i (\<lambda>b. b\<lparr>b_refcnt := b_refcnt b + 1\<rparr>) s"

definition bunpin :: "nat \<Rightarrow> bcache \<Rightarrow> bcache" where
  "bunpin i s = upd_buf i (\<lambda>b. b\<lparr>b_refcnt := b_refcnt b - 1\<rparr>) s"

text \<open>A client's store into the data of a buffer it has locked.\<close>

definition set_data :: "nat \<Rightarrow> block \<Rightarrow> bcache \<Rightarrow> bcache" where
  "set_data i d s = upd_buf i (\<lambda>b. b\<lparr>b_data := d\<rparr>) s"

subsection \<open>Abstraction\<close>

text \<open>
  What clients see: the buffer that caches a block, the block's current contents, the number
  of references to it, and whether it is locked.
\<close>

definition cached :: "bcache \<Rightarrow> nat \<Rightarrow> nat option" where
  "cached s b = find (\<lambda>i. b_dev (bufs s ! i) = ROOTDEV \<and> b_blockno (bufs s ! i) = b) [0..<NBUF]"

definition view :: "bcache \<Rightarrow> nat \<Rightarrow> block" where
  "view s b = (case cached s b of
     Some i \<Rightarrow> if b_valid (bufs s ! i) then b_data (bufs s ! i) else disk s b
   | None \<Rightarrow> disk s b)"

definition pins :: "bcache \<Rightarrow> nat \<Rightarrow> nat" where
  "pins s b = (case cached s b of Some i \<Rightarrow> unat (b_refcnt (bufs s ! i)) | None \<Rightarrow> 0)"

definition locked :: "bcache \<Rightarrow> nat \<Rightarrow> bool" where
  "locked s b = (case cached s b of Some i \<Rightarrow> b_locked (bufs s ! i) | None \<Rightarrow> False)"

definition buf_ok :: "(nat \<Rightarrow> block) \<Rightarrow> buf \<Rightarrow> bool" where
  "buf_ok d b \<longleftrightarrow>
     b_dev b \<in> {0, ROOTDEV} \<and> (b_dev b = 0 \<longrightarrow> b_refcnt b = 0) \<and> (b_locked b \<longrightarrow> b_refcnt b \<noteq> 0) \<and>
     (b_refcnt b \<noteq> 0 \<longrightarrow> b_valid b) \<and>
     (b_refcnt b = 0 \<longrightarrow> b_dev b = ROOTDEV \<longrightarrow> b_valid b \<longrightarrow> b_data b = d (b_blockno b))"

definition same_block :: "buf \<Rightarrow> buf \<Rightarrow> bool" where
  "same_block a b \<longleftrightarrow> b_dev a = ROOTDEV \<and> b_dev b = ROOTDEV \<and> b_blockno a = b_blockno b"

definition buckets_ok :: "buf list \<Rightarrow> nat list list \<Rightarrow> bool" where
  "buckets_ok bs bk \<longleftrightarrow>
     length bk = NBUCKET \<and>
     (\<forall>k < NBUCKET. distinct (bk ! k) \<and> set (bk ! k) = {i. i < NBUF \<and> HASH (b_blockno (bs ! i)) = k})"

definition bcache_inv :: "bcache \<Rightarrow> bool" where
  "bcache_inv s \<longleftrightarrow>
     length (bufs s) = NBUF \<and> buckets_ok (bufs s) (buckets s) \<and>
     (\<forall>i < NBUF. buf_ok (disk s) (bufs s ! i)) \<and>
     (\<forall>i < NBUF. \<forall>j < NBUF. same_block (bufs s ! i) (bufs s ! j) \<longrightarrow> i = j)"

subsection \<open>Looking up a block\<close>

lemma NBUF_pos: "0 < NBUF" and HASH_less: "HASH b < NBUCKET"
  by (simp_all add: NBUF_def NBUCKET_def HASH_def)

lemma find_SomeD: "find P xs = Some x \<Longrightarrow> x \<in> set xs \<and> P x"
  by (induction xs) (auto split: if_splits)

lemma find_unique:
  assumes "x \<in> set xs" and "P x" and "\<And>y. y \<in> set xs \<Longrightarrow> P y \<Longrightarrow> y = x"
  shows "find P xs = Some x"
proof (cases "find P xs")
  case None
  then show ?thesis using assms(1,2) by (simp add: find_None_iff)
next
  case (Some y)
  then show ?thesis using find_SomeD [OF Some] assms(3) by simp
qed

lemma buf_unique:
  "bcache_inv s \<Longrightarrow> i < NBUF \<Longrightarrow> j < NBUF \<Longrightarrow> b_dev (bufs s ! i) = ROOTDEV \<Longrightarrow>
   b_dev (bufs s ! j) = ROOTDEV \<Longrightarrow> b_blockno (bufs s ! i) = b_blockno (bufs s ! j) \<Longrightarrow> i = j"
  unfolding bcache_inv_def same_block_def by blast

lemma cached_iff:
  assumes "bcache_inv s"
  shows "cached s b = Some i \<longleftrightarrow>
    i < NBUF \<and> b_dev (bufs s ! i) = ROOTDEV \<and> b_blockno (bufs s ! i) = b" (is "_ \<longleftrightarrow> ?R i")
proof
  assume "cached s b = Some i"
  then show "?R i" unfolding cached_def by (auto dest: find_SomeD)
next
  assume R: "?R i"
  show "cached s b = Some i"
    unfolding cached_def
  proof (rule find_unique)
    fix j assume "j \<in> set [0..<NBUF]" "b_dev (bufs s ! j) = ROOTDEV \<and> b_blockno (bufs s ! j) = b"
    then show "j = i" using buf_unique [OF assms, of j i] R by simp
  qed (use R in auto)
qed

lemma cached_None_iff:
  "cached s b = None \<longleftrightarrow> (\<forall>i < NBUF. \<not> (b_dev (bufs s ! i) = ROOTDEV \<and> b_blockno (bufs s ! i) = b))"
  by (auto simp: cached_def find_None_iff)

lemma find_bucket:
  assumes inv: "bcache_inv s"
  shows "find (\<lambda>i. b_dev (bufs s ! i) = ROOTDEV \<and> b_blockno (bufs s ! i) = b) (buckets s ! HASH b) = cached s b"
proof -
  have set: "set (buckets s ! HASH b) = {i. i < NBUF \<and> HASH (b_blockno (bufs s ! i)) = HASH b}"
    using inv by (simp add: bcache_inv_def buckets_ok_def HASH_def NBUCKET_def)
  show ?thesis
  proof (cases "cached s b")
    case None
    have "\<not> (b_dev (bufs s ! i) = ROOTDEV \<and> b_blockno (bufs s ! i) = b)"
      if "i \<in> set (buckets s ! HASH b)" for i
      using None that unfolding set cached_None_iff by blast
    then show ?thesis unfolding None find_None_iff by blast
  next
    case (Some i)
    then have i: "i < NBUF \<and> b_dev (bufs s ! i) = ROOTDEV \<and> b_blockno (bufs s ! i) = b"
      by (simp only: cached_iff [OF inv])
    show ?thesis unfolding Some
    proof (rule find_unique)
      show "i \<in> set (buckets s ! HASH b)" unfolding set using i by blast
      fix j assume "j \<in> set (buckets s ! HASH b)" "b_dev (bufs s ! j) = ROOTDEV \<and> b_blockno (bufs s ! j) = b"
      then show "j = i" using buf_unique [OF inv, of j i] i unfolding set by simp
    qed (use i in blast)
  qed
qed

lemma pins_free: "bcache_inv s \<Longrightarrow> pins s b = 0 \<Longrightarrow> cached s b = Some i \<Longrightarrow> b_refcnt (bufs s ! i) = 0"
  by (simp add: pins_def unat_eq_zero)

subsection \<open>Recycling a buffer\<close>

lemma lru_pick_None:
  "lru_pick bs xs acc = None \<longleftrightarrow> acc = None \<and> (\<forall>i \<in> set xs. b_refcnt (bs ! i) \<noteq> 0)"
proof (induction xs arbitrary: acc)
  case (Cons x xs)
  show ?case unfolding lru_pick.simps Cons.IH by (cases acc) simp_all
qed simp

lemma lru_pick_Some_aux:
  assumes "lru_pick bs xs acc = Some i" and "\<forall>j. acc = Some j \<longrightarrow> b_refcnt (bs ! j) = 0"
  shows "b_refcnt (bs ! i) = 0 \<and> (i \<in> set xs \<or> acc = Some i) \<and>
    (\<forall>j \<in> set xs. b_refcnt (bs ! j) = 0 \<longrightarrow> b_time (bs ! i) \<le> b_time (bs ! j)) \<and>
    (\<forall>j. acc = Some j \<longrightarrow> b_time (bs ! i) \<le> b_time (bs ! j))"
  using assms
proof (induction xs arbitrary: acc)
  case (Cons x xs)
  let ?acc = "if b_refcnt (bs ! x) = 0 \<and>
    (case acc of None \<Rightarrow> True | Some i \<Rightarrow> b_time (bs ! x) < b_time (bs ! i)) then Some x else acc"
  have "\<forall>j. ?acc = Some j \<longrightarrow> b_refcnt (bs ! j) = 0" using Cons.prems(2) by auto
  note IH = Cons.IH [OF Cons.prems(1) [unfolded lru_pick.simps] this]
  show ?case
  proof (cases acc)
    case None
    then show ?thesis using IH by (auto split: if_splits)
  next
    case (Some k)
    then show ?thesis using IH
      by (cases "b_refcnt (bs ! x) = 0 \<and> b_time (bs ! x) < b_time (bs ! k)") (auto simp: not_less)
  qed
qed auto

lemmas lru_pick_Some = lru_pick_Some_aux [where acc = None, simplified]

text \<open>Moving a buffer between buckets, as \<open>bget\<close> does when it steals one.\<close>

lemma buckets_ok_move:
  assumes ok: "buckets_ok bs bk" and k: "k < NBUCKET" and b: "i \<in> set (bk ! k)"
    and len: "length bs = NBUF" and h: "HASH (b_blockno x) = bid"
    and bk': "bk' = (if k = bid then bk
       else let bk1 = bk[k := remove1 i (bk ! k)] in bk1[bid := i # (bk1 ! bid)])"
  shows "buckets_ok (bs[i := x]) bk'"
proof -
  have i: "i < NBUF" and hk: "HASH (b_blockno (bs ! i)) = k" using ok k b by (auto simp: buckets_ok_def)
  have bid: "bid < NBUCKET" using h by (auto simp: HASH_def NBUCKET_def)
  have sets: "\<And>j. j < NBUCKET \<Longrightarrow> distinct (bk ! j) \<and> set (bk ! j) = {i. i < NBUF \<and> HASH (b_blockno (bs ! i)) = j}"
    and lk: "length bk = NBUCKET" using ok by (auto simp: buckets_ok_def)
  have "distinct (bk' ! j) \<and> set (bk' ! j) = {a. a < NBUF \<and> HASH (b_blockno (bs[i := x] ! a)) = j}"
    if "j < NBUCKET" for j
    using sets [OF that] i hk h k bid lk len
    by (auto simp: bk' Let_def nth_list_update split: if_splits)
  then show ?thesis using lk by (auto simp: buckets_ok_def bk' Let_def)
qed

lemma bget_recycle_None:
  "bget_recycle bid ks s = None \<longleftrightarrow> (\<forall>k \<in> set ks. \<forall>i \<in> set (buckets s ! k). b_refcnt (bufs s ! i) \<noteq> 0)"
  by (induction ks) (auto simp: lru_pick_None split: option.splits dest: lru_pick_Some)

lemma bget_recycle_Some:
  assumes "bget_recycle bid ks s = Some (i, s1)"
  obtains k where "k \<in> set ks" and "i \<in> set (buckets s ! k)" and "b_refcnt (bufs s ! i) = 0"
    and "s1 = s\<lparr>buckets := (if k = bid then buckets s
       else let bk = (buckets s)[k := remove1 i (buckets s ! k)] in bk[bid := i # (bk ! bid)])\<rparr>"
    and "\<And>j. j \<in> set (buckets s ! k) \<Longrightarrow> b_refcnt (bufs s ! j) = 0 \<Longrightarrow> b_time (bufs s ! i) \<le> b_time (bufs s ! j)"
proof -
  have "\<exists>k \<in> set ks. i \<in> set (buckets s ! k) \<and> b_refcnt (bufs s ! i) = 0 \<and>
     s1 = s\<lparr>buckets := (if k = bid then buckets s
       else let bk = (buckets s)[k := remove1 i (buckets s ! k)] in bk[bid := i # (bk ! bid)])\<rparr> \<and>
     (\<forall>j \<in> set (buckets s ! k). b_refcnt (bufs s ! j) = 0 \<longrightarrow> b_time (bufs s ! i) \<le> b_time (bufs s ! j))"
    using assms
  proof (induction ks)
    case (Cons k ks)
    show ?case
    proof (cases "lru_pick (bufs s) (buckets s ! k) None")
      case None
      then show ?thesis using Cons by auto
    next
      case (Some b)
      then show ?thesis using Cons.prems lru_pick_Some [OF Some] by (auto simp: Let_def split: if_splits)
    qed
  qed simp
  then show ?thesis using that by blast
qed

lemma bucket_order_set: "set (bucket_order bid) = {..<NBUCKET}"
proof -
  have "\<exists>c < 13. k = (bid + c) mod 13" if k: "k < 13" for k :: nat
  proof -
    have eq: "(bid + c) mod 13 = (bid mod 13 + c) mod 13" for c by (simp add: mod_add_left_eq)
    have r: "bid mod 13 < 13" by simp
    show ?thesis
    proof (cases "bid mod 13 \<le> k")
      case True
      then have "(bid + (k - bid mod 13)) mod 13 = k" unfolding eq using k by simp
      then show ?thesis using k by (intro exI [of _ "k - bid mod 13"]) (simp only: less_imp_diff_less simp_thms)
    next
      case False
      then have "bid mod 13 + (13 + k - bid mod 13) = 13 + k" using r by linarith
      then have "(bid + (13 + k - bid mod 13)) mod 13 = k" unfolding eq using k by simp
      moreover have "13 + k - bid mod 13 < 13" using False by linarith
      ultimately show ?thesis by metis
    qed
  qed
  then have "{..<13} \<subseteq> (\<lambda>c. (bid + c) mod 13) ` {..<13}" by auto
  then show ?thesis unfolding bucket_order_def NBUCKET_def set_map set_upt
    by (auto simp: lessThan_atLeast0 [symmetric])
qed

subsection \<open>Reading a block\<close>

definition busy :: "bcache \<Rightarrow> nat set" where
  "busy s = {b. 0 < pins s b}"

lemma refcnt_zero_iff: "unat (b_refcnt x) = 0 \<longleftrightarrow> b_refcnt x = 0"
  by (simp add: unat_eq_zero)

lemma busy_image:
  assumes inv: "bcache_inv s"
  shows "busy s = (\<lambda>i. b_blockno (bufs s ! i)) ` {i. i < NBUF \<and> b_refcnt (bufs s ! i) \<noteq> 0}"
proof -
  have "pins s b \<noteq> 0 \<longleftrightarrow> (\<exists>i < NBUF. b_refcnt (bufs s ! i) \<noteq> 0 \<and> b_blockno (bufs s ! i) = b)" for b
  proof (cases "cached s b")
    case None
    have "b_refcnt (bufs s ! i) = 0" if "i < NBUF" "b_blockno (bufs s ! i) = b" for i
    proof -
      have "b_dev (bufs s ! i) \<noteq> ROOTDEV" using None that unfolding cached_None_iff by blast
      then show ?thesis using inv that(1) unfolding bcache_inv_def buf_ok_def by blast
    qed
    then show ?thesis using None by (auto simp: pins_def)
  next
    case (Some i)
    then have i: "i < NBUF" "b_dev (bufs s ! i) = ROOTDEV" "b_blockno (bufs s ! i) = b"
      by (simp_all only: cached_iff [OF inv])
    have "j = i" if "j < NBUF" "b_refcnt (bufs s ! j) \<noteq> 0" "b_blockno (bufs s ! j) = b" for j
    proof -
      have "b_dev (bufs s ! j) = ROOTDEV" using inv that(1,2) unfolding bcache_inv_def buf_ok_def by blast
      then show ?thesis using buf_unique [OF inv that(1) i(1)] i that(3) by simp
    qed
    then show ?thesis using i Some by (auto simp: pins_def refcnt_zero_iff)
  qed
  then show ?thesis unfolding busy_def by auto
qed

lemma free_buffer:
  assumes inv: "bcache_inv s" and "card (busy s) < NBUF"
  obtains i where "i < NBUF" and "b_refcnt (bufs s ! i) = 0"
proof (rule ccontr)
  assume "\<not> thesis"
  then have all: "{i. i < NBUF \<and> b_refcnt (bufs s ! i) \<noteq> 0} = {..<NBUF}" using that by auto
  have "inj_on (\<lambda>i. b_blockno (bufs s ! i)) {..<NBUF}"
  proof (rule inj_onI)
    fix i j assume ij: "i \<in> {..<NBUF}" "j \<in> {..<NBUF}" and eq: "b_blockno (bufs s ! i) = b_blockno (bufs s ! j)"
    then have "b_refcnt (bufs s ! i) \<noteq> 0" "b_refcnt (bufs s ! j) \<noteq> 0" using all by blast+
    then have "b_dev (bufs s ! i) = ROOTDEV" "b_dev (bufs s ! j) = ROOTDEV"
      using inv ij unfolding bcache_inv_def buf_ok_def by blast+
    then show "i = j" using buf_unique [OF inv] ij eq by simp
  qed
  then have "card (busy s) = NBUF" unfolding busy_image [OF inv] all by (simp add: card_image)
  then show False using assms(2) by simp
qed

lemma buckets_ok_keep:
  assumes "buckets_ok bs bk" and "length bs = NBUF" and "b_blockno x = b_blockno (bs ! i)"
  shows "buckets_ok (bs[i := x]) bk"
proof -
  have "HASH (b_blockno (bs[i := x] ! j)) = HASH (b_blockno (bs ! j))" if "j < NBUF" for j
    using assms(2,3) that by (cases "j = i") simp_all
  then have "{j. j < NBUF \<and> HASH (b_blockno (bs[i := x] ! j)) = k} = {j. j < NBUF \<and> HASH (b_blockno (bs ! j)) = k}" for k
    by auto
  then show ?thesis using assms(1) unfolding buckets_ok_def by simp
qed

text \<open>What \<open>bread\<close> does to the cache: one buffer is replaced, and perhaps moved.\<close>

lemma bread_result:
  assumes inv: "bcache_inv s" and free: "\<not> locked s b" and avail: "cached s b \<noteq> None \<or> card (busy s) < NBUF"
  obtains i x bk where "bread ROOTDEV b s = Done (i, s\<lparr>bufs := (bufs s)[i := x], buckets := bk\<rparr>)"
    and "i < NBUF" and "buckets_ok ((bufs s)[i := x]) bk" and "b_dev x = ROOTDEV" and "b_blockno x = b"
    and "b_valid x" and "b_locked x" and "b_data x = view s b"
    and "cached s b = Some i \<and> b_refcnt x = b_refcnt (bufs s ! i) + 1 \<or>
         cached s b = None \<and> b_refcnt (bufs s ! i) = 0 \<and> b_refcnt x = 1"
proof (cases "cached s b")
  case (Some i)
  then have i: "i < NBUF" "b_dev (bufs s ! i) = ROOTDEV" "b_blockno (bufs s ! i) = b"
    by (simp_all only: cached_iff [OF inv])
  have len: "length (bufs s) = NBUF" and bk: "buckets_ok (bufs s) (buckets s)"
    using inv by (simp_all add: bcache_inv_def)
  let ?y = "(bufs s ! i)\<lparr>b_refcnt := b_refcnt (bufs s ! i) + 1, b_time := ticks s, b_locked := True\<rparr>"
  define x where "x = (if b_valid (bufs s ! i) then ?y else ?y\<lparr>b_data := disk s b, b_valid := True\<rparr>)"
  have "\<not> b_locked (bufs s ! i)" using free Some by (simp add: locked_def)
  then have "bread ROOTDEV b s = Done (i, s\<lparr>bufs := (bufs s)[i := x], buckets := buckets s\<rparr>)"
    using i Some len
    by (simp add: bread_def bget_def Let_def find_bucket [OF inv] lock_buf_def upd_buf_def x_def)
  moreover have "buckets_ok ((bufs s)[i := x]) (buckets s)"
    by (rule buckets_ok_keep [OF bk len]) (simp add: x_def)
  moreover have "b_data x = view s b" "b_valid x" "b_locked x" "b_dev x = ROOTDEV" "b_blockno x = b"
    "b_refcnt x = b_refcnt (bufs s ! i) + 1"
    using i Some by (simp_all add: x_def view_def)
  ultimately show ?thesis using that [of i "buckets s" x] i(1) Some by simp
next
  case None
  have len: "length (bufs s) = NBUF" and bk: "buckets_ok (bufs s) (buckets s)"
    using inv by (simp_all add: bcache_inv_def)
  obtain f where f: "f < NBUF" "b_refcnt (bufs s ! f) = 0"
    using avail None by (auto elim: free_buffer [OF inv])
  have "f \<in> set (buckets s ! HASH (b_blockno (bufs s ! f)))"
    using bk f(1) HASH_less unfolding buckets_ok_def by blast
  then have "bget_recycle (HASH b) (bucket_order (HASH b)) s \<noteq> None"
    unfolding bget_recycle_None bucket_order_set using f HASH_less by blast
  then obtain i s1 where rec: "bget_recycle (HASH b) (bucket_order (HASH b)) s = Some (i, s1)" by auto
  obtain k where k: "k < NBUCKET" "i \<in> set (buckets s ! k)" and r0: "b_refcnt (bufs s ! i) = 0"
    and s1: "s1 = s\<lparr>buckets := (if k = HASH b then buckets s
       else let bk = (buckets s)[k := remove1 i (buckets s ! k)] in bk[HASH b := i # (bk ! HASH b)])\<rparr>"
    by (rule bget_recycle_Some [OF rec]) (simp add: bucket_order_set)
  have i: "i < NBUF" using bk k unfolding buckets_ok_def by blast
  define x where "x = (bufs s ! i)\<lparr>b_dev := ROOTDEV, b_blockno := b, b_valid := False, b_refcnt := 1,
     b_time := ticks s, b_locked := True, b_data := disk s b, b_valid := True\<rparr>"
  have "\<not> b_locked (bufs s ! i)" using inv i r0 unfolding bcache_inv_def buf_ok_def by blast
  then have "bread ROOTDEV b s = Done (i, s\<lparr>bufs := (bufs s)[i := x], buckets := buckets s1\<rparr>)"
    using i None len rec
    by (simp add: bread_def bget_def Let_def find_bucket [OF inv] lock_buf_def upd_buf_def s1 x_def)
  moreover have "buckets_ok ((bufs s)[i := x]) (buckets s1)"
    by (rule buckets_ok_move [OF bk k len, where bid = "HASH b"]) (simp_all add: x_def s1)
  ultimately show ?thesis using that [of i "buckets s1" x] i None r0 by (simp add: x_def view_def)
qed

subsection \<open>The operations on the client's view\<close>

text \<open>Every operation replaces one buffer; this is what that does to the view.\<close>

lemma replace_buf:
  assumes inv: "bcache_inv s" and i: "i < NBUF" and x: "b_dev x = ROOTDEV" "b_blockno x = b" "buf_ok d x"
    and bk: "buckets_ok ((bufs s)[i := x]) bk"
    and old: "cached s b = Some i \<or> cached s b = None \<and> b_refcnt (bufs s ! i) = 0"
    and d: "\<And>c. c \<noteq> b \<Longrightarrow> d c = disk s c"
    and s': "bufs s' = (bufs s)[i := x]" "buckets s' = bk" "disk s' = d"
  shows "bcache_inv s'" and "cached s' b = Some i"
    and "view s' = (view s)(b := if b_valid x then b_data x else d b)"
    and "pins s' = (pins s)(b := unat (b_refcnt x))" and "locked s' = (locked s)(b := b_locked x)"
    and "\<And>c. 0 < pins s c \<Longrightarrow> cached s' c = cached s c \<or> c = b"
proof -
  have len: "length (bufs s) = NBUF" using inv by (simp add: bcache_inv_def)
  have new: "bufs s' ! j = (if j = i then x else bufs s ! j)" if "j < NBUF" for j
    using that len by (simp add: s')
  have other: "b_blockno (bufs s ! j) \<noteq> b" if "j < NBUF" "j \<noteq> i" "b_dev (bufs s ! j) = ROOTDEV" for j
    using old that cached_iff [OF inv, of b i] buf_unique [OF inv that(1) i] unfolding cached_None_iff by metis
  have ok: "buf_ok d (bufs s' ! j)" if j: "j < NBUF" for j
  proof (cases "j = i")
    case False
    have "buf_ok (disk s) (bufs s ! j)" using inv j by (simp add: bcache_inv_def)
    then show ?thesis using other [OF j False] d False j by (auto simp: new buf_ok_def)
  qed (use new j x in simp)
  have uniq: "j = k" if "j < NBUF" "k < NBUF" "same_block (bufs s' ! j) (bufs s' ! k)" for j k
    using that other [of j] other [of k] x buf_unique [OF inv that(1,2)]
    by (auto simp: new same_block_def split: if_splits)
  show inv': "bcache_inv s'" using len ok uniq bk by (simp add: bcache_inv_def s')
  show cb: "cached s' b = Some i" using i x new by (simp add: cached_iff [OF inv'])
  have cc: "cached s' c = (if cached s c = Some i then None else cached s c)" if "c \<noteq> b" for c
  proof (cases "cached s c")
    case None
    then have "cached s' c = None" using that x by (auto simp: cached_None_iff new)
    then show ?thesis using None by simp
  next
    case (Some j)
    then have j: "j < NBUF" "b_dev (bufs s ! j) = ROOTDEV" "b_blockno (bufs s ! j) = c"
      by (simp_all only: cached_iff [OF inv])
    show ?thesis
    proof (cases "j = i")
      case True
      have "\<not> (b_dev (bufs s' ! k) = ROOTDEV \<and> b_blockno (bufs s' ! k) = c)" if k: "k < NBUF" for k
        using buf_unique [OF inv k i] j True x(2) \<open>c \<noteq> b\<close> new [OF k] by (cases "k = i") auto
      then show ?thesis using Some True by (simp add: cached_None_iff)
    next
      case False
      then show ?thesis using j Some new by (simp add: cached_iff [OF inv'])
    qed
  qed
  have evicted: "b_refcnt (bufs s ! i) = 0" "b_locked (bufs s ! i) = False"
      "b_valid (bufs s ! i) \<Longrightarrow> b_data (bufs s ! i) = disk s c"
    if "c \<noteq> b" "cached s c = Some i" for c
  proof -
    have "cached s b \<noteq> Some i" using that cached_iff [OF inv, of c i] cached_iff [OF inv, of b i] by auto
    then show r: "b_refcnt (bufs s ! i) = 0" using old by simp
    have "buf_ok (disk s) (bufs s ! i)" using inv i by (simp add: bcache_inv_def)
    moreover have "b_dev (bufs s ! i) = ROOTDEV" "b_blockno (bufs s ! i) = c"
      using that cached_iff [OF inv, of c i] by auto
    ultimately show "b_locked (bufs s ! i) = False" "b_valid (bufs s ! i) \<Longrightarrow> b_data (bufs s ! i) = disk s c"
      using r by (auto simp: buf_ok_def)
  qed
  have cj: "j < NBUF" if "cached s c = Some j" for c j using that by (simp only: cached_iff [OF inv])
  have "view s' c = view s c \<and> pins s' c = pins s c \<and> locked s' c = locked s c" if "c \<noteq> b" for c
    using cc [OF that] evicted [OF that] d [OF that] new cj [of c]
    by (cases "cached s c") (auto simp: view_def pins_def locked_def s'(3) split: if_splits)
  moreover have "view s' b = (if b_valid x then b_data x else d b)" "pins s' b = unat (b_refcnt x)"
    "locked s' b = b_locked x"
    using cb new [OF i] by (simp_all add: view_def pins_def locked_def s'(3))
  ultimately show "view s' = (view s)(b := if b_valid x then b_data x else d b)"
    "pins s' = (pins s)(b := unat (b_refcnt x))" "locked s' = (locked s)(b := b_locked x)"
    by (auto simp: fun_eq_iff)
  show "cached s' c = cached s c \<or> c = b" if "0 < pins s c" for c
    using that cc [of c] evicted(1) [of c] by (cases "c = b") (auto simp: pins_def split: option.splits if_splits)
qed

lemma bread_spec:
  assumes inv: "bcache_inv s" and free: "\<not> locked s b" and few: "pins s b < 2 ^ 32 - 1"
    and avail: "0 < pins s b \<or> card (busy s) < NBUF"
  obtains i s' where "bread ROOTDEV b s = Done (i, s')" and "bcache_inv s'" and "cached s' b = Some i"
    and "b_data (bufs s' ! i) = view s b" and "view s' = view s"
    and "pins s' = (pins s)(b := pins s b + 1)" and "locked s' = (locked s)(b := True)"
    and "disk s' = disk s" and "writes s' = writes s"
    and "\<forall>c. 0 < pins s c \<longrightarrow> cached s' c = cached s c"
proof -
  have avail': "cached s b \<noteq> None \<or> card (busy s) < NBUF" using avail by (cases "cached s b") (auto simp: pins_def)
  show ?thesis
  proof (rule bread_result [OF inv free avail'])
    fix i x bk
    let ?s = "s\<lparr>bufs := (bufs s)[i := x], buckets := bk\<rparr>"
    assume step: "bread ROOTDEV b s = Done (i, ?s)" and i: "i < NBUF" and bk: "buckets_ok ((bufs s)[i := x]) bk"
      and x: "b_dev x = ROOTDEV" "b_blockno x = b" "b_valid x" "b_locked x" "b_data x = view s b"
      and how: "cached s b = Some i \<and> b_refcnt x = b_refcnt (bufs s ! i) + 1 \<or>
         cached s b = None \<and> b_refcnt (bufs s ! i) = 0 \<and> b_refcnt x = 1"
    have ref: "unat (b_refcnt x) = pins s b + 1"
      using how few unat_add_lem [of "b_refcnt (bufs s ! i)" 1] by (auto simp: pins_def)
    then have "b_refcnt x \<noteq> 0" by auto
    then have ok: "buf_ok (disk s) x" using x by (simp add: buf_ok_def)
    have old: "cached s b = Some i \<or> cached s b = None \<and> b_refcnt (bufs s ! i) = 0" using how by auto
    note R = replace_buf [OF inv i x(1,2) ok bk old refl, of ?s]
    have len: "length (bufs s) = NBUF" using inv by (simp add: bcache_inv_def)
    have same: "cached ?s c = cached s c" if "0 < pins s c" for c
      using R(6) [OF _ _ _ that] R(2) that how by (cases "c = b") (auto simp: pins_def)
    show thesis
      by (rule that [OF step]) (use R same x ref i len in simp_all)
  qed
qed

text \<open>Operations on a cached buffer that stays where it is.\<close>

lemma update_buf:
  assumes inv: "bcache_inv s" and c: "cached s b = Some i" and x: "b_dev x = ROOTDEV" "b_blockno x = b" "buf_ok d x"
    and d: "\<And>c. c \<noteq> b \<Longrightarrow> d c = disk s c"
    and s': "bufs s' = (bufs s)[i := x]" "buckets s' = buckets s" "disk s' = d"
  shows "bcache_inv s'" and "cached s' = cached s"
    and "view s' = (view s)(b := if b_valid x then b_data x else d b)"
    and "pins s' = (pins s)(b := unat (b_refcnt x))" and "locked s' = (locked s)(b := b_locked x)"
proof -
  have i: "i < NBUF" "b_dev (bufs s ! i) = ROOTDEV" "b_blockno (bufs s ! i) = b"
    using c by (simp_all only: cached_iff [OF inv])
  have len: "length (bufs s) = NBUF" and bk: "buckets_ok (bufs s) (buckets s)"
    using inv by (simp_all add: bcache_inv_def)
  have bk': "buckets_ok ((bufs s)[i := x]) (buckets s)"
    by (rule buckets_ok_keep [OF bk len]) (simp add: x i)
  note R = replace_buf [OF inv i(1) x bk' disjI1 [OF c] d s']
  then show "bcache_inv s'" "view s' = (view s)(b := if b_valid x then b_data x else d b)"
    "pins s' = (pins s)(b := unat (b_refcnt x))" "locked s' = (locked s)(b := b_locked x)" by blast+
  have "cached s' a = Some j \<longleftrightarrow> cached s a = Some j" for a j
    using len i x by (auto simp: cached_iff [OF inv] cached_iff [OF R(1)] s' nth_list_update split: if_splits)
  then show "cached s' = cached s" by (metis ext not_None_eq)
qed

lemma locked_pinned:
  assumes inv: "bcache_inv s" and l: "locked s b"
  obtains i where "cached s b = Some i" and "i < NBUF" and "b_locked (bufs s ! i)" and "b_valid (bufs s ! i)"
    and "b_refcnt (bufs s ! i) \<noteq> 0" and "0 < pins s b" and "b_dev (bufs s ! i) = ROOTDEV" and "b_blockno (bufs s ! i) = b"
    and "view s b = b_data (bufs s ! i)" and "buf_ok (disk s) (bufs s ! i)"
proof -
  from l obtain i where c: "cached s b = Some i" and li: "b_locked (bufs s ! i)"
    by (auto simp: locked_def split: option.splits)
  then have i: "i < NBUF" "b_dev (bufs s ! i) = ROOTDEV" "b_blockno (bufs s ! i) = b"
    by (simp_all only: cached_iff [OF inv])
  have ok: "buf_ok (disk s) (bufs s ! i)" using inv i by (simp add: bcache_inv_def)
  then have "b_refcnt (bufs s ! i) \<noteq> 0" "b_valid (bufs s ! i)" using li by (auto simp: buf_ok_def)
  then show ?thesis using that [OF c i(1) li _ _ _ i(2,3) _ ok] c by (simp add: pins_def view_def unat_gt_0)
qed

lemma set_data_spec:
  assumes inv: "bcache_inv s" and l: "locked s b" and c: "cached s b = Some i"
  shows "bcache_inv (set_data i d s)" and "cached (set_data i d s) = cached s"
    and "view (set_data i d s) = (view s)(b := d)" and "pins (set_data i d s) = pins s"
    and "locked (set_data i d s) = locked s" and "disk (set_data i d s) = disk s"
    and "writes (set_data i d s) = writes s"
proof -
  obtain "b_locked (bufs s ! i)" "b_valid (bufs s ! i)" "b_refcnt (bufs s ! i) \<noteq> 0" "b_dev (bufs s ! i) = ROOTDEV"
    "b_blockno (bufs s ! i) = b" using locked_pinned [OF inv l] c by (metis option.inject)
  note f = this
  let ?x = "(bufs s ! i)\<lparr>b_data := d\<rparr>"
  have ok: "buf_ok (disk s) ?x" using f by (simp add: buf_ok_def)
  note U = update_buf [OF inv c _ _ ok refl, where s' = "set_data i d s"]
  show "bcache_inv (set_data i d s)" "cached (set_data i d s) = cached s" "view (set_data i d s) = (view s)(b := d)"
    using U(1-3) f by (simp_all add: set_data_def upd_buf_def)
  have "pins (set_data i d s) = (pins s)(b := pins s b)" "locked (set_data i d s) = (locked s)(b := locked s b)"
    using U(4,5) f c by (simp_all add: set_data_def upd_buf_def pins_def locked_def)
  then show "pins (set_data i d s) = pins s" "locked (set_data i d s) = locked s" by simp_all
qed (simp_all add: set_data_def upd_buf_def)

lemma bwrite_spec:
  assumes inv: "bcache_inv s" and l: "locked s b" and c: "cached s b = Some i"
  obtains s' where "bwrite i s = Done s'" and "bcache_inv s'" and "cached s' = cached s" and "view s' = view s"
    and "pins s' = pins s" and "locked s' = locked s" and "disk s' = (disk s)(b := view s b)"
    and "writes s' = writes s @ [(b, view s b)]" and "bufs s' = bufs s"
proof -
  obtain f: "b_locked (bufs s ! i)" "b_valid (bufs s ! i)" "b_refcnt (bufs s ! i) \<noteq> 0" "b_dev (bufs s ! i) = ROOTDEV"
    "b_blockno (bufs s ! i) = b" "view s b = b_data (bufs s ! i)"
    using locked_pinned [OF inv l] c by (metis option.inject)
  let ?s = "s\<lparr>disk := (disk s)(b := view s b), writes := writes s @ [(b, view s b)]\<rparr>"
  have step: "bwrite i s = Done ?s" using f by (simp add: bwrite_def Let_def)
  have ok: "buf_ok ((disk s)(b := view s b)) (bufs s ! i)" using f by (simp add: buf_ok_def)
  note U = update_buf [OF inv c f(4,5) ok, where s' = ?s]
  have "view ?s = (view s)(b := view s b)" "pins ?s = (pins s)(b := pins s b)" "locked ?s = (locked s)(b := locked s b)"
    using U(3-5) f c by (simp_all add: pins_def locked_def)
  then show ?thesis using that [OF step] U(1,2) by simp
qed

lemma brelse_spec:
  assumes inv: "bcache_inv s" and l: "locked s b" and c: "cached s b = Some i"
    and clean: "pins s b = 1 \<Longrightarrow> view s b = disk s b"
  obtains s' where "brelse i s = Done s'" and "bcache_inv s'" and "cached s' = cached s" and "view s' = view s"
    and "pins s' = (pins s)(b := pins s b - 1)" and "locked s' = (locked s)(b := False)"
    and "disk s' = disk s" and "writes s' = writes s"
proof -
  obtain f: "b_locked (bufs s ! i)" "b_valid (bufs s ! i)" "b_refcnt (bufs s ! i) \<noteq> 0" "b_dev (bufs s ! i) = ROOTDEV"
    "b_blockno (bufs s ! i) = b" "view s b = b_data (bufs s ! i)"
    using locked_pinned [OF inv l] c by (metis option.inject)
  let ?x = "(bufs s ! i)\<lparr>b_locked := False, b_refcnt := b_refcnt (bufs s ! i) - 1, b_time := ticks s\<rparr>"
  let ?s = "s\<lparr>bufs := (bufs s)[i := ?x]\<rparr>"
  have step: "brelse i s = Done ?s" using f by (simp add: brelse_def upd_buf_def)
  have p: "pins s b = unat (b_refcnt (bufs s ! i))" using c by (simp add: pins_def)
  have ref: "unat (b_refcnt (bufs s ! i) - 1) = pins s b - 1"
    unfolding p using f(3) by (simp add: unat_minus_one)
  have "b_refcnt ?x = 0 \<Longrightarrow> pins s b = 1"
    using ref f(3) p by (auto simp: unat_eq_zero [symmetric] simp del: unat_eq_zero) 
  then have ok: "buf_ok (disk s) ?x" using f clean by (auto simp: buf_ok_def)
  note U = update_buf [OF inv c _ _ ok refl, where s' = ?s]
  have "view ?s = view s" using U(3) f by (simp add: fun_upd_idem)
  then show ?thesis using that [OF step] U(1,2,4,5) f(4,5) ref by simp
qed

lemma bpin_spec:
  assumes inv: "bcache_inv s" and l: "locked s b" and c: "cached s b = Some i" and few: "pins s b < 2 ^ 32 - 1"
  shows "bcache_inv (bpin i s)" and "cached (bpin i s) = cached s" and "view (bpin i s) = view s"
    and "pins (bpin i s) = (pins s)(b := pins s b + 1)" and "locked (bpin i s) = locked s"
    and "disk (bpin i s) = disk s" and "writes (bpin i s) = writes s"
proof -
  obtain f: "b_locked (bufs s ! i)" "b_valid (bufs s ! i)" "b_refcnt (bufs s ! i) \<noteq> 0" "b_dev (bufs s ! i) = ROOTDEV"
    "b_blockno (bufs s ! i) = b" "view s b = b_data (bufs s ! i)"
    using locked_pinned [OF inv l] c by (metis option.inject)
  let ?x = "(bufs s ! i)\<lparr>b_refcnt := b_refcnt (bufs s ! i) + 1\<rparr>"
  have p: "pins s b = unat (b_refcnt (bufs s ! i))" using c by (simp add: pins_def)
  have ref: "unat (b_refcnt (bufs s ! i) + 1) = pins s b + 1"
    using few unat_add_lem [of "b_refcnt (bufs s ! i)" 1] by (simp add: p)
  then have "b_refcnt ?x \<noteq> 0" by auto
  then have ok: "buf_ok (disk s) ?x" using f by (auto simp: buf_ok_def)
  note U = update_buf [OF inv c _ _ ok refl, where s' = "bpin i s"]
  show "bcache_inv (bpin i s)" "cached (bpin i s) = cached s" "pins (bpin i s) = (pins s)(b := pins s b + 1)"
    using U(1,2,4) f(4,5) ref by (simp_all add: bpin_def upd_buf_def)
  show "view (bpin i s) = view s" using U(3) f by (simp add: bpin_def upd_buf_def fun_upd_idem)
  show "locked (bpin i s) = locked s" using U(5) f l by (simp add: bpin_def upd_buf_def fun_upd_idem)
qed (simp_all add: bpin_def upd_buf_def)

lemma bunpin_spec:
  assumes inv: "bcache_inv s" and l: "locked s b" and c: "cached s b = Some i" and pin: "1 < pins s b"
  shows "bcache_inv (bunpin i s)" and "cached (bunpin i s) = cached s" and "view (bunpin i s) = view s"
    and "pins (bunpin i s) = (pins s)(b := pins s b - 1)" and "locked (bunpin i s) = locked s"
    and "disk (bunpin i s) = disk s" and "writes (bunpin i s) = writes s"
proof -
  obtain f: "b_locked (bufs s ! i)" "b_valid (bufs s ! i)" "b_refcnt (bufs s ! i) \<noteq> 0" "b_dev (bufs s ! i) = ROOTDEV"
    "b_blockno (bufs s ! i) = b" "view s b = b_data (bufs s ! i)"
    using locked_pinned [OF inv l] c by (metis option.inject)
  let ?x = "(bufs s ! i)\<lparr>b_refcnt := b_refcnt (bufs s ! i) - 1\<rparr>"
  have p: "pins s b = unat (b_refcnt (bufs s ! i))" using c by (simp add: pins_def)
  have ref: "unat (b_refcnt (bufs s ! i) - 1) = pins s b - 1"
    unfolding p using f(3) by (simp add: unat_minus_one)
  then have "b_refcnt ?x \<noteq> 0" using pin by auto
  then have ok: "buf_ok (disk s) ?x" using f by (auto simp: buf_ok_def)
  note U = update_buf [OF inv c _ _ ok refl, where s' = "bunpin i s"]
  show "bcache_inv (bunpin i s)" "cached (bunpin i s) = cached s" "pins (bunpin i s) = (pins s)(b := pins s b - 1)"
    using U(1,2,4) f(4,5) ref by (simp_all add: bunpin_def upd_buf_def)
  show "view (bunpin i s) = view s" using U(3) f by (simp add: bunpin_def upd_buf_def fun_upd_idem)
  show "locked (bunpin i s) = locked s" using U(5) f l by (simp add: bunpin_def upd_buf_def fun_upd_idem)
qed (simp_all add: bunpin_def upd_buf_def)

lemma binit_inv: "bcache_inv (binit d t)"
proof -
  have "buckets_ok (replicate NBUF empty_buf) (rev [0..<NBUF] # replicate (NBUCKET - 1) [])"
    by (auto simp: buckets_ok_def empty_buf_def HASH_def NBUCKET_def nth_Cons split: nat.splits)
  then show ?thesis by (auto simp: bcache_inv_def binit_def buf_ok_def same_block_def empty_buf_def)
qed

lemma binit_view [simp]: "view (binit d t) = d" "pins (binit d t) b = 0" "\<not> locked (binit d t) b"
  "disk (binit d t) = d" "writes (binit d t) = []"
proof -
  have "cached (binit d t) b = None" for b
    unfolding cached_None_iff by (simp add: binit_def empty_buf_def)
  then show "view (binit d t) = d" "pins (binit d t) b = 0" "\<not> locked (binit d t) b"
    by (auto simp: view_def pins_def locked_def binit_def)
qed (simp_all add: binit_def)

lemma unpinned_clean:
  assumes inv: "bcache_inv s" and "pins s b = 0"
  shows "view s b = disk s b"
proof (cases "cached s b")
  case (Some i)
  then have i: "i < NBUF" "b_dev (bufs s ! i) = ROOTDEV" "b_blockno (bufs s ! i) = b"
    by (simp_all only: cached_iff [OF inv])
  have "buf_ok (disk s) (bufs s ! i)" using inv i by (simp add: bcache_inv_def)
  then show ?thesis using Some i assms(2) by (auto simp: view_def pins_def buf_ok_def unat_eq_zero)
qed (simp add: view_def)

lemma busy_full:
  assumes inv: "bcache_inv s" and "\<not> card (busy s) < NBUF" and i: "i < NBUF"
  shows "b_refcnt (bufs s ! i) \<noteq> 0"
proof
  assume z: "b_refcnt (bufs s ! i) = 0"
  have "card (busy s) \<le> card {i. i < NBUF \<and> b_refcnt (bufs s ! i) \<noteq> 0}"
    unfolding busy_image [OF inv] by (rule card_image_le) simp
  also have "\<dots> \<le> card ({..<NBUF} - {i})" by (rule card_mono) (use z in auto)
  also have "\<dots> < NBUF" using i by simp
  finally show False using assms(2) by simp
qed

text \<open>\<open>bread\<close> panics only when every buffer is referenced and none caches the block.\<close>

lemma bread_panic:
  assumes inv: "bcache_inv s" and p: "pins s b = 0" and full: "\<not> card (busy s) < NBUF"
  shows "bread ROOTDEV b s = Panics ''bget: no buffers''"
proof -
  have c: "cached s b = None"
  proof (rule ccontr)
    assume "cached s b \<noteq> None"
    then obtain i where i: "cached s b = Some i" by auto
    then have "i < NBUF" by (simp only: cached_iff [OF inv])
    then show False using busy_full [OF inv full] p i by (simp add: pins_def unat_eq_zero)
  qed
  have "\<forall>i \<in> set (buckets s ! k). b_refcnt (bufs s ! i) \<noteq> 0" if "k < NBUCKET" for k
    using inv that busy_full [OF inv full] unfolding bcache_inv_def buckets_ok_def by blast
  then have "bget_recycle (HASH b) (bucket_order (HASH b)) s = None"
    unfolding bget_recycle_None bucket_order_set by simp
  then show ?thesis using c by (simp add: bread_def bget_def Let_def find_bucket [OF inv])
qed

subsection \<open>Clients of the cache\<close>

text \<open>
  What clients do with buffers, with \<open>cur b\<close> the bytes last stored into block \<open>b\<close>.  A client
  stores only into a buffer it has locked, and releases a changed buffer only after writing
  it to disk or while it stays pinned.
\<close>

inductive bc_reach :: "bcache \<Rightarrow> (nat \<Rightarrow> block) \<Rightarrow> bool" where
  boot: "bc_reach (binit d t) d"
| tick: "bc_reach s cur \<Longrightarrow> bc_reach (s\<lparr>ticks := t\<rparr>) cur"
| get: "bc_reach s cur \<Longrightarrow> \<not> locked s b \<Longrightarrow> pins s b < 2 ^ 32 - 1 \<Longrightarrow> bread ROOTDEV b s = Done (i, s') \<Longrightarrow> bc_reach s' cur"
| store: "bc_reach s cur \<Longrightarrow> locked s b \<Longrightarrow> cached s b = Some i \<Longrightarrow> bc_reach (set_data i d s) (cur(b := d))"
| put: "bc_reach s cur \<Longrightarrow> locked s b \<Longrightarrow> cached s b = Some i \<Longrightarrow> bwrite i s = Done s' \<Longrightarrow> bc_reach s' cur"
| pin: "bc_reach s cur \<Longrightarrow> locked s b \<Longrightarrow> cached s b = Some i \<Longrightarrow> pins s b < 2 ^ 32 - 1 \<Longrightarrow> bc_reach (bpin i s) cur"
| unpin: "bc_reach s cur \<Longrightarrow> locked s b \<Longrightarrow> cached s b = Some i \<Longrightarrow> 1 < pins s b \<Longrightarrow> bc_reach (bunpin i s) cur"
| rel: "bc_reach s cur \<Longrightarrow> locked s b \<Longrightarrow> cached s b = Some i \<Longrightarrow> (pins s b = 1 \<Longrightarrow> cur b = disk s b) \<Longrightarrow>
    brelse i s = Done s' \<Longrightarrow> bc_reach s' cur"

lemma bread_avail:
  assumes "bcache_inv s" and "bread ROOTDEV b s = Done r"
  shows "0 < pins s b \<or> card (busy s) < NBUF"
  using bread_panic [OF assms(1), of b] assms(2) by fastforce

lemma bc_reach_inv: "bc_reach s cur \<Longrightarrow> bcache_inv s \<and> view s = cur"
proof (induction rule: bc_reach.induct)
  case (boot d t)
  then show ?case by (simp add: binit_inv)
next
  case (tick s cur t)
  have c: "cached (s\<lparr>ticks := t\<rparr>) b = cached s b" for b by (simp add: cached_def)
  have "view (s\<lparr>ticks := t\<rparr>) = view s" by (rule ext) (simp add: view_def c split: option.split)
  then show ?case using tick.IH by (simp add: bcache_inv_def)
next
  case (get s cur b i s')
  show ?case
  proof (rule bread_spec [of s b])
    show "bcache_inv s" "\<not> locked s b" "pins s b < 2 ^ 32 - 1" using get by auto
    show "0 < pins s b \<or> card (busy s) < NBUF" using get.IH get.hyps(4) bread_avail by blast
    fix j t assume "bread ROOTDEV b s = Done (j, t)" "bcache_inv t" "view t = view s"
    then show ?thesis using get.IH get.hyps(4) by simp
  qed
next
  case (store s cur b i d)
  then show ?case using set_data_spec(1,3) [of s b i d] by simp
next
  case (put s cur b i s')
  show ?case
  proof (rule bwrite_spec [of s b i])
    fix t assume "bwrite i s = Done t" "bcache_inv t" "view t = view s"
    then show ?thesis using put.IH put.hyps(4) by simp
  qed (use put in auto)
next
  case (pin s cur b i)
  then show ?case using bpin_spec(1,3) [of s b i] by simp
next
  case (unpin s cur b i)
  then show ?case using bunpin_spec(1,3) [of s b i] by simp
next
  case (rel s cur b i s')
  show ?case
  proof (rule brelse_spec [of s b i])
    fix t assume "brelse i s = Done t" "bcache_inv t" "view t = view s"
    then show ?thesis using rel.IH rel.hyps(5) by simp
  qed (use rel in auto)
qed

text \<open>
  C8: The cache never loses or mixes up data.  Whatever clients read, stored, wrote, pinned and
  released before, and however often buffers were recycled, \<open>bread\<close> of a block that is not
  locked returns a locked buffer with the bytes last stored into that block, and no other
  buffer caches the block.  It panics exactly when the block is not referenced and every
  buffer is.
\<close>

theorem bread_returns_latest:
  assumes "bc_reach s cur" and "\<not> locked s b" and "pins s b < 2 ^ 32 - 1"
  shows "if 0 < pins s b \<or> card (busy s) < NBUF
    then \<exists>i s'. bread ROOTDEV b s = Done (i, s') \<and> i < NBUF \<and> b_locked (bufs s' ! i) \<and> b_data (bufs s' ! i) = cur b \<and>
      (\<forall>j < NBUF. b_dev (bufs s' ! j) = ROOTDEV \<and> b_blockno (bufs s' ! j) = b \<longleftrightarrow> j = i)
    else bread ROOTDEV b s = Panics ''bget: no buffers''"
proof -
  have inv: "bcache_inv s" and v: "view s = cur" using bc_reach_inv [OF assms(1)] by auto
  show ?thesis
  proof (cases "0 < pins s b \<or> card (busy s) < NBUF")
    case True
    show ?thesis
    proof (rule bread_spec [OF inv assms(2,3) True])
      fix i s' assume S: "bread ROOTDEV b s = Done (i, s')" "bcache_inv s'" "cached s' b = Some i"
        "b_data (bufs s' ! i) = view s b" "locked s' = (locked s)(b := True)"
      have "i < NBUF \<and> b_dev (bufs s' ! i) = ROOTDEV \<and> b_blockno (bufs s' ! i) = b"
        using S(3) by (simp only: cached_iff [OF S(2)])
      moreover have "locked s' b" using S(5) by simp
      then have "b_locked (bufs s' ! i)" using S(3) by (simp add: locked_def)
      moreover have "j = i" if "j < NBUF" "b_dev (bufs s' ! j) = ROOTDEV \<and> b_blockno (bufs s' ! j) = b" for j
        using that calculation(1) buf_unique [OF S(2), of j i] by simp
      moreover have "b_data (bufs s' ! i) = cur b" using S(4) v by simp
      ultimately show ?thesis unfolding if_P [OF True] using S(1) by blast
    qed
  next
    case False
    then show ?thesis using bread_panic [OF inv] by simp
  qed
qed

theorem bread_returns_latest_witness:
  "\<exists>s i s'. bc_reach s ((\<lambda>_ _. 0)(7 := \<lambda>_. 5)) \<and> bread ROOTDEV 7 s = Done (i, s') \<and> b_data (bufs s' ! i) = (\<lambda>_. 5)"
proof -
  let ?s0 = "binit (\<lambda>_ _. 0) 0"
  have r0: "bc_reach ?s0 (\<lambda>_ _. 0)" by (rule bc_reach.boot)
  have c0: "card (busy ?s0) < NBUF" by (simp add: busy_def NBUF_pos)
  obtain i s1 where A: "bread ROOTDEV 7 ?s0 = Done (i, s1)" "bcache_inv s1" "cached s1 7 = Some i"
    "b_data (bufs s1 ! i) = view ?s0 7" "view s1 = view ?s0" "pins s1 = (pins ?s0)(7 := pins ?s0 7 + 1)"
    "locked s1 = (locked ?s0)(7 := True)" "disk s1 = disk ?s0" "writes s1 = writes ?s0"
    "\<forall>c. 0 < pins ?s0 c \<longrightarrow> cached s1 c = cached ?s0 c"
    by (rule bread_spec [OF binit_inv _ _ disjI2 [OF c0], of 7]) simp_all
  have l1: "locked s1 7" using A(7) by simp
  have "bc_reach s1 (\<lambda>_ _. 0)" using bc_reach.get [OF r0 _ _ A(1)] by simp
  note r2 = bc_reach.store [OF this l1 A(3), of "\<lambda>_. 5"]
  let ?s2 = "set_data i (\<lambda>_. 5) s1"
  note C = set_data_spec [OF A(2) l1 A(3), of "\<lambda>_. 5"]
  have l2: "locked ?s2 7" "cached ?s2 7 = Some i" using C(2,5) l1 A(3) by simp_all
  have p2: "pins ?s2 7 < 2 ^ 32 - 1" using C(4) A(6) by simp
  note P = bpin_spec [OF C(1) l2 p2]
  let ?s3 = "bpin i ?s2"
  have l3: "locked ?s3 7" "cached ?s3 7 = Some i" "pins ?s3 7 = 2" using P(2,4,5) l2 C(4) A(6) by simp_all
  obtain s4 where E: "brelse i ?s3 = Done s4" "bcache_inv s4" "cached s4 = cached ?s3" "view s4 = view ?s3"
    "pins s4 = (pins ?s3)(7 := pins ?s3 7 - 1)" "locked s4 = (locked ?s3)(7 := False)" "disk s4 = disk ?s3" "writes s4 = writes ?s3"
    by (rule brelse_spec [OF P(1) l3(1,2)]) (use l3(3) in simp)
  have r4: "bc_reach s4 ((\<lambda>_ _. 0)(7 := \<lambda>_. 5))"
    using bc_reach.rel [OF bc_reach.pin [OF r2 l2 p2] l3(1,2) _ E(1)] l3(3) by simp
  have "\<not> locked s4 7" "pins s4 7 = 1" using E(5,6) l3(3) by simp_all
  with bread_returns_latest [OF r4, of 7] r4 show ?thesis by auto
qed

end
