(* ===== verification/Log.thy ===== *)
theory Log
  imports Bcache
begin

text \<open>
  The write-ahead log, \<open>kernel/filesystem/log.c\<close>, on top of the buffer cache.  \<open>lh\<close> holds the
  first \<open>log.lh.n\<close> entries of \<open>log.lh.block\<close>.  Every function runs to its end or stops with
  the panic or the wait of the code; a crash is placed between two disk writes with the
  recorded writes of the cache, and loses everything but the disk.
\<close>

abbreviation LOGSIZE :: nat where "LOGSIZE \<equiv> 30"
abbreviation MAXOPBLOCKS :: nat where "MAXOPBLOCKS \<equiv> 10"

record log =
  lg_start :: nat
  lg_size :: nat
  outstanding :: int
  committing :: bool
  lg_dev :: nat
  lh :: "nat list"
  bc :: bcache

subsection \<open>The on-disk header\<close>

primrec put_blocks :: "nat \<Rightarrow> nat list \<Rightarrow> block \<Rightarrow> block" where
  "put_blocks i [] d = d"
| "put_blocks i (b # bs) d = put_blocks (Suc i) bs (put32 (4 * Suc i) (of_nat b) d)"

definition put_header :: "nat list \<Rightarrow> block \<Rightarrow> block" where
  "put_header bs d = put_blocks 0 bs (put32 0 (of_nat (length bs)) d)"

definition get_header :: "block \<Rightarrow> nat list" where
  "get_header d = map (\<lambda>i. unat (get32 d (4 * Suc i))) [0..<nat (sint (get32 d 0))]"

subsection \<open>Operations\<close>

definition read_head :: "log \<Rightarrow> log outcome" where
  "read_head lg =
    obind (bread (lg_dev lg) (lg_start lg) (bc lg)) (\<lambda>(i, s).
    let h = get_header (b_data (bufs s ! i)) in
    if LOGSIZE < length h then Panics ''store past log.lh.block''
    else obind (brelse i s) (\<lambda>s1. Done (lg\<lparr>lh := h, bc := s1\<rparr>)))"

definition write_head :: "log \<Rightarrow> log outcome" where
  "write_head lg =
    obind (bread (lg_dev lg) (lg_start lg) (bc lg)) (\<lambda>(i, s).
    obind (bwrite i (set_data i (put_header (lh lg) (b_data (bufs s ! i))) s)) (\<lambda>s1.
    obind (brelse i s1) (\<lambda>s2. Done (lg\<lparr>bc := s2\<rparr>))))"

primrec install_from :: "nat \<Rightarrow> nat \<Rightarrow> nat \<Rightarrow> nat list \<Rightarrow> bcache \<Rightarrow> bcache outcome" where
  "install_from dev start tail [] s = Done s"
| "install_from dev start tail (b # bs) s =
    obind (bread dev (start + tail + 1) s) (\<lambda>(l, s1).
    obind (bread dev b s1) (\<lambda>(d, s2).
    obind (bwrite d (set_data d (b_data (bufs s2 ! l)) s2)) (\<lambda>s3.
    obind (brelse l (bunpin d s3)) (\<lambda>s4.
    obind (brelse d s4) (install_from dev start (Suc tail) bs)))))"

definition install_trans :: "log \<Rightarrow> log outcome" where
  "install_trans lg = obind (install_from (lg_dev lg) (lg_start lg) 0 (lh lg) (bc lg)) (\<lambda>s. Done (lg\<lparr>bc := s\<rparr>))"

definition recover_from_log :: "log \<Rightarrow> log outcome" where
  "recover_from_log lg =
    obind (read_head lg) (\<lambda>lg1.
    obind (install_trans lg1) (\<lambda>lg2. write_head (lg2\<lparr>lh := []\<rparr>)))"

definition initlog :: "nat \<Rightarrow> nat \<Rightarrow> nat \<Rightarrow> bcache \<Rightarrow> log outcome" where
  "initlog dev logstart nlog s =
    recover_from_log \<lparr>lg_start = logstart, lg_size = nlog, outstanding = 0, committing = False,
      lg_dev = dev, lh = [], bc = s\<rparr>"

definition begin_op :: "log \<Rightarrow> log outcome" where
  "begin_op lg =
    (if committing lg then Sleeps
     else if int (length (lh lg)) + (outstanding lg + 1) * int MAXOPBLOCKS > int LOGSIZE then Sleeps
     else Done (lg\<lparr>outstanding := outstanding lg + 1\<rparr>))"

primrec write_log_from :: "nat \<Rightarrow> nat \<Rightarrow> nat \<Rightarrow> nat list \<Rightarrow> bcache \<Rightarrow> bcache outcome" where
  "write_log_from dev start tail [] s = Done s"
| "write_log_from dev start tail (b # bs) s =
    obind (bread dev (start + tail + 1) s) (\<lambda>(t, s1).
    obind (bread dev b s1) (\<lambda>(f, s2).
    obind (bwrite t (set_data t (b_data (bufs s2 ! f)) s2)) (\<lambda>s3.
    obind (brelse f s3) (\<lambda>s4.
    obind (brelse t s4) (write_log_from dev start (Suc tail) bs)))))"

definition write_log :: "log \<Rightarrow> log outcome" where
  "write_log lg = obind (write_log_from (lg_dev lg) (lg_start lg) 0 (lh lg) (bc lg)) (\<lambda>s. Done (lg\<lparr>bc := s\<rparr>))"

definition commit :: "log \<Rightarrow> log outcome" where
  "commit lg =
    (if lh lg \<noteq> [] then
       obind (write_log lg) (\<lambda>lg1.
       obind (write_head lg1) (\<lambda>lg2.
       obind (install_trans lg2) (\<lambda>lg3. write_head (lg3\<lparr>lh := []\<rparr>))))
     else Done lg)"

definition end_op :: "log \<Rightarrow> log outcome" where
  "end_op lg =
    (let lg1 = lg\<lparr>outstanding := outstanding lg - 1\<rparr> in
     if committing lg then Panics ''log.committing''
     else if outstanding lg1 = 0 then
       obind (commit (lg1\<lparr>committing := True\<rparr>)) (\<lambda>lg2. Done (lg2\<lparr>committing := False\<rparr>))
     else Done lg1)"

definition log_write :: "nat \<Rightarrow> log \<Rightarrow> log outcome" where
  "log_write i lg =
    (let b = b_blockno (bufs (bc lg) ! i) in
     if LOGSIZE \<le> length (lh lg) \<or> int (lg_size lg) - 1 \<le> int (length (lh lg)) then Panics ''too big a transaction''
     else if outstanding lg < 1 then Panics ''log_write outside of trans''
     else if b \<in> set (lh lg) then Done lg
     else Done (lg\<lparr>lh := lh lg @ [b], bc := bpin i (bc lg)\<rparr>))"

subsection \<open>The header round trip\<close>

lemma put_blocks_low: "4 * j + 4 \<le> 4 * Suc i \<Longrightarrow> get32 (put_blocks i bs d) (4 * j) = get32 d (4 * j)"
  by (induction bs arbitrary: i d) (auto simp: get32_put32_other)

lemma put_blocks_nth:
  "k < length bs \<Longrightarrow> get32 (put_blocks i bs d) (4 * Suc (i + k)) = of_nat (bs ! k)"
proof (induction bs arbitrary: i d k)
  case (Cons b bs)
  show ?case
  proof (cases k)
    case 0
    then show ?thesis using put_blocks_low [of "Suc i" "Suc i"] by simp
  next
    case (Suc m)
    then show ?thesis using Cons.IH [of m "Suc i"] Cons.prems by simp
  qed
qed simp

lemma get_put_header:
  assumes "length bs < 2 ^ 31" and "\<And>b. b \<in> set bs \<Longrightarrow> b < 2 ^ 32"
  shows "get_header (put_header bs d) = bs"
proof -
  have "get32 (put_header bs d) 0 = of_nat (length bs)"
    using put_blocks_low [of 0 0 bs] by (simp add: put_header_def)
  moreover have "nat (sint (of_nat (length bs) :: u32)) = length bs"
    using assms(1) by (simp add: signed_of_nat signed_take_bit_int_eq_self)
  ultimately have n: "nat (sint (get32 (put_header bs d) 0)) = length bs" by simp
  show ?thesis
  proof (rule nth_equalityI)
    show "length (get_header (put_header bs d)) = length bs" by (simp add: get_header_def n)
    fix k assume "k < length (get_header (put_header bs d))"
    then have k: "k < length bs" by (simp add: get_header_def n)
    then have "get_header (put_header bs d) ! k = unat (get32 (put_header bs d) (4 * Suc k))"
      by (simp add: get_header_def n)
    then show "get_header (put_header bs d) ! k = bs ! k"
      using put_blocks_nth [OF k, of 0 "put32 0 (of_nat (length bs)) d"] assms(2) [OF nth_mem [OF k]]
        of_nat_inverse [OF refl, of "bs ! k", where ?'a = 32]
      by (simp add: put_header_def)
  qed
qed

subsection \<open>Writes to the disk\<close>

definition apply_writes :: "(nat \<Rightarrow> block) \<Rightarrow> (nat \<times> block) list \<Rightarrow> nat \<Rightarrow> block" where
  "apply_writes d ws = fold (\<lambda>(b, x) d. d(b := x)) ws d"

lemma apply_writes_simps [simp]:
  "apply_writes d [] = d" "apply_writes d ((b, x) # ws) = apply_writes (d(b := x)) ws"
  "apply_writes d (ws @ vs) = apply_writes (apply_writes d ws) vs"
  by (simp_all add: apply_writes_def)

lemma apply_writes_other: "b \<notin> fst ` set ws \<Longrightarrow> apply_writes d ws b = d b"
  by (induction ws arbitrary: d) auto

lemma apply_writes_nth:
  "distinct (map fst ws) \<Longrightarrow> k < length ws \<Longrightarrow> apply_writes d ws (fst (ws ! k)) = snd (ws ! k)"
proof (induction ws arbitrary: d k)
  case (Cons w ws)
  obtain b x where w: "w = (b, x)" by (cases w)
  show ?case
  proof (cases k)
    case 0
    then show ?thesis using Cons.prems w by (simp add: apply_writes_other)
  next
    case (Suc m)
    then show ?thesis using Cons.IH [of m] Cons.prems w by simp
  qed
qed simp

definition booting :: "bcache \<Rightarrow> bool" where
  "booting s \<longleftrightarrow> bcache_inv s \<and> (\<forall>b. \<not> locked s b)"

text \<open>The state between two operations of the log: nothing locked, nothing near wrapping.\<close>

definition quiet :: "bcache \<Rightarrow> bool" where
  "quiet s \<longleftrightarrow> bcache_inv s \<and> (\<forall>b. \<not> locked s b) \<and> (\<forall>b. pins s b < 2 ^ 32 - 2)"

lemma busy_fun: "busy s = {b. 0 < pins s b}"
  by (simp add: busy_def)

lemma quiet_clean: "quiet s \<Longrightarrow> pins s b = 0 \<Longrightarrow> view s b = disk s b"
  unfolding quiet_def by (auto intro: unpinned_clean)

text \<open>One round of \<open>write_log\<close>: the cached block \<open>b\<close> goes to log block \<open>t\<close>.\<close>

lemma write_log_round:
  assumes q: "quiet s" and cap: "card (busy s) < NBUF" and t: "pins s t = 0" and b: "0 < pins s b"
  obtains s' where "obind (bread ROOTDEV t s) (\<lambda>(t, s1).
      obind (bread ROOTDEV b s1) (\<lambda>(f, s2).
      obind (bwrite t (set_data t (b_data (bufs s2 ! f)) s2)) (\<lambda>s3.
      obind (brelse f s3) (\<lambda>s4. obind (brelse t s4) k)))) = k s'"
    and "quiet s'" and "pins s' = pins s" and "view s' = (view s)(t := view s b)"
    and "disk s' = (disk s)(t := view s b)" and "writes s' = writes s @ [(t, view s b)]"
proof -
  have inv: "bcache_inv s" and un: "\<And>c. \<not> locked s c" and few: "\<And>c. pins s c < 2 ^ 32 - 2"
    using q by (auto simp: quiet_def)
  have ne: "t \<noteq> b" using t b by auto
  have few1: "pins s t < 2 ^ 32 - 1" using few [of t] by linarith
  obtain i s1 where A: "bread ROOTDEV t s = Done (i, s1)" "bcache_inv s1" "cached s1 t = Some i"
    "b_data (bufs s1 ! i) = view s t" "view s1 = view s" "pins s1 = (pins s)(t := pins s t + 1)"
    "locked s1 = (locked s)(t := True)" "disk s1 = disk s" "writes s1 = writes s"
    "\<forall>c. 0 < pins s c \<longrightarrow> cached s1 c = cached s c"
    by (rule bread_spec [OF inv un few1 disjI2 [OF cap]])
  have b1: "0 < pins s1 b" "\<not> locked s1 b" "pins s1 b < 2 ^ 32 - 1"
    using A(6,7) ne b un few [of b] by simp_all
  obtain j s2 where B: "bread ROOTDEV b s1 = Done (j, s2)" "bcache_inv s2" "cached s2 b = Some j"
    "b_data (bufs s2 ! j) = view s1 b" "view s2 = view s1" "pins s2 = (pins s1)(b := pins s1 b + 1)"
    "locked s2 = (locked s1)(b := True)" "disk s2 = disk s1" "writes s2 = writes s1"
    "\<forall>c. 0 < pins s1 c \<longrightarrow> cached s2 c = cached s1 c"
    by (rule bread_spec [OF A(2) b1(2,3) disjI1 [OF b1(1)]])
  have ct: "cached s2 t = Some i" using B(10) A(3,6) by simp
  have lt: "locked s2 t" using A(7) B(7) by simp
  let ?s3 = "set_data i (view s b) s2"
  note C = set_data_spec [OF B(2) lt ct, of "view s b"]
  have "locked ?s3 t" "cached ?s3 t = Some i" using C(2,5) lt ct by simp_all
  then obtain s4 where D: "bwrite i ?s3 = Done s4" "bcache_inv s4" "cached s4 = cached ?s3" "view s4 = view ?s3"
    "pins s4 = pins ?s3" "locked s4 = locked ?s3" "disk s4 = (disk ?s3)(t := view ?s3 t)"
    "writes s4 = writes ?s3 @ [(t, view ?s3 t)]" "bufs s4 = bufs ?s3"
    by (rule bwrite_spec [OF C(1)])
  have "locked s4 b" "cached s4 b = Some j" "pins s4 b = 1 \<Longrightarrow> view s4 b = disk s4 b"
    using D(3-6) C(2-5) B(3,6,7) b1(1) by simp_all
  then obtain s5 where E: "brelse j s4 = Done s5" "bcache_inv s5" "cached s5 = cached s4" "view s5 = view s4"
    "pins s5 = (pins s4)(b := pins s4 b - 1)" "locked s5 = (locked s4)(b := False)"
    "disk s5 = disk s4" "writes s5 = writes s4"
    by (rule brelse_spec [OF D(2)])
  have "locked s5 t" "cached s5 t = Some i" "view s5 t = disk s5 t"
    using E(3-7) D(3-7) C(2-6) ct lt ne by simp_all
  then obtain s6 where F: "brelse i s5 = Done s6" "bcache_inv s6" "cached s6 = cached s5" "view s6 = view s5"
    "pins s6 = (pins s5)(t := pins s5 t - 1)" "locked s6 = (locked s5)(t := False)"
    "disk s6 = disk s5" "writes s6 = writes s5"
    by (rule brelse_spec [OF E(2)])
  have pins: "pins s6 = pins s"
    unfolding F(5) E(5) D(5) C(4) B(6) A(6) using ne t by (auto simp: fun_eq_iff)
  have lock: "locked s6 = locked s"
    unfolding F(6) E(6) D(6) C(5) B(7) A(7) using un ne by (auto simp: fun_eq_iff)
  have "quiet s6" using F(2) un few by (simp add: quiet_def pins lock)
  moreover have "view s6 = (view s)(t := view s b)" "disk s6 = (disk s)(t := view s b)"
    "writes s6 = writes s @ [(t, view s b)]"
    unfolding F(4,7,8) E(4,7,8) D(4,7,8) C(3,6,7) B(5,8,9) A(5,8,9) by simp_all
  moreover have "b_data (bufs s2 ! j) = view s b" using B(4) A(5) by simp
  ultimately show ?thesis using that [of s6] pins by (simp add: A(1) B(1) D(1) E(1) F(1))
qed

text \<open>One round of \<open>install_trans\<close> in \<open>commit\<close>: log block \<open>t\<close> goes to the pinned block \<open>b\<close>.\<close>

lemma install_round:
  assumes q: "quiet s" and cap: "card (busy s) < NBUF" and t: "pins s t = 0" and b: "0 < pins s b"
  obtains s' where "obind (bread ROOTDEV t s) (\<lambda>(l, s1).
      obind (bread ROOTDEV b s1) (\<lambda>(d, s2).
      obind (bwrite d (set_data d (b_data (bufs s2 ! l)) s2)) (\<lambda>s3.
      obind (brelse l (bunpin d s3)) (\<lambda>s4. obind (brelse d s4) k)))) = k s'"
    and "quiet s'" and "pins s' = (pins s)(b := pins s b - 1)" and "view s' = (view s)(b := view s t)"
    and "disk s' = (disk s)(b := view s t)" and "writes s' = writes s @ [(b, view s t)]"
proof -
  have inv: "bcache_inv s" and un: "\<And>c. \<not> locked s c" and few: "\<And>c. pins s c < 2 ^ 32 - 2"
    using q by (auto simp: quiet_def)
  have ne: "t \<noteq> b" using t b by auto
  have few1: "pins s t < 2 ^ 32 - 1" using few [of t] by linarith
  obtain i s1 where A: "bread ROOTDEV t s = Done (i, s1)" "bcache_inv s1" "cached s1 t = Some i"
    "b_data (bufs s1 ! i) = view s t" "view s1 = view s" "pins s1 = (pins s)(t := pins s t + 1)"
    "locked s1 = (locked s)(t := True)" "disk s1 = disk s" "writes s1 = writes s"
    "\<forall>c. 0 < pins s c \<longrightarrow> cached s1 c = cached s c"
    by (rule bread_spec [OF inv un few1 disjI2 [OF cap]])
  have b1: "0 < pins s1 b" "\<not> locked s1 b" "pins s1 b < 2 ^ 32 - 1"
    using A(6,7) ne b un few [of b] by simp_all
  obtain j s2 where B: "bread ROOTDEV b s1 = Done (j, s2)" "bcache_inv s2" "cached s2 b = Some j"
    "b_data (bufs s2 ! j) = view s1 b" "view s2 = view s1" "pins s2 = (pins s1)(b := pins s1 b + 1)"
    "locked s2 = (locked s1)(b := True)" "disk s2 = disk s1" "writes s2 = writes s1"
    "\<forall>c. 0 < pins s1 c \<longrightarrow> cached s2 c = cached s1 c"
    by (rule bread_spec [OF A(2) b1(2,3) disjI1 [OF b1(1)]])
  have ct: "cached s2 t = Some i" using B(10) A(3,6) by simp
  have lt: "locked s2 t" and lb: "locked s2 b" using A(7) B(7) by simp_all
  have dt: "b_data (bufs s2 ! i) = view s t"
    using locked_pinned [OF B(2) lt] ct B(5) A(5) by (metis option.inject)
  let ?s3 = "set_data j (view s t) s2"
  note C = set_data_spec [OF B(2) lb B(3), of "view s t"]
  have "locked ?s3 b" "cached ?s3 b = Some j" using C(2,5) lb B(3) by simp_all
  then obtain s4 where D: "bwrite j ?s3 = Done s4" "bcache_inv s4" "cached s4 = cached ?s3" "view s4 = view ?s3"
    "pins s4 = pins ?s3" "locked s4 = locked ?s3" "disk s4 = (disk ?s3)(b := view ?s3 b)"
    "writes s4 = writes ?s3 @ [(b, view ?s3 b)]" "bufs s4 = bufs ?s3"
    by (rule bwrite_spec [OF C(1)])
  have "locked s4 b" "cached s4 b = Some j" "1 < pins s4 b"
    using D(3-6) C(2-5) B(3,6,7) b1(1) by simp_all
  note U = bunpin_spec [OF D(2) this]
  let ?s5 = "bunpin j s4"
  have "locked ?s5 t" "cached ?s5 t = Some i" "view ?s5 t = disk ?s5 t"
    using U(2,3,5,6) D(3-7) C(2-6) ct lt ne B(5,8) A(5,8) quiet_clean [OF q t] by simp_all
  then obtain s6 where E: "brelse i ?s5 = Done s6" "bcache_inv s6" "cached s6 = cached ?s5" "view s6 = view ?s5"
    "pins s6 = (pins ?s5)(t := pins ?s5 t - 1)" "locked s6 = (locked ?s5)(t := False)"
    "disk s6 = disk ?s5" "writes s6 = writes ?s5"
    by (rule brelse_spec [OF U(1)])
  have "locked s6 b" "cached s6 b = Some j" "view s6 b = disk s6 b"
    using E(3-7) U(2-6) D(3-7) C(2-6) B(3) lb ne by simp_all
  then obtain s7 where F: "brelse j s6 = Done s7" "bcache_inv s7" "cached s7 = cached s6" "view s7 = view s6"
    "pins s7 = (pins s6)(b := pins s6 b - 1)" "locked s7 = (locked s6)(b := False)"
    "disk s7 = disk s6" "writes s7 = writes s6"
    by (rule brelse_spec [OF E(2)])
  have pins: "pins s7 = (pins s)(b := pins s b - 1)"
    unfolding F(5) E(5) U(4) D(5) C(4) B(6) A(6) using ne t by (auto simp: fun_eq_iff)
  have lock: "locked s7 = locked s"
    unfolding F(6) E(6) U(5) D(6) C(5) B(7) A(7) using un ne by (auto simp: fun_eq_iff)
  have "pins s c - 1 < 2 ^ 32 - 2" for c using few [of c] by linarith
  then have "quiet s7" using F(2) un few by (simp add: quiet_def pins lock)
  moreover have "view s7 = (view s)(b := view s t)" "disk s7 = (disk s)(b := view s t)"
    "writes s7 = writes s @ [(b, view s t)]"
    unfolding F(4,7,8) E(4,7,8) U(3,6,7) D(4,7,8) C(3,6,7) B(5,8,9) A(5,8,9) by simp_all
  ultimately show ?thesis using that [of s7] pins dt by (simp add: A(1) B(1) D(1) E(1) F(1))
qed

lemma write_head_booting:
  assumes q: "booting s" and cap: "card (busy s) < NBUF" and h: "pins s (lg_start lg) = 0"
    and lg: "bc lg = s" "lg_dev lg = ROOTDEV"
  obtains s' where "write_head lg = Done (lg\<lparr>bc := s'\<rparr>)" and "booting s'" and "pins s' = pins s"
    and "view s' = (view s)(lg_start lg := put_header (lh lg) (view s (lg_start lg)))"
    and "disk s' = (disk s)(lg_start lg := put_header (lh lg) (view s (lg_start lg)))"
    and "writes s' = writes s @ [(lg_start lg, put_header (lh lg) (view s (lg_start lg)))]"
proof -
  let ?t = "lg_start lg"
  have inv: "bcache_inv s" and un: "\<And>c. \<not> locked s c" using q by (auto simp: booting_def)
  have few1: "pins s ?t < 2 ^ 32 - 1" using h by simp
  obtain i s1 where A: "bread ROOTDEV ?t s = Done (i, s1)" "bcache_inv s1" "cached s1 ?t = Some i"
    "b_data (bufs s1 ! i) = view s ?t" "view s1 = view s" "pins s1 = (pins s)(?t := pins s ?t + 1)"
    "locked s1 = (locked s)(?t := True)" "disk s1 = disk s" "writes s1 = writes s"
    "\<forall>c. 0 < pins s c \<longrightarrow> cached s1 c = cached s c"
    by (rule bread_spec [OF inv un few1 disjI2 [OF cap]])
  have lt: "locked s1 ?t" using A(7) by simp
  let ?d = "put_header (lh lg) (view s ?t)"
  note C = set_data_spec [OF A(2) lt A(3), of ?d]
  have "locked (set_data i ?d s1) ?t" "cached (set_data i ?d s1) ?t = Some i" using C(2,5) lt A(3) by simp_all
  then obtain s4 where D: "bwrite i (set_data i ?d s1) = Done s4" "bcache_inv s4" "cached s4 = cached (set_data i ?d s1)"
    "view s4 = view (set_data i ?d s1)" "pins s4 = pins (set_data i ?d s1)" "locked s4 = locked (set_data i ?d s1)"
    "disk s4 = (disk (set_data i ?d s1))(?t := view (set_data i ?d s1) ?t)"
    "writes s4 = writes (set_data i ?d s1) @ [(?t, view (set_data i ?d s1) ?t)]" "bufs s4 = bufs (set_data i ?d s1)"
    by (rule bwrite_spec [OF C(1)])
  have "locked s4 ?t" "cached s4 ?t = Some i" "view s4 ?t = disk s4 ?t"
    using D(3-7) C(2-6) lt A(3) by simp_all
  then obtain s5 where E: "brelse i s4 = Done s5" "bcache_inv s5" "cached s5 = cached s4" "view s5 = view s4"
    "pins s5 = (pins s4)(?t := pins s4 ?t - 1)" "locked s5 = (locked s4)(?t := False)"
    "disk s5 = disk s4" "writes s5 = writes s4"
    by (rule brelse_spec [OF D(2)])
  have pins: "pins s5 = pins s" unfolding E(5) D(5) C(4) A(6) by (auto simp: fun_eq_iff)
  have lock: "locked s5 = locked s" unfolding E(6) D(6) C(5) A(7) using un by (auto simp: fun_eq_iff)
  have "booting s5" using E(2) un by (simp add: booting_def lock)
  moreover have "view s5 = (view s)(?t := ?d)" "disk s5 = (disk s)(?t := ?d)" "writes s5 = writes s @ [(?t, ?d)]"
    unfolding E(4,7,8) D(4,7,8) C(3,6,7) A(5,8,9) by simp_all
  ultimately show ?thesis using that [of s5] pins by (simp add: write_head_def lg A(1,4) D(1) E(1))
qed

lemma write_head_spec:
  assumes q: "quiet s" and cap: "card (busy s) < NBUF" and h: "pins s (lg_start lg) = 0"
    and lg: "bc lg = s" "lg_dev lg = ROOTDEV"
  obtains s' where "write_head lg = Done (lg\<lparr>bc := s'\<rparr>)" and "quiet s'" and "pins s' = pins s"
    and "view s' = (view s)(lg_start lg := put_header (lh lg) (view s (lg_start lg)))"
    and "disk s' = (disk s)(lg_start lg := put_header (lh lg) (view s (lg_start lg)))"
    and "writes s' = writes s @ [(lg_start lg, put_header (lh lg) (view s (lg_start lg)))]"
proof -
  have "booting s" using q by (simp add: quiet_def booting_def)
  from write_head_booting [OF this cap h lg] obtain s' where
    S: "write_head lg = Done (lg\<lparr>bc := s'\<rparr>)" "booting s'" "pins s' = pins s"
    "view s' = (view s)(lg_start lg := put_header (lh lg) (view s (lg_start lg)))"
    "disk s' = (disk s)(lg_start lg := put_header (lh lg) (view s (lg_start lg)))"
    "writes s' = writes s @ [(lg_start lg, put_header (lh lg) (view s (lg_start lg)))]" .
  then have "quiet s'" using q by (simp add: quiet_def booting_def)
  with S that show ?thesis by blast
qed

subsection \<open>The loops over the log\<close>

text \<open>The writes \<open>write_log\<close> and \<open>install_trans\<close> issue.\<close>

primrec log_copies :: "nat \<Rightarrow> (nat \<Rightarrow> block) \<Rightarrow> nat list \<Rightarrow> (nat \<times> block) list" where
  "log_copies t v [] = []"
| "log_copies t v (b # bs) = (t, v b) # log_copies (Suc t) v bs"

primrec installs :: "nat \<Rightarrow> (nat \<Rightarrow> block) \<Rightarrow> nat list \<Rightarrow> (nat \<times> block) list" where
  "installs t v [] = []"
| "installs t v (b # bs) = (b, v t) # installs (Suc t) v bs"

lemma log_copies_cong: "(\<And>b. b \<in> set bs \<Longrightarrow> v b = v' b) \<Longrightarrow> log_copies t v bs = log_copies t v' bs"
  by (induction bs arbitrary: t) auto

lemma installs_cong:
  "(\<And>k. k < length bs \<Longrightarrow> v (t + k) = v' (t + k)) \<Longrightarrow> installs t v bs = installs t v' bs"
proof (induction bs arbitrary: t)
  case (Cons b bs)
  have "v (Suc t + k) = v' (Suc t + k)" if "k < length bs" for k using Cons.prems [of "Suc k"] that by simp
  then show ?case using Cons.IH [of "Suc t"] Cons.prems [of 0] by simp
qed simp

lemma length_log_writes [simp]:
  "length (log_copies t v bs) = length bs" "length (installs t v bs) = length bs"
  by (induction bs arbitrary: t) auto

lemma log_copies_nth: "k < length bs \<Longrightarrow> log_copies t v bs ! k = (t + k, v (bs ! k))"
  by (induction bs arbitrary: t k) (auto simp: nth_Cons split: nat.splits)

lemma installs_nth: "k < length bs \<Longrightarrow> installs t v bs ! k = (bs ! k, v (t + k))"
  by (induction bs arbitrary: t k) (auto simp: nth_Cons split: nat.splits)

lemma map_fst_log_copies: "map fst (log_copies t v bs) = [t..<t + length bs]"
  by (rule nth_equalityI) (simp_all add: log_copies_nth)

lemma map_fst_installs: "map fst (installs t v bs) = bs"
  by (rule nth_equalityI) (simp_all add: installs_nth)

lemma finite_busy: "bcache_inv s \<Longrightarrow> finite (busy s)"
  by (simp add: busy_image)

lemma write_log_from_spec:
  assumes "quiet s" and "card (busy s) < NBUF"
    and "\<And>k. k < length bs \<Longrightarrow> pins s (st + tail + 1 + k) = 0" and "\<And>b. b \<in> set bs \<Longrightarrow> 0 < pins s b"
  shows "\<exists>s'. write_log_from ROOTDEV st tail bs s = Done s' \<and> quiet s' \<and> pins s' = pins s \<and>
    view s' = apply_writes (view s) (log_copies (st + tail + 1) (view s) bs) \<and>
    disk s' = apply_writes (disk s) (log_copies (st + tail + 1) (view s) bs) \<and>
    writes s' = writes s @ log_copies (st + tail + 1) (view s) bs"
  using assms
proof (induction bs arbitrary: tail s)
  case (Cons b bs)
  let ?t = "st + tail + 1"
  have t: "pins s ?t = 0" and b: "0 < pins s b" using Cons.prems(3) [of 0] Cons.prems(4) by auto
  obtain s1 where S: "write_log_from ROOTDEV st tail (b # bs) s = write_log_from ROOTDEV st (Suc tail) bs s1"
    "quiet s1" "pins s1 = pins s" "view s1 = (view s)(?t := view s b)"
    "disk s1 = (disk s)(?t := view s b)" "writes s1 = writes s @ [(?t, view s b)]"
    unfolding write_log_from.simps by (rule write_log_round [OF Cons.prems(1,2) t b])
  have "pins s1 (st + Suc tail + 1 + k) = 0" if "k < length bs" for k
    using Cons.prems(3) [of "Suc k"] that S(3) by simp
  moreover have "card (busy s1) < NBUF" "\<And>b. b \<in> set bs \<Longrightarrow> 0 < pins s1 b"
    using Cons.prems(2,4) S(3) by (simp_all add: busy_def)
  ultimately obtain s' where IH: "write_log_from ROOTDEV st (Suc tail) bs s1 = Done s'" "quiet s'" "pins s' = pins s1"
    "view s' = apply_writes (view s1) (log_copies (st + Suc tail + 1) (view s1) bs)"
    "disk s' = apply_writes (disk s1) (log_copies (st + Suc tail + 1) (view s1) bs)"
    "writes s' = writes s1 @ log_copies (st + Suc tail + 1) (view s1) bs"
    using Cons.IH [OF S(2)] by blast
  have "view s1 c = view s c" if "c \<in> set bs" for c
    using that Cons.prems(4) [of c] t S(4) by auto
  then have "log_copies (st + Suc tail + 1) (view s1) bs = log_copies (st + Suc tail + 1) (view s) bs"
    by (rule log_copies_cong)
  then show ?case using IH S by simp
qed simp

lemma install_from_spec:
  assumes "quiet s" and "card (busy s) < NBUF" and "distinct bs"
    and "\<And>k. k < length bs \<Longrightarrow> pins s (st + tail + 1 + k) = 0" and "\<And>b. b \<in> set bs \<Longrightarrow> 0 < pins s b"
  shows "\<exists>s'. install_from ROOTDEV st tail bs s = Done s' \<and> quiet s' \<and>
    pins s' = (\<lambda>c. if c \<in> set bs then pins s c - 1 else pins s c) \<and>
    view s' = apply_writes (view s) (installs (st + tail + 1) (view s) bs) \<and>
    disk s' = apply_writes (disk s) (installs (st + tail + 1) (view s) bs) \<and>
    writes s' = writes s @ installs (st + tail + 1) (view s) bs"
  using assms
proof (induction bs arbitrary: tail s)
  case (Cons b bs)
  let ?t = "st + tail + 1"
  have t: "pins s ?t = 0" and b: "0 < pins s b" using Cons.prems(4) [of 0] Cons.prems(5) by auto
  obtain s1 where S: "install_from ROOTDEV st tail (b # bs) s = install_from ROOTDEV st (Suc tail) bs s1"
    "quiet s1" "pins s1 = (pins s)(b := pins s b - 1)" "view s1 = (view s)(b := view s ?t)"
    "disk s1 = (disk s)(b := view s ?t)" "writes s1 = writes s @ [(b, view s ?t)]"
    unfolding install_from.simps by (rule install_round [OF Cons.prems(1,2) t b])
  have z: "pins s (st + Suc tail + 1 + k) = 0" if "k < length bs" for k
    using Cons.prems(4) [of "Suc k"] that by simp
  have "pins s1 (st + Suc tail + 1 + k) = 0" if "k < length bs" for k using z [OF that] S(3) by auto
  moreover have "busy s1 \<subseteq> busy s" using S(3) by (auto simp: busy_def)
  then have "card (busy s1) < NBUF"
    using Cons.prems(1,2) card_mono [OF finite_busy, of s "busy s1"] by (simp add: quiet_def)
  moreover have "distinct bs" "\<And>c. c \<in> set bs \<Longrightarrow> 0 < pins s1 c" using Cons.prems(3,5) S(3) by auto
  ultimately obtain s' where IH: "install_from ROOTDEV st (Suc tail) bs s1 = Done s'" "quiet s'"
    "pins s' = (\<lambda>c. if c \<in> set bs then pins s1 c - 1 else pins s1 c)"
    "view s' = apply_writes (view s1) (installs (st + Suc tail + 1) (view s1) bs)"
    "disk s' = apply_writes (disk s1) (installs (st + Suc tail + 1) (view s1) bs)"
    "writes s' = writes s1 @ installs (st + Suc tail + 1) (view s1) bs"
    using Cons.IH [OF S(2)] by blast
  have "view s1 (st + Suc tail + 1 + k) = view s (st + Suc tail + 1 + k)" if "k < length bs" for k
    using z [OF that] b S(4) by auto
  then have "installs (st + Suc tail + 1) (view s1) bs = installs (st + Suc tail + 1) (view s) bs"
    by (rule installs_cong)
  moreover have "pins s' = (\<lambda>c. if c \<in> set (b # bs) then pins s c - 1 else pins s c)"
    unfolding IH(3) S(3) using Cons.prems(3) by (auto simp: fun_eq_iff)
  ultimately show ?case using IH S by simp
qed simp

subsection \<open>Commit\<close>

definition commit_writes :: "nat \<Rightarrow> (nat \<Rightarrow> block) \<Rightarrow> nat list \<Rightarrow> (nat \<times> block) list" where
  "commit_writes st v bs =
    log_copies (Suc st) v bs @ [(st, put_header bs (v st))] @ map (\<lambda>b. (b, v b)) bs @
    [(st, put_header [] (put_header bs (v st)))]"

text \<open>The log's blocks are outside the transaction.\<close>

definition log_ok :: "nat \<Rightarrow> nat list \<Rightarrow> bool" where
  "log_ok st bs \<longleftrightarrow> distinct bs \<and> (\<forall>b \<in> set bs. b < st \<or> st + length bs < b) \<and> (\<forall>b \<in> set bs. b < 2 ^ 32)"

lemma commit_spec:
  assumes q: "quiet (bc lg)" and cap: "card (busy (bc lg)) < NBUF" and ne: "lh lg \<noteq> []"
    and dev: "lg_dev lg = ROOTDEV" and ok: "log_ok (lg_start lg) (lh lg)"
    and pinned: "\<And>b. b \<in> set (lh lg) \<Longrightarrow> 0 < pins (bc lg) b"
    and unp: "\<And>k. k \<le> length (lh lg) \<Longrightarrow> pins (bc lg) (lg_start lg + k) = 0"
  obtains s' where "commit lg = Done (lg\<lparr>lh := [], bc := s'\<rparr>)" and "quiet s'"
    and "pins s' = (\<lambda>c. if c \<in> set (lh lg) then pins (bc lg) c - 1 else pins (bc lg) c)"
    and "view s' = apply_writes (view (bc lg)) (commit_writes (lg_start lg) (view (bc lg)) (lh lg))"
    and "disk s' = apply_writes (disk (bc lg)) (commit_writes (lg_start lg) (view (bc lg)) (lh lg))"
    and "writes s' = writes (bc lg) @ commit_writes (lg_start lg) (view (bc lg)) (lh lg)"
proof -
  let ?s = "bc lg" and ?st = "lg_start lg" and ?bs = "lh lg"
  let ?v = "view ?s"
  let ?L = "log_copies (?st + 0 + 1) ?v ?bs"
  have unp1: "pins ?s (?st + 0 + 1 + k) = 0" if "k < length ?bs" for k using unp [of "Suc k"] that by simp
  obtain s1 where W: "write_log_from ROOTDEV ?st 0 ?bs ?s = Done s1" "quiet s1" "pins s1 = pins ?s"
    "view s1 = apply_writes ?v ?L" "disk s1 = apply_writes (disk ?s) ?L" "writes s1 = writes ?s @ ?L"
    using write_log_from_spec [OF q cap unp1 pinned] by blast
  have outL: "?st \<notin> fst ` set ?L" "\<And>b. b \<in> set ?bs \<Longrightarrow> b \<notin> fst ` set ?L"
    using ok unfolding set_map [symmetric] map_fst_log_copies by (auto simp: log_ok_def)
  let ?lg1 = "lg\<lparr>bc := s1\<rparr>"
  have c1: "card (busy s1) < NBUF" "pins s1 (lg_start ?lg1) = 0"
    using cap unp [of 0] W(3) by (simp_all add: busy_def)
  obtain s2 where H: "write_head ?lg1 = Done (?lg1\<lparr>bc := s2\<rparr>)" "quiet s2" "pins s2 = pins s1"
    "view s2 = (view s1)(lg_start ?lg1 := put_header (lh ?lg1) (view s1 (lg_start ?lg1)))"
    "disk s2 = (disk s1)(lg_start ?lg1 := put_header (lh ?lg1) (view s1 (lg_start ?lg1)))"
    "writes s2 = writes s1 @ [(lg_start ?lg1, put_header (lh ?lg1) (view s1 (lg_start ?lg1)))]"
    by (rule write_head_spec [OF W(2) c1]) (simp_all add: dev)
  have head: "view s1 ?st = ?v ?st" using apply_writes_other [OF outL(1)] W(4) by simp
  let ?I = "installs (?st + 0 + 1) (view s2) ?bs"
  have I: "?I = map (\<lambda>b. (b, ?v b)) ?bs"
  proof (rule nth_equalityI)
    fix k assume "k < length ?I"
    then have k: "k < length ?bs" by simp
    have "distinct (map fst ?L)" by (simp only: map_fst_log_copies distinct_upt)
    from apply_writes_nth [OF this, of k ?v] k
    have "view s1 (?st + 0 + 1 + k) = ?v (?bs ! k)" using W(4) by (simp add: log_copies_nth)
    then show "?I ! k = map (\<lambda>b. (b, ?v b)) ?bs ! k" using k H(4) by (simp add: installs_nth)
  qed simp
  have d: "distinct ?bs" using ok by (simp add: log_ok_def)
  have unp2: "pins s2 (?st + 0 + 1 + k) = 0" if "k < length ?bs" for k using unp1 [OF that] H(3) W(3) by simp
  have pin2: "0 < pins s2 b" if "b \<in> set ?bs" for b using pinned [OF that] H(3) W(3) by simp
  have cap2: "card (busy s2) < NBUF" using cap H(3) W(3) by (simp add: busy_def)
  obtain s3 where J: "install_from ROOTDEV ?st 0 ?bs s2 = Done s3" "quiet s3"
    "pins s3 = (\<lambda>c. if c \<in> set ?bs then pins s2 c - 1 else pins s2 c)"
    "view s3 = apply_writes (view s2) ?I" "disk s3 = apply_writes (disk s2) ?I" "writes s3 = writes s2 @ ?I"
    using install_from_spec [OF H(2) cap2 d unp2 pin2] by blast
  let ?lg3 = "lg\<lparr>bc := s3, lh := []\<rparr>"
  have "busy s3 \<subseteq> busy s2" using J(3) by (auto simp: busy_def split: if_splits)
  then have c3: "card (busy s3) < NBUF" "pins s3 (lg_start ?lg3) = 0"
    using cap2 card_mono [OF finite_busy, of s2 "busy s3"] H(2,3) unp [of 0] J(3) W(3) by (auto simp: quiet_def)
  obtain s4 where K: "write_head ?lg3 = Done (?lg3\<lparr>bc := s4\<rparr>)" "quiet s4" "pins s4 = pins s3"
    "view s4 = (view s3)(lg_start ?lg3 := put_header (lh ?lg3) (view s3 (lg_start ?lg3)))"
    "disk s4 = (disk s3)(lg_start ?lg3 := put_header (lh ?lg3) (view s3 (lg_start ?lg3)))"
    "writes s4 = writes s3 @ [(lg_start ?lg3, put_header (lh ?lg3) (view s3 (lg_start ?lg3)))]"
    by (rule write_head_spec [OF J(2) c3]) (simp_all add: dev)
  have "?st \<notin> fst ` set ?I" unfolding I using ok by (auto simp: log_ok_def)
  then have head3: "view s3 ?st = put_header ?bs (?v ?st)" using J(4) H(4) head by (simp add: apply_writes_other)
  have step: "commit lg = Done (lg\<lparr>lh := [], bc := s4\<rparr>)"
    using ne W(1) H(1) J(1) K(1) by (simp add: commit_def write_log_def install_trans_def dev)
  show ?thesis
  proof (rule that [OF step K(2)])
    show "pins s4 = (\<lambda>c. if c \<in> set ?bs then pins ?s c - 1 else pins ?s c)"
      unfolding K(3) J(3) H(3) W(3) ..
    show "view s4 = apply_writes ?v (commit_writes ?st ?v ?bs)"
      using K(4) J(4) H(4) W(4) head head3 I by (simp add: commit_writes_def)
    show "disk s4 = apply_writes (disk ?s) (commit_writes ?st ?v ?bs)"
      using K(5) J(5) H(5) W(5) head head3 I by (simp add: commit_writes_def)
    show "writes s4 = writes ?s @ commit_writes ?st ?v ?bs"
      using K(6) J(6) H(6) W(6) head head3 I by (simp add: commit_writes_def)
  qed
qed

subsection \<open>Recovery\<close>

text \<open>
  At boot the home blocks are not pinned, yet \<open>install_trans\<close> calls \<open>bunpin\<close> on them: the
  reference count of each goes from 1 to 0 while the buffer is in use, and \<open>brelse\<close> then
  makes it wrap around.
\<close>

lemma unat_max_u32: "unat (- 1 :: u32) = 2 ^ 32 - 1"
  by (simp add: unsigned_minus_1_eq_mask mask_eq_exp_minus_1)

lemma unpin_release:
  assumes len: "length (bufs s) = NBUF" and i: "i < NBUF" and j: "j < NBUF" and ij: "i \<noteq> j"
    and li: "b_locked (bufs s ! i)" and lj: "b_locked (bufs s ! j)" and r: "brelse i s = Done s5"
  shows "obind (brelse i (bunpin j s)) (\<lambda>s4. obind (brelse j s4) k) =
    k (s5\<lparr>bufs := (bufs s5)[j := (bufs s ! j)\<lparr>b_locked := False, b_refcnt := b_refcnt (bufs s ! j) - 2,
         b_time := ticks s\<rparr>]\<rparr>)"
proof -
  have s5: "s5 = s\<lparr>bufs := (bufs s)[i := (bufs s ! i)\<lparr>b_locked := False,
      b_refcnt := b_refcnt (bufs s ! i) - 1, b_time := ticks s\<rparr>]\<rparr>"
    using r li by (simp add: brelse_def upd_buf_def)
  have "xs[j := a, i := b, j := c] = xs[i := b, j := c]" for xs :: "buf list" and a b c
    using ij by (simp add: list_update_swap [of j i])
  then show ?thesis unfolding s5 using len i j ij li lj
    by (simp add: brelse_def bunpin_def upd_buf_def)
qed

lemma recover_round:
  assumes q: "booting s" and cap: "card (busy s) + 1 < NBUF" and t: "pins s t = 0" and b: "pins s b = 0" and ne: "t \<noteq> b"
  obtains s' where "obind (bread ROOTDEV t s) (\<lambda>(l, s1).
      obind (bread ROOTDEV b s1) (\<lambda>(d, s2).
      obind (bwrite d (set_data d (b_data (bufs s2 ! l)) s2)) (\<lambda>s3.
      obind (brelse l (bunpin d s3)) (\<lambda>s4. obind (brelse d s4) k)))) = k s'"
    and "booting s'" and "pins s' = (pins s)(b := 2 ^ 32 - 1)" and "view s' = (view s)(b := view s t)"
    and "disk s' = (disk s)(b := view s t)" and "writes s' = writes s @ [(b, view s t)]"
proof -
  have inv: "bcache_inv s" and un: "\<And>c. \<not> locked s c" using q by (auto simp: booting_def)
  have few1: "pins s t < 2 ^ 32 - 1" and cap1: "card (busy s) < NBUF" using t cap by simp_all
  obtain i s1 where A: "bread ROOTDEV t s = Done (i, s1)" "bcache_inv s1" "cached s1 t = Some i"
    "b_data (bufs s1 ! i) = view s t" "view s1 = view s" "pins s1 = (pins s)(t := pins s t + 1)"
    "locked s1 = (locked s)(t := True)" "disk s1 = disk s" "writes s1 = writes s"
    "\<forall>c. 0 < pins s c \<longrightarrow> cached s1 c = cached s c"
    by (rule bread_spec [OF inv un few1 disjI2 [OF cap1]])
  have b1: "pins s1 b = 0" "\<not> locked s1 b" "pins s1 b < 2 ^ 32 - 1" using A(6,7) ne b un by simp_all
  have "busy s1 \<subseteq> insert t (busy s)" using A(6) by (auto simp: busy_def)
  then have "card (busy s1) \<le> card (insert t (busy s))" by (rule card_mono [rotated]) (simp add: finite_busy [OF inv])
  also have "\<dots> \<le> Suc (card (busy s))" by (simp add: card_insert_if finite_busy [OF inv])
  finally have "card (busy s1) < NBUF" using cap by simp
  note cap2 = this
  obtain j s2 where B: "bread ROOTDEV b s1 = Done (j, s2)" "bcache_inv s2" "cached s2 b = Some j"
    "b_data (bufs s2 ! j) = view s1 b" "view s2 = view s1" "pins s2 = (pins s1)(b := pins s1 b + 1)"
    "locked s2 = (locked s1)(b := True)" "disk s2 = disk s1" "writes s2 = writes s1"
    "\<forall>c. 0 < pins s1 c \<longrightarrow> cached s2 c = cached s1 c"
    by (rule bread_spec [OF A(2) b1(2,3) disjI2 [OF cap2]])
  have ct: "cached s2 t = Some i" using B(10) A(3,6) by simp
  have lt: "locked s2 t" and lb: "locked s2 b" using A(7) B(7) by simp_all
  have dt: "b_data (bufs s2 ! i) = view s t"
    using locked_pinned [OF B(2) lt] ct B(5) A(5) by (metis option.inject)
  let ?s3 = "set_data j (view s t) s2"
  note C = set_data_spec [OF B(2) lb B(3), of "view s t"]
  have "locked ?s3 b" "cached ?s3 b = Some j" using C(2,5) lb B(3) by simp_all
  then obtain s4 where D: "bwrite j ?s3 = Done s4" "bcache_inv s4" "cached s4 = cached ?s3" "view s4 = view ?s3"
    "pins s4 = pins ?s3" "locked s4 = locked ?s3" "disk s4 = (disk ?s3)(b := view ?s3 b)"
    "writes s4 = writes ?s3 @ [(b, view ?s3 b)]" "bufs s4 = bufs ?s3"
    by (rule bwrite_spec [OF C(1)])
  have c4: "locked s4 t" "cached s4 t = Some i" "locked s4 b" "cached s4 b = Some j" "view s4 t = disk s4 t" "pins s4 b = 1"
    using D(3-7) C(2-6) ct lt lb ne B(3,5,6,8) A(5,8) b1(1) unpinned_clean [OF inv t] by simp_all
  obtain s5 where E: "brelse i s4 = Done s5" "bcache_inv s5" "cached s5 = cached s4" "view s5 = view s4"
    "pins s5 = (pins s4)(t := pins s4 t - 1)" "locked s5 = (locked s4)(t := False)"
    "disk s5 = disk s4" "writes s5 = writes s4"
    by (rule brelse_spec [OF D(2) c4(1,2,5)])
  have i: "i < NBUF" "b_blockno (bufs s4 ! i) = t" using c4(2) by (simp_all only: cached_iff [OF D(2)])
  have j: "j < NBUF" "b_blockno (bufs s4 ! j) = b" "b_dev (bufs s4 ! j) = ROOTDEV"
    using c4(4) by (simp_all only: cached_iff [OF D(2)])
  have lij: "b_locked (bufs s4 ! i)" "b_locked (bufs s4 ! j)" using c4(1-4) by (simp_all add: locked_def)
  have ij: "i \<noteq> j" using i j ne by auto
  have len: "length (bufs s4) = NBUF" using D(2) by (simp add: bcache_inv_def)
  let ?x = "(bufs s4 ! j)\<lparr>b_locked := False, b_refcnt := b_refcnt (bufs s4 ! j) - 2, b_time := ticks s4\<rparr>"
  let ?s6 = "s5\<lparr>bufs := (bufs s5)[j := ?x]\<rparr>"
  note fin = unpin_release [OF len i(1) j(1) ij lij E(1)]
  have "b_refcnt (bufs s4 ! j) = of_nat (pins s4 b)" using c4(4) by (simp add: pins_def)
  then have "b_refcnt (bufs s4 ! j) = 1" using c4(6) by simp
  then have rx: "b_refcnt ?x = - 1" by simp
  have vj: "b_valid (bufs s4 ! j)" "view s4 b = b_data (bufs s4 ! j)"
    using locked_pinned [OF D(2) c4(3)] c4(4) by (metis option.inject)+
  have ok: "buf_ok (disk s5) ?x" using rx vj j by (simp add: buf_ok_def)
  note F = update_buf [OF E(2) _ _ _ ok refl, of b j ?s6]
  have F': "bcache_inv ?s6" "view ?s6 = (view s5)(b := view s4 b)" "pins ?s6 = (pins s5)(b := 2 ^ 32 - 1)"
    "locked ?s6 = (locked s5)(b := False)"
    using F(1,3,4,5) E(3) c4(4) j vj rx unat_max_u32 by simp_all
  have pins: "pins ?s6 = (pins s)(b := 2 ^ 32 - 1)"
    unfolding F'(3) E(5) D(5) C(4) B(6) A(6) using ne t by (auto simp: fun_eq_iff)
  have lock: "locked ?s6 = locked s"
    unfolding F'(4) E(6) D(6) C(5) B(7) A(7) using un ne by (auto simp: fun_eq_iff)
  have "booting ?s6" using F'(1) un by (simp add: booting_def lock)
  moreover have "view ?s6 = (view s)(b := view s t)"
    unfolding F'(2) E(4) D(4) C(3) B(5) A(5) by simp
  moreover have "disk ?s6 = (disk s)(b := view s t)" "writes ?s6 = writes s @ [(b, view s t)]"
    using E(7,8) D(7,8) C(3,6,7) B(8,9) A(8,9) by simp_all
  ultimately show ?thesis using that [of ?s6] pins dt by (simp add: A(1) B(1) D(1) fin)
qed

lemma recover_from_spec:
  assumes "booting s" and "card (busy s) + length bs < NBUF" and "distinct bs"
    and "\<And>k. k < length bs \<Longrightarrow> pins s (st + tail + 1 + k) = 0 \<and> st + tail + 1 + k \<notin> set bs"
    and "\<And>b. b \<in> set bs \<Longrightarrow> pins s b = 0"
  shows "\<exists>s'. install_from ROOTDEV st tail bs s = Done s' \<and> booting s' \<and>
    pins s' = (\<lambda>c. if c \<in> set bs then 2 ^ 32 - 1 else pins s c) \<and>
    view s' = apply_writes (view s) (installs (st + tail + 1) (view s) bs) \<and>
    disk s' = apply_writes (disk s) (installs (st + tail + 1) (view s) bs) \<and>
    writes s' = writes s @ installs (st + tail + 1) (view s) bs \<and> card (busy s') \<le> card (busy s) + length bs"
  using assms
proof (induction bs arbitrary: tail s)
  case (Cons b bs)
  let ?t = "st + tail + 1"
  have t: "pins s ?t = 0" "?t \<noteq> b" and b: "pins s b = 0" using Cons.prems(4) [of 0] Cons.prems(5) by auto
  have cap: "card (busy s) + 1 < NBUF" using Cons.prems(2) by simp
  obtain s1 where S: "install_from ROOTDEV st tail (b # bs) s = install_from ROOTDEV st (Suc tail) bs s1"
    "booting s1" "pins s1 = (pins s)(b := 2 ^ 32 - 1)" "view s1 = (view s)(b := view s ?t)"
    "disk s1 = (disk s)(b := view s ?t)" "writes s1 = writes s @ [(b, view s ?t)]"
    unfolding install_from.simps by (rule recover_round [OF Cons.prems(1) cap t(1) b t(2)])
  have z: "pins s (st + Suc tail + 1 + k) = 0 \<and> st + Suc tail + 1 + k \<notin> set (b # bs)" if "k < length bs" for k
    using Cons.prems(4) [of "Suc k"] that by simp
  then have z1: "pins s1 (st + Suc tail + 1 + k) = 0 \<and> st + Suc tail + 1 + k \<notin> set bs" if "k < length bs" for k
    using that S(3) by auto
  have busy: "busy s1 = insert b (busy s)" using S(3) by (auto simp: busy_def)
  have fin: "finite (busy s)" using Cons.prems(1) by (simp add: booting_def finite_busy)
  have cb: "card (busy s1) = Suc (card (busy s))" using b fin busy by (simp add: busy_def)
  have "card (busy s1) + length bs < NBUF" using cb Cons.prems(2) by simp
  moreover have "distinct bs" "\<And>c. c \<in> set bs \<Longrightarrow> pins s1 c = 0" using Cons.prems(3,5) S(3) by auto
  ultimately obtain s' where IH: "install_from ROOTDEV st (Suc tail) bs s1 = Done s'" "booting s'"
    "pins s' = (\<lambda>c. if c \<in> set bs then 2 ^ 32 - 1 else pins s1 c)"
    "view s' = apply_writes (view s1) (installs (st + Suc tail + 1) (view s1) bs)"
    "disk s' = apply_writes (disk s1) (installs (st + Suc tail + 1) (view s1) bs)"
    "writes s' = writes s1 @ installs (st + Suc tail + 1) (view s1) bs" "card (busy s') \<le> card (busy s1) + length bs"
    using Cons.IH [OF S(2) _ _ z1] by blast
  have "view s1 (st + Suc tail + 1 + k) = view s (st + Suc tail + 1 + k)" if "k < length bs" for k
    using z [OF that] S(4) by auto
  then have "installs (st + Suc tail + 1) (view s1) bs = installs (st + Suc tail + 1) (view s) bs"
    by (rule installs_cong)
  moreover have "pins s' = (\<lambda>c. if c \<in> set (b # bs) then 2 ^ 32 - 1 else pins s c)"
    unfolding IH(3) S(3) by (auto simp: fun_eq_iff)
  ultimately show ?case using IH S cb by simp
qed simp

lemma read_head_spec:
  assumes q: "booting s" and cap: "card (busy s) < NBUF" and h: "pins s (lg_start lg) = 0"
    and lg: "bc lg = s" "lg_dev lg = ROOTDEV" and n: "length (get_header (view s (lg_start lg))) \<le> LOGSIZE"
  obtains s' where "read_head lg = Done (lg\<lparr>lh := get_header (view s (lg_start lg)), bc := s'\<rparr>)" and "booting s'"
    and "pins s' = pins s" and "view s' = view s" and "disk s' = disk s" and "writes s' = writes s"
proof -
  let ?t = "lg_start lg"
  have inv: "bcache_inv s" and un: "\<And>c. \<not> locked s c" using q by (auto simp: booting_def)
  have few1: "pins s ?t < 2 ^ 32 - 1" using h by simp
  obtain i s1 where A: "bread ROOTDEV ?t s = Done (i, s1)" "bcache_inv s1" "cached s1 ?t = Some i"
    "b_data (bufs s1 ! i) = view s ?t" "view s1 = view s" "pins s1 = (pins s)(?t := pins s ?t + 1)"
    "locked s1 = (locked s)(?t := True)" "disk s1 = disk s" "writes s1 = writes s"
    "\<forall>c. 0 < pins s c \<longrightarrow> cached s1 c = cached s c"
    by (rule bread_spec [OF inv un few1 disjI2 [OF cap]])
  have "locked s1 ?t" "view s1 ?t = disk s1 ?t" using A(5,7,8) unpinned_clean [OF inv h] by simp_all
  then obtain s2 where E: "brelse i s1 = Done s2" "bcache_inv s2" "cached s2 = cached s1" "view s2 = view s1"
    "pins s2 = (pins s1)(?t := pins s1 ?t - 1)" "locked s2 = (locked s1)(?t := False)"
    "disk s2 = disk s1" "writes s2 = writes s1"
    by (rule brelse_spec [OF A(2) _ A(3)])
  have pins: "pins s2 = pins s" unfolding E(5) A(6) by (auto simp: fun_eq_iff)
  have lock: "locked s2 = locked s" unfolding E(6) A(7) using un by (auto simp: fun_eq_iff)
  have "booting s2" using E(2) un by (simp add: booting_def lock)
  then show ?thesis using that [of s2] pins n E A by (simp add: read_head_def lg Let_def)
qed

lemma initlog_spec:
  assumes ok: "log_ok st (get_header (d st))" and n: "length (get_header (d st)) < NBUF"
  obtains s' where "initlog ROOTDEV st sz (binit d t) = Done \<lparr>lg_start = st, lg_size = sz, outstanding = 0,
      committing = False, lg_dev = ROOTDEV, lh = [], bc = s'\<rparr>"
    and "booting s'" and "pins s' = (\<lambda>c. if c \<in> set (get_header (d st)) then 2 ^ 32 - 1 else 0)"
    and "disk s' = (apply_writes d (installs (Suc st) d (get_header (d st))))(st := put_header [] (d st))"
    and "view s' = disk s'"
proof -
  let ?bs = "get_header (d st)" and ?s0 = "binit d t"
  let ?lg = "\<lparr>lg_start = st, lg_size = sz, outstanding = 0, committing = False, lg_dev = ROOTDEV, lh = [], bc = ?s0\<rparr>"
  have b0: "booting ?s0" by (simp add: booting_def binit_inv)
  have c0: "card (busy ?s0) < NBUF" by (simp add: busy_def NBUF_pos)
  have nl: "length (get_header (view ?s0 (lg_start ?lg))) \<le> LOGSIZE" using n by (simp add: NBUF_def)
  have p0: "pins ?s0 (lg_start ?lg) = 0" by simp
  obtain s1 where R: "read_head ?lg = Done (?lg\<lparr>lh := get_header (view ?s0 (lg_start ?lg)), bc := s1\<rparr>)" "booting s1"
    "pins s1 = pins ?s0" "view s1 = view ?s0" "disk s1 = disk ?s0" "writes s1 = writes ?s0"
    by (rule read_head_spec [OF b0 c0 p0 _ _ nl]) simp_all
  have pre: "distinct ?bs" "\<And>k. k < length ?bs \<Longrightarrow> pins s1 (st + 0 + 1 + k) = 0 \<and> st + 0 + 1 + k \<notin> set ?bs"
    "\<And>b. b \<in> set ?bs \<Longrightarrow> pins s1 b = 0" "st \<notin> set ?bs"
    using ok R(3) by (auto simp: log_ok_def)
  have c1: "card (busy s1) + length ?bs < NBUF" using n R(3) by (simp add: busy_def)
  obtain s2 where I: "install_from ROOTDEV st 0 ?bs s1 = Done s2" "booting s2"
    "pins s2 = (\<lambda>c. if c \<in> set ?bs then 2 ^ 32 - 1 else pins s1 c)"
    "view s2 = apply_writes (view s1) (installs (st + 0 + 1) (view s1) ?bs)"
    "disk s2 = apply_writes (disk s1) (installs (st + 0 + 1) (view s1) ?bs)"
    "card (busy s2) \<le> card (busy s1) + length ?bs"
    using recover_from_spec [OF R(2) c1 pre(1-3)] by blast
  let ?lg2 = "?lg\<lparr>bc := s2\<rparr>"
  have c2: "card (busy s2) < NBUF" "pins s2 (lg_start ?lg2) = 0" using I(3,6) c1 pre(4) R(3) by simp_all
  obtain s3 where H: "write_head ?lg2 = Done (?lg2\<lparr>bc := s3\<rparr>)" "booting s3" "pins s3 = pins s2"
    "view s3 = (view s2)(lg_start ?lg2 := put_header (lh ?lg2) (view s2 (lg_start ?lg2)))"
    "disk s3 = (disk s2)(lg_start ?lg2 := put_header (lh ?lg2) (view s2 (lg_start ?lg2)))"
    "writes s3 = writes s2 @ [(lg_start ?lg2, put_header (lh ?lg2) (view s2 (lg_start ?lg2)))]"
    by (rule write_head_booting [OF I(2) c2]) simp_all
  have "st \<notin> fst ` set (installs (Suc st) d ?bs)" using pre(4) by (simp add: set_map [symmetric] map_fst_installs del: set_map)
  then have hd: "view s2 st = d st" using I(4) R(4) by (simp add: apply_writes_other)
  have step: "initlog ROOTDEV st sz ?s0 = Done (?lg\<lparr>bc := s3\<rparr>)"
    using R(1) I(1) H(1) by (simp add: initlog_def recover_from_log_def install_trans_def)
  have "pins s3 = (\<lambda>c. if c \<in> set ?bs then 2 ^ 32 - 1 else 0)" unfolding H(3) I(3) R(3) by (rule ext) simp
  moreover have "disk s3 = (apply_writes d (installs (Suc st) d ?bs))(st := put_header [] (d st))" "view s3 = disk s3"
    using H(4,5) I(4,5) R(4,5) hd by simp_all
  ultimately show ?thesis using that [of s3] step H(2) by simp
qed

subsection \<open>Crashes during a commit\<close>

definition crash_disk :: "(nat \<Rightarrow> block) \<Rightarrow> nat \<Rightarrow> (nat \<Rightarrow> block) \<Rightarrow> nat list \<Rightarrow> nat \<Rightarrow> nat \<Rightarrow> block" where
  "crash_disk d st v bs j = apply_writes d (take j (commit_writes st v bs))"

lemma in_log_copies: "c \<in> fst ` set (log_copies t v bs) \<longleftrightarrow> t \<le> c \<and> c < t + length bs"
proof -
  have "fst ` set (log_copies t v bs) = set [t..<t + length bs]"
    unfolding map_fst_log_copies [symmetric, where v = v] by simp
  then show ?thesis by auto
qed

lemma take_writes_subset: "c \<notin> fst ` set ws \<Longrightarrow> c \<notin> fst ` set (take j ws)"
  using set_take_subset by fastforce

lemma crash_before_commit:
  assumes "j \<le> length bs" and "c \<le> st \<or> st + length bs < c"
  shows "crash_disk d st v bs j c = d c"
proof -
  have "take j (commit_writes st v bs) = take j (log_copies (Suc st) v bs)"
    using assms(1) by (simp add: commit_writes_def)
  moreover have "c \<notin> fst ` set (take j (log_copies (Suc st) v bs))"
    using assms(2) by (intro take_writes_subset) (auto simp: in_log_copies)
  ultimately show ?thesis by (simp add: crash_disk_def apply_writes_other)
qed

lemma crash_after_commit:
  assumes ok: "log_ok st bs" and j: "length bs < j" "j \<le> 2 * length bs + 1"
  shows "crash_disk d st v bs j st = put_header bs (v st)"
    and "k < length bs \<Longrightarrow> crash_disk d st v bs j (Suc st + k) = v (bs ! k)"
    and "c < st \<or> st + length bs < c \<Longrightarrow> c \<notin> set bs \<Longrightarrow> crash_disk d st v bs j c = d c"
proof -
  let ?n = "length bs" and ?L = "log_copies (Suc st) v bs" and ?H = "put_header bs (v st)"
  let ?I = "take (j - Suc ?n) (map (\<lambda>b. (b, v b)) bs)"
  have "take j (commit_writes st v bs) = ?L @ [(st, ?H)] @ ?I"
    using j by (simp add: commit_writes_def take_Cons' Suc_diff_Suc)
  then have eq: "crash_disk d st v bs j = apply_writes ((apply_writes d ?L)(st := ?H)) ?I"
    by (simp add: crash_disk_def)
  have out: "c \<notin> fst ` set ?I" if "c \<notin> set bs" for c
    using that by (intro take_writes_subset) auto
  have log: "st + i \<notin> set bs" if "i \<le> ?n" for i using ok that by (auto simp: log_ok_def)
  show "crash_disk d st v bs j st = ?H"
    unfolding eq using apply_writes_other [OF out [OF log [of 0]]] by simp
  show "crash_disk d st v bs j (Suc st + k) = v (bs ! k)" if k: "k < ?n"
  proof -
    have "apply_writes d ?L (fst (?L ! k)) = snd (?L ! k)"
      by (rule apply_writes_nth) (use k in \<open>simp_all add: map_fst_log_copies\<close>)
    then have "apply_writes d ?L (Suc st + k) = v (bs ! k)" using k by (simp add: log_copies_nth)
    then show ?thesis unfolding eq using apply_writes_other [OF out [OF log [of "Suc k"]]] k by simp
  qed
  show "crash_disk d st v bs j c = d c" if c: "c < st \<or> st + ?n < c" "c \<notin> set bs"
  proof -
    have "c \<notin> fst ` set ?L" using c(1) by (auto simp: in_log_copies)
    then have "apply_writes d ?L c = d c" by (rule apply_writes_other)
    then show ?thesis unfolding eq using apply_writes_other [OF out [OF c(2)]] c(1) by auto
  qed
qed

lemma crash_done:
  assumes ok: "log_ok st bs" and j: "2 * length bs + 1 < j"
  shows "crash_disk d st v bs j st = put_header [] (put_header bs (v st))"
    and "b \<in> set bs \<Longrightarrow> crash_disk d st v bs j b = v b"
    and "c < st \<or> st + length bs < c \<Longrightarrow> c \<notin> set bs \<Longrightarrow> crash_disk d st v bs j c = d c"
proof -
  let ?n = "length bs" and ?L = "log_copies (Suc st) v bs" and ?H = "put_header bs (v st)"
  let ?I = "map (\<lambda>b. (b, v b)) bs"
  have eq: "crash_disk d st v bs j = (apply_writes ((apply_writes d ?L)(st := ?H)) ?I)(st := put_header [] ?H)"
    using j by (simp add: crash_disk_def commit_writes_def)
  show "crash_disk d st v bs j st = put_header [] ?H" unfolding eq by simp
  show "crash_disk d st v bs j b = v b" if b: "b \<in> set bs"
  proof -
    obtain k where k: "k < ?n" "bs ! k = b" using b by (auto simp: in_set_conv_nth)
    have "apply_writes e ?I (fst (?I ! k)) = snd (?I ! k)" for e
      by (rule apply_writes_nth) (use k ok in \<open>simp_all add: log_ok_def comp_def\<close>)
    moreover have "b \<noteq> st" using ok b by (auto simp: log_ok_def)
    ultimately show ?thesis unfolding eq using k by simp
  qed
  show "crash_disk d st v bs j c = d c" if c: "c < st \<or> st + ?n < c" "c \<notin> set bs"
  proof -
    have "c \<notin> fst ` set ?L" "c \<notin> fst ` set ?I" using c by (auto simp: in_log_copies)
    then show ?thesis unfolding eq using c(1) by (auto simp: apply_writes_other)
  qed
qed

lemma apply_installs:
  assumes "distinct bs"
  shows "k < length bs \<Longrightarrow> apply_writes d (installs t v bs) (bs ! k) = v (t + k)"
    and "c \<notin> set bs \<Longrightarrow> apply_writes d (installs t v bs) c = d c"
proof -
  have f: "map fst (installs t v bs) = bs" by (rule map_fst_installs)
  show "apply_writes d (installs t v bs) (bs ! k) = v (t + k)" if "k < length bs"
    using apply_writes_nth [of "installs t v bs" k d] f assms that by (simp add: installs_nth)
  show "apply_writes d (installs t v bs) c = d c" if "c \<notin> set bs"
  proof (rule apply_writes_other)
    show "c \<notin> fst ` set (installs t v bs)" using that f by (metis set_map)
  qed
qed

text \<open>Recovery after a crash: the old contents before the header write, the new ones after it.\<close>

lemma crash_recovery:
  assumes ok: "log_ok st bs" and n: "length bs < NBUF" and hdr: "get_header (d st) = []"
    and clean: "\<And>c. c \<notin> set bs \<Longrightarrow> c < st \<or> st + length bs < c \<Longrightarrow> v c = d c"
  obtains r where "initlog ROOTDEV st sz (binit (crash_disk d st v bs j) t) = Done r"
    and "\<forall>c. c < st \<or> st + length bs < c \<longrightarrow> disk (bc r) c = (if j \<le> length bs then d c else v c)"
    and "view (bc r) = disk (bc r)"
proof -
  let ?d = "crash_disk d st v bs j"
  have small: "length bs < 2 ^ 31" using n by (simp add: NBUF_def)
  have bnd: "\<And>b. b \<in> set bs \<Longrightarrow> b < 2 ^ 32" and dist: "distinct bs" and away: "\<And>b. b \<in> set bs \<Longrightarrow> b < st \<or> st + length bs < b"
    using ok by (auto simp: log_ok_def)
  have ok0: "log_ok st []" by (simp add: log_ok_def)
  consider (before) "j \<le> length bs" | (mid) "length bs < j" "j \<le> 2 * length bs + 1" | (late) "2 * length bs + 1 < j"
    by linarith
  then show ?thesis
  proof cases
    case before
    then have h: "get_header (?d st) = []" using crash_before_commit [OF before, of st st d v] hdr by simp
    obtain s' where I: "initlog ROOTDEV st sz (binit ?d t) = Done \<lparr>lg_start = st, lg_size = sz, outstanding = 0,
      committing = False, lg_dev = ROOTDEV, lh = [], bc = s'\<rparr>"
      "disk s' = (apply_writes ?d (installs (Suc st) ?d (get_header (?d st))))(st := put_header [] (?d st))" "view s' = disk s'"
      using initlog_spec [of st ?d sz t] ok0 NBUF_pos unfolding h by (metis length_greater_0_conv list.size(3))
    have "disk s' c = d c" if "c < st \<or> st + length bs < c" for c
      using that I(2) h crash_before_commit [OF before, of c st d v] by auto
    then show ?thesis using that [OF I(1)] before I(3) by simp
  next
    case mid
    note C = crash_after_commit [OF ok mid, where d = d and v = v]
    have h: "get_header (?d st) = bs" unfolding C(1) by (rule get_put_header [OF small bnd])
    obtain s' where I: "initlog ROOTDEV st sz (binit ?d t) = Done \<lparr>lg_start = st, lg_size = sz, outstanding = 0,
      committing = False, lg_dev = ROOTDEV, lh = [], bc = s'\<rparr>"
      "disk s' = (apply_writes ?d (installs (Suc st) ?d (get_header (?d st))))(st := put_header [] (?d st))" "view s' = disk s'"
      using initlog_spec [of st ?d sz t] ok n unfolding h by metis
    have "disk s' c = v c" if c: "c < st \<or> st + length bs < c" for c
    proof (cases "c \<in> set bs")
      case True
      then obtain k where k: "k < length bs" "c = bs ! k" by (auto simp: in_set_conv_nth)
      then show ?thesis using I(2) h apply_installs(1) [OF dist k(1)] C(2) [OF k(1)] c by auto
    next
      case False
      then show ?thesis using I(2) h apply_installs(2) [OF dist False] C(3) [OF c False] clean [OF False c] c by auto
    qed
    then show ?thesis using that [OF I(1)] mid I(3) by simp
  next
    case late
    note C = crash_done [OF ok late, where d = d and v = v]
    have h: "get_header (?d st) = []" unfolding C(1) by (rule get_put_header) simp_all
    obtain s' where I: "initlog ROOTDEV st sz (binit ?d t) = Done \<lparr>lg_start = st, lg_size = sz, outstanding = 0,
      committing = False, lg_dev = ROOTDEV, lh = [], bc = s'\<rparr>"
      "disk s' = (apply_writes ?d (installs (Suc st) ?d (get_header (?d st))))(st := put_header [] (?d st))" "view s' = disk s'"
      using initlog_spec [of st ?d sz t] ok0 NBUF_pos unfolding h by (metis length_greater_0_conv list.size(3))
    have "disk s' c = v c" if c: "c < st \<or> st + length bs < c" for c
      using I(2) h C(2) [of c] C(3) [OF c] clean [OF _ c] c by (cases "c \<in> set bs") auto
    then show ?thesis using that [OF I(1)] late I(3) by simp
  qed
qed

subsection \<open>File system calls over the log\<close>

text \<open>
  What the file system does with blocks: read one, or read, change, log and release one,
  between \<open>begin_op\<close> and \<open>end_op\<close>.  \<open>com\<close> is the contents of the blocks outside the log as
  of the last commit.
\<close>

definition log_read :: "nat \<Rightarrow> log \<Rightarrow> (block \<times> log) outcome" where
  "log_read b lg =
    obind (bread (lg_dev lg) b (bc lg)) (\<lambda>(i, s).
    obind (brelse i s) (\<lambda>s1. Done (b_data (bufs s ! i), lg\<lparr>bc := s1\<rparr>)))"

definition log_update :: "nat \<Rightarrow> block \<Rightarrow> log \<Rightarrow> log outcome" where
  "log_update b d lg =
    obind (bread (lg_dev lg) b (bc lg)) (\<lambda>(i, s).
    obind (log_write i (lg\<lparr>bc := set_data i d s\<rparr>)) (\<lambda>lg1.
    obind (brelse i (bc lg1)) (\<lambda>s1. Done (lg1\<lparr>bc := s1\<rparr>))))"

inductive log_reach :: "nat \<Rightarrow> nat \<Rightarrow> log \<Rightarrow> (nat \<Rightarrow> block) \<Rightarrow> bool" for st sz where
  boot: "0 < sz \<Longrightarrow> get_header (d st) = [] \<Longrightarrow> initlog ROOTDEV st sz (binit d t) = Done lg \<Longrightarrow>
    log_reach st sz lg d"
| start_op: "log_reach st sz lg com \<Longrightarrow> begin_op lg = Done lg' \<Longrightarrow> log_reach st sz lg' com"
| read: "log_reach st sz lg com \<Longrightarrow> log_read b lg = Done (d, lg') \<Longrightarrow> log_reach st sz lg' com"
| update: "log_reach st sz lg com \<Longrightarrow> b < st \<or> st + sz \<le> b \<Longrightarrow> b < 2 ^ 32 \<Longrightarrow>
    log_update b d lg = Done lg' \<Longrightarrow> log_reach st sz lg' com"
| finish: "log_reach st sz lg com \<Longrightarrow> 0 < outstanding lg \<Longrightarrow> length (lh lg) < NBUF \<Longrightarrow> end_op lg = Done lg' \<Longrightarrow>
    log_reach st sz lg' (if outstanding lg = 1 then view (bc lg) else com)"

definition log_inv :: "nat \<Rightarrow> nat \<Rightarrow> log \<Rightarrow> (nat \<Rightarrow> block) \<Rightarrow> bool" where
  "log_inv st sz lg com \<longleftrightarrow>
     0 < sz \<and> quiet (bc lg) \<and> lg_start lg = st \<and> lg_size lg = sz \<and> lg_dev lg = ROOTDEV \<and> \<not> committing lg \<and>
     0 \<le> outstanding lg \<and> (outstanding lg = 0 \<longrightarrow> lh lg = []) \<and> distinct (lh lg) \<and> length (lh lg) < sz \<and>
     (\<forall>b \<in> set (lh lg). (b < st \<or> st + sz \<le> b) \<and> b < 2 ^ 32) \<and>
     pins (bc lg) = (\<lambda>b. if b \<in> set (lh lg) then 1 else 0) \<and>
     (\<forall>c. c < st \<or> st + sz \<le> c \<longrightarrow> disk (bc lg) c = com c) \<and> get_header (disk (bc lg) st) = []"

lemma log_inv_ok: "log_inv st sz lg com \<Longrightarrow> log_ok st (lh lg)"
  unfolding log_inv_def log_ok_def by auto

lemma log_inv_busy: "log_inv st sz lg com \<Longrightarrow> card (busy (bc lg)) = length (lh lg)"
  by (simp add: log_inv_def busy_def distinct_card split: if_splits)

lemma log_inv_clean: "log_inv st sz lg com \<Longrightarrow> c \<notin> set (lh lg) \<Longrightarrow> view (bc lg) c = disk (bc lg) c"
  by (rule quiet_clean) (simp_all add: log_inv_def)

lemma log_inv_boot:
  assumes "0 < sz" and h: "get_header (d st) = []" and i: "initlog ROOTDEV st sz (binit d t) = Done lg"
  shows "log_inv st sz lg d"
proof -
  have ok: "log_ok st (get_header (d st))" "length (get_header (d st)) < NBUF" by (simp_all add: h log_ok_def NBUF_pos)
  show ?thesis
  proof (rule initlog_spec [where st = st and d = d and sz = sz and t = t, OF ok])
    fix s' assume S: "initlog ROOTDEV st sz (binit d t) = Done \<lparr>lg_start = st, lg_size = sz, outstanding = 0,
        committing = False, lg_dev = ROOTDEV, lh = [], bc = s'\<rparr>" "booting s'"
      "pins s' = (\<lambda>c. if c \<in> set (get_header (d st)) then 2 ^ 32 - 1 else 0)"
      "disk s' = (apply_writes d (installs (Suc st) d (get_header (d st))))(st := put_header [] (d st))"
    have "quiet s'" using S(2,3) h by (simp add: quiet_def booting_def)
    then show ?thesis using S i assms(1) h get_put_header [of "[]" "d st"] by (simp add: log_inv_def)
  qed
qed

lemma log_inv_cong:
  assumes "log_inv st sz lg com" and "quiet s'" and "pins s' = pins (bc lg)" and "disk s' = disk (bc lg)"
  shows "log_inv st sz (lg\<lparr>bc := s'\<rparr>) com"
  using assms by (simp add: log_inv_def)

text \<open>A successful \<open>bread\<close> found the block or a free buffer.\<close>

lemma log_bread:
  assumes inv: "log_inv st sz lg com" and r: "bread (lg_dev lg) b (bc lg) = Done (i, s1)"
  shows "bcache_inv s1" and "cached s1 b = Some i" and "b_data (bufs s1 ! i) = view (bc lg) b" and "view s1 = view (bc lg)"
    and "pins s1 = (pins (bc lg))(b := pins (bc lg) b + 1)" and "locked s1 = (locked (bc lg))(b := True)"
    and "disk s1 = disk (bc lg)"
proof -
  have q: "quiet (bc lg)" "lg_dev lg = ROOTDEV" using inv by (simp_all add: log_inv_def)
  then have binv: "bcache_inv (bc lg)" and un: "\<not> locked (bc lg) b" and few: "pins (bc lg) b < 2 ^ 32 - 1"
    by (auto simp: quiet_def intro: less_trans)
  have avail: "0 < pins (bc lg) b \<or> card (busy (bc lg)) < NBUF"
    using bread_panic [OF binv, of b] r q(2) by fastforce
  show "bcache_inv s1" "cached s1 b = Some i" "b_data (bufs s1 ! i) = view (bc lg) b" "view s1 = view (bc lg)"
    "pins s1 = (pins (bc lg))(b := pins (bc lg) b + 1)" "locked s1 = (locked (bc lg))(b := True)"
    "disk s1 = disk (bc lg)"
    using r q(2) by (auto intro: bread_spec [OF binv un few avail])
qed

lemma log_inv_read:
  assumes inv: "log_inv st sz lg com" and r: "log_read b lg = Done (d, lg')"
  shows "log_inv st sz lg' com" and "d = view (bc lg) b" and "view (bc lg') = view (bc lg)" and "lh lg' = lh lg"
proof -
  obtain i s1 s2 where b: "bread (lg_dev lg) b (bc lg) = Done (i, s1)" and e: "brelse i s1 = Done s2"
    and lg': "lg' = lg\<lparr>bc := s2\<rparr>" "d = b_data (bufs s1 ! i)"
    using r by (auto simp: log_read_def obind_Done)
  note A = log_bread [OF inv b]
  have q: "quiet (bc lg)" and p: "pins (bc lg) = (\<lambda>b. if b \<in> set (lh lg) then 1 else 0)"
    using inv by (simp_all add: log_inv_def)
  have l: "locked s1 b" using A(6) by simp
  have clean: "pins s1 b = 1 \<Longrightarrow> view s1 b = disk s1 b"
    using A(4,5,7) p log_inv_clean [OF inv, of b] by (auto split: if_splits)
  obtain s' where E: "brelse i s1 = Done s'" "bcache_inv s'" "cached s' = cached s1" "view s' = view s1"
    "pins s' = (pins s1)(b := pins s1 b - 1)" "locked s' = (locked s1)(b := False)" "disk s' = disk s1" "writes s' = writes s1"
    by (rule brelse_spec [OF A(1) l A(2) clean])
  have s2: "s2 = s'" using E(1) e by simp
  have pins: "pins s2 = pins (bc lg)" unfolding s2 E(5) A(5) by (auto simp: fun_eq_iff)
  have lock: "locked s2 = locked (bc lg)" unfolding s2 E(6) A(6) using q by (auto simp: fun_eq_iff quiet_def)
  have "quiet s2" using q E(2) s2 unfolding quiet_def pins lock by simp
  then show "log_inv st sz lg' com" unfolding lg'(1) using pins E(7) A(7) s2 by (intro log_inv_cong [OF inv]) simp_all
  show "d = view (bc lg) b" "view (bc lg') = view (bc lg)" "lh lg' = lh lg" using lg' A(3,4) E(4) s2 by simp_all
qed

lemma log_inv_update:
  assumes inv: "log_inv st sz lg com" and b: "b < st \<or> st + sz \<le> b" "b < 2 ^ 32" and r: "log_update b d lg = Done lg'"
  shows "log_inv st sz lg' com" and "view (bc lg') = (view (bc lg))(b := d)" and "outstanding lg' = outstanding lg"
proof -
  obtain i s1 lg1 s2 where br: "bread (lg_dev lg) b (bc lg) = Done (i, s1)"
    and w: "log_write i (lg\<lparr>bc := set_data i d s1\<rparr>) = Done lg1" and e: "brelse i (bc lg1) = Done s2"
    and lg': "lg' = lg1\<lparr>bc := s2\<rparr>"
    using r by (auto simp: log_update_def obind_Done)
  note A = log_bread [OF inv br]
  have q: "quiet (bc lg)" and p: "pins (bc lg) = (\<lambda>b. if b \<in> set (lh lg) then 1 else 0)"
    using inv by (simp_all add: log_inv_def)
  have l: "locked s1 b" using A(6) by simp
  let ?s = "set_data i d s1"
  note C = set_data_spec [OF A(1) l A(2), of d]
  have lc: "locked ?s b" "cached ?s b = Some i" using C(2,5) l A(2) by simp_all
  have bno: "b_blockno (bufs ?s ! i) = b" using lc(2) by (simp only: cached_iff [OF C(1)])
  have guard: "length (lh lg) < LOGSIZE" "int (length (lh lg)) < int sz - 1" "1 \<le> outstanding lg"
    using w inv by (auto simp: log_write_def Let_def log_inv_def split: if_splits)
  have lg1: "lg1 = (if b \<in> set (lh lg) then lg\<lparr>bc := ?s\<rparr> else lg\<lparr>lh := lh lg @ [b], bc := bpin i ?s\<rparr>)"
    using w bno by (auto simp: log_write_def Let_def split: if_splits)
  have few: "pins ?s b < 2 ^ 32 - 1" using C(4) A(5) p by simp
  note P = bpin_spec [OF C(1) lc few]
  have B: "bcache_inv (bc lg1)" "locked (bc lg1) b" "cached (bc lg1) b = Some i" "view (bc lg1) = (view (bc lg))(b := d)"
    "pins (bc lg1) = (pins (bc lg))(b := 2)" "locked (bc lg1) = (locked (bc lg))(b := True)" "disk (bc lg1) = disk (bc lg)"
    using lg1 P C lc A p by (auto simp: fun_eq_iff)
  have "pins (bc lg1) b = 1 \<Longrightarrow> view (bc lg1) b = disk (bc lg1) b" using B(5) by simp
  then obtain s' where E: "brelse i (bc lg1) = Done s'" "bcache_inv s'" "cached s' = cached (bc lg1)" "view s' = view (bc lg1)"
    "pins s' = (pins (bc lg1))(b := pins (bc lg1) b - 1)" "locked s' = (locked (bc lg1))(b := False)"
    "disk s' = disk (bc lg1)" "writes s' = writes (bc lg1)"
    by (rule brelse_spec [OF B(1-3)])
  have s2: "s2 = s'" using E(1) e by simp
  have lh': "set (lh lg1) = insert b (set (lh lg))" "distinct (lh lg1)" "length (lh lg1) < sz"
    using lg1 inv guard by (auto simp: log_inv_def)
  have pins: "pins s2 = (\<lambda>c. if c \<in> set (lh lg1) then 1 else 0)"
    unfolding s2 E(5) B(5) p lh'(1) by (auto simp: fun_eq_iff)
  have lock: "locked s2 = locked (bc lg)" unfolding s2 E(6) B(6) using q by (auto simp: fun_eq_iff quiet_def)
  have "quiet s2" using q E(2) s2 unfolding quiet_def lock pins by simp
  moreover have "disk s2 = disk (bc lg)" using E(7) B(7) s2 by simp
  moreover have "\<forall>c \<in> set (lh lg1). (c < st \<or> st + sz \<le> c) \<and> c < 2 ^ 32" unfolding lh'(1) using inv b by (simp add: log_inv_def)
  ultimately show "log_inv st sz lg' com"
    using inv pins lh'(2,3) guard(3) unfolding lg' lg1 by (auto simp: log_inv_def)
  show "view (bc lg') = (view (bc lg))(b := d)" "outstanding lg' = outstanding lg"
    using lg' lg1 E(4) B(4) s2 by simp_all
qed

text \<open>The last \<open>end_op\<close> of a group commits, and always can while one buffer is left.\<close>

lemma end_op_spec:
  assumes inv: "log_inv st sz lg com" and one: "outstanding lg = 1" and n: "length (lh lg) < NBUF"
  obtains lg' where "end_op lg = Done lg'" and "log_inv st sz lg' (view (bc lg))"
    and "writes (bc lg') = writes (bc lg) @ (if lh lg = [] then [] else commit_writes st (view (bc lg)) (lh lg))"
proof (cases "lh lg = []")
  case True
  let ?lg = "lg\<lparr>outstanding := 0\<rparr>"
  have "end_op lg = Done ?lg" using inv one True by (simp add: end_op_def commit_def log_inv_def)
  moreover have "log_inv st sz ?lg (view (bc lg))"
    using inv True log_inv_clean [OF inv] by (simp add: log_inv_def)
  ultimately show ?thesis using that [of ?lg] True by simp
next
  case False
  let ?lg1 = "lg\<lparr>outstanding := 0, committing := True\<rparr>" and ?v = "view (bc lg)" and ?bs = "lh lg"
  have I: "quiet (bc lg)" "lg_start lg = st" "lg_dev lg = ROOTDEV" "\<not> committing lg" "length ?bs < sz"
    "pins (bc lg) = (\<lambda>b. if b \<in> set ?bs then 1 else 0)" "get_header (disk (bc lg) st) = []"
    using inv by (simp_all add: log_inv_def)
  note ok = log_inv_ok [OF inv]
  have cap: "card (busy (bc ?lg1)) < NBUF" using log_inv_busy [OF inv] n by simp
  have unp: "pins (bc ?lg1) (lg_start ?lg1 + k) = 0" if "k \<le> length (lh ?lg1)" for k
    using ok that I(2,6) by (auto simp: log_ok_def)
  have q1: "quiet (bc ?lg1)" "lh ?lg1 \<noteq> []" "lg_dev ?lg1 = ROOTDEV" "log_ok (lg_start ?lg1) (lh ?lg1)"
    "\<And>b. b \<in> set (lh ?lg1) \<Longrightarrow> 0 < pins (bc ?lg1) b"
    using I False ok by simp_all
  obtain s' where C: "commit ?lg1 = Done (?lg1\<lparr>lh := [], bc := s'\<rparr>)" "quiet s'"
    "pins s' = (\<lambda>c. if c \<in> set (lh ?lg1) then pins (bc ?lg1) c - 1 else pins (bc ?lg1) c)"
    "view s' = apply_writes (view (bc ?lg1)) (commit_writes (lg_start ?lg1) (view (bc ?lg1)) (lh ?lg1))"
    "disk s' = apply_writes (disk (bc ?lg1)) (commit_writes (lg_start ?lg1) (view (bc ?lg1)) (lh ?lg1))"
    "writes s' = writes (bc ?lg1) @ commit_writes (lg_start ?lg1) (view (bc ?lg1)) (lh ?lg1)"
    by (rule commit_spec [OF q1(1) cap q1(2-5) unp])
  let ?lg2 = "lg\<lparr>outstanding := 0, committing := False, lh := [], bc := s'\<rparr>"
  have step: "end_op lg = Done ?lg2" using I(4) one C(1) by (simp add: end_op_def)
  have full: "disk s' = crash_disk (disk (bc lg)) st ?v ?bs (2 * length ?bs + 2)"
    using C(5) I(2) by (simp add: crash_disk_def commit_writes_def)
  have "2 * length ?bs + 1 < 2 * length ?bs + 2" by simp
  note D = crash_done [OF ok this]
  have "get_header (disk s' st) = []" unfolding full D(1) by (rule get_put_header) simp_all
  moreover have "disk s' c = ?v c" if c: "c < st \<or> st + sz \<le> c" for c
  proof (cases "c \<in> set ?bs")
    case True
    then show ?thesis unfolding full by (rule D(2))
  next
    case F: False
    have "c < st \<or> st + length ?bs < c" using c I(5) by linarith
    then show ?thesis unfolding full using D(3) F log_inv_clean [OF inv F] by simp
  qed
  moreover have "pins s' = (\<lambda>b. 0)" using C(3) I(6) by (auto simp: fun_eq_iff)
  ultimately have "log_inv st sz ?lg2 ?v" using inv C(2) by (simp add: log_inv_def)
  then show ?thesis using that [OF step] False C(6) I(2) by simp
qed

lemma log_reach_inv: "log_reach st sz lg com \<Longrightarrow> log_inv st sz lg com"
proof (induction rule: log_reach.induct)
  case (boot d t lg)
  then show ?case by (rule log_inv_boot)
next
  case (start_op lg com lg')
  then show ?case by (auto simp: begin_op_def log_inv_def split: if_splits)
next
  case (read lg com b d lg')
  show ?case by (rule log_inv_read(1) [OF read.IH read.hyps(2)])
next
  case (update lg com b d lg')
  show ?case by (rule log_inv_update(1) [OF update.IH update.hyps(2-4)])
next
  case (finish lg com lg')
  show ?case
  proof (cases "outstanding lg = 1")
    case True
    show ?thesis
    proof (rule end_op_spec [OF finish.IH True finish.hyps(3)])
      fix l assume "end_op lg = Done l" "log_inv st sz l (view (bc lg))"
      then show ?thesis using finish.hyps(4) True by simp
    qed
  next
    case False
    then show ?thesis using finish by (auto simp: end_op_def log_inv_def Let_def)
  qed
qed

subsection \<open>Properties\<close>

text \<open>
  C1: Crash safety of a commit.  In every state the file system reaches after a clean boot, the
  last \<open>end_op\<close> of a group of operations commits without a panic (while the transaction
  leaves one buffer of the cache free).  If the machine stops after any number \<open>j\<close> of the disk
  writes this issues, then booting again (\<open>initlog\<close> on an empty cache) succeeds, and outside
  the log the disk holds exactly the previous commit when the header write was not reached,
  and exactly the file system's latest contents when it was: never a mixture.
\<close>

theorem commit_crash_atomic:
  assumes "log_reach st sz lg com" and "outstanding lg = 1" and "length (lh lg) < NBUF"
  shows "\<exists>lg' ws. end_op lg = Done lg' \<and> writes (bc lg') = writes (bc lg) @ ws \<and>
    (\<forall>j t. \<exists>r. initlog ROOTDEV st sz (binit (apply_writes (disk (bc lg)) (take j ws)) t) = Done r \<and>
       (\<forall>c. c < st \<or> st + sz \<le> c \<longrightarrow>
          disk (bc r) c = (if j \<le> length (lh lg) then com c else view (bc lg) c) \<and> view (bc r) c = disk (bc r) c))"
proof -
  have inv: "log_inv st sz lg com" by (rule log_reach_inv [OF assms(1)])
  let ?d = "disk (bc lg)" and ?v = "view (bc lg)" and ?bs = "lh lg"
  obtain lg' where E: "end_op lg = Done lg'"
    "writes (bc lg') = writes (bc lg) @ (if ?bs = [] then [] else commit_writes st ?v ?bs)"
    by (rule end_op_spec [OF inv assms(2,3)])
  define ws where "ws = (if ?bs = [] then [] else commit_writes st ?v ?bs)"
  have hdr: "get_header (?d st) = []" and com: "\<And>c. c < st \<or> st + sz \<le> c \<Longrightarrow> ?d c = com c" and sz: "length ?bs < sz"
    using inv by (auto simp: log_inv_def)
  have "\<exists>r. initlog ROOTDEV st sz (binit (apply_writes ?d (take j ws)) t) = Done r \<and>
       (\<forall>c. c < st \<or> st + sz \<le> c \<longrightarrow>
          disk (bc r) c = (if j \<le> length ?bs then com c else ?v c) \<and> view (bc r) c = disk (bc r) c)" for j t
  proof -
    let ?j = "if ?bs = [] then 0 else j"
    have eq: "apply_writes ?d (take j ws) = crash_disk ?d st ?v ?bs ?j" by (simp add: ws_def crash_disk_def)
    obtain r where R: "initlog ROOTDEV st sz (binit (crash_disk ?d st ?v ?bs ?j) t) = Done r"
      "\<forall>c. c < st \<or> st + length ?bs < c \<longrightarrow> disk (bc r) c = (if ?j \<le> length ?bs then ?d c else ?v c)"
      "view (bc r) = disk (bc r)"
      by (rule crash_recovery [where d = ?d and v = ?v, OF log_inv_ok [OF inv] assms(3) hdr])
        (use log_inv_clean [OF inv] in simp)
    have "disk (bc r) c = (if j \<le> length ?bs then com c else ?v c)" if c: "c < st \<or> st + sz \<le> c" for c
    proof -
      have "c < st \<or> st + length ?bs < c" using c sz by linarith
      then show ?thesis using R(2) com [OF c] log_inv_clean [OF inv, of c] by auto
    qed
    then show ?thesis using R(1,3) eq by auto
  qed
  then show ?thesis using E ws_def by blast
qed

lemma log_update_progress:
  assumes inv: "log_inv st sz lg com" and o: "0 < outstanding lg" and n: "length (lh lg) + 1 < sz" "length (lh lg) < NBUF"
    and b: "b \<notin> set (lh lg)"
  shows "\<exists>lg'. log_update b d lg = Done lg' \<and> lh lg' = lh lg @ [b] \<and> outstanding lg' = outstanding lg"
proof -
  have q: "quiet (bc lg)" "lg_dev lg = ROOTDEV" "lg_size lg = sz"
    "pins (bc lg) b = 0" using inv b by (simp_all add: log_inv_def)
  have binv: "bcache_inv (bc lg)" and un: "\<not> locked (bc lg) b" and few: "pins (bc lg) b < 2 ^ 32 - 1"
    using q by (simp_all add: quiet_def)
  have cap: "card (busy (bc lg)) < NBUF" using log_inv_busy [OF inv] n(2) by simp
  obtain i s1 where A: "bread ROOTDEV b (bc lg) = Done (i, s1)" "bcache_inv s1" "cached s1 b = Some i"
    "b_data (bufs s1 ! i) = view (bc lg) b" "view s1 = view (bc lg)" "pins s1 = (pins (bc lg))(b := pins (bc lg) b + 1)"
    "locked s1 = (locked (bc lg))(b := True)" "disk s1 = disk (bc lg)" "writes s1 = writes (bc lg)"
    "\<forall>c. 0 < pins (bc lg) c \<longrightarrow> cached s1 c = cached (bc lg) c"
    by (rule bread_spec [OF binv un few disjI2 [OF cap]])
  have l: "locked s1 b" using A(7) by simp
  note C = set_data_spec [OF A(2) l A(3), of d]
  let ?s = "set_data i d s1"
  have lc: "locked ?s b" "cached ?s b = Some i" using C(2,5) l A(3) by simp_all
  have bno: "b_blockno (bufs ?s ! i) = b" using lc(2) by (simp only: cached_iff [OF C(1)])
  have few2: "pins ?s b < 2 ^ 32 - 1" using C(4) A(6) q(4) by simp
  note P = bpin_spec [OF C(1) lc few2]
  have "locked (bpin i ?s) b" "cached (bpin i ?s) b = Some i" using P(2,5) lc by simp_all
  then have "b_locked (bufs (bpin i ?s) ! i)" by (simp add: locked_def)
  then show ?thesis
    using A(1) bno b n o by (auto simp: log_update_def log_write_def Let_def q brelse_def NBUF_def)
qed

theorem commit_crash_atomic_witness:
  "\<exists>lg lg' r. log_reach 2 10 lg (\<lambda>_ _. 0) \<and> lh lg = [40] \<and> end_op lg = Done lg' \<and>
     initlog ROOTDEV 2 10 (binit (apply_writes (disk (bc lg)) (take 2 (drop (length (writes (bc lg))) (writes (bc lg'))))) 0) = Done r \<and>
     disk (bc r) 40 = view (bc lg) 40"
proof -
  have h: "get_header ((\<lambda>_ _. 0) (2::nat)) = []" by (simp add: get_header_def get32_def)
  have ok: "log_ok 2 (get_header ((\<lambda>_ _. 0) (2::nat)))" "length (get_header ((\<lambda>_ _. 0) (2::nat))) < NBUF"
    unfolding h by (simp_all add: log_ok_def NBUF_pos)
  obtain lg0 where i: "initlog ROOTDEV 2 10 (binit (\<lambda>_ _. 0) 0) = Done lg0" "outstanding lg0 = 0" "lh lg0 = []" "\<not> committing lg0"
    by (rule initlog_spec [where st = 2 and d = "\<lambda>_ _. 0" and sz = 10 and t = 0, OF ok]) auto
  have r0: "log_reach 2 10 lg0 (\<lambda>_ _. 0)" using log_reach.boot [OF _ h i(1)] by simp
  let ?lg1 = "lg0\<lparr>outstanding := 1\<rparr>"
  have "begin_op lg0 = Done ?lg1" using i by (simp add: begin_op_def)
  then have r1: "log_reach 2 10 ?lg1 (\<lambda>_ _. 0)" by (rule log_reach.start_op [OF r0])
  obtain lg where u: "log_update 40 (\<lambda>_. 9) ?lg1 = Done lg" "lh lg = [40]" "outstanding lg = 1"
    using log_update_progress [OF log_reach_inv [OF r1], of 40 "\<lambda>_. 9"] i(3) NBUF_pos by auto
  have r2: "log_reach 2 10 lg (\<lambda>_ _. 0)" by (rule log_reach.update [OF r1 _ _ u(1)]) simp_all
  have n: "length (lh lg) < NBUF" using u(2) by (simp add: NBUF_def)
  from commit_crash_atomic [OF r2 u(3) n] obtain lg' ws where E: "end_op lg = Done lg'" "writes (bc lg') = writes (bc lg) @ ws"
    and R: "\<forall>j t. \<exists>r. initlog ROOTDEV 2 10 (binit (apply_writes (disk (bc lg)) (take j ws)) t) = Done r \<and>
       (\<forall>c. c < 2 \<or> 2 + 10 \<le> c \<longrightarrow> disk (bc r) c = (if j \<le> length (lh lg) then (\<lambda>_. 0) else view (bc lg) c) \<and> view (bc r) c = disk (bc r) c)"
    by blast
  obtain r where r: "initlog ROOTDEV 2 10 (binit (apply_writes (disk (bc lg)) (take 2 ws)) 0) = Done r"
    "\<forall>c. c < 2 \<or> 2 + 10 \<le> c \<longrightarrow> disk (bc r) c = (if 2 \<le> length (lh lg) then (\<lambda>_. 0) else view (bc lg) c) \<and>
       view (bc r) c = disk (bc r) c"
    using R by blast
  have "disk (bc r) 40 = view (bc lg) 40" using r(2) [rule_format, of 40] u(2) by simp
  moreover have "drop (length (writes (bc lg))) (writes (bc lg')) = ws" using E(2) by simp
  ultimately show ?thesis using r2 u(2) E(1) r(1) by metis
qed

text \<open>
  C39: Recovery leaves the cache broken.  \<open>install_trans\<close> calls \<open>bunpin\<close> also at boot, where
  nothing was pinned: after recovering a committed transaction the reference count of every
  recovered block's buffer is \<open>2 ^ 32 - 1\<close>, and the next \<open>bread\<close> of such a block returns a
  locked buffer whose count has wrapped to 0, so that \<open>bget\<close> may recycle it while in use.
\<close>

theorem recovery_wraps_refcnt:
  assumes "log_ok st (get_header (d st))" and "length (get_header (d st)) < NBUF" and "b \<in> set (get_header (d st))"
  shows "\<exists>r i s'. initlog ROOTDEV st sz (binit d t) = Done r \<and> pins (bc r) b = 2 ^ 32 - 1 \<and>
    bread ROOTDEV b (bc r) = Done (i, s') \<and> b_blockno (bufs s' ! i) = b \<and> b_locked (bufs s' ! i) \<and> b_refcnt (bufs s' ! i) = 0"
proof (rule initlog_spec [where d = d and st = st and sz = sz and t = t, OF assms(1,2)])
  fix s' assume S: "initlog ROOTDEV st sz (binit d t) = Done \<lparr>lg_start = st, lg_size = sz, outstanding = 0,
      committing = False, lg_dev = ROOTDEV, lh = [], bc = s'\<rparr>" "booting s'"
    "pins s' = (\<lambda>c. if c \<in> set (get_header (d st)) then 2 ^ 32 - 1 else 0)"
  have inv: "bcache_inv s'" and un: "\<not> locked s' b" using S(2) by (simp_all add: booting_def)
  have p: "pins s' b = 2 ^ 32 - 1" using S(3) assms(3) by simp
  then obtain j where j: "cached s' b = Some j" "unat (b_refcnt (bufs s' ! j)) = 2 ^ 32 - 1"
    by (cases "cached s' b") (auto simp: pins_def)
  have ref: "b_refcnt (bufs s' ! j) = - 1" using j(2) unat_max_u32 by (metis unsigned_word_eqI)
  have avail: "cached s' b \<noteq> None \<or> card (busy s') < NBUF" using j(1) by simp
  show ?thesis
  proof (rule bread_result [OF inv un avail])
    fix i x bk
    let ?s = "s'\<lparr>bufs := (bufs s')[i := x], buckets := bk\<rparr>"
    assume B: "bread ROOTDEV b s' = Done (i, ?s)" "i < NBUF" "b_blockno x = b" "b_locked x"
      "cached s' b = Some i \<and> b_refcnt x = b_refcnt (bufs s' ! i) + 1 \<or> cached s' b = None \<and> b_refcnt (bufs s' ! i) = 0 \<and> b_refcnt x = 1"
    have "length (bufs s') = NBUF" using inv by (simp add: bcache_inv_def)
    then show ?thesis using S(1) p B j(1) ref by auto
  qed
qed

theorem recovery_wraps_refcnt_witness:
  "\<exists>d r i s'. initlog ROOTDEV 2 10 (binit d 0) = Done r \<and> bread ROOTDEV 40 (bc r) = Done (i, s') \<and>
     b_locked (bufs s' ! i) \<and> b_refcnt (bufs s' ! i) = 0"
proof -
  let ?d = "(\<lambda>_ _. 0)(2 := put_header [40] (\<lambda>_. 0))"
  have h: "get_header (?d 2) = [40]" using get_put_header [of "[40]"] by simp
  have "log_ok 2 (get_header (?d 2))" "length (get_header (?d 2)) < NBUF" "40 \<in> set (get_header (?d 2))"
    unfolding h by (simp_all add: log_ok_def NBUF_def)
  from recovery_wraps_refcnt [where d = ?d and st = 2 and sz = 10 and t = 0, OF this] show ?thesis by blast
qed

end
