(* ===== verification/Kstring.thy ===== *)
theory Kstring
  imports Kernel_Prelude
begin

text \<open>
  The memory and string routines of the kernel, \<open>src/kernel/lib/string.c\<close>, over a byte-addressed
  memory. A pointer is an address, \<open>*p++\<close> a read and an incremented address. Sizes of type
  \<open>uint\<close> are natural numbers, sizes of type \<open>int\<close> are integers, since \<open>strncpy\<close> and
  \<open>safestrcpy\<close> let them go below zero. \<open>strlen\<close> may run forever, and then has no value.
\<close>

section \<open>Operations\<close>

type_synonym mem = "nat \<Rightarrow> u8"

function memset_from :: "mem \<Rightarrow> nat \<Rightarrow> u8 \<Rightarrow> nat \<Rightarrow> nat \<Rightarrow> mem" where
  "memset_from m dst c i n = (if i < n then memset_from (m(dst + i := c)) dst c (i + 1) n else m)"
  by pat_completeness auto
termination by (relation "measure (\<lambda>(m, dst, c, i, n). n - i)") auto

declare memset_from.simps [simp del]

definition memset :: "mem \<Rightarrow> nat \<Rightarrow> u8 \<Rightarrow> nat \<Rightarrow> mem" where
  "memset m dst c n = memset_from m dst c 0 n"

primrec memcmp :: "mem \<Rightarrow> nat \<Rightarrow> nat \<Rightarrow> nat \<Rightarrow> int" where
  "memcmp m s1 s2 0 = 0"
| "memcmp m s1 s2 (Suc n) =
     (if m s1 \<noteq> m s2 then uint (m s1) - uint (m s2) else memcmp m (s1 + 1) (s2 + 1) n)"

primrec move_down :: "mem \<Rightarrow> nat \<Rightarrow> nat \<Rightarrow> nat \<Rightarrow> mem" where
  "move_down m d s 0 = m"
| "move_down m d s (Suc n) = move_down (m(d - 1 := m (s - 1))) (d - 1) (s - 1) n"

primrec move_up :: "mem \<Rightarrow> nat \<Rightarrow> nat \<Rightarrow> nat \<Rightarrow> mem" where
  "move_up m d s 0 = m"
| "move_up m d s (Suc n) = move_up (m(d := m s)) (d + 1) (s + 1) n"

definition memmove :: "mem \<Rightarrow> nat \<Rightarrow> nat \<Rightarrow> nat \<Rightarrow> mem" where
  "memmove m dst src n =
     (if src < dst \<and> src + n > dst then move_down m (dst + n) (src + n) n
      else move_up m dst src n)"

definition memcpy :: "mem \<Rightarrow> nat \<Rightarrow> nat \<Rightarrow> nat \<Rightarrow> mem" where
  "memcpy m dst src n = memmove m dst src n"

fun strncmp :: "mem \<Rightarrow> nat \<Rightarrow> nat \<Rightarrow> nat \<Rightarrow> int" where
  "strncmp m p q n =
     (if n > 0 \<and> m p \<noteq> 0 \<and> m p = m q then strncmp m (p + 1) (q + 1) (n - 1)
      else if n = 0 then 0
      else uint (m p) - uint (m q))"

declare strncmp.simps [simp del]

function strncpy_copy :: "mem \<Rightarrow> nat \<Rightarrow> nat \<Rightarrow> int \<Rightarrow> mem \<times> nat \<times> int" where
  "strncpy_copy m s t n =
     (if n > 0
      then (if m t \<noteq> 0 then strncpy_copy (m(s := m t)) (s + 1) (t + 1) (n - 1)
            else (m(s := m t), s + 1, n - 1))
      else (m, s, n - 1))"
  by pat_completeness auto
termination by (relation "measure (\<lambda>(m, s, t, n). nat n)") auto

declare strncpy_copy.simps [simp del]

function strncpy_pad :: "mem \<Rightarrow> nat \<Rightarrow> int \<Rightarrow> mem" where
  "strncpy_pad m s n = (if n > 0 then strncpy_pad (m(s := 0)) (s + 1) (n - 1) else m)"
  by pat_completeness auto
termination by (relation "measure (\<lambda>(m, s, n). nat n)") auto

declare strncpy_pad.simps [simp del]

definition strncpy :: "mem \<Rightarrow> nat \<Rightarrow> nat \<Rightarrow> int \<Rightarrow> mem" where
  "strncpy m s t n = (case strncpy_copy m s t n of (m', s', n') \<Rightarrow> strncpy_pad m' s' n')"

function safestrcpy_copy :: "mem \<Rightarrow> nat \<Rightarrow> nat \<Rightarrow> int \<Rightarrow> mem \<times> nat" where
  "safestrcpy_copy m s t n =
     (if n - 1 > 0
      then (if m t \<noteq> 0 then safestrcpy_copy (m(s := m t)) (s + 1) (t + 1) (n - 1)
            else (m(s := m t), s + 1))
      else (m, s))"
  by pat_completeness auto
termination by (relation "measure (\<lambda>(m, s, t, n). nat n)") auto

declare safestrcpy_copy.simps [simp del]

definition safestrcpy :: "mem \<Rightarrow> nat \<Rightarrow> nat \<Rightarrow> int \<Rightarrow> mem" where
  "safestrcpy m s t n =
     (if n \<le> 0 then m
      else (case safestrcpy_copy m s t n of (m', s') \<Rightarrow> m'(s' := 0)))"

partial_function (option) strlen_from :: "mem \<Rightarrow> nat \<Rightarrow> nat \<Rightarrow> nat option" where
  "strlen_from m s n = (if m (s + n) \<noteq> 0 then strlen_from m s (n + 1) else Some n)"

definition strlen :: "mem \<Rightarrow> nat \<Rightarrow> nat option" where
  "strlen m s = strlen_from m s 0"

section \<open>Strings in memory\<close>

text \<open>The string at \<open>s\<close> in a field of \<open>n\<close> bytes: up to its terminator, or all of the field.\<close>

primrec cstr :: "mem \<Rightarrow> nat \<Rightarrow> nat \<Rightarrow> u8 list" where
  "cstr m s 0 = []"
| "cstr m s (Suc n) = (if m s = 0 then [] else m s # cstr m (s + 1) n)"

lemma cstr_numeral [simp]:
  "cstr m s (numeral k) = (if m s = 0 then [] else m s # cstr m (s + 1) (pred_numeral k))"
  by (simp add: numeral_eq_Suc)

definition field :: "mem \<Rightarrow> nat \<Rightarrow> nat \<Rightarrow> u8 list" where
  "field m s n = map (\<lambda>i. m (s + i)) [0..<n]"

lemma field_Suc: "field m s (Suc n) = m s # field m (s + 1) n"
  by (simp add: field_def upt_conv_Cons map_Suc_upt [symmetric] comp_def del: upt_Suc)

lemma cstr_cong: "(\<And>a. s \<le> a \<Longrightarrow> a < s + n \<Longrightarrow> m a = m' a) \<Longrightarrow> cstr m s n = cstr m' s n"
  by (induction n arbitrary: s) auto

lemma cstr_length: "length (cstr m s n) \<le> n"
  by (induction n arbitrary: s) auto

lemma cstr_nonzero: "0 \<notin> set (cstr m s n)"
  by (induction n arbitrary: s) auto

section \<open>Correctness\<close>

lemma memset_from_spec:
  "memset_from m dst c i n a = (if dst + i \<le> a \<and> a < dst + n then c else m a)"
  by (induction m dst c i n rule: memset_from.induct) (subst memset_from.simps, auto simp: fun_upd_def)

lemma move_up_spec:
  "d \<le> s \<or> s + n \<le> d \<Longrightarrow>
   move_up m d s n a = (if d \<le> a \<and> a < d + n then m (s + (a - d)) else m a)"
proof (induction n arbitrary: m d s)
  case (Suc n)
  have ih: "move_up m d s (Suc n) a
      = (if d + 1 \<le> a \<and> a < d + 1 + n then (m(d := m s)) (s + 1 + (a - (d + 1)))
         else (m(d := m s)) a)"
    using Suc.prems by (simp only: move_up.simps, subst Suc.IH) auto
  consider "a = d" | "d < a" "a < d + Suc n" | "a < d \<or> d + Suc n \<le> a" by linarith
  then show ?case
  proof cases
    case 2
    then have "s + 1 + (a - (d + 1)) = s + (a - d)" "s + (a - d) \<noteq> d"
      using Suc.prems by auto
    with 2 show ?thesis unfolding ih by simp
  qed (use ih in auto)
qed auto

lemma move_down_spec:
  "s < d \<Longrightarrow> n \<le> s \<Longrightarrow>
   move_down m d s n a = (if d - n \<le> a \<and> a < d then m (s - (d - a)) else m a)"
proof (induction n arbitrary: m d s)
  case (Suc n)
  have ih: "move_down m d s (Suc n) a
      = (if d - 1 - n \<le> a \<and> a < d - 1 then (m(d - 1 := m (s - 1))) (s - 1 - (d - 1 - a))
         else (m(d - 1 := m (s - 1))) a)"
    using Suc.prems by (simp only: move_down.simps, subst Suc.IH) auto
  consider "a = d - 1" | "d - Suc n \<le> a" "a < d - 1" | "a < d - Suc n \<or> d \<le> a" by linarith
  then show ?case
  proof cases
    case 2
    then have "s - 1 - (d - 1 - a) = s - (d - a)" "s - (d - a) \<noteq> d - 1"
      using Suc.prems by auto
    with 2 show ?thesis unfolding ih by auto
  qed (use ih Suc.prems in auto)
qed auto

lemma memmove_eq:
  "memmove m dst src n a = (if dst \<le> a \<and> a < dst + n then m (src + (a - dst)) else m a)"
proof (cases "src < dst \<and> src + n > dst")
  case True
  then have "memmove m dst src n a = move_down m (dst + n) (src + n) n a"
    by (simp add: memmove_def)
  also have "\<dots> = (if dst \<le> a \<and> a < dst + n then m (src + n - (dst + n - a)) else m a)"
    by (subst move_down_spec) (use True in auto)
  finally show ?thesis by auto
next
  case False
  then have "dst \<le> src \<or> src + n \<le> dst" by auto
  then have "move_up m dst src n a = (if dst \<le> a \<and> a < dst + n then m (src + (a - dst)) else m a)"
    by (rule move_up_spec)
  with False show ?thesis by (simp only: memmove_def if_False)
qed

lemma strncmp_zero_iff: "strncmp m p q n = 0 \<longleftrightarrow> cstr m p n = cstr m q n"
proof (induction m p q n rule: strncmp.induct)
  case (1 m p q n)
  show ?case
  proof (cases n)
    case 0
    then show ?thesis by (simp add: strncmp.simps)
  next
    case (Suc k)
    show ?thesis
    proof (cases "m p \<noteq> 0 \<and> m p = m q")
      case True
      with 1 Suc show ?thesis by (subst strncmp.simps) simp
    next
      case False
      with Suc show ?thesis by (subst strncmp.simps) (auto simp: word_eq_iff_unsigned [where 'a = int])
    qed
  qed
qed

lemma strncpy_pad_spec:
  "strncpy_pad m s n a = (if s \<le> a \<and> int a < int s + n then 0 else m a)"
  by (induction m s n rule: strncpy_pad.induct) (subst strncpy_pad.simps, auto simp: fun_upd_def)

text \<open>What \<open>strncpy\<close> leaves in the field: the string, then zeros.\<close>

definition disjoint_areas :: "nat \<Rightarrow> nat \<Rightarrow> nat \<Rightarrow> bool" where
  "disjoint_areas s t n = (s + n \<le> t \<or> t + n \<le> s)"

lemma strncpy_Suc:
  "strncpy m s t (int (Suc n)) =
     (if m t \<noteq> 0 then strncpy (m(s := m t)) (s + 1) (t + 1) (int n)
      else strncpy_pad (m(s := 0)) (s + 1) (int n))"
  by (simp add: strncpy_def strncpy_copy.simps [of m s t "1 + int n"])

lemma strncpy_0: "n \<le> 0 \<Longrightarrow> strncpy m s t n = m"
  by (simp add: strncpy_def strncpy_copy.simps strncpy_pad.simps)

lemma strncpy_outside:
  "a < s \<or> s + n \<le> a \<Longrightarrow> strncpy m s t (int n) a = m a"
proof (induction n arbitrary: m s t)
  case (Suc n)
  show ?case
  proof (cases "m t = 0")
    case True
    with Suc.prems show ?thesis by (auto simp: strncpy_Suc strncpy_pad_spec simp del: of_nat_Suc)
  next
    case False
    have "strncpy (m(s := m t)) (s + 1) (t + 1) (int n) a = (m(s := m t)) a"
      by (rule Suc.IH) (use Suc.prems in auto)
    with False Suc.prems show ?thesis by (auto simp: strncpy_Suc simp del: of_nat_Suc)
  qed
qed (simp add: strncpy_0)

lemma strncpy_field:
  assumes "\<forall>i < n. \<forall>j \<le> i. s + j \<noteq> t + i"
  shows "field (strncpy m s t (int n)) s n = cstr m t n @ replicate (n - length (cstr m t n)) 0"
  using assms
proof (induction n arbitrary: m s t)
  case 0
  then show ?case by (simp add: field_def)
next
  case (Suc n)
  let ?m = "strncpy m s t (int (Suc n))"
  show ?case
  proof (cases "m t = 0")
    case True
    then have "?m a = 0" if "s \<le> a" "a < s + Suc n" for a
      using that by (auto simp: strncpy_Suc strncpy_pad_spec simp del: of_nat_Suc)
    then have "field ?m s (Suc n) = replicate (Suc n) 0"
      by (intro nth_equalityI) (auto simp: field_def simp del: of_nat_Suc upt_Suc replicate_Suc)
    with True show ?thesis by simp
  next
    case False
    let ?m1 = "m(s := m t)"
    have ov: "\<forall>i < n. \<forall>j \<le> i. s + 1 + j \<noteq> t + 1 + i"
      using Suc.prems by auto
    have "s \<noteq> t + 1 + i" if "i < n" for i
      using Suc.prems that by (metis Suc_less_eq add.right_neutral add_Suc_right plus_1_eq_Suc semiring_norm(163) zero_le)
    then have same: "cstr ?m1 (t + 1) n = cstr m (t + 1) n"
      by (intro cstr_cong) (metis fun_upd_other le_Suc_ex nat_add_left_cancel_less)
    have m: "?m = strncpy ?m1 (s + 1) (t + 1) (int n)"
      using False by (simp add: strncpy_Suc del: of_nat_Suc)
    have "?m s = m t"
      unfolding m by (subst strncpy_outside) auto
    moreover have "field ?m (s + 1) n = cstr m (t + 1) n @ replicate (n - length (cstr m (t + 1) n)) 0"
      unfolding m using Suc.IH [OF ov, of ?m1] by (simp only: same)
    ultimately show ?thesis
      using False by (simp add: field_Suc del: of_nat_Suc)
  qed
qed

lemma field_cstr: "field m s n = w @ replicate k 0 \<Longrightarrow> 0 \<notin> set w \<Longrightarrow> cstr m s n = w"
proof (induction n arbitrary: s w)
  case 0
  then show ?case by (simp add: field_def)
next
  case (Suc n)
  then show ?case by (cases w; cases k) (auto simp: field_Suc)
qed

lemma strlen_from_cstr:
  assumes "length (cstr m (s + k) n) < n"
  shows "strlen_from m s k = Some (k + length (cstr m (s + k) n))"
  using assms
proof (induction n arbitrary: k)
  case (Suc n)
  then show ?case by (subst strlen_from.simps) auto
qed simp

lemma safestrcpy_Suc:
  "safestrcpy m s t (int (Suc (Suc n))) =
     (if m t \<noteq> 0 then safestrcpy (m(s := m t)) (s + 1) (t + 1) (int (Suc n))
      else m(s := 0, s + 1 := 0))"
  by (simp add: safestrcpy_def safestrcpy_copy.simps [of m s t "2 + int n"])

lemma safestrcpy_1: "safestrcpy m s t 1 = m(s := 0)"
  by (simp add: safestrcpy_def safestrcpy_copy.simps)

lemma safestrcpy_spec:
  assumes "\<forall>i < n. \<forall>j \<le> i. s + j \<noteq> t + i"
  shows "cstr (safestrcpy m s t (int (Suc n))) s (Suc n) = cstr m t n
       \<and> (\<forall>a. a < s \<or> s + Suc n \<le> a \<longrightarrow> safestrcpy m s t (int (Suc n)) a = m a)"
  using assms
proof (induction n arbitrary: m s t)
  case 0
  then show ?case by (auto simp: safestrcpy_1)
next
  case (Suc n)
  show ?case
  proof (cases "m t = 0")
    case True
    then show ?thesis by (auto simp: safestrcpy_Suc simp del: of_nat_Suc)
  next
    case False
    let ?m1 = "m(s := m t)"
    let ?m = "safestrcpy ?m1 (s + 1) (t + 1) (int (Suc n))"
    have ov: "\<forall>i < n. \<forall>j \<le> i. s + 1 + j \<noteq> t + 1 + i"
      using Suc.prems by auto
    have ne: "s \<noteq> t + 1 + i" if "i < n" for i
      using Suc.prems [rule_format, of "Suc i" 0] that by simp
    have same: "cstr ?m1 (t + 1) n = cstr m (t + 1) n"
    proof (rule cstr_cong)
      fix a assume a: "t + 1 \<le> a" "a < t + 1 + n"
      then have "s \<noteq> t + 1 + (a - (t + 1))" by (intro ne) auto
      with a show "?m1 a = m a" by auto
    qed
    note ih = Suc.IH [OF ov, of ?m1]
    have "?m s = ?m1 s" by (rule conjunct2 [OF ih, rule_format]) simp
    then have "?m s = m t" by simp
    moreover have "cstr ?m (s + 1) (Suc n) = cstr m (t + 1) n"
      by (rule trans [OF conjunct1 [OF ih] same])
    moreover have "?m a = m a" if "a < s \<or> s + Suc (Suc n) \<le> a" for a
    proof -
      have "?m a = ?m1 a" by (rule conjunct2 [OF ih, rule_format]) (use that in auto)
      with that show ?thesis by auto
    qed
    ultimately show ?thesis
      using False by (simp add: safestrcpy_Suc cstr.simps(2) [of _ s "Suc n"] cstr.simps(2) [of m t n]
        del: of_nat_Suc cstr.simps)
  qed
qed

lemma memcmp_sign:
  "(memcmp m p q n = 0) = (field m p n = field m q n)"
proof (induction n arbitrary: p q)
  case 0
  then show ?case by (simp add: field_def)
next
  case (Suc n)
  then show ?case by (auto simp: field_Suc word_eq_iff_unsigned [where 'a = int])
qed

section \<open>Properties\<close>

text \<open>
  C40: \<open>memmove\<close> copies \<open>n\<close> bytes from the source as it was before the call, whatever way the
  two areas overlap, and changes nothing outside the destination; \<open>memcpy\<close> does the same.
\<close>

theorem memmove_overlap:
  "memmove m dst src n a = (if dst \<le> a \<and> a < dst + n then m (src + (a - dst)) else m a)
   \<and> memcpy m dst src n = memmove m dst src n"
  by (simp add: memmove_eq memcpy_def)

text \<open>
  a name stored with \<open>strncpy\<close> into a field of \<open>n\<close> bytes is found again by \<open>strncmp\<close>: the
  field holds the string padded with zeros to its end, bytes outside the field are untouched, and
  comparing the field with any name \<open>q\<close> outside it gives 0 exactly when \<open>q\<close> is the same string, up
  to \<open>n\<close> characters. Directory entries rely on it: they are written with \<open>strncpy\<close> and looked up
  with \<open>strncmp\<close>.
\<close>

theorem strncpy_strncmp_roundtrip:
  fixes m :: mem
  assumes "disjoint_areas s t n" and "disjoint_areas s q n"
  shows "let m' = strncpy m s t (int n) in
           field m' s n = cstr m t n @ replicate (n - length (cstr m t n)) 0
         \<and> (\<forall>a. a < s \<or> s + n \<le> a \<longrightarrow> m' a = m a)
         \<and> (strncmp m' q s n = 0 \<longleftrightarrow> cstr m q n = cstr m t n)"
proof -
  let ?m = "strncpy m s t (int n)"
  have out: "?m a = m a" if "a < s \<or> s + n \<le> a" for a
    using that by (rule strncpy_outside)
  have f: "field ?m s n = cstr m t n @ replicate (n - length (cstr m t n)) 0"
    by (rule strncpy_field) (use assms(1) in \<open>auto simp: disjoint_areas_def\<close>)
  have "cstr ?m s n = cstr m t n"
    by (rule field_cstr [OF f cstr_nonzero])
  moreover have "cstr ?m q n = cstr m q n"
    by (rule cstr_cong) (use out assms(2) in \<open>auto simp: disjoint_areas_def\<close>)
  ultimately show ?thesis
    using f out by (simp add: strncmp_zero_iff Let_def)
qed

theorem strncpy_strncmp_roundtrip_witness:
  "strncmp (strncpy ((\<lambda>_. 7)(100 := 1, 101 := 2, 102 := 0, 200 := 1, 201 := 2, 202 := 0)) 0 100 14)
     200 0 14 = 0"
  using strncpy_strncmp_roundtrip [of 0 100 14 200
      "(\<lambda>_. 7)(100 := 1, 101 := 2, 102 := 0, 200 := 1, 201 := 2, 202 := 0)"]
  by (simp add: disjoint_areas_def Let_def)

text \<open>
  \<open>safestrcpy\<close> with a size \<open>n > 0\<close> writes only the \<open>n\<close> bytes of its destination and always
  terminates it: \<open>strlen\<close> of the result returns, and the result is the source cut to \<open>n - 1\<close>
  characters.
\<close>

theorem safestrcpy_terminated:
  fixes m :: mem
  assumes "disjoint_areas s t n" and "0 < n"
  shows "let m' = safestrcpy m s t (int n) in
           strlen m' s = Some (length (cstr m t (n - 1)))
         \<and> cstr m' s n = cstr m t (n - 1)
         \<and> (\<forall>a. a < s \<or> s + n \<le> a \<longrightarrow> m' a = m a)"
proof -
  obtain k where n: "n = Suc k" using assms(2) by (cases n) auto
  let ?m = "safestrcpy m s t (int (Suc k))"
  have ov: "\<forall>i < k. \<forall>j \<le> i. s + j \<noteq> t + i"
    using assms(1) by (auto simp: disjoint_areas_def n)
  note sp = safestrcpy_spec [OF ov, of m]
  have "length (cstr ?m (s + 0) (Suc k)) < Suc k"
    using sp cstr_length [of m t k] by (simp del: of_nat_Suc cstr.simps)
  from strlen_from_cstr [OF this] sp show ?thesis
    by (simp add: strlen_def n Let_def del: of_nat_Suc cstr.simps)
qed

theorem safestrcpy_terminated_witness:
  "strlen (safestrcpy (\<lambda>_. 7) 0 100 3) 0 = Some 2"
  using safestrcpy_terminated [of 0 100 3 "\<lambda>_. 7"]
  by (simp add: disjoint_areas_def Let_def)

end
