(* ===== verification/Pipe.thy ===== *)
theory Pipe
  imports Kernel_Prelude
begin

text \<open>
  Pipes, \<open>src/kernel/proc/pipe.c\<close>: a ring buffer of \<open>PIPESIZE\<close> bytes with two 32-bit counters that
  are never reduced and wrap around. A call runs under the pipe's lock from its start, or from a
  wakeup, to its end or to its next \<open>sleep\<close>: each such run is one operation of the model. The bytes
  of the caller come from \<open>copyin\<close> and go to \<open>copyout\<close>, which may fail at any byte: they are
  arguments.
\<close>

section \<open>Operations\<close>

definition PIPESIZE :: nat where
  "PIPESIZE = 512"

record pipe =
  data :: "u8 list"
  nread :: u32
  nwrite :: u32
  readopen :: bool
  writeopen :: bool

definition pipe_init :: "u8 list \<Rightarrow> pipe" where
  "pipe_init page = \<lparr>data = page, nread = 0, nwrite = 0, readopen = True, writeopen = True\<rparr>"

text \<open>The channels a call wakes up, the addresses of the two counters.\<close>

datatype chan = Chan_nread | Chan_nwrite

text \<open>Result of a run: the value returned, or the channel slept on with the loop's index.\<close>

datatype pres = Ret int | Sleep_at chan nat

definition pipeclose :: "pipe \<Rightarrow> bool \<Rightarrow> pipe \<times> chan list \<times> bool" where
  "pipeclose pi writable =
     (let (pi', woken) =
        (if writable then (pi\<lparr>writeopen := False\<rparr>, [Chan_nread])
         else (pi\<lparr>readopen := False\<rparr>, [Chan_nwrite]))
      in (pi', woken, \<not> readopen pi' \<and> \<not> writeopen pi'))"

function pipewrite ::
  "pipe \<Rightarrow> (nat \<Rightarrow> u8 option) \<Rightarrow> bool \<Rightarrow> nat \<Rightarrow> int \<Rightarrow> pipe \<times> chan list \<times> pres" where
  "pipewrite pi copyin killed i n =
     (if int i < n
      then (if nwrite pi = nread pi + of_nat PIPESIZE
            then (if \<not> readopen pi \<or> killed then (pi, [], Ret (-1))
                  else (pi, [Chan_nread], Sleep_at Chan_nwrite i))
            else (case copyin i of
                    None \<Rightarrow> (pi, [Chan_nread], Ret (int i))
                  | Some ch \<Rightarrow>
                      pipewrite (pi\<lparr>data := (data pi)[unat (nwrite pi) mod PIPESIZE := ch],
                                    nwrite := nwrite pi + 1\<rparr>) copyin killed (i + 1) n))
      else (pi, [Chan_nread], Ret (int i)))"
  by pat_completeness auto
termination by (relation "measure (\<lambda>(pi, copyin, killed, i, n). nat (n - int i))") auto

declare pipewrite.simps [simp del]

function piperead_copy ::
  "pipe \<Rightarrow> (nat \<Rightarrow> bool) \<Rightarrow> nat \<Rightarrow> int \<Rightarrow> u8 list \<Rightarrow> pipe \<times> u8 list \<times> nat" where
  "piperead_copy pi copyout i n out =
     (if int i < n
      then (if nread pi = nwrite pi then (pi, out, i)
            else (let ch = data pi ! (unat (nread pi) mod PIPESIZE);
                      pi' = pi\<lparr>nread := nread pi + 1\<rparr>
                  in (if \<not> copyout i then (pi', out @ [ch], i)
                      else piperead_copy pi' copyout (i + 1) n (out @ [ch]))))
      else (pi, out, i))"
  by pat_completeness auto
termination by (relation "measure (\<lambda>(pi, copyout, i, n, out). nat (n - int i))") auto

declare piperead_copy.simps [simp del]

text \<open>The bytes taken out of the ring are returned beside the result: the last of them was taken but
  not delivered when \<open>copyout\<close> failed.\<close>

definition piperead ::
  "pipe \<Rightarrow> (nat \<Rightarrow> bool) \<Rightarrow> bool \<Rightarrow> int \<Rightarrow> pipe \<times> chan list \<times> u8 list \<times> pres" where
  "piperead pi copyout killed n =
     (if nread pi = nwrite pi \<and> writeopen pi
      then (if killed then (pi, [], [], Ret (-1))
            else (pi, [], [], Sleep_at Chan_nread 0))
      else (case piperead_copy pi copyout 0 n [] of
              (pi', out, i) \<Rightarrow> (pi', [Chan_nwrite], out, Ret (int i))))"

section \<open>The bytes in a pipe\<close>

definition pending :: "pipe \<Rightarrow> nat" where
  "pending pi = unat (nwrite pi - nread pi)"

definition contents :: "pipe \<Rightarrow> u8 list" where
  "contents pi = map (\<lambda>j. data pi ! (unat (nread pi + of_nat j) mod PIPESIZE)) [0..<pending pi]"

definition pipe_inv :: "pipe \<Rightarrow> bool" where
  "pipe_inv pi = (length (data pi) = PIPESIZE \<and> pending pi \<le> PIPESIZE)"

lemma PIPESIZE_facts: "0 < PIPESIZE" "PIPESIZE < 2 ^ 32" "PIPESIZE dvd 2 ^ 32"
  by (simp_all add: PIPESIZE_def)

lemma length_contents: "length (contents pi) = pending pi"
  by (simp add: contents_def)

lemma pending_le: "pending pi < 2 ^ 32"
  using unsigned_less [of "nwrite pi - nread pi", where ?'a = nat] by (simp add: pending_def)

lemma full_iff: "nwrite pi = nread pi + of_nat PIPESIZE \<longleftrightarrow> pending pi = PIPESIZE"
proof
  assume "nwrite pi = nread pi + of_nat PIPESIZE"
  then have "nwrite pi - nread pi = of_nat PIPESIZE" by simp
  then show "pending pi = PIPESIZE"
    unfolding pending_def by (simp add: PIPESIZE_def)
next
  assume "pending pi = PIPESIZE"
  then have "nwrite pi - nread pi = of_nat PIPESIZE"
    unfolding pending_def by (metis of_nat_unat ucast_id)
  then show "nwrite pi = nread pi + of_nat PIPESIZE"
    by (metis add.commute diff_add_cancel)
qed

lemma empty_iff: "nread pi = nwrite pi \<longleftrightarrow> pending pi = 0"
  by (auto simp: pending_def unat_eq_zero)

text \<open>Two bytes less than \<open>PIPESIZE\<close> apart are in different cells, whatever the counters wrapped.\<close>

lemma mod_PIPESIZE_plus: "unat (a + of_nat j :: u32) mod PIPESIZE = (unat a + j) mod PIPESIZE"
proof -
  have "unat (a + of_nat j) = (unat a + j) mod 2 ^ 32"
    by (simp add: unat_word_ariths unat_of_nat mod_simps)
  then show ?thesis
    using mod_mod_cancel [OF PIPESIZE_facts(3), of "unat a + j"] by simp
qed

lemma cells_differ:
  assumes "j < k" "k < PIPESIZE"
  shows "(a + j) mod PIPESIZE \<noteq> (a + k) mod PIPESIZE"
proof
  assume "(a + j) mod PIPESIZE = (a + k) mod PIPESIZE"
  then have "PIPESIZE dvd (a + k) - (a + j)"
    using assms(1) by (metis add_le_cancel_left less_imp_le_nat mod_eq_dvd_iff_nat)
  then have "PIPESIZE dvd k - j" by simp
  with assms show False by (auto dest: dvd_imp_le)
qed

lemma nwrite_cell: "nwrite pi = nread pi + of_nat (pending pi)"
  by (simp add: pending_def)

lemma put_byte:
  fixes ch :: u8
  assumes inv: "pipe_inv pi" and room: "pending pi < PIPESIZE"
  defines "pi' \<equiv> pi\<lparr>data := (data pi)[unat (nwrite pi) mod PIPESIZE := ch], nwrite := nwrite pi + 1\<rparr>"
  shows "pipe_inv pi'" and "contents pi' = contents pi @ [ch]" and "pending pi' = pending pi + 1"
proof -
  have "nwrite pi' - nread pi' = (nwrite pi - nread pi) + 1"
    by (simp add: pi'_def)
  then have p: "pending pi' = pending pi + 1"
    using room by (simp add: pending_def PIPESIZE_def unat_word_ariths)
  then show "pending pi' = pending pi + 1" .
  show "pipe_inv pi'"
    using inv room p by (simp add: pipe_inv_def) (simp add: pi'_def)
  let ?a = "unat (nread pi)"
  have w: "unat (nwrite pi) mod PIPESIZE = (?a + pending pi) mod PIPESIZE"
    by (subst nwrite_cell) (rule mod_PIPESIZE_plus)
  have cell: "(?a + k) mod PIPESIZE < length (data pi)" for k
    using inv PIPESIZE_facts(1) by (simp add: pipe_inv_def)
  have "data pi' ! ((?a + j) mod PIPESIZE) = data pi ! ((?a + j) mod PIPESIZE)" if "j < pending pi" for j
    using cells_differ [OF that room, of ?a] by (simp add: pi'_def w)
  moreover have "data pi' ! ((?a + pending pi) mod PIPESIZE) = ch"
    using cell by (simp add: pi'_def w)
  moreover have "nread pi' = nread pi" by (simp add: pi'_def)
  ultimately show "contents pi' = contents pi @ [ch]"
    by (simp add: contents_def p mod_PIPESIZE_plus)
qed

lemma take_byte:
  assumes inv: "pipe_inv pi" and some: "pending pi \<noteq> 0"
  defines "pi' \<equiv> pi\<lparr>nread := nread pi + 1\<rparr>"
  shows "pipe_inv pi'" and "contents pi = data pi ! (unat (nread pi) mod PIPESIZE) # contents pi'"
    and "pending pi = pending pi' + 1"
proof -
  have "nwrite pi' - nread pi' = (nwrite pi - nread pi) - 1"
    by (simp add: pi'_def)
  moreover have "nwrite pi - nread pi \<noteq> 0"
    using some by (auto simp: pending_def)
  ultimately have p: "pending pi = pending pi' + 1"
    using some by (simp add: pending_def unat_minus_one)
  then show "pending pi = pending pi' + 1" .
  show "pipe_inv pi'"
    using inv p by (simp add: pipe_inv_def) (simp add: pi'_def)
  have "nread pi + 1 + of_nat j = nread pi + of_nat (Suc j)" for j :: nat
    by simp
  then have "contents pi' = map (\<lambda>j. data pi ! (unat (nread pi + of_nat (Suc j)) mod PIPESIZE)) [0..<pending pi']"
    by (simp add: contents_def pi'_def add.assoc)
  then show "contents pi = data pi ! (unat (nread pi) mod PIPESIZE) # contents pi'"
    by (simp add: contents_def p upt_conv_Cons map_Suc_upt [symmetric] comp_def del: upt_Suc)
qed

text \<open>What a run of \<open>pipewrite\<close> does: it appends \<open>m\<close> bytes, and ends in one of three ways.\<close>

definition appended :: "pipe \<Rightarrow> (nat \<Rightarrow> u8 option) \<Rightarrow> nat \<Rightarrow> nat \<Rightarrow> pipe \<Rightarrow> bool" where
  "appended pi copyin i m pi' =
     (pipe_inv pi' \<and> contents pi' = contents pi @ map (the \<circ> copyin) [i..<i + m]
      \<and> pending pi' = pending pi + m \<and> nwrite pi' = nwrite pi + of_nat m \<and> nread pi' = nread pi
      \<and> readopen pi' = readopen pi \<and> writeopen pi' = writeopen pi)"

definition write_end ::
  "pipe \<Rightarrow> (nat \<Rightarrow> u8 option) \<Rightarrow> bool \<Rightarrow> nat \<Rightarrow> int \<Rightarrow> chan list \<Rightarrow> pres \<Rightarrow> bool" where
  "write_end pi copyin killed j n woken r =
     (r = Ret (int j) \<and> (n \<le> int j \<or> copyin j = None) \<and> woken = [Chan_nread]
      \<or> r = Ret (-1) \<and> pending pi = PIPESIZE \<and> (\<not> readopen pi \<or> killed) \<and> woken = [] \<and> int j < n
      \<or> r = Sleep_at Chan_nwrite j \<and> pending pi = PIPESIZE \<and> readopen pi \<and> \<not> killed
        \<and> woken = [Chan_nread] \<and> int j < n)"

lemma appended_refl: "pipe_inv pi \<Longrightarrow> appended pi copyin i 0 pi"
  by (simp add: appended_def)

lemma appended_step:
  assumes "appended pi copyin i 1 pi1" and "appended pi1 copyin (i + 1) m pi'"
  shows "appended pi copyin i (Suc m) pi'"
  using assms by (auto simp: appended_def upt_conv_Cons simp del: upt_Suc)

lemma pipewrite_spec:
  assumes "pipe_inv pi" and "pipewrite pi copyin killed i n = (pi', woken, r)"
  shows "\<exists>m. appended pi copyin i m pi' \<and> write_end pi' copyin killed (i + m) n woken r"
  using assms
proof (induction pi copyin killed i n rule: pipewrite.induct)
  case (1 pi copyin killed i n)
  show ?case
  proof (cases "int i < n \<and> nwrite pi \<noteq> nread pi + of_nat PIPESIZE \<and> copyin i \<noteq> None")
    case False
    then have "pi' = pi \<and> write_end pi copyin killed i n woken r"
      using "1.prems"(2) by (subst (asm) pipewrite.simps) (auto simp: write_end_def full_iff split: if_splits)
    then show ?thesis
      using appended_refl [OF "1.prems"(1)] by (metis add_0_right)
  next
    case True
    then obtain ch where ch: "copyin i = Some ch" by auto
    let ?p = "pi\<lparr>data := (data pi)[unat (nwrite pi) mod PIPESIZE := ch], nwrite := nwrite pi + 1\<rparr>"
    have room: "pending pi < PIPESIZE"
      using True "1.prems"(1) by (auto simp: full_iff pipe_inv_def)
    note put = put_byte [OF "1.prems"(1) room, of ch]
    have one: "appended pi copyin i 1 ?p"
      using put ch by (simp add: appended_def upt_conv_Cons)
    have "pipewrite ?p copyin killed (i + 1) n = (pi', woken, r)"
      using "1.prems"(2) True ch by (subst (asm) pipewrite.simps) simp
    with "1.IH" [of ch] True ch put(1) obtain m where
      "appended ?p copyin (i + 1) m pi'" "write_end pi' copyin killed (i + 1 + m) n woken r"
      by auto
    with appended_step [OF one] show ?thesis by (metis add_Suc_right add.commute plus_1_eq_Suc)
  qed
qed

text \<open>What the copy loop of \<open>piperead\<close> does: it takes the first \<open>k\<close> bytes.\<close>

lemma piperead_copy_spec:
  assumes "pipe_inv pi" and "piperead_copy pi copyout i n out = (pi', out', j)" and "int i \<le> n \<or> out = []"
  shows "pipe_inv pi' \<and> writeopen pi' = writeopen pi \<and> readopen pi' = readopen pi \<and> nwrite pi' = nwrite pi
    \<and> (\<exists>taken. out' = out @ taken \<and> contents pi = taken @ contents pi'
        \<and> (length taken = j - i \<and> i \<le> j \<and> (int j \<le> n \<or> j = i) \<and> (n \<le> int j \<or> pending pi' = 0)
           \<or> length taken = j - i + 1 \<and> i \<le> j \<and> int j < n \<and> \<not> copyout j))"
  using assms
proof (induction pi copyout i n out arbitrary: rule: piperead_copy.induct)
  case (1 pi copyout i n out)
  show ?case
  proof (cases "int i < n \<and> nread pi \<noteq> nwrite pi")
    case False
    then show ?thesis
      using "1.prems"(1,2) by (subst (asm) piperead_copy.simps) (auto simp: empty_iff split: if_splits)
  next
    case True
    let ?ch = "data pi ! (unat (nread pi) mod PIPESIZE)"
    let ?p = "pi\<lparr>nread := nread pi + 1\<rparr>"
    have "pending pi \<noteq> 0" using True by (simp add: empty_iff)
    note tk = take_byte [OF "1.prems"(1) this]
    show ?thesis
    proof (cases "copyout i")
      case False
      then have "pi' = ?p" "out' = out @ [?ch]" "j = i"
        using "1.prems"(2) True by (subst (asm) piperead_copy.simps, simp)+
      then show ?thesis
        using tk(1,2) True False by (auto intro!: exI [of _ "[?ch]"])
    next
      case ok: True
      have "piperead_copy ?p copyout (i + 1) n (out @ [?ch]) = (pi', out', j)"
        using "1.prems"(2) True ok by (subst (asm) piperead_copy.simps) simp
      moreover have "int (i + 1) \<le> n" using True by simp
      ultimately obtain taken where t: "pipe_inv pi'" "writeopen pi' = writeopen pi"
        "readopen pi' = readopen pi" "nwrite pi' = nwrite pi"
        "out' = out @ [?ch] @ taken" "contents ?p = taken @ contents pi'"
        "length taken = j - (i + 1) \<and> i + 1 \<le> j \<and> (int j \<le> n \<or> j = i + 1) \<and> (n \<le> int j \<or> pending pi' = 0)
         \<or> length taken = j - (i + 1) + 1 \<and> i + 1 \<le> j \<and> int j < n \<and> \<not> copyout j"
        using "1.IH" [of ?ch ?p] True ok tk(1) by auto
      then show ?thesis
        using tk(2) True by (auto intro!: exI [of _ "?ch # taken"])
    qed
  qed
qed

section \<open>A pipe between its processes\<close>

text \<open>
  The life of a pipe under any sequence of runs by any readers and writers. Beside the pipe, the
  relation keeps whether a reader and whether a writer is asleep on it (set by a run that sleeps,
  cleared by a wakeup of its channel), whether a writer was ever refused with -1 (it then wakes
  nobody), the bytes accepted so far and the bytes taken out so far.
\<close>

definition accepted :: "pipe \<Rightarrow> (nat \<Rightarrow> u8 option) \<Rightarrow> nat \<Rightarrow> pipe \<Rightarrow> u8 list" where
  "accepted pi copyin i pi' = map (the \<circ> copyin) [i..<i + unat (nwrite pi' - nwrite pi)]"

definition sleeping :: "bool \<Rightarrow> chan \<Rightarrow> chan list \<Rightarrow> pres \<Rightarrow> bool" where
  "sleeping before ch woken r = (before \<and> ch \<notin> set woken \<or> (\<exists>i. r = Sleep_at ch i))"

inductive pipe_reach :: "pipe \<Rightarrow> bool \<Rightarrow> bool \<Rightarrow> bool \<Rightarrow> u8 list \<Rightarrow> u8 list \<Rightarrow> bool" where
  start: "length page = PIPESIZE \<Longrightarrow> pipe_reach (pipe_init page) False False False [] []"
| put: "pipe_reach pi rs ws refused sent taken \<Longrightarrow> writeopen pi \<Longrightarrow>
    pipewrite pi copyin killed i n = (pi', woken, r) \<Longrightarrow>
    pipe_reach pi' (sleeping rs Chan_nread woken r) (sleeping ws Chan_nwrite woken r)
      (refused \<or> r = Ret (-1)) (sent @ accepted pi copyin i pi') taken"
| get: "pipe_reach pi rs ws refused sent taken \<Longrightarrow> readopen pi \<Longrightarrow>
    piperead pi copyout killed n = (pi', woken, out, r) \<Longrightarrow>
    pipe_reach pi' (sleeping rs Chan_nread woken r) (sleeping ws Chan_nwrite woken r)
      refused sent (taken @ out)"
| shut: "pipe_reach pi rs ws refused sent taken \<Longrightarrow>
    pipeclose pi writable = (pi', woken, freed) \<Longrightarrow> \<not> freed \<Longrightarrow>
    pipe_reach pi' (rs \<and> Chan_nread \<notin> set woken) (ws \<and> Chan_nwrite \<notin> set woken) refused sent taken"

definition stream_inv :: "pipe \<Rightarrow> bool \<Rightarrow> bool \<Rightarrow> bool \<Rightarrow> u8 list \<Rightarrow> u8 list \<Rightarrow> bool" where
  "stream_inv pi rs ws refused sent taken =
     (pipe_inv pi \<and> sent = taken @ contents pi
      \<and> (ws \<longrightarrow> pending pi = PIPESIZE \<and> readopen pi)
      \<and> (rs \<longrightarrow> writeopen pi)
      \<and> (rs \<and> \<not> refused \<longrightarrow> pending pi = 0))"

lemma accepted_appended:
  assumes "appended pi copyin i m pi'"
  shows "accepted pi copyin i pi' = map (the \<circ> copyin) [i..<i + m]"
proof -
  have "m \<le> PIPESIZE" using assms by (auto simp: appended_def pipe_inv_def)
  then have "unat (of_nat m :: u32) = m"
    by (simp add: unat_of_nat PIPESIZE_def)
  with assms show ?thesis by (simp add: accepted_def appended_def)
qed

lemma stream_write:
  assumes "stream_inv pi rs ws refused sent taken" and "writeopen pi"
    and "pipewrite pi copyin killed i n = (pi', woken, r)"
  shows "stream_inv pi' (sleeping rs Chan_nread woken r) (sleeping ws Chan_nwrite woken r)
      (refused \<or> r = Ret (-1)) (sent @ accepted pi copyin i pi') taken"
proof -
  obtain m where a: "appended pi copyin i m pi'" and e: "write_end pi' copyin killed (i + m) n woken r"
    using pipewrite_spec [OF _ assms(3)] assms(1) by (auto simp: stream_inv_def)
  have "ws \<Longrightarrow> m = 0"
    using assms(1) a by (auto simp: stream_inv_def appended_def pipe_inv_def)
  then show ?thesis
    using assms(1,2) a e unfolding accepted_appended [OF a]
    by (auto simp: stream_inv_def appended_def write_end_def sleeping_def)
qed

lemma piperead_spec:
  assumes inv: "pipe_inv pi" and r: "piperead pi copyout killed n = (pi', woken, out, r)"
  obtains (blocked) "pending pi = 0" "writeopen pi" "pi' = pi" "woken = []" "out = []"
      "r = (if killed then Ret (-1) else Sleep_at Chan_nread 0)"
    | (copied) k where "pending pi \<noteq> 0 \<or> \<not> writeopen pi" "r = Ret (int k)" "woken = [Chan_nwrite]"
      "pipe_inv pi'" "writeopen pi' = writeopen pi" "readopen pi' = readopen pi" "contents pi = out @ contents pi'"
      "length out = k \<and> (int k \<le> n \<or> k = 0) \<and> (n \<le> int k \<or> pending pi' = 0) \<or> length out = k + 1 \<and> int k < n \<and> \<not> copyout k"
proof (cases "nread pi = nwrite pi \<and> writeopen pi")
  case True
  then show ?thesis using r by (intro blocked) (auto simp: piperead_def empty_iff split: if_splits)
next
  case False
  obtain p o' j where c: "piperead_copy pi copyout 0 n [] = (p, o', j)" by (cases "piperead_copy pi copyout 0 n []")
  then have eq: "pi' = p" "out = o'" "woken = [Chan_nwrite]" "r = Ret (int j)"
    using r False by (auto simp: piperead_def)
  from piperead_copy_spec [OF inv c] show ?thesis
    using False eq by (intro copied [of j]) (auto simp: empty_iff)
qed

lemma stream_read:
  assumes "stream_inv pi rs ws refused sent taken"
    and "piperead pi copyout killed n = (pi', woken, out, r)"
  shows "stream_inv pi' (sleeping rs Chan_nread woken r) (sleeping ws Chan_nwrite woken r)
      refused sent (taken @ out)"
proof -
  have "pipe_inv pi" using assms(1) by (simp add: stream_inv_def)
  then show ?thesis using assms(2)
  proof (cases rule: piperead_spec)
    case blocked
    then show ?thesis
      using assms(1) by (auto simp: stream_inv_def sleeping_def contents_def)
  next
    case (copied k)
    have "length (contents pi') \<le> length (contents pi)" using copied by simp
    then show ?thesis
      using assms(1) copied by (auto simp: stream_inv_def sleeping_def length_contents)
  qed
qed

lemma stream_close:
  assumes "stream_inv pi rs ws refused sent taken" and "pipeclose pi writable = (pi', woken, freed)"
  shows "stream_inv pi' (rs \<and> Chan_nread \<notin> set woken) (ws \<and> Chan_nwrite \<notin> set woken) refused sent taken"
  using assms by (auto simp: stream_inv_def pipeclose_def pipe_inv_def pending_def contents_def Let_def split: if_splits)

lemma pipe_reach_inv: "pipe_reach pi rs ws refused sent taken \<Longrightarrow> stream_inv pi rs ws refused sent taken"
proof (induction rule: pipe_reach.induct)
  case (start page)
  then show ?case by (simp add: stream_inv_def pipe_init_def pipe_inv_def pending_def contents_def)
next
  case (put pi rs ws refused sent taken copyin killed i n pi' woken r)
  then show ?case using stream_write by blast
next
  case (get pi rs ws refused sent taken copyout killed n pi' woken out r)
  then show ?case using stream_read by blast
next
  case (shut pi rs ws refused sent taken writable pi' woken freed)
  then show ?case using stream_close by blast
qed

section \<open>Properties\<close>

text \<open>
  C11: a pipe is a first-in first-out byte stream. After any sequence of reads, writes and closes by
  any processes, and however often the 32-bit counters wrapped, the bytes accepted are the bytes
  taken out followed by at most \<open>PIPESIZE\<close> buffered ones: none is lost, duplicated or reordered.
\<close>

theorem pipe_fifo:
  assumes "pipe_reach pi rs ws refused sent taken"
  shows "sent = taken @ contents pi \<and> length (contents pi) \<le> PIPESIZE"
  using pipe_reach_inv [OF assms] by (simp add: stream_inv_def pipe_inv_def length_contents)

theorem pipe_fifo_witness:
  "[1, 2, 3] = ([] :: u8 list) @ contents (fst (pipewrite (pipe_init (replicate 512 0)) (\<lambda>i. Some (of_nat i + 1)) False 0 3))"
proof -
  let ?p = "pipe_init (replicate 512 0)"
  let ?c = "\<lambda>i. Some (of_nat i + 1 :: u8)"
  obtain p w r where pw: "pipewrite ?p ?c False 0 3 = (p, w, r)" by (cases "pipewrite ?p ?c False 0 3")
  have "pipe_reach ?p False False False [] []"
    by (rule pipe_reach.start) (simp add: PIPESIZE_def)
  then have "pipe_reach p (sleeping False Chan_nread w r) (sleeping False Chan_nwrite w r)
      (False \<or> r = Ret (-1)) ([] @ accepted ?p ?c 0 p) []"
    by (rule pipe_reach.put [OF _ _ pw]) (simp add: pipe_init_def)
  from pipe_fifo [OF this] have "accepted ?p ?c 0 p = [] @ contents p" by simp
  moreover have "nwrite p = 3"
    using pw by (simp add: pipewrite.simps pipe_init_def PIPESIZE_def) auto
  ultimately show ?thesis
    using pw by (simp add: accepted_def pipe_init_def upt_rec)
qed

text \<open>
  C13: nobody sleeps for nothing, as long as no write was refused. A sleeping writer always faces a full
  ring with an open reading end, and a sleeping reader an open writing end. While no call of
  \<open>pipewrite\<close> has returned -1, a sleeping reader also faces an empty ring, so that reader and writer are not
  both asleep. After a refused write, which wakes nobody, this second part may fail.
\<close>

theorem pipe_no_lost_wakeup:
  assumes "pipe_reach pi rs ws refused sent taken"
  shows "(ws \<longrightarrow> pending pi = PIPESIZE \<and> readopen pi) \<and> (rs \<longrightarrow> writeopen pi)
       \<and> (rs \<and> \<not> refused \<longrightarrow> pending pi = 0 \<and> \<not> ws)"
  using pipe_reach_inv [OF assms] PIPESIZE_facts(1) by (auto simp: stream_inv_def)

lemma reader_asleep:
  "pipe_reach (pipe_init (replicate PIPESIZE 0)) True False False [] []"
proof -
  let ?p = "pipe_init (replicate PIPESIZE 0)"
  have "pipe_reach ?p False False False [] []" by (rule pipe_reach.start) simp
  then have "pipe_reach ?p (sleeping False Chan_nread [] (Sleep_at Chan_nread 0))
      (sleeping False Chan_nwrite [] (Sleep_at Chan_nread 0)) False [] ([] @ [])"
    by (rule pipe_reach.get [where copyout = "\<lambda>_. True" and killed = False and n = 1])
      (simp_all add: pipe_init_def piperead_def)
  then show ?thesis by (simp add: sleeping_def)
qed

lemma writer_asleep:
  obtains pi sent where "pipe_reach pi False True False sent []"
proof -
  let ?p = "pipe_init (replicate PIPESIZE 0)"
  let ?run = "pipewrite ?p (\<lambda>_. Some 1) False 0 (int PIPESIZE + 1)"
  obtain p w r where pw: "?run = (p, w, r)" by (cases ?run)
  have o: "pipe_inv ?p" "readopen ?p" by (simp_all add: pipe_inv_def pipe_init_def pending_def)
  from pipewrite_spec [OF o(1) pw] obtain m where
    a: "appended ?p (\<lambda>_. Some 1) 0 m p" and e: "write_end p (\<lambda>_. Some 1) False (0 + m) (int PIPESIZE + 1) w r"
    by blast
  have "m \<le> PIPESIZE" "readopen p" using a o(2) by (auto simp: appended_def pipe_inv_def)
  then have fin: "w = [Chan_nread]" "\<exists>i. r = Sleep_at Chan_nwrite i"
    using e by (auto simp: write_end_def)
  have "pipe_reach p (sleeping False Chan_nread w r) (sleeping False Chan_nwrite w r)
      (False \<or> r = Ret (-1)) ([] @ accepted ?p (\<lambda>_. Some 1) 0 p) []"
    by (rule pipe_reach.put [OF pipe_reach.start _ pw]) (simp_all add: pipe_init_def)
  then show ?thesis using fin that by (auto simp: sleeping_def)
qed

theorem pipe_no_lost_wakeup_witness:
  "(\<exists>pi sent. pipe_reach pi False True False sent [] \<and> pending pi = PIPESIZE \<and> readopen pi)
   \<and> (\<exists>pi. pipe_reach pi True False False [] [] \<and> pending pi = 0 \<and> writeopen pi)"
proof -
  obtain pi sent where "pipe_reach pi False True False sent []" by (rule writer_asleep)
  from pipe_no_lost_wakeup [OF this] this pipe_no_lost_wakeup [OF reader_asleep] reader_asleep show ?thesis by blast
qed

text \<open>
  the exception is real. A writer that was killed and fills the ring returns -1 without waking
  the readers: a reader can be left asleep in front of a full ring of bytes.
\<close>

theorem pipe_refused_loses_wakeup:
  "\<exists>pi sent. pipe_reach pi True False True sent [] \<and> pending pi = PIPESIZE \<and> writeopen pi \<and> readopen pi"
proof -
  let ?p = "pipe_init (replicate PIPESIZE 0)"
  obtain p w r where pw: "pipewrite ?p (\<lambda>_. Some 1) True 0 (int PIPESIZE + 1) = (p, w, r)"
    by (cases "pipewrite ?p (\<lambda>_. Some 1) True 0 (int PIPESIZE + 1)")
  have "pipe_inv ?p" by (simp add: pipe_inv_def pipe_init_def pending_def)
  from pipewrite_spec [OF this pw] obtain m where
    a: "appended ?p (\<lambda>_. Some 1) 0 m p" and e: "write_end p (\<lambda>_. Some 1) True (0 + m) (int PIPESIZE + 1) w r"
    by blast
  have "m \<le> PIPESIZE" using a by (auto simp: appended_def pipe_inv_def)
  then have fin: "r = Ret (-1)" "w = []" "pending p = PIPESIZE"
    using e by (auto simp: write_end_def)
  have "pipe_reach p (sleeping True Chan_nread w r) (sleeping False Chan_nwrite w r)
      (False \<or> r = Ret (-1)) ([] @ accepted ?p (\<lambda>_. Some 1) 0 p) []"
    by (rule pipe_reach.put [OF reader_asleep _ pw]) (simp add: pipe_init_def)
  then have "pipe_reach p True False True (accepted ?p (\<lambda>_. Some 1) 0 p) []"
    by (simp add: fin sleeping_def)
  moreover have "writeopen p \<and> readopen p" using a by (simp add: appended_def pipe_init_def)
  ultimately show ?thesis using fin(3) by blast
qed

text \<open>
  a read that does not block takes a prefix of the buffered bytes, as many as asked for or all
  of them, unless copying to the caller fails; it returns 0 for a positive count only at the end of
  the stream (nothing buffered, writing end closed) or when the first copy fails; and it blocks
  exactly when nothing is buffered and the writing end is open.
\<close>

theorem piperead_prefix:
  assumes "pipe_inv pi" and "piperead pi copyout killed n = (pi', woken, out, r)"
  shows "contents pi = out @ contents pi'
    \<and> (pending pi = 0 \<and> writeopen pi \<longleftrightarrow> r = Ret (-1) \<or> r = Sleep_at Chan_nread 0)
    \<and> (\<forall>k. r = Ret (int k) \<and> (\<forall>j \<le> k. copyout j) \<longrightarrow> int (length out) = min (max 0 n) (int (pending pi)))
    \<and> (r = Ret 0 \<and> 0 < n \<longrightarrow> pending pi = 0 \<and> \<not> writeopen pi \<or> \<not> copyout 0)"
  using assms
proof (cases rule: piperead_spec)
  case blocked
  then show ?thesis by (auto simp: contents_def)
next
  case (copied k)
  have len: "pending pi = length out + pending pi'"
    using arg_cong [OF copied(7), of length] by (simp add: length_contents)
  have "int (length out) = min (max 0 n) (int (pending pi))" if "\<forall>j \<le> k. copyout j"
    using copied(8) that len by auto
  moreover have "pending pi = 0 \<and> \<not> writeopen pi \<or> \<not> copyout 0" if "k = 0" "0 < n"
    using copied(1,8) that len by auto
  ultimately show ?thesis using copied by auto
qed

theorem piperead_prefix_witness:
  "fst (snd (snd (piperead (pipe_init (replicate 512 0)) (\<lambda>_. True) False 1))) = []"
proof -
  let ?p = "pipe_init (replicate 512 0)"
  let ?r = "piperead ?p (\<lambda>_. True) False 1"
  have inv: "pipe_inv ?p"
    by (simp add: pipe_inv_def pipe_init_def pending_def PIPESIZE_def)
  have "contents ?p = []"
    by (simp add: contents_def pipe_init_def pending_def)
  with piperead_prefix [OF inv, where pi' = "fst ?r" and woken = "fst (snd ?r)" and out = "fst (snd (snd ?r))"
      and r = "snd (snd (snd ?r))" and copyout = "\<lambda>_. True" and killed = False and n = 1] show ?thesis by simp
qed

end
