(* ===== verification/Spinlock.thy ===== *)
theory Spinlock
  imports Kernel_Prelude
begin

text \<open>
  Spin locks and the nesting of interrupt disabling, \<open>src/kernel/lock/spinlock.c\<close>, and sleep locks,
  \<open>src/kernel/lock/sleeplock.c\<close>. The code between two atomic accesses to a lock is one step, so
  that the interleavings of \<open>acquire\<close> and \<open>release\<close> on several CPUs are sequences of steps.
\<close>

section \<open>Operations\<close>

record spinlock =
  locked :: bool
  lkcpu :: "nat option"

record cpu =
  noff :: int
  intena :: bool
  intr :: bool

definition initlock :: spinlock where
  "initlock = \<lparr>locked = False, lkcpu = None\<rparr>"

definition holding :: "spinlock \<Rightarrow> nat \<Rightarrow> bool" where
  "holding lk c = (locked lk \<and> lkcpu lk = Some c)"

definition push_off :: "cpu \<Rightarrow> cpu" where
  "push_off cp =
     (let old = intr cp;
          cp = cp\<lparr>intr := False\<rparr>;
          cp = (if noff cp = 0 then cp\<lparr>intena := old\<rparr> else cp)
      in cp\<lparr>noff := noff cp + 1\<rparr>)"

definition pop_off :: "cpu \<Rightarrow> cpu kres" where
  "pop_off cp =
     (if intr cp then Inl ''pop_off - interruptible''
      else if noff cp < 1 then Inl ''pop_off''
      else (let cp = cp\<lparr>noff := noff cp - 1\<rparr>
            in Inr (if noff cp = 0 \<and> intena cp then cp\<lparr>intr := True\<rparr> else cp)))"

text \<open>The steps of \<open>acquire\<close>: up to the loop, one turn of the loop, and after it.\<close>

definition acquire_enter :: "spinlock \<Rightarrow> cpu \<Rightarrow> nat \<Rightarrow> cpu kres" where
  "acquire_enter lk cp c =
     (let cp = push_off cp in if holding lk c then Inl ''acquire'' else Inr cp)"

definition test_and_set :: "spinlock \<Rightarrow> spinlock \<times> bool" where
  "test_and_set lk = (lk\<lparr>locked := True\<rparr>, locked lk)"

definition acquire_mark :: "spinlock \<Rightarrow> nat \<Rightarrow> spinlock" where
  "acquire_mark lk c = lk\<lparr>lkcpu := Some c\<rparr>"

text \<open>The steps of \<open>release\<close> before \<open>pop_off\<close>.\<close>

definition release_clear :: "spinlock \<Rightarrow> nat \<Rightarrow> spinlock kres" where
  "release_clear lk c = (if \<not> holding lk c then Inl ''release'' else Inr (lk\<lparr>lkcpu := None\<rparr>))"

definition release_unlock :: "spinlock \<Rightarrow> spinlock" where
  "release_unlock lk = lk\<lparr>locked := False\<rparr>"

section \<open>Sleep locks\<close>

record sleeplock =
  sl_locked :: bool
  sl_pid :: int

definition initsleeplock :: sleeplock where
  "initsleeplock = \<lparr>sl_locked = False, sl_pid = 0\<rparr>"

definition acquiresleep :: "sleeplock \<Rightarrow> int \<Rightarrow> sleeplock outcome" where
  "acquiresleep lk pid =
     (if sl_locked lk then Sleeps else Done (lk\<lparr>sl_locked := True, sl_pid := pid\<rparr>))"

definition releasesleep :: "sleeplock \<Rightarrow> sleeplock" where
  "releasesleep lk = lk\<lparr>sl_locked := False, sl_pid := 0\<rparr>"

definition holdingsleep :: "sleeplock \<Rightarrow> int \<Rightarrow> bool" where
  "holdingsleep lk pid = (sl_locked lk \<and> sl_pid lk = pid)"

lemma holdingsleep_acquire:
  "acquiresleep lk pid = Done lk' \<Longrightarrow>
     holdingsleep lk' pid' = (pid' = pid) \<and> acquiresleep lk' pid' = Sleeps
     \<and> \<not> holdingsleep (releasesleep lk') pid'"
  by (auto simp: acquiresleep_def holdingsleep_def releasesleep_def split: if_splits)

section \<open>CPUs and locks\<close>

text \<open>
  Where a CPU is: outside of the lock routines, in the loop of \<open>acquire\<close>, past the loop but not yet
  recorded as holder, in \<open>release\<close> before the lock word is cleared, before \<open>pop_off\<close>, or stopped by
  a panic. \<open>nested\<close> counts the calls of \<open>push_off\<close> not made by \<open>acquire\<close> and not yet undone.
\<close>

datatype pc = Idle | Spinning nat | Won nat | Clearing nat | Popping | Stopped

record machine =
  locks :: "nat \<Rightarrow> spinlock"
  cpus :: "nat \<Rightarrow> cpu"
  pcs :: "nat \<Rightarrow> pc"
  nested :: "nat \<Rightarrow> nat"

definition boot :: machine where
  "boot = \<lparr>locks = (\<lambda>_. initlock), cpus = (\<lambda>_. \<lparr>noff = 0, intena = False, intr = False\<rparr>),
           pcs = (\<lambda>_. Idle), nested = (\<lambda>_. 0)\<rparr>"

inductive step :: "machine \<Rightarrow> machine \<Rightarrow> bool" where
  enter: "pcs s c = Idle \<Longrightarrow> acquire_enter (locks s l) (cpus s c) c = Inr cp \<Longrightarrow>
    step s (s\<lparr>cpus := (cpus s)(c := cp), pcs := (pcs s)(c := Spinning l)\<rparr>)"
| enter_panic: "pcs s c = Idle \<Longrightarrow> acquire_enter (locks s l) (cpus s c) c = Inl e \<Longrightarrow>
    step s (s\<lparr>pcs := (pcs s)(c := Stopped)\<rparr>)"
| spin: "pcs s c = Spinning l \<Longrightarrow> test_and_set (locks s l) = (lk, True) \<Longrightarrow>
    step s (s\<lparr>locks := (locks s)(l := lk)\<rparr>)"
| win: "pcs s c = Spinning l \<Longrightarrow> test_and_set (locks s l) = (lk, False) \<Longrightarrow>
    step s (s\<lparr>locks := (locks s)(l := lk), pcs := (pcs s)(c := Won l)\<rparr>)"
| mark: "pcs s c = Won l \<Longrightarrow>
    step s (s\<lparr>locks := (locks s)(l := acquire_mark (locks s l) c), pcs := (pcs s)(c := Idle)\<rparr>)"
| clear: "pcs s c = Idle \<Longrightarrow> release_clear (locks s l) c = Inr lk \<Longrightarrow>
    step s (s\<lparr>locks := (locks s)(l := lk), pcs := (pcs s)(c := Clearing l)\<rparr>)"
| clear_panic: "pcs s c = Idle \<Longrightarrow> release_clear (locks s l) c = Inl e \<Longrightarrow>
    step s (s\<lparr>pcs := (pcs s)(c := Stopped)\<rparr>)"
| unlock: "pcs s c = Clearing l \<Longrightarrow>
    step s (s\<lparr>locks := (locks s)(l := release_unlock (locks s l)), pcs := (pcs s)(c := Popping)\<rparr>)"
| pop: "pcs s c = Popping \<Longrightarrow> pop_off (cpus s c) = Inr cp \<Longrightarrow>
    step s (s\<lparr>cpus := (cpus s)(c := cp), pcs := (pcs s)(c := Idle)\<rparr>)"
| nest: "pcs s c = Idle \<Longrightarrow>
    step s (s\<lparr>cpus := (cpus s)(c := push_off (cpus s c)), nested := (nested s)(c := nested s c + 1)\<rparr>)"
| unnest: "pcs s c = Idle \<Longrightarrow> 0 < nested s c \<Longrightarrow> pop_off (cpus s c) = Inr cp \<Longrightarrow>
    step s (s\<lparr>cpus := (cpus s)(c := cp), nested := (nested s)(c := nested s c - 1)\<rparr>)"
| irq: "pcs s c = Idle \<Longrightarrow> noff (cpus s c) = 0 \<Longrightarrow>
    step s (s\<lparr>cpus := (cpus s)(c := (cpus s c)\<lparr>intr := on\<rparr>)\<rparr>)"

inductive reach :: "machine \<Rightarrow> bool" where
  init: "reach boot"
| step: "reach s \<Longrightarrow> step s s' \<Longrightarrow> reach s'"

section \<open>Mutual exclusion\<close>

text \<open>A CPU between its two accesses that make it the holder, or unmake it.\<close>

fun inside :: "nat \<Rightarrow> pc \<Rightarrow> bool" where
  "inside l (Won k) = (k = l)"
| "inside l (Clearing k) = (k = l)"
| "inside l _ = False"

text \<open>One lock and the set of CPUs inside it: they exclude each other and a recorded holder.\<close>

definition lock_inv :: "spinlock \<Rightarrow> (nat \<Rightarrow> bool) \<Rightarrow> bool" where
  "lock_inv lk I =
     ((\<forall>c. lkcpu lk = Some c \<longrightarrow> locked lk \<and> (\<forall>c'. \<not> I c'))
      \<and> (\<forall>c. I c \<longrightarrow> locked lk \<and> lkcpu lk = None \<and> (\<forall>c'. I c' \<longrightarrow> c' = c)))"

lemma lock_inv_win: "lock_inv lk I \<Longrightarrow> test_and_set lk = (lk', False) \<Longrightarrow> lock_inv lk' (I(c := True))"
  by (cases "lkcpu lk") (auto simp: lock_inv_def test_and_set_def)

lemma lock_inv_spin: "test_and_set lk = (lk', True) \<Longrightarrow> lk' = lk"
  by (auto simp: test_and_set_def)

lemma lock_inv_mark: "lock_inv lk I \<Longrightarrow> I c \<Longrightarrow> lock_inv (acquire_mark lk c) (I(c := False))"
  by (auto simp: lock_inv_def acquire_mark_def)

lemma lock_inv_clear: "lock_inv lk I \<Longrightarrow> release_clear lk c = Inr lk' \<Longrightarrow> lock_inv lk' (I(c := True))"
  by (auto simp: lock_inv_def release_clear_def holding_def split: if_splits)

lemma lock_inv_unlock: "lock_inv lk I \<Longrightarrow> I c \<Longrightarrow> lock_inv (release_unlock lk) (I(c := False))"
  by (auto simp: lock_inv_def release_unlock_def)

definition mutex_inv :: "machine \<Rightarrow> bool" where
  "mutex_inv s = (\<forall>l. lock_inv (locks s l) (\<lambda>c. inside l (pcs s c)))"

lemma inside_upd:
  "(\<lambda>c'. inside l (((pcs s)(c := p)) c')) = (\<lambda>c'. inside l (pcs s c'))(c := inside l p)"
  by auto

lemma inside_upd_same:
  "inside l p = inside l (pcs s c) \<Longrightarrow> (\<lambda>c'. inside l (((pcs s)(c := p)) c')) = (\<lambda>c'. inside l (pcs s c'))"
  by auto

lemma mutex_same:
  assumes "mutex_inv s" and "\<And>l. inside l p = inside l (pcs s c)"
  shows "\<forall>l. lock_inv (locks s l) (\<lambda>c'. inside l (((pcs s)(c := p)) c'))"
  using assms by (simp add: mutex_inv_def inside_upd_same del: fun_upd_apply)

lemma mutex_change:
  assumes "mutex_inv s" and "lock_inv lk ((\<lambda>c'. inside l (pcs s c'))(c := inside l p))"
    and "\<And>k. k \<noteq> l \<Longrightarrow> inside k p = inside k (pcs s c)"
  shows "\<forall>k. lock_inv (((locks s)(l := lk)) k) (\<lambda>c'. inside k (((pcs s)(c := p)) c'))"
proof
  fix k
  show "lock_inv (((locks s)(l := lk)) k) (\<lambda>c'. inside k (((pcs s)(c := p)) c'))"
  proof (cases "k = l")
    case True
    then show ?thesis using assms(2) by (simp only: inside_upd fun_upd_same)
  next
    case False
    then have "(\<lambda>c'. inside k (((pcs s)(c := p)) c')) = (\<lambda>c'. inside k (pcs s c'))"
      using assms(3) by (intro inside_upd_same)
    with False assms(1) show ?thesis by (simp add: mutex_inv_def del: fun_upd_apply add: fun_upd_other)
  qed
qed

lemma mutex_step: "step s s' \<Longrightarrow> mutex_inv s \<Longrightarrow> mutex_inv s'"
proof (induction rule: step.induct)
  case (enter s c l cp)
  then show ?case using mutex_same [of s "Spinning l" c] by (simp add: mutex_inv_def)
next
  case (enter_panic s c l e)
  then show ?case using mutex_same [of s Stopped c] by (simp add: mutex_inv_def)
next
  case (spin s c l lk)
  then show ?case using lock_inv_spin [OF spin(2)] by (simp add: mutex_inv_def)
next
  case (win s c l lk)
  then have "lock_inv lk ((\<lambda>c'. inside l (pcs s c'))(c := True))"
    by (intro lock_inv_win) (auto simp: mutex_inv_def)
  with mutex_change [of s lk l c "Won l"] win show ?case
    by (simp add: mutex_inv_def del: fun_upd_apply)
next
  case (mark s c l)
  then have "lock_inv (acquire_mark (locks s l) c) ((\<lambda>c'. inside l (pcs s c'))(c := False))"
    by (intro lock_inv_mark) (auto simp: mutex_inv_def)
  with mutex_change [of s "acquire_mark (locks s l) c" l c Idle] mark show ?case
    by (simp add: mutex_inv_def del: fun_upd_apply)
next
  case (clear s c l lk)
  then have "lock_inv lk ((\<lambda>c'. inside l (pcs s c'))(c := True))"
    by (intro lock_inv_clear) (auto simp: mutex_inv_def)
  with mutex_change [of s lk l c "Clearing l"] clear show ?case
    by (simp add: mutex_inv_def del: fun_upd_apply)
next
  case (clear_panic s c l e)
  then show ?case using mutex_same [of s Stopped c] by (simp add: mutex_inv_def)
next
  case (unlock s c l)
  then have "lock_inv (release_unlock (locks s l)) ((\<lambda>c'. inside l (pcs s c'))(c := False))"
    by (intro lock_inv_unlock) (auto simp: mutex_inv_def)
  with mutex_change [of s "release_unlock (locks s l)" l c Popping] unlock show ?case
    by (simp add: mutex_inv_def del: fun_upd_apply)
next
  case (pop s c cp)
  then show ?case using mutex_same [of s Idle c] by (simp add: mutex_inv_def)
qed (simp_all add: mutex_inv_def)

definition owns :: "machine \<Rightarrow> nat \<Rightarrow> nat \<Rightarrow> bool" where
  "owns s c l = (inside l (pcs s c) \<or> lkcpu (locks s l) = Some c)"

lemma mutex_owner:
  assumes "mutex_inv s" and "owns s c l" and "owns s c' l"
  shows "c' = c"
proof -
  have "lock_inv (locks s l) (\<lambda>c. inside l (pcs s c))"
    using assms(1) by (simp add: mutex_inv_def)
  with assms(2,3) show ?thesis by (auto simp: owns_def lock_inv_def)
qed

section \<open>Interrupts are off while a lock is owned\<close>

fun pushed :: "pc \<Rightarrow> nat" where
  "pushed (Spinning l) = 1"
| "pushed Popping = 1"
| "pushed _ = 0"

definition owned :: "machine \<Rightarrow> nat \<Rightarrow> nat set" where
  "owned s c = {l. owns s c l}"

definition depth :: "machine \<Rightarrow> nat \<Rightarrow> nat" where
  "depth s c = nested s c + card (owned s c) + pushed (pcs s c)"

definition cpu_inv :: "machine \<Rightarrow> nat \<Rightarrow> bool" where
  "cpu_inv s c = (finite (owned s c) \<and> (pcs s c \<noteq> Stopped \<longrightarrow> noff (cpus s c) = int (depth s c))
      \<and> (0 < noff (cpus s c) \<longrightarrow> \<not> intr (cpus s c)))"

lemma push_off_facts: "noff (push_off cp) = noff cp + 1" "\<not> intr (push_off cp)"
  by (simp_all add: push_off_def Let_def)

lemma pop_off_facts:
  "pop_off cp = Inr cp' \<Longrightarrow> noff cp' = noff cp - 1 \<and> (0 < noff cp' \<longrightarrow> \<not> intr cp')"
  by (auto simp: pop_off_def Let_def split: if_splits)

lemma cpu_frame:
  assumes "\<forall>c. cpu_inv s c" and "cpu_inv s' c"
    and "\<And>d. d \<noteq> c \<Longrightarrow> owned s' d = owned s d \<and> cpus s' d = cpus s d \<and> pcs s' d = pcs s d \<and> nested s' d = nested s d"
  shows "\<forall>d. cpu_inv s' d"
proof
  fix d
  show "cpu_inv s' d"
  proof (cases "d = c")
    case False
    then show ?thesis using assms(1) assms(3) [OF False] by (simp add: cpu_inv_def depth_def)
  qed (use assms(2) in simp)
qed

lemma owned_lkcpu:
  assumes "mutex_inv s" and "inside l (pcs s c)"
  shows "l \<in> owned s c" and "lkcpu (locks s l) = None" and "locked (locks s l)"
proof -
  have "lock_inv (locks s l) (\<lambda>c. inside l (pcs s c))" using assms(1) by (simp add: mutex_inv_def)
  with assms(2) show "lkcpu (locks s l) = None" "locked (locks s l)" by (auto simp: lock_inv_def)
qed (use assms(2) in \<open>simp add: owned_def owns_def\<close>)

lemma irq_step:
  assumes "step s s'" and "mutex_inv s" and "\<forall>c. cpu_inv s c"
  shows "\<forall>c. cpu_inv s' c"
  using assms
proof (induction rule: step.induct)
  case (enter s c l cp)
  let ?t = "s\<lparr>cpus := (cpus s)(c := cp), pcs := (pcs s)(c := Spinning l)\<rparr>"
  have "cp = push_off (cpus s c)"
    using enter by (auto simp: acquire_enter_def Let_def split: if_splits)
  then have cp: "noff cp = noff (cpus s c) + 1" "\<not> intr cp"
    by (simp_all add: push_off_facts)
  have o: "owned ?t d = owned s d" for d
    using enter(1) by (auto simp: owned_def owns_def)
  have "cpu_inv ?t c"
    using enter(1) enter(4) [rule_format, of c] by (simp add: cpu_inv_def depth_def o cp)
  with enter(4) show ?case by (rule cpu_frame) (simp add: o)
next
  case (enter_panic s c l e)
  let ?t = "s\<lparr>pcs := (pcs s)(c := Stopped)\<rparr>"
  have o: "owned ?t d = owned s d" for d
    using enter_panic(1) by (auto simp: owned_def owns_def)
  have "cpu_inv ?t c"
    using enter_panic(4) [rule_format, of c] by (simp add: cpu_inv_def o)
  with enter_panic(4) show ?case by (rule cpu_frame) (simp add: o)
next
  case (spin s c l lk)
  then have "lk = locks s l" by (simp add: lock_inv_spin)
  with spin(4) show ?case by (simp add: cpu_inv_def depth_def owned_def owns_def)
next
  case (win s c l lk)
  let ?t = "s\<lparr>locks := (locks s)(l := lk), pcs := (pcs s)(c := Won l)\<rparr>"
  have lk: "lkcpu lk = lkcpu (locks s l)" and u: "\<not> locked (locks s l)"
    using win(2) by (auto simp: test_and_set_def)
  have "l \<notin> owned s c"
    using win(3) u by (auto simp: owned_def owns_def mutex_inv_def lock_inv_def)
  moreover have "owned ?t c = insert l (owned s c)"
    using win(1) lk by (auto simp: owned_def owns_def)
  ultimately have "cpu_inv ?t c"
    using win(1) win(4) [rule_format, of c] by (simp add: cpu_inv_def depth_def)
  moreover have "owned ?t d = owned s d" if "d \<noteq> c" for d
    using that lk by (auto simp: owned_def owns_def)
  ultimately show ?case by (intro cpu_frame [OF win(4)]) auto
next
  case (mark s c l)
  let ?t = "s\<lparr>locks := (locks s)(l := acquire_mark (locks s l) c), pcs := (pcs s)(c := Idle)\<rparr>"
  have "lkcpu (locks s l) = None" by (rule owned_lkcpu(2) [of s l c]) (use mark in auto)
  then have o: "owned ?t d = owned s d" for d
    using mark(1) by (auto simp: owned_def owns_def acquire_mark_def)
  have "cpu_inv ?t c"
    using mark(1) mark(3) [rule_format, of c] by (simp add: cpu_inv_def depth_def o)
  with mark(3) show ?case by (rule cpu_frame) (simp add: o)
next
  case (clear s c l lk)
  let ?t = "s\<lparr>locks := (locks s)(l := lk), pcs := (pcs s)(c := Clearing l)\<rparr>"
  have lk: "lkcpu lk = None" "lkcpu (locks s l) = Some c"
    using clear(2) by (auto simp: release_clear_def holding_def split: if_splits)
  then have o: "owned ?t d = owned s d" for d
    using clear(1) by (auto simp: owned_def owns_def)
  have "cpu_inv ?t c"
    using clear(1) clear(4) [rule_format, of c] by (simp add: cpu_inv_def depth_def o)
  with clear(4) show ?case by (rule cpu_frame) (simp add: o)
next
  case (clear_panic s c l e)
  let ?t = "s\<lparr>pcs := (pcs s)(c := Stopped)\<rparr>"
  have o: "owned ?t d = owned s d" for d
    using clear_panic(1) by (auto simp: owned_def owns_def)
  have "cpu_inv ?t c"
    using clear_panic(4) [rule_format, of c] by (simp add: cpu_inv_def o)
  with clear_panic(4) show ?case by (rule cpu_frame) (simp add: o)
next
  case (unlock s c l)
  let ?t = "s\<lparr>locks := (locks s)(l := release_unlock (locks s l)), pcs := (pcs s)(c := Popping)\<rparr>"
  have "inside l (pcs s c)" using unlock(1) by simp
  note ow = owned_lkcpu [OF unlock(2) this]
  have "owned ?t c = owned s c - {l}"
    using unlock(1) ow(2) by (auto simp: owned_def owns_def release_unlock_def)
  moreover have "card (owned s c) = Suc (card (owned s c - {l}))"
    using ow(1) unlock(3) [rule_format, of c] by (intro card.remove) (simp_all add: cpu_inv_def)
  ultimately have "cpu_inv ?t c"
    using unlock(1) unlock(3) [rule_format, of c] by (simp add: cpu_inv_def depth_def)
  moreover have "owned ?t d = owned s d" if "d \<noteq> c" for d
    using that by (auto simp: owned_def owns_def release_unlock_def)
  ultimately show ?case by (intro cpu_frame [OF unlock(3)]) auto
next
  case (pop s c cp)
  let ?t = "s\<lparr>cpus := (cpus s)(c := cp), pcs := (pcs s)(c := Idle)\<rparr>"
  have o: "owned ?t d = owned s d" for d
    using pop(1) by (auto simp: owned_def owns_def)
  have "cpu_inv ?t c"
    using pop(1) pop(4) [rule_format, of c] pop_off_facts [OF pop(2)] by (simp add: cpu_inv_def depth_def o)
  with pop(4) show ?case by (rule cpu_frame) (simp add: o)
next
  case (nest s c)
  let ?t = "s\<lparr>cpus := (cpus s)(c := push_off (cpus s c)), nested := (nested s)(c := nested s c + 1)\<rparr>"
  have o: "owned ?t d = owned s d" for d by (auto simp: owned_def owns_def)
  have "cpu_inv ?t c"
    unfolding cpu_inv_def depth_def o
    using nest(1) nest(3) [rule_format, of c] by (simp add: cpu_inv_def depth_def push_off_facts)
  with nest(3) show ?case by (rule cpu_frame) (unfold o, simp)
next
  case (unnest s c cp)
  let ?t = "s\<lparr>cpus := (cpus s)(c := cp), nested := (nested s)(c := nested s c - 1)\<rparr>"
  have o: "owned ?t d = owned s d" for d by (auto simp: owned_def owns_def)
  have "cpu_inv ?t c"
    unfolding cpu_inv_def depth_def o
    using unnest(1,2) unnest(5) [rule_format, of c] pop_off_facts [OF unnest(3)]
    by (simp add: cpu_inv_def depth_def)
  with unnest(5) show ?case by (rule cpu_frame) (unfold o, simp)
next
  case (irq s c on)
  let ?t = "s\<lparr>cpus := (cpus s)(c := (cpus s c)\<lparr>intr := on\<rparr>)\<rparr>"
  have o: "owned ?t d = owned s d" for d by (auto simp: owned_def owns_def)
  have "cpu_inv ?t c"
    using irq(1,2) irq(4) [rule_format, of c] by (simp add: cpu_inv_def depth_def o)
  with irq(4) show ?case by (rule cpu_frame) (simp add: o)
qed

lemma reach_inv: "reach s \<Longrightarrow> mutex_inv s \<and> (\<forall>c. cpu_inv s c)"
proof (induction rule: reach.induct)
  case init
  have "owned boot c = {}" for c by (simp add: owned_def owns_def boot_def initlock_def)
  then have "cpu_inv boot c" for c by (simp add: cpu_inv_def depth_def) (simp add: boot_def)
  then show ?case by (simp add: mutex_inv_def boot_def lock_inv_def initlock_def)
next
  case (step s s')
  then show ?case using mutex_step irq_step by blast
qed

section \<open>Nesting\<close>

fun pop_n :: "nat \<Rightarrow> cpu \<Rightarrow> cpu kres" where
  "pop_n 0 cp = Inr cp"
| "pop_n (Suc n) cp = (case pop_off cp of Inl e \<Rightarrow> Inl e | Inr cp' \<Rightarrow> pop_n n cp')"

lemma push_n_state:
  "noff cp = 0 \<Longrightarrow> (push_off ^^ Suc n) cp = cp\<lparr>noff := 1 + int n, intena := intr cp, intr := False\<rparr>"
  by (induction n) (simp_all add: push_off_def Let_def)

lemma pop_n_state:
  "noff cp = 1 + int n \<Longrightarrow> \<not> intr cp \<Longrightarrow> pop_n (Suc n) cp = Inr (cp\<lparr>noff := 0, intr := intena cp\<rparr>)"
proof (induction n arbitrary: cp)
  case 0
  then show ?case by (simp add: pop_off_def Let_def)
next
  case (Suc n)
  have "pop_off cp = Inr (cp\<lparr>noff := 1 + int n\<rparr>)"
    using Suc.prems by (simp add: pop_off_def Let_def)
  then show ?case using Suc.IH [of "cp\<lparr>noff := 1 + int n\<rparr>"] Suc.prems(2) by simp
qed

section \<open>Properties\<close>

text \<open>
  C5: spin locks exclude. In every interleaving of the lock routines on any number of CPUs and
  locks, at most one CPU owns a lock, from the moment its swap of the lock word succeeds to the
  moment it clears the word; that CPU has interrupts disabled and a positive nesting count; and the
  \<open>pop_off\<close> at the end of \<open>release\<close> never panics.
\<close>

theorem spinlock_exclusion:
  assumes "reach s"
  shows "(owns s c l \<and> owns s c' l \<longrightarrow> c' = c)
       \<and> (owns s c l \<and> pcs s c \<noteq> Stopped \<longrightarrow> 0 < noff (cpus s c) \<and> \<not> intr (cpus s c))
       \<and> (pcs s c = Popping \<longrightarrow> (\<exists>cp. pop_off (cpus s c) = Inr cp))"
proof -
  have m: "mutex_inv s" and i: "cpu_inv s c" using reach_inv [OF assms] by auto
  have "0 < card (owned s c)" if "owns s c l"
    using that i by (auto simp: cpu_inv_def owned_def card_gt_0_iff)
  moreover have "0 < noff (cpus s c)" if "pcs s c = Popping"
    using that i by (simp add: cpu_inv_def depth_def)
  ultimately show ?thesis
    using mutex_owner [OF m] i by (auto simp: cpu_inv_def depth_def pop_off_def Let_def)
qed

theorem spinlock_exclusion_witness:
  "\<exists>s. reach s \<and> owns s 0 7 \<and> 0 < noff (cpus s 0) \<and> \<not> owns s 1 7"
proof -
  let ?s1 = "boot\<lparr>cpus := (cpus boot)(0 := push_off (cpus boot 0)), pcs := (pcs boot)(0 := Spinning 7)\<rparr>"
  let ?s2 = "?s1\<lparr>locks := (locks ?s1)(7 := (locks ?s1 7)\<lparr>locked := True\<rparr>), pcs := (pcs ?s1)(0 := Won 7)\<rparr>"
  have "step boot ?s1"
    by (rule step.enter) (simp_all add: boot_def acquire_enter_def holding_def initlock_def)
  moreover have "step ?s1 ?s2"
    by (rule step.win) (simp_all add: boot_def initlock_def test_and_set_def)
  ultimately have r: "reach ?s2"
    using reach.init reach.step by blast
  have o: "owns ?s2 0 7" "pcs ?s2 0 \<noteq> Stopped" by (simp_all add: owns_def)
  then have "0 < noff (cpus ?s2 0)" using spinlock_exclusion [OF r, of 0 7] by blast
  moreover have "\<not> owns ?s2 1 7" using spinlock_exclusion [OF r, of 0 7 1] o by auto
  ultimately show ?thesis using r o by blast
qed

text \<open>
  \<open>push_off\<close> and \<open>pop_off\<close> nest: from a CPU with no nesting, any number of \<open>push_off\<close> calls
  followed by as many \<open>pop_off\<close> calls does not panic and restores the interrupt flag, whatever it
  was, with interrupts disabled in between.
\<close>

theorem push_pop_restores:
  assumes "noff cp = 0"
  shows "(\<exists>cp'. pop_n n ((push_off ^^ n) cp) = Inr cp' \<and> noff cp' = 0 \<and> intr cp' = intr cp)
       \<and> (0 < n \<longrightarrow> \<not> intr ((push_off ^^ n) cp) \<and> noff ((push_off ^^ n) cp) = int n)"
proof (cases n)
  case 0
  then show ?thesis using assms by simp
next
  case (Suc k)
  then show ?thesis
    using push_n_state [OF assms, of k] pop_n_state [of "(push_off ^^ n) cp" k] by simp
qed

theorem push_pop_restores_witness:
  "\<exists>cp'. pop_n 3 ((push_off ^^ 3) \<lparr>noff = 0, intena = False, intr = True\<rparr>) = Inr cp' \<and> noff cp' = 0 \<and> intr cp'"
  using push_pop_restores [of "\<lparr>noff = 0, intena = False, intr = True\<rparr>" 3] by simp

end
