(* ===== verification/Semaphore.thy ===== *)
theory Semaphore
  imports Kernel_Prelude
begin

text \<open>
  The semaphores of the kernel: the table of \<open>src/kernel/lock/spinlock.c\<close> and the four system calls
  of \<open>src/kernel/sysproc.c\<close>. A call is one step; \<open>sys_sem_p\<close> and \<open>sys_sem_v\<close> also say whether the
  caller goes to sleep and whether the sleepers are woken.
\<close>

section \<open>Operations\<close>

definition SEM_MAX_NUM :: nat where
  "SEM_MAX_NUM = 128"

record sem =
  resource_count :: int
  allocated :: bool

record sem_table =
  sems :: "sem list"
  sem_used_count :: int

definition initsem :: sem_table where
  "initsem = \<lparr>sems = replicate SEM_MAX_NUM \<lparr>resource_count = 0, allocated = False\<rparr>, sem_used_count = 0\<rparr>"

definition sys_sem_create :: "sem_table \<Rightarrow> int \<Rightarrow> sem_table \<times> int" where
  "sys_sem_create t n_sem =
     (if n_sem \<le> 0 then (t, -1)
      else (case find_slot (\<lambda>s. \<not> allocated s) (sems t) of
              None \<Rightarrow> (t, -1)
            | Some i \<Rightarrow>
                (\<lparr>sems = (sems t)[i := \<lparr>resource_count = n_sem, allocated = True\<rparr>],
                  sem_used_count = sem_used_count t + 1\<rparr>, int i)))"

definition valid_id :: "int \<Rightarrow> bool" where
  "valid_id i = (0 \<le> i \<and> i < int SEM_MAX_NUM)"

definition sys_sem_free :: "sem_table \<Rightarrow> int \<Rightarrow> sem_table \<times> int" where
  "sys_sem_free t i =
     (if \<not> valid_id i then (t, -1)
      else if allocated (sems t ! nat i)
      then (\<lparr>sems = (sems t)[nat i := \<lparr>resource_count = 0, allocated = False\<rparr>],
             sem_used_count = sem_used_count t - 1\<rparr>, 0)
      else (t, 0))"

definition set_count :: "sem_table \<Rightarrow> nat \<Rightarrow> int \<Rightarrow> sem_table" where
  "set_count t i v = t\<lparr>sems := (sems t)[i := (sems t ! i)\<lparr>resource_count := v\<rparr>]\<rparr>"

definition sys_sem_p :: "sem_table \<Rightarrow> int \<Rightarrow> sem_table \<times> bool \<times> int" where
  "sys_sem_p t i =
     (if \<not> valid_id i then (t, False, -1)
      else (let t = set_count t (nat i) (resource_count (sems t ! nat i) - 1)
            in (t, resource_count (sems t ! nat i) < 0, 0)))"

definition sys_sem_v :: "sem_table \<Rightarrow> int \<Rightarrow> sem_table \<times> bool \<times> int" where
  "sys_sem_v t i =
     (if \<not> valid_id i then (t, False, -1)
      else (let t = set_count t (nat i) (resource_count (sems t ! nat i) + 1)
            in (t, resource_count (sems t ! nat i) \<le> 0, 0)))"

section \<open>The table\<close>

definition table_ok :: "sem_table \<Rightarrow> bool" where
  "table_ok t = (length (sems t) = SEM_MAX_NUM
      \<and> sem_used_count t = int (length (filter allocated (sems t))))"

lemma table_ok_init: "table_ok initsem"
  by (simp add: table_ok_def initsem_def)

lemma set_count_ok: "table_ok t \<Longrightarrow> i < SEM_MAX_NUM \<Longrightarrow> table_ok (set_count t i v)"
  by (simp add: table_ok_def set_count_def count_keep)

lemma valid_nat: "valid_id i \<Longrightarrow> nat i < SEM_MAX_NUM"
  by (auto simp: valid_id_def)

lemma table_ok_ops:
  assumes "table_ok t"
  shows "table_ok (fst (sys_sem_create t n))" and "table_ok (fst (sys_sem_free t i))"
    and "table_ok (fst (sys_sem_p t i))" and "table_ok (fst (sys_sem_v t i))"
proof -
  show "table_ok (fst (sys_sem_create t n))"
  proof (cases "find_slot (\<lambda>s. \<not> allocated s) (sems t)")
    case None
    then show ?thesis using assms by (simp add: sys_sem_create_def)
  next
    case (Some k)
    from find_slot_SomeD(1,2) [OF this] Some assms show ?thesis
      by (simp add: sys_sem_create_def table_ok_def count_fill)
  qed
  show "table_ok (fst (sys_sem_free t i))"
    using assms count_clear [of "nat i" "sems t" allocated "\<lparr>resource_count = 0, allocated = False\<rparr>"] valid_nat [of i]
    by (auto simp: sys_sem_free_def table_ok_def)
  show "table_ok (fst (sys_sem_p t i))" "table_ok (fst (sys_sem_v t i))"
    using assms valid_nat [of i] by (auto simp: sys_sem_p_def sys_sem_v_def Let_def intro: set_count_ok)
qed

section \<open>Processes at one semaphore\<close>

text \<open>
  Processes that call \<open>sys_sem_p\<close> and later \<open>sys_sem_v\<close> on semaphore \<open>i\<close>, created with \<open>n\<close>
  resources: \<open>H\<close> are those that returned from P and did not call V yet, \<open>W\<close> those asleep in P. A
  woken process returns from P without testing the count again, as in the code.
\<close>

inductive sem_run :: "nat \<Rightarrow> int \<Rightarrow> sem_table \<Rightarrow> nat set \<Rightarrow> nat set \<Rightarrow> bool" for i n where
  start: "table_ok t \<Longrightarrow> sys_sem_create t n = (t', int i) \<Longrightarrow> sem_run i n t' {} {}"
| p_pass: "sem_run i n t H W \<Longrightarrow> q \<notin> H \<union> W \<Longrightarrow> sys_sem_p t (int i) = (t', False, r) \<Longrightarrow>
    sem_run i n t' (insert q H) W"
| p_sleep: "sem_run i n t H W \<Longrightarrow> q \<notin> H \<union> W \<Longrightarrow> sys_sem_p t (int i) = (t', True, r) \<Longrightarrow>
    sem_run i n t' H (insert q W)"
| v: "sem_run i n t H W \<Longrightarrow> q \<in> H \<Longrightarrow> sys_sem_v t (int i) = (t', wake, r) \<Longrightarrow>
    sem_run i n t' (H - {q} \<union> (if wake then W else {})) (if wake then {} else W)"

definition run_inv :: "nat \<Rightarrow> int \<Rightarrow> sem_table \<Rightarrow> nat set \<Rightarrow> nat set \<Rightarrow> bool" where
  "run_inv i n t H W =
     (table_ok t \<and> i < SEM_MAX_NUM \<and> 0 < n \<and> finite H \<and> finite W \<and> H \<inter> W = {}
      \<and> resource_count (sems t ! i) = n - int (card H) - int (card W)
      \<and> (W \<noteq> {} \<longrightarrow> resource_count (sems t ! i) < 0))"

lemma set_count_nth: "table_ok t \<Longrightarrow> i < SEM_MAX_NUM \<Longrightarrow> resource_count (sems (set_count t i v) ! i) = v"
  by (simp add: set_count_def table_ok_def)

lemma valid_int: "valid_id (int i) = (i < SEM_MAX_NUM)"
  by (simp add: valid_id_def)

lemma run_inv_p:
  assumes "run_inv i n t H W" and "q \<notin> H \<union> W" and "sys_sem_p t (int i) = (t', sl, r)"
  shows "if sl then run_inv i n t' H (insert q W) else run_inv i n t' (insert q H) W"
  using assms
  by (auto simp: run_inv_def sys_sem_p_def Let_def valid_int set_count_nth set_count_ok split: if_splits)

lemma run_inv_v:
  assumes inv: "run_inv i n t H W" and q: "q \<in> H" and v: "sys_sem_v t (int i) = (t', wake, r)"
  shows "run_inv i n t' (H - {q} \<union> (if wake then W else {})) (if wake then {} else W)"
proof -
  have i: "i < SEM_MAX_NUM" and t: "table_ok t" and fin: "finite H" "finite W" "H \<inter> W = {}"
    using inv by (auto simp: run_inv_def)
  let ?c = "resource_count (sems t ! i)"
  have t': "t' = set_count t i (?c + 1)" and w: "wake = (?c + 1 \<le> 0)"
    using v i t by (auto simp: sys_sem_v_def Let_def valid_int set_count_nth)
  have H: "card (H - {q}) = card H - 1" "0 < card H"
    using q fin by (auto simp: card_gt_0_iff)
  have "card (H - {q} \<union> W) = card (H - {q}) + card W"
    using fin by (intro card_Un_disjoint) auto
  with H have U: "int (card (H - {q} \<union> W)) = int (card H) - 1 + int (card W)" by simp
  show ?thesis
  proof (cases wake)
    case True
    then show ?thesis
      using inv U fin by (auto simp: run_inv_def t' set_count_nth set_count_ok)
  next
    case False
    then have "W = {}" using inv w by (auto simp: run_inv_def)
    with False show ?thesis
      using inv H by (auto simp: run_inv_def t' set_count_nth set_count_ok)
  qed
qed

lemma sem_run_inv: "sem_run i n t H W \<Longrightarrow> run_inv i n t H W"
proof (induction rule: sem_run.induct)
  case (start t t')
  from start have "table_ok t'" using table_ok_ops(1) [of t n] by simp
  with start show ?case
    by (auto simp: run_inv_def sys_sem_create_def table_ok_def dest: find_slot_SomeD split: if_splits option.splits)
next
  case (p_pass t H W q t' r)
  then show ?case using run_inv_p [of i n t H W q t' False r] by simp
next
  case (p_sleep t H W q t' r)
  then show ?case using run_inv_p [of i n t H W q t' True r] by simp
next
  case (v t H W q t' wake r)
  then show ?case using run_inv_v by blast
qed

section \<open>Properties\<close>

text \<open>
  C36: the count of a semaphore is exact, and no sleeper is left behind: it is the initial number of
  resources minus the processes inside and asleep, it is negative while a process is asleep, and
  then the next V wakes every sleeper.
\<close>

theorem sem_count_exact:
  assumes "sem_run i n t H W"
  shows "resource_count (sems t ! i) = n - int (card H) - int (card W)
       \<and> (W \<noteq> {} \<longrightarrow> fst (snd (sys_sem_v t (int i))))"
proof -
  have inv: "run_inv i n t H W" by (rule sem_run_inv [OF assms])
  then have "fst (snd (sys_sem_v t (int i))) = (resource_count (sems t ! i) + 1 \<le> 0)"
    by (simp add: sys_sem_v_def valid_int Let_def run_inv_def set_count_nth)
  with inv show ?thesis by (auto simp: run_inv_def)
qed

lemma run_start: "sem_run 0 1 (fst (sys_sem_create initsem 1)) {} {}"
proof (rule sem_run.start [OF table_ok_init])
  show "sys_sem_create initsem 1 = (fst (sys_sem_create initsem 1), int 0)"
    by (simp add: sys_sem_create_def initsem_def SEM_MAX_NUM_def numeral_eq_Suc)
qed

lemma run_p:
  assumes "sem_run i n t H W" and "q \<notin> H \<union> W"
  shows "\<exists>t'. if resource_count (sems t ! i) \<le> 0 then sem_run i n t' H (insert q W)
              else sem_run i n t' (insert q H) W"
proof -
  obtain t' sl r where p: "sys_sem_p t (int i) = (t', sl, r)" by (cases "sys_sem_p t (int i)")
  have "sl = (resource_count (sems t ! i) \<le> 0)"
    using p sem_run_inv [OF assms(1)] by (auto simp: sys_sem_p_def Let_def valid_int run_inv_def set_count_nth)
  then show ?thesis
    using sem_run.p_pass [OF assms, of t' r] sem_run.p_sleep [OF assms, of t' r] p by (cases sl) auto
qed

lemma run_v:
  assumes "sem_run i n t H W" and "q \<in> H" and "W \<noteq> {}"
  shows "\<exists>t'. sem_run i n t' (H - {q} \<union> W) {}"
proof -
  obtain t' wk r where v: "sys_sem_v t (int i) = (t', wk, r)" by (cases "sys_sem_v t (int i)")
  have "wk" using v assms(3) sem_run_inv [OF assms(1)]
    by (auto simp: sys_sem_v_def Let_def valid_int run_inv_def set_count_nth)
  then show ?thesis using sem_run.v [OF assms(1,2) v] by auto
qed

text \<open>One process inside and two asleep, at a semaphore with one resource.\<close>

lemma run_three: "\<exists>t. sem_run 0 1 t {1} {2, 3}"
proof -
  obtain t1 where "sem_run 0 1 t1 {1} {}"
    using run_p [OF run_start, of 1] sem_run_inv [OF run_start] by (auto simp: run_inv_def)
  from run_p [OF this, of 2] sem_run_inv [OF this] obtain t2 where "sem_run 0 1 t2 {1} {2}"
    by (auto simp: run_inv_def)
  from run_p [OF this, of 3] sem_run_inv [OF this] show ?thesis
    by (auto simp: run_inv_def insert_commute)
qed

theorem sem_count_exact_witness:
  "\<exists>t. sem_run 0 1 t {1} {2, 3} \<and> resource_count (sems t ! 0) = -2"
proof -
  obtain t where t: "sem_run 0 1 t {1} {2, 3}" using run_three by blast
  from sem_count_exact [OF this] t show ?thesis by (intro exI [of _ t]) simp
qed

text \<open>
  C37: the semaphores do not bound the processes inside. V wakes every sleeper, and a woken process
  does not test the count again: with one resource, two processes can be inside at once.
\<close>

theorem sem_exclusion_broken: "\<exists>t. sem_run 0 1 t {2, 3} {}"
proof -
  obtain t where t: "sem_run 0 1 t {1} {2, 3}" using run_three by blast
  from run_v [OF t, of 1] show ?thesis by (simp add: insert_commute)
qed

text \<open>
  the semaphore table stays consistent: after any sequence of calls the number of semaphores in
  use is the number of allocated entries; a new semaphore is given the first free entry and
  refused exactly for a count that is not positive or a full table.
\<close>

theorem sem_create_free:
  assumes "table_ok t"
  shows "table_ok (fst (sys_sem_create t n)) \<and> table_ok (fst (sys_sem_free t i))
       \<and> (snd (sys_sem_create t n) = -1 \<longleftrightarrow> n \<le> 0 \<or> sem_used_count t = int SEM_MAX_NUM)
       \<and> (\<forall>k. sys_sem_create t n = (t', int k) \<longrightarrow>
            \<not> allocated (sems t ! k) \<and> sems (fst (sys_sem_free t' (int k))) = (sems t)[k := \<lparr>resource_count = 0, allocated = False\<rparr>]
            \<and> sem_used_count (fst (sys_sem_free t' (int k))) = sem_used_count t)"
proof -
  have full: "sem_used_count t = int SEM_MAX_NUM \<longleftrightarrow> (\<forall>s \<in> set (sems t). allocated s)"
  proof -
    have "sem_used_count t = int SEM_MAX_NUM \<longleftrightarrow> length (filter allocated (sems t)) = length (sems t)"
      using assms by (simp add: table_ok_def)
    then show ?thesis by (simp only: count_full)
  qed
  have "snd (sys_sem_create t n) = -1 \<longleftrightarrow> n \<le> 0 \<or> sem_used_count t = int SEM_MAX_NUM"
  proof (cases "find_slot (\<lambda>s. \<not> allocated s) (sems t)")
    case None
    then show ?thesis unfolding full by (simp add: sys_sem_create_def) (simp add: find_slot_None_iff)
  next
    case (Some k)
    then have "\<not> (\<forall>s \<in> set (sems t). allocated s)"
      using find_slot_SomeD(1,2) [OF Some] nth_mem by blast
    with Some show ?thesis unfolding full by (simp add: sys_sem_create_def)
  qed
  moreover have "\<not> allocated (sems t ! k) \<and> sems (fst (sys_sem_free t' (int k))) = (sems t)[k := \<lparr>resource_count = 0, allocated = False\<rparr>]
            \<and> sem_used_count (fst (sys_sem_free t' (int k))) = sem_used_count t"
    if "sys_sem_create t n = (t', int k)" for k
  proof -
    from that have sl: "find_slot (\<lambda>s. \<not> allocated s) (sems t) = Some k"
      and t': "t' = \<lparr>sems = (sems t)[k := \<lparr>resource_count = n, allocated = True\<rparr>],
                  sem_used_count = sem_used_count t + 1\<rparr>"
      by (auto simp: sys_sem_create_def split: if_splits option.splits)
    from find_slot_SomeD(1,2) [OF sl] assms show ?thesis
      by (simp add: t' sys_sem_free_def table_ok_def valid_int)
  qed
  ultimately show ?thesis using table_ok_ops [OF assms] by blast
qed

theorem sem_create_free_witness: "snd (sys_sem_create initsem 0) = -1"
  using sem_create_free [OF table_ok_init, of 0 0 initsem] by simp

end
