(* ===== verification/Proc_Table.thy ===== *)
theory Proc_Table
  imports Kalloc
begin

text \<open>
  The process table and the life of a process: \<open>src/kernel/proc/proc.c\<close> without the schedulers. A
  process is named by its index in the table. The fields of \<open>struct proc\<close> that belong to the
  address space of the process, its mapped areas and its registers are left out;
  what a routine does to other components (freeing pages, duplicating files, counting shared
  memory) is the list of calls it makes, in order. The results of allocations and of copies to user
  memory are arguments. Each routine is one step, as if it held all locks it takes.
\<close>

section \<open>The table\<close>

definition NPROC :: nat where
  "NPROC = 64"

definition NOFILE :: nat where
  "NOFILE = 16"

definition KERNBASE :: u32 where
  "KERNBASE = 0x80000000"

datatype procstate = UNUSED | SLEEPING | RUNNABLE | RUNNING | ZOMBIE

text \<open>A channel is an address: that of a table entry, or any other.\<close>

datatype channel = Proc_chan nat | Other_chan nat

record proc =
  pstate :: procstate
  parent :: "nat option"
  chan :: "channel option"
  killed :: bool
  xstate :: int
  pid :: int
  kstack :: nat
  sz :: u64
  pagetable :: "nat option"
  trapframe :: "nat option"
  ofile :: "nat option list"
  cwd :: "nat option"
  pname :: string
  trace_mask :: int
  priority :: int
  wait_time :: int
  cpu_time :: int
  dyn_priority :: int
  mlfq_level :: int
  mlfq_ticks :: int
  mlfq_allotment :: int
  total_ticks :: int
  pthread :: "nat option"
  shm :: u32
  shmkeymask :: u32
  shmva :: "u64 list"
  mqmask :: u32
  alarm_interval :: int
  alarm_handler :: u64
  alarm_ticks :: int
  alarm_trapframe :: "nat option"
  alarm_goingoff :: bool
  uid :: int
  gid :: int
  umask :: int
  pgid :: int
  sid :: int
  pending_signals :: u32
  signal_handlers :: "u64 list"
  paused :: bool
  sched_policy :: int
  rt_priority :: int
  deadline :: u64
  period :: u64
  runtime :: u64
  runtime_remaining :: u64
  checkpointed :: bool
  checkpoint_id :: u64
  caps_effective :: u32
  caps_permitted :: u32
  caps_inheritable :: u32
  caps_bounding :: u32
  cpu_affinity :: u32
  preferred_cpu :: int
  last_cpu :: int
  frozen :: bool
  freeze_reason :: int
  freeze_prio :: int
  cgroup_id :: int

text \<open>An entry of the table at boot: static memory, all zero.\<close>

definition zero_proc :: proc where
  "zero_proc =
    \<lparr>pstate = UNUSED, parent = None, chan = None, killed = False, xstate = 0, pid = 0, kstack = 0, sz = 0,
     pagetable = None, trapframe = None, ofile = replicate NOFILE None, cwd = None, pname = '''',
     trace_mask = 0, priority = 0, wait_time = 0, cpu_time = 0, dyn_priority = 0, mlfq_level = 0,
     mlfq_ticks = 0, mlfq_allotment = 0, total_ticks = 0, pthread = None, shm = 0, shmkeymask = 0, shmva = replicate 8 0,
     mqmask = 0, alarm_interval = 0, alarm_handler = 0, alarm_ticks = 0, alarm_trapframe = None,
     alarm_goingoff = False, uid = 0, gid = 0, umask = 0, pgid = 0, sid = 0, pending_signals = 0,
     signal_handlers = replicate 32 0, paused = False, sched_policy = 0, rt_priority = 0,
     deadline = 0, period = 0, runtime = 0, runtime_remaining = 0, checkpointed = False,
     checkpoint_id = 0, caps_effective = 0, caps_permitted = 0, caps_inheritable = 0,
     caps_bounding = 0, cpu_affinity = 0, preferred_cpu = 0, last_cpu = 0, frozen = False,
     freeze_reason = 0, freeze_prio = 0, cgroup_id = 0\<rparr>"

record ptable =
  procs :: "proc list"
  nextpid :: int
  initproc :: "nat option"

definition KSTACK :: "nat \<Rightarrow> nat" where
  "KSTACK i = (2 ^ 38 - PGSIZE) - (i + 1) * (2 * PGSIZE)"

definition procinit :: ptable where
  "procinit = \<lparr>procs = map (\<lambda>i. zero_proc\<lparr>kstack := KSTACK i\<rparr>) [0..<NPROC], nextpid = 1, initproc = None\<rparr>"

definition upd_proc :: "ptable \<Rightarrow> nat \<Rightarrow> (proc \<Rightarrow> proc) \<Rightarrow> ptable" where
  "upd_proc pt i f = pt\<lparr>procs := (procs pt)[i := f (procs pt ! i)]\<rparr>"

text \<open>Calls made to other components.\<close>

datatype call =
    Kfree nat
  | Free_pagetable nat u64
  | Shmrelease "nat option" u32 u32
  | Shmaddcount u32
  | Addmqcount u32
  | Releasemq2 u32
  | Filedup nat
  | Fileclose nat
  | Idup "nat option"
  | Iput "nat option"

section \<open>Allocation\<close>

definition setPriority :: "ptable \<Rightarrow> int \<Rightarrow> int \<Rightarrow> ptable \<times> int" where
  "setPriority pt pd prio =
     (case find_slot (\<lambda>p. pid p = pd) (procs pt) of
        Some i \<Rightarrow> (upd_proc pt i (\<lambda>p. p\<lparr>priority := prio\<rparr>), 0)
      | None \<Rightarrow> (pt, -1))"

text \<open>
  \<open>nextpid\<close> is an \<open>int\<close> that is incremented without a test; the increment wraps around at 32 bits.
\<close>

definition INT_MAX :: int where
  "INT_MAX = 2 ^ 31 - 1"

definition int_inc :: "int \<Rightarrow> int" where
  "int_inc n = (n + 1 + 2 ^ 31) mod 2 ^ 32 - 2 ^ 31"

definition allocpid :: "ptable \<Rightarrow> ptable \<times> int" where
  "allocpid pt = (pt\<lparr>nextpid := int_inc (nextpid pt)\<rparr>, nextpid pt)"

definition opt_call :: "('a \<Rightarrow> call) \<Rightarrow> 'a option \<Rightarrow> call list" where
  "opt_call f x = (case x of None \<Rightarrow> [] | Some a \<Rightarrow> [f a])"

definition freeproc :: "proc \<Rightarrow> proc \<times> call list" where
  "freeproc p =
     (p\<lparr>trapframe := None, alarm_trapframe := None, pagetable := None, sz := 0, pid := 0,
        parent := None, pname := '''', chan := None, killed := False, xstate := 0,
        alarm_interval := 0, alarm_handler := 0, alarm_ticks := 0, alarm_goingoff := False,
        pstate := UNUSED, shm := KERNBASE, shmkeymask := 0\<rparr>,
      opt_call Kfree (trapframe p) @ opt_call (\<lambda>pg. Free_pagetable pg (sz p)) (pagetable p)
      @ opt_call Kfree (alarm_trapframe p) @ [Shmrelease None (shm p) (shmkeymask p)])"

text \<open>The fields \<open>allocproc\<close> sets before its first and after its second allocation.\<close>

definition alloc_before :: "int \<Rightarrow> proc \<Rightarrow> proc" where
  "alloc_before pd p =
     p\<lparr>pid := pd, mqmask := 0, priority := 10, cpu_time := 0, wait_time := 0, dyn_priority := 10,
       trace_mask := 0, shm := KERNBASE, shmkeymask := 0\<rparr>"

definition alloc_after :: "proc \<Rightarrow> proc" where
  "alloc_after p =
     p\<lparr>alarm_interval := 0, alarm_handler := 0, alarm_ticks := 0, alarm_goingoff := False,
       uid := 0, gid := 0, umask := 18, pgid := pid p, sid := pid p, pending_signals := 0,
       paused := False, mlfq_level := 0, mlfq_ticks := 0, mlfq_allotment := 5, total_ticks := 0,
       sched_policy := 0, rt_priority := 0, deadline := 0, period := 0, runtime := 0,
       runtime_remaining := 0, checkpointed := False, checkpoint_id := 0,
       caps_effective := 0, caps_permitted := 0xFFFFFFFF, caps_inheritable := 0,
       caps_bounding := 0xFFFFFFFF, cpu_affinity := 0xFF, preferred_cpu := -1, last_cpu := -1,
       frozen := False, freeze_reason := 0, freeze_prio := 4, cgroup_id := 0,
       signal_handlers := replicate 32 0\<rparr>"

text \<open>\<open>tf\<close>, \<open>atf\<close> and \<open>pg\<close> are what the two \<open>kalloc\<close> calls and \<open>proc_pagetable\<close> return.\<close>

definition allocproc ::
  "ptable \<Rightarrow> nat option \<Rightarrow> nat option \<Rightarrow> nat option \<Rightarrow> ptable \<times> call list \<times> nat option" where
  "allocproc pt tf atf pg =
     (case find_slot (\<lambda>p. pstate p = UNUSED) (procs pt) of
        None \<Rightarrow> (pt, [], None)
      | Some i \<Rightarrow>
          (let (pt, pd) = allocpid pt;
               p = (alloc_before pd (procs pt ! i))\<lparr>trapframe := tf\<rparr>
           in case tf of
                None \<Rightarrow> (upd_proc pt i (\<lambda>_. p), [], None)
              | Some _ \<Rightarrow>
                  (let p = p\<lparr>alarm_trapframe := atf\<rparr>
                   in case atf of
                        None \<Rightarrow> (upd_proc pt i (\<lambda>_. p), [], None)
                      | Some _ \<Rightarrow>
                          (let p = (alloc_after p)\<lparr>pagetable := pg\<rparr>
                           in case pg of
                                None \<Rightarrow> (let (p, cs) = freeproc p in (upd_proc pt i (\<lambda>_. p), cs, None))
                              | Some _ \<Rightarrow> (upd_proc pt i (\<lambda>_. p), [], Some i)))))"

text \<open>
  \<open>userinit\<close> does not test the result of \<open>allocproc\<close>: a null pointer is dereferenced when it fails,
  which is a kernel fault.
\<close>

definition null_fault :: string where
  "null_fault = ''null pointer''"

definition userinit :: "ptable \<Rightarrow> nat option \<Rightarrow> nat option \<Rightarrow> nat option \<Rightarrow> nat option \<Rightarrow> ptable kres" where
  "userinit pt tf atf pg root =
     (case allocproc pt tf atf pg of
        (pt, cs, None) \<Rightarrow> Inl null_fault
      | (pt, cs, Some i) \<Rightarrow>
          Inr (upd_proc (pt\<lparr>initproc := Some i\<rparr>) i
                (\<lambda>p. p\<lparr>sz := 4096, pname := ''initcode'', cwd := root, pstate := RUNNABLE\<rparr>)))"

section \<open>Fork, clone\<close>

text \<open>The loop over the descriptors: only those in use are copied, the others stay as they are.\<close>

definition copy_ofile :: "proc \<Rightarrow> proc \<Rightarrow> nat option list" where
  "copy_ofile p np = map2 (\<lambda>f old. case f of None \<Rightarrow> old | Some x \<Rightarrow> Some x) (ofile p) (ofile np)"

text \<open>The loop over the shared memory regions: the addresses of those in \<open>keys\<close> are copied.\<close>

definition shmkeyused :: "nat \<Rightarrow> u32 \<Rightarrow> bool" where
  "shmkeyused key keys = (key \<le> 8 \<and> bit keys key)"

definition copy_shmva :: "proc \<Rightarrow> u32 \<Rightarrow> proc \<Rightarrow> u64 list" where
  "copy_shmva p0 keys np = map (\<lambda>k. if shmkeyused k keys then shmva p0 ! k else shmva np ! k) [0..<8]"

text \<open>
  What \<open>fork\<close> copies from the parent \<open>p\<close> into the child. The shared memory fields come from
  \<open>p0\<close>, entry 0 of the table: the code reads them through the array name \<open>proc\<close>.
\<close>

definition fork_copy :: "nat \<Rightarrow> proc \<Rightarrow> proc \<Rightarrow> proc \<Rightarrow> proc" where
  "fork_copy i p p0 np =
     np\<lparr>shm := shm p0, shmkeymask := shmkeymask p0, shmva := copy_shmva p0 (shmkeymask p0) np,
        mqmask := mqmask p, sz := sz p, parent := Some i, ofile := copy_ofile p np, cwd := cwd p, pname := pname p, pstate := RUNNABLE,
        trace_mask := trace_mask p, uid := uid p, gid := gid p, umask := umask p, pgid := pgid p,
        sid := sid p, pending_signals := 0, paused := False, signal_handlers := signal_handlers p\<rparr>"

definition dup_calls :: "proc \<Rightarrow> call list" where
  "dup_calls p = concat (map (opt_call Filedup) (ofile p)) @ [Idup (cwd p)]"

text \<open>\<open>copied\<close> is the result of \<open>uvmcopy\<close>.\<close>

definition fork ::
  "ptable \<Rightarrow> nat \<Rightarrow> nat option \<Rightarrow> nat option \<Rightarrow> nat option \<Rightarrow> bool \<Rightarrow> ptable \<times> call list \<times> int" where
  "fork pt i tf atf pg copied =
     (case allocproc pt tf atf pg of
        (pt, cs, None) \<Rightarrow> (pt, cs, -1)
      | (pt, cs, Some k) \<Rightarrow>
          if \<not> copied
          then (let (np, fs) = freeproc (procs pt ! k) in (upd_proc pt k (\<lambda>_. np), cs @ fs, -1))
          else (let p = procs pt ! i; p0 = procs pt ! 0
                in (upd_proc pt k (fork_copy i p p0),
                    cs @ [Shmaddcount (shmkeymask p0), Addmqcount (mqmask p)] @ dup_calls p,
                    pid (procs pt ! k))))"

text \<open>A thread shares the page table of its creator; the one \<open>allocproc\<close> made is forgotten.\<close>

definition clone ::
  "ptable \<Rightarrow> nat \<Rightarrow> nat option \<Rightarrow> nat option \<Rightarrow> nat option \<Rightarrow> ptable \<times> call list \<times> int" where
  "clone pt i tf atf pg =
     (case allocproc pt tf atf pg of
        (pt, cs, None) \<Rightarrow> (pt, cs, -1)
      | (pt, cs, Some k) \<Rightarrow>
          (let p = procs pt ! i
           in (upd_proc pt k
                 (\<lambda>np. np\<lparr>pagetable := pagetable p, sz := sz p, pthread := Some i, parent := None,
                          ofile := copy_ofile p np, cwd := cwd p, pname := pname p, pstate := RUNNABLE\<rparr>),
               cs @ dup_calls p, pid (procs pt ! k))))"

section \<open>Sleeping and waking\<close>

definition sleep_on :: "ptable \<Rightarrow> nat \<Rightarrow> channel \<Rightarrow> ptable" where
  "sleep_on pt i ch = upd_proc pt i (\<lambda>p. p\<lparr>chan := Some ch, pstate := SLEEPING\<rparr>)"

definition wake_if :: "channel \<Rightarrow> proc \<Rightarrow> proc" where
  "wake_if ch p = (if pstate p = SLEEPING \<and> chan p = Some ch then p\<lparr>pstate := RUNNABLE\<rparr> else p)"

definition wakeup :: "ptable \<Rightarrow> channel \<Rightarrow> ptable" where
  "wakeup pt ch = pt\<lparr>procs := map (wake_if ch) (procs pt)\<rparr>"

text \<open>\<open>wakeupOneProc\<close> leaves the loop with the lock of the process it woke still held.\<close>

definition wakeupOneProc :: "ptable \<Rightarrow> channel \<Rightarrow> ptable \<times> nat option" where
  "wakeupOneProc pt ch =
     (case find_slot (\<lambda>p. pstate p = SLEEPING \<and> chan p = Some ch) (procs pt) of
        None \<Rightarrow> (pt, None)
      | Some i \<Rightarrow> (upd_proc pt i (\<lambda>p. p\<lparr>pstate := RUNNABLE\<rparr>), Some i))"

definition wakeup1 :: "ptable \<Rightarrow> nat \<Rightarrow> ptable" where
  "wakeup1 pt i = upd_proc pt i (wake_if (Proc_chan i))"

definition yield :: "ptable \<Rightarrow> nat \<Rightarrow> ptable" where
  "yield pt i = upd_proc pt i (\<lambda>p. p\<lparr>pstate := RUNNABLE\<rparr>)"

definition kill :: "ptable \<Rightarrow> int \<Rightarrow> ptable \<times> int" where
  "kill pt pd =
     (case find_slot (\<lambda>p. pid p = pd) (procs pt) of
        Some i \<Rightarrow>
          (upd_proc pt i (\<lambda>p. (if pstate p = SLEEPING then p\<lparr>pstate := RUNNABLE\<rparr> else p)\<lparr>killed := True\<rparr>), 0)
      | None \<Rightarrow> (pt, -1))"

section \<open>Exit and wait\<close>

definition reparent :: "ptable \<Rightarrow> nat \<Rightarrow> ptable" where
  "reparent pt i =
     pt\<lparr>procs := map (\<lambda>p. if parent p = Some i then p\<lparr>parent := initproc pt\<rparr> else p) (procs pt)\<rparr>"

definition close_files :: "proc \<Rightarrow> proc \<times> call list" where
  "close_files p = (p\<lparr>ofile := map (\<lambda>_. None) (ofile p)\<rparr>, concat (map (opt_call Fileclose) (ofile p)))"

definition exit_proc :: "ptable \<Rightarrow> nat \<Rightarrow> int \<Rightarrow> (ptable \<times> call list) kres" where
  "exit_proc pt i status =
     (if initproc pt = Some i then Inl ''init exiting''
      else
        (let (p, cs) = close_files (procs pt ! i);
             cs = cs @ [Iput (cwd p)];
             pt = upd_proc pt i (\<lambda>_. p\<lparr>cwd := None\<rparr>)
         in case initproc pt of
              None \<Rightarrow> Inl null_fault
            | Some ini \<Rightarrow>
                (let pt = wakeup1 pt ini;
                     p = procs pt ! i;
                     original_parent = (if parent p = None \<and> pthread p \<noteq> None then pthread p else parent p)
                 in case original_parent of
                      None \<Rightarrow> Inl null_fault
                    | Some op \<Rightarrow>
                        (let pt = reparent pt i;
                             pt = wakeup1 pt op
                         in Inr (upd_proc pt i (\<lambda>p. p\<lparr>xstate := status, pstate := ZOMBIE\<rparr>), cs)))))"

text \<open>
  A turn of the loops of \<open>wait\<close>, \<open>waitpid\<close> and \<open>join\<close>: either the value returned, or the caller
  went to sleep. \<open>copied\<close> says whether storing the exit status succeeds (or was not asked for).
\<close>

datatype wres = Returned int | Blocked

definition wait_none :: "ptable \<Rightarrow> nat \<Rightarrow> bool \<Rightarrow> ptable \<times> call list \<times> wres" where
  "wait_none pt i havekids =
     (if \<not> havekids \<or> killed (procs pt ! i) then (pt, [], Returned (-1))
      else (sleep_on pt i (Proc_chan i), [], Blocked))"

definition wait :: "ptable \<Rightarrow> nat \<Rightarrow> bool \<Rightarrow> ptable \<times> call list \<times> wres" where
  "wait pt i copied =
     (case find_slot (\<lambda>np. parent np = Some i \<and> pstate np = ZOMBIE) (procs pt) of
        Some k \<Rightarrow>
          (let np = procs pt ! k;
               pd = pid np;
               cs = [Releasemq2 (mqmask np)];
               np = np\<lparr>mqmask := 0\<rparr>
           in if \<not> copied then (upd_proc pt k (\<lambda>_. np), cs, Returned (-1))
              else (let (np, fs) = freeproc np in (upd_proc pt k (\<lambda>_. np), cs @ fs, Returned pd)))
      | None \<Rightarrow> wait_none pt i (\<exists>np \<in> set (procs pt). parent np = Some i))"

definition waitpid :: "ptable \<Rightarrow> nat \<Rightarrow> int \<Rightarrow> bool \<Rightarrow> ptable \<times> call list \<times> wres" where
  "waitpid pt i pd copied =
     (let wanted = (\<lambda>np. parent np = Some i \<and> (pd = -1 \<or> pid np = pd))
      in case find_slot (\<lambda>np. wanted np \<and> pstate np = ZOMBIE) (procs pt) of
           Some k \<Rightarrow>
             (if \<not> copied then (pt, [], Returned (-1))
              else (let np = procs pt ! k; (np', fs) = freeproc np
                    in (upd_proc pt k (\<lambda>_. np'), fs, Returned (pid np))))
         | None \<Rightarrow> wait_none pt i (\<exists>np \<in> set (procs pt). wanted np))"

text \<open>\<open>join\<close> frees the kernel stack of the thread by its virtual address; \<open>kfree\<close> tests it.\<close>

definition join :: "nat \<Rightarrow> ptable \<Rightarrow> nat \<Rightarrow> (ptable \<times> call list \<times> wres) kres" where
  "join kend pt i =
     (case find_slot (\<lambda>p. pthread p = Some i \<and> pstate p = ZOMBIE) (procs pt) of
        Some k \<Rightarrow>
          (if bad_page kend (kstack (procs pt ! k)) then Inl ''kfree''
           else Inr (upd_proc pt k (\<lambda>p. p\<lparr>kstack := 0, pstate := UNUSED, pid := 0, parent := None,
                       pthread := None, pname := '''', killed := False\<rparr>),
                     [Kfree (kstack (procs pt ! k))], Returned (pid (procs pt ! k))))
      | None \<Rightarrow> Inr (wait_none pt i (\<exists>p \<in> set (procs pt). pthread p = Some i)))"

definition procnum :: "ptable \<Rightarrow> u64" where
  "procnum pt = of_nat (length (filter (\<lambda>p. pstate p \<noteq> UNUSED) (procs pt)))"

end
