(* ===== verification/Proc_Life.thy ===== *)
theory Proc_Life
  imports Proc_Table
begin

text \<open>
  The life of processes: an invariant of the process table over every sequence of the routines of
  \<open>Proc_Table\<close>, and what fork, exit, wait, kill and join do.
\<close>

section \<open>The invariant\<close>

text \<open>
  Two parts. Every table has its kernel stacks in place and no files in an entry that is unused or
  has exited. As long as \<open>nextpid\<close> has not wrapped around, which the flag \<open>b\<close> stands for, the process
  numbers are also positive, below \<open>nextpid\<close> and unique.
\<close>

definition no_files :: "nat option list" where
  "no_files = replicate NOFILE None"

definition idle :: "procstate \<Rightarrow> bool" where
  "idle st = (st = UNUSED \<or> st = ZOMBIE)"

definition entry_ok :: "bool \<Rightarrow> int \<Rightarrow> nat \<Rightarrow> proc \<Rightarrow> bool" where
  "entry_ok b n i p =
     (kstack p = KSTACK i \<and> length (ofile p) = NOFILE \<and> (idle (pstate p) \<longrightarrow> ofile p = no_files)
      \<and> (b \<longrightarrow> 0 \<le> pid p \<and> pid p < n \<and> (pstate p \<noteq> UNUSED \<longrightarrow> 0 < pid p)))"

definition pt_inv :: "bool \<Rightarrow> ptable \<Rightarrow> bool" where
  "pt_inv b pt =
     (length (procs pt) = NPROC \<and> (b \<longrightarrow> 1 \<le> nextpid pt)
      \<and> (\<forall>i < NPROC. entry_ok b (nextpid pt) i (procs pt ! i))
      \<and> (b \<longrightarrow> (\<forall>i < NPROC. \<forall>j < NPROC. pid (procs pt ! i) = pid (procs pt ! j) \<longrightarrow> pid (procs pt ! i) \<noteq> 0 \<longrightarrow> i = j)))"

abbreviation pt_ok :: "ptable \<Rightarrow> bool" where
  "pt_ok \<equiv> pt_inv True"

text \<open>What a change of an entry may do without touching the invariant: the number stays, the entry keeps
  its stack and neither becomes used nor unused; if it is idle afterwards it has no files or is as before.\<close>

definition keeps :: "proc \<Rightarrow> proc \<Rightarrow> bool" where
  "keeps p q = (pid q = pid p \<and> kstack q = kstack p \<and> (pstate q = UNUSED) = (pstate p = UNUSED)
     \<and> length (ofile q) = length (ofile p) \<and> (idle (pstate q) \<longrightarrow> ofile q = no_files \<or> idle (pstate p) \<and> ofile q = ofile p))"

lemma NPROC_pos [simp]: "0 < NPROC" "Suc 0 < NPROC"
  by (simp_all add: NPROC_def)

lemma keeps_refl [simp]: "keeps p p"
  by (simp add: keeps_def)

lemma pt_ok_procinit: "pt_inv b procinit"
  by (simp add: pt_inv_def procinit_def entry_ok_def zero_proc_def no_files_def)

lemma pt_inv_weaken: "pt_inv b pt \<Longrightarrow> (b' \<Longrightarrow> b) \<Longrightarrow> pt_inv b' pt"
  by (auto simp: pt_inv_def entry_ok_def)

lemma pt_ok_entry: "pt_inv b pt \<Longrightarrow> i < NPROC \<Longrightarrow> entry_ok b (nextpid pt) i (procs pt ! i)"
  by (simp add: pt_inv_def)

lemma pt_ok_upd:
  assumes "pt_inv b pt" and "i < NPROC" and "entry_ok b (nextpid pt) i (f (procs pt ! i))"
    and "pid (f (procs pt ! i)) = pid (procs pt ! i) \<or> pid (f (procs pt ! i)) = 0"
  shows "pt_inv b (upd_proc pt i f)"
  using assms unfolding pt_inv_def upd_proc_def by (cases b) (simp_all add: nth_list_update, metis)

lemma entry_ok_keeps: "entry_ok b n i p \<Longrightarrow> keeps p q \<Longrightarrow> entry_ok b n i q"
  by (auto simp: entry_ok_def keeps_def)

lemma pt_ok_keep:
  assumes "pt_inv b pt" and "i < NPROC" and "keeps (procs pt ! i) (f (procs pt ! i))"
  shows "pt_inv b (upd_proc pt i f)"
proof (rule pt_ok_upd [OF assms(1,2)])
  show "entry_ok b (nextpid pt) i (f (procs pt ! i))"
    by (rule entry_ok_keeps [OF pt_ok_entry [OF assms(1,2)] assms(3)])
qed (use assms(3) in \<open>simp add: keeps_def\<close>)

lemma pt_ok_map:
  assumes "pt_inv b pt" and "\<And>p. keeps p (g p)"
  shows "pt_inv b (pt\<lparr>procs := map g (procs pt)\<rparr>)"
proof -
  have "pid (g p) = pid p" for p using assms(2) by (simp add: keeps_def)
  then show ?thesis using assms(1) entry_ok_keeps [OF _ assms(2)] by (simp add: pt_inv_def)
qed

lemma int_inc_less: "1 \<le> n \<Longrightarrow> n < INT_MAX \<Longrightarrow> int_inc n = n + 1"
  by (simp add: int_inc_def INT_MAX_def)

text \<open>An entry that \<open>allocproc\<close> numbers keeps its stack, its state and its files.\<close>

definition renumbered :: "int \<Rightarrow> proc \<Rightarrow> proc \<Rightarrow> bool" where
  "renumbered pd p q = (pid q = pd \<and> kstack q = kstack p \<and> pstate q = pstate p \<and> ofile q = ofile p)"

lemma pt_ok_fresh:
  assumes "pt_inv b pt" and "i < NPROC" and q: "renumbered (nextpid pt) (procs pt ! i) q"
    and small: "b \<longrightarrow> nextpid pt < INT_MAX"
  shows "pt_inv b (upd_proc (pt\<lparr>nextpid := int_inc (nextpid pt)\<rparr>) i (\<lambda>_. q))"
proof -
  have inc: "int_inc (nextpid pt) = nextpid pt + 1" "1 \<le> nextpid pt" if b
    using int_inc_less assms(1) small that by (simp_all add: pt_inv_def)
  have "pid (procs pt ! j) \<noteq> nextpid pt" if "j < NPROC" b for j
    using assms(1) that by (auto simp: pt_inv_def entry_ok_def)
  moreover have "entry_ok b (int_inc (nextpid pt)) j (procs pt ! j)" if "j < NPROC" for j
    using pt_ok_entry [OF assms(1) that] inc by (auto simp: entry_ok_def)
  moreover have "entry_ok b (int_inc (nextpid pt)) i q"
    using pt_ok_entry [OF assms(1,2)] q inc by (auto simp: entry_ok_def renumbered_def)
  ultimately show ?thesis
    using assms(1,2) q inc unfolding pt_inv_def upd_proc_def renumbered_def
    by (cases b) (simp_all add: nth_list_update, metis)
qed

lemma pt_ok_length: "pt_inv b pt \<Longrightarrow> length (procs pt) = NPROC"
  by (simp add: pt_inv_def)

lemma slot_less: "pt_inv b pt \<Longrightarrow> find_slot P (procs pt) = Some i \<Longrightarrow> i < NPROC \<and> P (procs pt ! i)"
  using find_slot_SomeD(1,2) pt_ok_length by metis

lemma initproc_upd [simp]: "initproc (upd_proc pt i f) = initproc pt" "nextpid (upd_proc pt i f) = nextpid pt"
  by (simp_all add: upd_proc_def)

lemma upd_nth: "length (procs pt) = NPROC \<Longrightarrow> i < NPROC \<Longrightarrow> procs (upd_proc pt i f) ! j = (if j = i then f (procs pt ! i) else procs pt ! j)"
  by (simp add: upd_proc_def nth_list_update)

lemma upd_length [simp]: "length (procs (upd_proc pt i f)) = length (procs pt)"
  by (simp add: upd_proc_def)

section \<open>Allocation\<close>

lemma freeproc_facts:
  "pid (fst (freeproc p)) = 0" "pstate (fst (freeproc p)) = UNUSED" "kstack (fst (freeproc p)) = kstack p"
  "ofile (fst (freeproc p)) = ofile p"
  by (simp_all add: freeproc_def)

text \<open>Entries may be freed when they have no files.\<close>

lemma pt_ok_freeproc:
  assumes "pt_inv b pt" and "k < NPROC" and "kstack q = kstack (procs pt ! k)" and "ofile q = no_files"
  shows "pt_inv b (upd_proc pt k (\<lambda>_. fst (freeproc q)))"
proof (rule pt_ok_upd [OF assms(1,2)])
  have "entry_ok b (nextpid pt) k (procs pt ! k)" "b \<longrightarrow> 1 \<le> nextpid pt" using assms(1,2) by (auto simp: pt_inv_def)
  with assms(3,4) show "entry_ok b (nextpid pt) k (fst (freeproc q))"
    by (auto simp: entry_ok_def freeproc_facts no_files_def)
qed (simp add: freeproc_facts)

lemma idle_files: "pt_inv b pt \<Longrightarrow> i < NPROC \<Longrightarrow> idle (pstate (procs pt ! i)) \<Longrightarrow> ofile (procs pt ! i) = no_files"
  using pt_ok_entry [of b pt i] by (simp add: entry_ok_def)

lemma idle_states [simp]: "idle UNUSED" "idle ZOMBIE" "\<not> idle RUNNABLE" "\<not> idle SLEEPING" "\<not> idle RUNNING"
  by (simp_all add: idle_def)

lemma upd_upd: "upd_proc (upd_proc pt i f) i g = upd_proc pt i (\<lambda>_. g (f (procs pt ! i)))" if "i < length (procs pt)"
  using that by (simp add: upd_proc_def)

text \<open>The entry a successful \<open>allocproc\<close> makes, and the table after every \<open>allocproc\<close>.\<close>

definition new_proc :: "int \<Rightarrow> nat \<Rightarrow> nat \<Rightarrow> nat \<Rightarrow> proc \<Rightarrow> proc" where
  "new_proc pd tf atf pg p =
     (alloc_after ((alloc_before pd p)\<lparr>trapframe := Some tf, alarm_trapframe := Some atf\<rparr>))\<lparr>pagetable := Some pg\<rparr>"

lemma allocproc_Some:
  assumes "allocproc pt tf atf pg = (pt', cs, Some k)"
  obtains t a g where "tf = Some t" "atf = Some a" "pg = Some g" "cs = []"
    "find_slot (\<lambda>p. pstate p = UNUSED) (procs pt) = Some k"
    "pt' = upd_proc (pt\<lparr>nextpid := int_inc (nextpid pt)\<rparr>) k (\<lambda>_. new_proc (nextpid pt) t a g (procs pt ! k))"
  using assms
  by (auto simp: allocproc_def allocpid_def Let_def new_proc_def split: option.splits prod.splits)

lemma allocproc_Ok:
  "find_slot (\<lambda>p. pstate p = UNUSED) (procs pt) = Some k \<Longrightarrow>
   allocproc pt (Some t) (Some a) (Some g) =
     (upd_proc (pt\<lparr>nextpid := int_inc (nextpid pt)\<rparr>) k (\<lambda>_. new_proc (nextpid pt) t a g (procs pt ! k)), [], Some k)"
  by (simp add: allocproc_def allocpid_def Let_def new_proc_def)

lemma new_proc_facts:
  "pid (new_proc pd t a g p) = pd" "kstack (new_proc pd t a g p) = kstack p"
  "pstate (new_proc pd t a g p) = pstate p" "killed (new_proc pd t a g p) = killed p"
  "parent (new_proc pd t a g p) = parent p" "pthread (new_proc pd t a g p) = pthread p"
  "ofile (new_proc pd t a g p) = ofile p" "shmva (new_proc pd t a g p) = shmva p"
  by (simp_all add: new_proc_def alloc_after_def alloc_before_def)

lemma pt_ok_allocproc:
  assumes "pt_inv b pt" and "allocproc pt tf atf pg = (pt', cs, r)" and "b \<longrightarrow> nextpid pt < INT_MAX"
  shows "pt_inv b pt'"
proof (cases "find_slot (\<lambda>p. pstate p = UNUSED) (procs pt)")
  case None
  then show ?thesis using assms by (simp add: allocproc_def)
next
  case (Some i)
  let ?p = "(alloc_before (nextpid pt) (procs pt ! i))\<lparr>trapframe := tf\<rparr>"
  let ?pt = "pt\<lparr>nextpid := int_inc (nextpid pt)\<rparr>"
  have i: "i < NPROC" "pstate (procs pt ! i) = UNUSED" using slot_less [OF assms(1) Some] by simp_all
  note fresh = pt_ok_fresh [OF assms(1) i(1) _ assms(3)]
  have ffree: "pt_inv b (upd_proc ?pt i (\<lambda>_. fst (freeproc q)))" if q: "renumbered (nextpid pt) (procs pt ! i) q" for q
  proof -
    have "i < length (procs ?pt)" using i pt_ok_length [OF assms(1)] by simp
    moreover have "pt_inv b (upd_proc (upd_proc ?pt i (\<lambda>_. q)) i (\<lambda>_. fst (freeproc q)))"
      by (rule pt_ok_freeproc [OF fresh [OF q] i(1)])
        (use i q pt_ok_length [OF assms(1)] idle_files [OF assms(1) i(1)] in \<open>simp_all add: upd_nth renumbered_def\<close>)
    ultimately show ?thesis by (simp add: upd_upd)
  qed
  consider "tf = None" | t where "tf = Some t" "atf = None" | t a where "tf = Some t" "atf = Some a" "pg = None"
    | t a g where "tf = Some t" "atf = Some a" "pg = Some g"
    by (cases tf; cases atf; cases pg) auto
  then show ?thesis
  proof cases
    case 1
    then show ?thesis using assms(2) Some
      by (auto simp: allocproc_def allocpid_def Let_def alloc_before_def renumbered_def intro!: fresh)
  next
    case (2 t)
    then show ?thesis using assms(2) Some
      by (auto simp: allocproc_def allocpid_def Let_def alloc_before_def renumbered_def intro!: fresh)
  next
    case (3 t a)
    let ?q = "(alloc_after ((alloc_before (nextpid pt) (procs pt ! i))\<lparr>trapframe := Some t, alarm_trapframe := Some a\<rparr>))\<lparr>pagetable := None\<rparr>"
    have "pt' = upd_proc ?pt i (\<lambda>_. fst (freeproc ?q))"
      using assms(2) Some 3 by (auto simp: allocproc_def allocpid_def Let_def split: prod.splits)
    with ffree [of ?q] show ?thesis by (simp add: alloc_after_def alloc_before_def renumbered_def)
  next
    case (4 t a g)
    then show ?thesis using assms(2) Some allocproc_Ok [OF Some, of t a g]
      by (auto intro!: fresh simp: new_proc_facts renumbered_def)
  qed
qed

section \<open>Every sequence of calls\<close>

text \<open>
  The rule \<open>other\<close> covers what the rest of the kernel does to an entry: scheduling, signals,
  credentials, opening and closing files, freezing and so on; it leaves alone the process number, the
  kernel stack, whether the entry is in use, and the entries that have exited. \<open>proc_reach\<close> holds of
  every sequence; \<open>proc_run True\<close> is a sequence in which no process is created once \<open>nextpid\<close> is the
  largest \<open>int\<close>, that is, with fewer than $2^{31} - 1$ calls of \<open>allocpid\<close>.
\<close>

definition in_use :: "ptable \<Rightarrow> nat \<Rightarrow> bool" where
  "in_use pt i = (i < NPROC \<and> pstate (procs pt ! i) \<noteq> UNUSED)"

inductive proc_run :: "bool \<Rightarrow> ptable \<Rightarrow> bool" for b where
  start: "proc_run b procinit"
| userinit: "proc_run b pt \<Longrightarrow> (b \<longrightarrow> nextpid pt < INT_MAX) \<Longrightarrow> userinit pt tf atf pg root = Inr pt' \<Longrightarrow> proc_run b pt'"
| setPriority: "proc_run b pt \<Longrightarrow> setPriority pt pd prio = (pt', r) \<Longrightarrow> proc_run b pt'"
| fork: "proc_run b pt \<Longrightarrow> (b \<longrightarrow> nextpid pt < INT_MAX) \<Longrightarrow> in_use pt i \<Longrightarrow> fork pt i tf atf pg copied = (pt', cs, r) \<Longrightarrow> proc_run b pt'"
| clone: "proc_run b pt \<Longrightarrow> (b \<longrightarrow> nextpid pt < INT_MAX) \<Longrightarrow> in_use pt i \<Longrightarrow> clone pt i tf atf pg = (pt', cs, r) \<Longrightarrow> proc_run b pt'"
| sleep: "proc_run b pt \<Longrightarrow> in_use pt i \<Longrightarrow> proc_run b (sleep_on pt i ch)"
| wakeup: "proc_run b pt \<Longrightarrow> proc_run b (wakeup pt ch)"
| wakeupOneProc: "proc_run b pt \<Longrightarrow> wakeupOneProc pt ch = (pt', r) \<Longrightarrow> proc_run b pt'"
| yield: "proc_run b pt \<Longrightarrow> in_use pt i \<Longrightarrow> proc_run b (yield pt i)"
| kill: "proc_run b pt \<Longrightarrow> kill pt pd = (pt', r) \<Longrightarrow> proc_run b pt'"
| exit: "proc_run b pt \<Longrightarrow> in_use pt i \<Longrightarrow> exit_proc pt i status = Inr (pt', cs) \<Longrightarrow> proc_run b pt'"
| wait: "proc_run b pt \<Longrightarrow> in_use pt i \<Longrightarrow> wait pt i copied = (pt', cs, w) \<Longrightarrow> proc_run b pt'"
| waitpid: "proc_run b pt \<Longrightarrow> in_use pt i \<Longrightarrow> waitpid pt i pd copied = (pt', cs, w) \<Longrightarrow> proc_run b pt'"
| join: "proc_run b pt \<Longrightarrow> in_use pt i \<Longrightarrow> join kend pt i = Inr (pt', cs, w) \<Longrightarrow> proc_run b pt'"
| other: "proc_run b pt \<Longrightarrow> i < NPROC \<Longrightarrow>
    keeps (procs pt ! i) (f (procs pt ! i)) \<Longrightarrow>
    proc_run b (upd_proc pt i f)"

abbreviation proc_reach :: "ptable \<Rightarrow> bool" where
  "proc_reach \<equiv> proc_run False"

lemma copy_ofile_length: "length (ofile p) = NOFILE \<Longrightarrow> length (ofile np) = NOFILE \<Longrightarrow> length (copy_ofile p np) = NOFILE"
  by (simp add: copy_ofile_def)

text \<open>The table between \<open>allocproc\<close> and the copying in \<open>fork\<close> and \<open>clone\<close>.\<close>

lemma allocproc_entry:
  assumes "pt_inv b pt" and "allocproc pt tf atf pg = (p1, cs, Some k)" and "b \<longrightarrow> nextpid pt < INT_MAX"
  shows "pt_inv b p1" and "k < NPROC" and "pid (procs p1 ! k) = nextpid pt" and "b \<longrightarrow> 1 \<le> nextpid pt"
    and "ofile (procs p1 ! k) = no_files" and "pstate (procs p1 ! k) = UNUSED"
proof -
  obtain t a' g where sl: "find_slot (\<lambda>p. pstate p = UNUSED) (procs pt) = Some k"
    and p1: "p1 = upd_proc (pt\<lparr>nextpid := int_inc (nextpid pt)\<rparr>) k (\<lambda>_. new_proc (nextpid pt) t a' g (procs pt ! k))"
    using allocproc_Some [OF assms(2)] by metis
  show ok: "pt_inv b p1" by (rule pt_ok_allocproc [OF assms])
  show k: "k < NPROC" using slot_less [OF assms(1) sl] by simp
  show "pid (procs p1 ! k) = nextpid pt" and u: "pstate (procs p1 ! k) = UNUSED"
    using k pt_ok_length [OF assms(1)] slot_less [OF assms(1) sl] by (simp_all add: p1 upd_nth new_proc_facts)
  show "b \<longrightarrow> 1 \<le> nextpid pt" using assms(1) by (simp add: pt_inv_def)
  show "ofile (procs p1 ! k) = no_files" by (rule idle_files [OF ok k]) (simp add: u)
qed

text \<open>A new entry that becomes runnable with the files of a process.\<close>

lemma pt_ok_new_entry:
  assumes "pt_inv b p1" and "k < NPROC" and "i < NPROC" and "b \<longrightarrow> 1 \<le> pid (procs p1 ! k)"
    and "pid (f (procs p1 ! k)) = pid (procs p1 ! k)" and "kstack (f (procs p1 ! k)) = kstack (procs p1 ! k)"
    and "pstate (f (procs p1 ! k)) = RUNNABLE" and "ofile (f (procs p1 ! k)) = copy_ofile (procs p1 ! i) (procs p1 ! k)"
  shows "pt_inv b (upd_proc p1 k f)"
proof (rule pt_ok_upd [OF assms(1,2)])
  have "length (copy_ofile (procs p1 ! i) (procs p1 ! k)) = NOFILE"
    using pt_ok_entry [OF assms(1,2)] pt_ok_entry [OF assms(1,3)] by (intro copy_ofile_length) (simp_all add: entry_ok_def)
  then show "entry_ok b (nextpid p1) k (f (procs p1 ! k))"
    using pt_ok_entry [OF assms(1,2)] assms(4-8) by (auto simp: entry_ok_def)
qed (use assms(5) in simp)

lemma pt_ok_fork:
  assumes "pt_inv b pt" and "fork pt i tf atf pg copied = (pt', cs, r)" and "i < NPROC"
    and "b \<longrightarrow> nextpid pt < INT_MAX"
  shows "pt_inv b pt'"
proof -
  obtain p1 c1 r1 where a: "allocproc pt tf atf pg = (p1, c1, r1)" by (cases "allocproc pt tf atf pg")
  show ?thesis
  proof (cases r1)
    case None
    then show ?thesis using assms(2) a pt_ok_allocproc [OF assms(1) a assms(4)] by (simp add: fork_def)
  next
    case (Some k)
    note E = allocproc_entry [OF assms(1) a [unfolded Some] assms(4)]
    show ?thesis
    proof (cases copied)
      case False
      then have "pt' = upd_proc p1 k (\<lambda>_. fst (freeproc (procs p1 ! k)))"
        using assms(2) a Some by (auto simp: fork_def split: prod.splits)
      then show ?thesis using pt_ok_freeproc [OF E(1,2) _ E(5)] by simp
    next
      case True
      then have "pt' = upd_proc p1 k (fork_copy i (procs p1 ! i) (procs p1 ! 0))"
        using assms(2) a Some by (simp add: fork_def Let_def)
      then show ?thesis
        using E(3,4) by (auto intro!: pt_ok_new_entry [OF E(1,2) assms(3)] simp: fork_copy_def)
    qed
  qed
qed

lemma pt_ok_clone:
  assumes "pt_inv b pt" and "clone pt i tf atf pg = (pt', cs, r)" and "i < NPROC"
    and "b \<longrightarrow> nextpid pt < INT_MAX"
  shows "pt_inv b pt'"
proof -
  obtain p1 c1 r1 where a: "allocproc pt tf atf pg = (p1, c1, r1)" by (cases "allocproc pt tf atf pg")
  show ?thesis
  proof (cases r1)
    case None
    then show ?thesis using assms(2) a pt_ok_allocproc [OF assms(1) a assms(4)] by (simp add: clone_def)
  next
    case (Some k)
    note E = allocproc_entry [OF assms(1) a [unfolded Some] assms(4)]
    show ?thesis
      using assms(2) a Some E(3,4) by (auto simp: clone_def Let_def intro!: pt_ok_new_entry [OF E(1,2) assms(3)])
  qed
qed

lemma keeps_wake_if: "keeps p (wake_if ch p)"
  by (simp add: keeps_def wake_if_def)

lemma pt_ok_wakeup1: "pt_inv b pt \<Longrightarrow> pt_inv b (wakeup1 pt i)"
proof (cases "i < NPROC")
  case True
  assume "pt_inv b pt"
  then show ?thesis unfolding wakeup1_def by (intro pt_ok_keep True keeps_wake_if)
next
  case False
  assume "pt_inv b pt"
  with False show ?thesis by (simp add: wakeup1_def upd_proc_def pt_ok_length list_update_beyond)
qed

lemma pt_ok_reparent: "pt_inv b pt \<Longrightarrow> pt_inv b (reparent pt i)"
  unfolding reparent_def by (rule pt_ok_map) (simp_all add: keeps_def)

text \<open>The parts of \<open>exit_proc\<close>, in order.\<close>

definition exiting :: "ptable \<Rightarrow> nat \<Rightarrow> nat \<Rightarrow> ptable" where
  "exiting pt i ini = wakeup1 (upd_proc pt i (\<lambda>p. (fst (close_files p))\<lparr>cwd := None\<rparr>)) ini"

definition exit_parent :: "proc \<Rightarrow> nat option" where
  "exit_parent p = (if parent p = None \<and> pthread p \<noteq> None then pthread p else parent p)"

lemma exit_proc_Inr:
  assumes "exit_proc pt i status = Inr (pt', cs)"
  obtains ini op where "initproc pt = Some ini" "ini \<noteq> i" "exit_parent (procs (exiting pt i ini) ! i) = Some op"
    "pt' = upd_proc (wakeup1 (reparent (exiting pt i ini) i) op) i (\<lambda>p. p\<lparr>xstate := status, pstate := ZOMBIE\<rparr>)"
  using assms
  by (auto simp: exit_proc_def exiting_def exit_parent_def Let_def upd_proc_def close_files_def
      split: if_splits option.splits)

lemma closed_files: "length (ofile p) = NOFILE \<Longrightarrow> ofile (fst (close_files p)) = no_files"
  by (simp add: close_files_def no_files_def map_replicate_const)

lemma pt_ok_exiting:
  assumes "pt_inv b pt" and "i < NPROC"
  shows "pt_inv b (exiting pt i ini)" and "ofile (procs (exiting pt i ini) ! i) = no_files"
proof -
  note len = pt_ok_length [OF assms(1)]
  have l: "length (ofile (procs pt ! i)) = NOFILE" using pt_ok_entry [OF assms] by (simp add: entry_ok_def)
  have "keeps (procs pt ! i) ((fst (close_files (procs pt ! i)))\<lparr>cwd := None\<rparr>)"
    using closed_files [OF l] l by (simp add: keeps_def) (simp add: close_files_def no_files_def)
  then show "pt_inv b (exiting pt i ini)" unfolding exiting_def by (intro pt_ok_wakeup1 pt_ok_keep assms)
  have "ofile (procs (wakeup1 q ini) ! i) = ofile (procs q ! i)" if "length (procs q) = NPROC" for q
    using that assms(2) by (cases "ini = i") (simp_all add: wakeup1_def upd_proc_def wake_if_def)
  then show "ofile (procs (exiting pt i ini) ! i) = no_files"
    using len assms(2) closed_files [OF l] by (simp add: exiting_def upd_nth)
qed

lemma wake_if_facts [simp]:
  "pid (wake_if ch p) = pid p" "kstack (wake_if ch p) = kstack p" "parent (wake_if ch p) = parent p"
  "pthread (wake_if ch p) = pthread p" "(pstate (wake_if ch p) = UNUSED) = (pstate p = UNUSED)"
  "(pstate (wake_if ch p) = ZOMBIE) = (pstate p = ZOMBIE)" "chan (wake_if ch p) = chan p"
  by (auto simp: wake_if_def)

lemma in_use_wakeup1: "length (procs pt) = NPROC \<Longrightarrow> in_use (wakeup1 pt k) i = in_use pt i"
  by (cases "k = i") (auto simp: in_use_def wakeup1_def upd_proc_def)

lemma in_use_reparent: "length (procs pt) = NPROC \<Longrightarrow> in_use (reparent pt k) i = in_use pt i"
  by (auto simp: in_use_def reparent_def split: if_splits)

lemma in_use_exiting: "length (procs pt) = NPROC \<Longrightarrow> k < NPROC \<Longrightarrow> in_use (exiting pt k ini) i = in_use pt i"
  by (simp add: exiting_def in_use_wakeup1) (auto simp: in_use_def upd_nth close_files_def)

lemma step_lengths [simp]:
  "length (procs (wakeup1 pt k)) = length (procs pt)" "length (procs (reparent pt k)) = length (procs pt)"
  "length (procs (exiting pt k ini)) = length (procs pt)"
  by (simp_all add: wakeup1_def reparent_def exiting_def)

lemma pt_ok_exit:
  assumes "pt_inv b pt" and "in_use pt i" and "exit_proc pt i status = Inr (pt', cs)"
  shows "pt_inv b pt'"
proof -
  have i: "i < NPROC" using assms(2) by (simp add: in_use_def)
  obtain ini op where p': "pt' = upd_proc (wakeup1 (reparent (exiting pt i ini) i) op) i (\<lambda>p. p\<lparr>xstate := status, pstate := ZOMBIE\<rparr>)"
    using exit_proc_Inr [OF assms(3)] by metis
  let ?q = "wakeup1 (reparent (exiting pt i ini) i) op"
  have ok: "pt_inv b ?q" by (intro pt_ok_wakeup1 pt_ok_reparent pt_ok_exiting assms(1) i)
  have len: "length (procs pt) = NPROC" by (rule pt_ok_length [OF assms(1)])
  have "pstate (procs ?q ! i) \<noteq> UNUSED"
    using assms(2) i len in_use_wakeup1 [of "reparent (exiting pt i ini) i" op i]
      in_use_reparent [of "exiting pt i ini" i i] in_use_exiting [of pt i ini i]
    by (simp add: in_use_def)
  moreover have "ofile (procs ?q ! i) = no_files"
    using pt_ok_exiting(2) [OF assms(1) i, of ini] i len
    by (cases "op = i") (simp_all add: wakeup1_def upd_proc_def wake_if_def reparent_def)
  ultimately show ?thesis unfolding p' by (intro pt_ok_keep [OF ok i]) (auto simp: keeps_def)
qed

lemma pt_ok_sleep: "pt_inv b pt \<Longrightarrow> in_use pt i \<Longrightarrow> pt_inv b (sleep_on pt i ch)"
  unfolding sleep_on_def by (rule pt_ok_keep) (auto simp: in_use_def keeps_def)

lemma pt_ok_wait_none: "pt_inv b pt \<Longrightarrow> in_use pt i \<Longrightarrow> wait_none pt i h = (pt', cs, w) \<Longrightarrow> pt_inv b pt'"
  by (auto simp: wait_none_def intro!: pt_ok_sleep split: if_splits)

lemma pt_ok_wait:
  assumes "pt_inv b pt" and "in_use pt i" and "wait pt i copied = (pt', cs, w)"
  shows "pt_inv b pt'"
proof (cases "find_slot (\<lambda>np. parent np = Some i \<and> pstate np = ZOMBIE) (procs pt)")
  case None
  then show ?thesis using assms by (auto simp: wait_def intro: pt_ok_wait_none)
next
  case (Some k)
  have k: "k < NPROC" "pstate (procs pt ! k) = ZOMBIE" using slot_less [OF assms(1) Some] by simp_all
  show ?thesis
  proof (cases copied)
    case True
    then have "pt' = upd_proc pt k (\<lambda>_. fst (freeproc ((procs pt ! k)\<lparr>mqmask := 0\<rparr>)))"
      using assms(3) Some by (auto simp: wait_def Let_def split: prod.splits)
    then show ?thesis using pt_ok_freeproc [OF assms(1) k(1)] idle_files [OF assms(1) k(1)] k(2) by simp
  next
    case False
    then have "pt' = upd_proc pt k (\<lambda>p. p\<lparr>mqmask := 0\<rparr>)"
      using assms(3) Some by (auto simp: wait_def Let_def upd_proc_def)
    then show ?thesis using pt_ok_keep [OF assms(1) k(1)] by (simp add: keeps_def)
  qed
qed

lemma pt_ok_waitpid:
  assumes "pt_inv b pt" and "in_use pt i" and "waitpid pt i pd copied = (pt', cs, w)"
  shows "pt_inv b pt'"
proof (cases "find_slot (\<lambda>np. (parent np = Some i \<and> (pd = -1 \<or> pid np = pd)) \<and> pstate np = ZOMBIE) (procs pt)")
  case None
  then show ?thesis using assms by (auto simp: waitpid_def Let_def intro: pt_ok_wait_none)
next
  case (Some k)
  have k: "k < NPROC" "pstate (procs pt ! k) = ZOMBIE" using slot_less [OF assms(1) Some] by simp_all
  show ?thesis
  proof (cases copied)
    case True
    then have "pt' = upd_proc pt k (\<lambda>_. fst (freeproc (procs pt ! k)))"
      using assms(3) Some by (auto simp: waitpid_def Let_def split: prod.splits)
    then show ?thesis using pt_ok_freeproc [OF assms(1) k(1)] idle_files [OF assms(1) k(1)] k(2) by simp
  next
    case False
    then show ?thesis using assms Some by (simp add: waitpid_def Let_def)
  qed
qed

text \<open>The kernel stacks lie above the memory \<open>kfree\<close> accepts.\<close>

lemma KSTACK_bad: "i < NPROC \<Longrightarrow> bad_page kend (KSTACK i)"
  unfolding bad_page_def KSTACK_def NPROC_def by auto

lemma join_reaps:
  assumes "pt_inv b pt" and "find_slot (\<lambda>p. pthread p = Some i \<and> pstate p = ZOMBIE) (procs pt) = Some k"
  shows "join kend pt i = Inl ''kfree''"
proof -
  have k: "k < NPROC" using slot_less [OF assms] by simp
  then have "kstack (procs pt ! k) = KSTACK k" using assms(1) by (simp add: pt_inv_def entry_ok_def)
  with KSTACK_bad [OF k, of kend] assms(2) show ?thesis by (simp add: join_def)
qed

lemma pt_ok_join:
  assumes "pt_inv b pt" and "in_use pt i" and "join kend pt i = Inr (pt', cs, w)"
  shows "pt_inv b pt'"
proof (cases "find_slot (\<lambda>p. pthread p = Some i \<and> pstate p = ZOMBIE) (procs pt)")
  case None
  then show ?thesis using assms by (auto simp: join_def intro: pt_ok_wait_none)
next
  case (Some k)
  then show ?thesis using join_reaps [OF assms(1) Some] assms(3) by simp
qed

lemma pt_ok_userinit:
  assumes "pt_inv b pt" and "userinit pt tf atf pg root = Inr pt'" and "b \<longrightarrow> nextpid pt < INT_MAX"
  shows "pt_inv b pt'"
proof -
  obtain p1 c1 k where a: "allocproc pt tf atf pg = (p1, c1, Some k)"
    and p': "pt' = upd_proc (p1\<lparr>initproc := Some k\<rparr>) k
                (\<lambda>p. p\<lparr>sz := 4096, pname := ''initcode'', cwd := root, pstate := RUNNABLE\<rparr>)"
    using assms(2) by (auto simp: userinit_def split: prod.splits option.splits)
  note E = allocproc_entry [OF assms(1) a assms(3)]
  have ok: "pt_inv b (p1\<lparr>initproc := Some k\<rparr>)" using E(1) by (simp add: pt_inv_def)
  show ?thesis unfolding p'
    using E(3,4) pt_ok_entry [OF E(1,2)] by (intro pt_ok_upd [OF ok E(2)]) (auto simp: entry_ok_def)
qed

lemma in_use_less: "in_use pt i \<Longrightarrow> i < NPROC"
  by (simp add: in_use_def)

lemma proc_reach_ok: "proc_run b pt \<Longrightarrow> pt_inv b pt"
proof (induction rule: proc_run.induct)
  case (setPriority pt pd prio pt' r)
  then show ?case
    by (auto simp: setPriority_def keeps_def dest: slot_less intro!: pt_ok_keep split: option.splits)
next
  case (wakeup pt ch)
  then show ?case unfolding wakeup_def by (intro pt_ok_map keeps_wake_if)
next
  case (wakeupOneProc pt ch pt' r)
  show ?case
  proof (cases "find_slot (\<lambda>p. pstate p = SLEEPING \<and> chan p = Some ch) (procs pt)")
    case None
    then show ?thesis using wakeupOneProc by (simp add: wakeupOneProc_def)
  next
    case (Some k)
    from slot_less [OF wakeupOneProc.IH Some] show ?thesis
      using wakeupOneProc Some by (auto simp: wakeupOneProc_def keeps_def intro!: pt_ok_keep)
  qed
next
  case (yield pt i)
  then show ?case by (auto simp: yield_def in_use_def keeps_def intro!: pt_ok_keep)
next
  case (kill pt pd pt' r)
  then show ?case
    by (auto simp: kill_def keeps_def dest: slot_less intro!: pt_ok_keep split: option.splits)
qed (blast intro: pt_ok_procinit pt_ok_userinit pt_ok_fork pt_ok_clone pt_ok_exit pt_ok_wait pt_ok_waitpid
    pt_ok_join pt_ok_sleep pt_ok_keep in_use_less)+

section \<open>Properties\<close>

text \<open>
  C19: process numbers identify processes until \<open>nextpid\<close> overflows. After any sequence of calls that
  creates no process once \<open>nextpid\<close> is the largest \<open>int\<close>, two entries in use never have the same
  number, and every number in use was given out by \<open>allocpid\<close> and is positive.
\<close>

theorem pid_unique:
  assumes "proc_run True pt" and "in_use pt i"
  shows "0 < pid (procs pt ! i) \<and> pid (procs pt ! i) < nextpid pt
       \<and> (\<forall>j < NPROC. pid (procs pt ! j) = pid (procs pt ! i) \<longrightarrow> j = i)"
proof -
  have i: "i < NPROC" "pstate (procs pt ! i) \<noteq> UNUSED" using assms(2) by (simp_all add: in_use_def)
  have ok: "pt_ok pt" by (rule proc_reach_ok [OF assms(1)])
  then have e: "entry_ok True (nextpid pt) i (procs pt ! i)" using i(1) by (rule pt_ok_entry)
  have "j = i" if "j < NPROC" "pid (procs pt ! j) = pid (procs pt ! i)" for j
    using ok that i e unfolding pt_inv_def entry_ok_def by (metis less_irrefl)
  with e i show ?thesis by (simp add: entry_ok_def)
qed

text \<open>The table after \<open>userinit\<close>: process 1 in entry 0.\<close>

definition boot_table :: ptable where
  "boot_table = fst (upd_proc (procinit\<lparr>nextpid := 2, initproc := Some 0\<rparr>) 0
     (\<lambda>p. (new_proc 1 0 0 0 p)\<lparr>sz := 4096, pname := ''initcode'', cwd := Some 0, pstate := RUNNABLE\<rparr>), ())"

lemma boot_table_reach: "proc_run b boot_table"
proof (rule proc_run.userinit [OF proc_run.start])
  have sl: "find_slot (\<lambda>p. pstate p = UNUSED) (procs procinit) = Some 0"
    by (simp add: procinit_def NPROC_def upt_conv_Cons zero_proc_def)
  have len: "0 < length (procs procinit)" by (simp add: procinit_def NPROC_def)
  have inc: "int_inc (nextpid procinit) = 2" by (simp add: int_inc_def procinit_def)
  show "b \<longrightarrow> nextpid procinit < INT_MAX" by (simp add: procinit_def INT_MAX_def)
  show "userinit procinit (Some 0) (Some 0) (Some 0) (Some 0) = Inr boot_table"
    using len inc by (simp add: userinit_def allocproc_Ok [OF sl] boot_table_def upd_proc_def)
      (simp add: procinit_def)
qed

lemma boot_table_facts:
  "initproc boot_table = Some 0" "nextpid boot_table = 2" "length (procs boot_table) = NPROC"
  "pid (procs boot_table ! 0) = 1" "pstate (procs boot_table ! 0) = RUNNABLE"
  "0 < i \<Longrightarrow> i < NPROC \<Longrightarrow> procs boot_table ! i = zero_proc\<lparr>kstack := KSTACK i\<rparr>"
  by (simp_all add: boot_table_def upd_proc_def procinit_def NPROC_def new_proc_facts)

theorem pid_unique_witness: "in_use boot_table 0 \<and> pid (procs boot_table ! 0) < nextpid boot_table"
proof -
  have "in_use boot_table 0" by (simp add: in_use_def boot_table_facts)
  then show ?thesis using pid_unique [OF boot_table_reach] by blast
qed

lemma wake_if_awake: "\<not> (pstate (wake_if ch p) = SLEEPING \<and> chan (wake_if ch p) = Some ch)"
  by (auto simp: wake_if_def)

lemma parent_wakeup1: "length (procs pt) = NPROC \<Longrightarrow> j < NPROC \<Longrightarrow> parent (procs (wakeup1 pt k) ! j) = parent (procs pt ! j)"
  by (cases "k = j") (simp_all add: wakeup1_def upd_proc_def)

lemma parent_exiting:
  assumes "length (procs pt) = NPROC" "j < NPROC"
  shows "parent (procs (exiting pt k ini) ! j) = parent (procs pt ! j)"
proof -
  have "parent (procs (exiting pt k ini) ! j)
      = parent (procs (upd_proc pt k (\<lambda>p. (fst (close_files p))\<lparr>cwd := None\<rparr>)) ! j)"
    unfolding exiting_def by (rule parent_wakeup1) (use assms in simp_all)
  also have "\<dots> = parent (procs pt ! j)"
    using assms by (cases "k = j") (simp_all add: upd_proc_def close_files_def)
  finally show ?thesis .
qed

lemma initproc_exiting [simp]: "initproc (exiting pt k ini) = initproc pt"
  by (simp add: exiting_def wakeup1_def)

lemma parent_reparent:
  "length (procs pt) = NPROC \<Longrightarrow> j < NPROC \<Longrightarrow>
   parent (procs (reparent pt k) ! j) = (if parent (procs pt ! j) = Some k then initproc pt else parent (procs pt ! j))"
  by (simp add: reparent_def)

lemma wait_returns:
  assumes "z0 \<in> set (procs pt)" "parent z0 = Some i" "pstate z0 = ZOMBIE"
  shows "\<exists>z < length (procs pt). parent (procs pt ! z) = Some i \<and> pstate (procs pt ! z) = ZOMBIE
     \<and> snd (snd (wait pt i True)) = Returned (pid (procs pt ! z))"
proof -
  obtain z where z: "find_slot (\<lambda>np. parent np = Some i \<and> pstate np = ZOMBIE) (procs pt) = Some z"
    using find_slot_ex [of z0 "procs pt" "\<lambda>np. parent np = Some i \<and> pstate np = ZOMBIE"] assms by auto
  then have "snd (snd (wait pt i True)) = Returned (pid (procs pt ! z))"
    by (simp add: wait_def Let_def split: prod.splits)
  with find_slot_SomeD(1,2) [OF z] show ?thesis by blast
qed

text \<open>
  C16: exit and wait do not miss each other. When a process with parent \<open>i\<close> exits, it becomes a
  zombie with its status, its parent is not left asleep in \<open>wait\<close>, each of its children gets the init
  process as parent while every other process keeps its parent, and the parent's next turn in \<open>wait\<close> returns the number of a zombie child of it without
  sleeping: the number of that process if it is the parent's only zombie.
\<close>

theorem exit_then_wait:
  assumes "proc_reach pt" and "in_use pt k" and "parent (procs pt ! k) = Some i" and "i < NPROC" and "i \<noteq> k"
    and "exit_proc pt k status = Inr (pt', cs)"
  shows "pstate (procs pt' ! k) = ZOMBIE \<and> xstate (procs pt' ! k) = status \<and> parent (procs pt' ! k) = Some i
       \<and> \<not> (pstate (procs pt' ! i) = SLEEPING \<and> chan (procs pt' ! i) = Some (Proc_chan i))
       \<and> (\<exists>ini. initproc pt = Some ini \<and> ini \<noteq> k \<and> (\<forall>j < NPROC.
            parent (procs pt' ! j) = (if parent (procs pt ! j) = Some k then Some ini else parent (procs pt ! j))))
       \<and> (\<exists>z < NPROC. parent (procs pt' ! z) = Some i \<and> pstate (procs pt' ! z) = ZOMBIE
            \<and> snd (snd (wait pt' i True)) = Returned (pid (procs pt' ! z)))"
proof -
  have ok: "pt_inv False pt" by (rule proc_reach_ok [OF assms(1)])
  note len = pt_ok_length [OF ok]
  have k: "k < NPROC" using assms(2) by (simp add: in_use_def)
  obtain ini op where ini: "initproc pt = Some ini" "ini \<noteq> k"
    and op: "exit_parent (procs (exiting pt k ini) ! k) = Some op"
    and p': "pt' = upd_proc (wakeup1 (reparent (exiting pt k ini) k) op) k (\<lambda>p. p\<lparr>xstate := status, pstate := ZOMBIE\<rparr>)"
    using exit_proc_Inr [OF assms(6)] by metis
  let ?e = "exiting pt k ini"
  let ?q = "wakeup1 (reparent ?e k) op"
  have opi: "op = i"
    using op assms(3) parent_exiting [OF len k, of k ini] by (simp add: exit_parent_def)
  have par: "parent (procs pt' ! j) = (if parent (procs pt ! j) = Some k then Some ini else parent (procs pt ! j))"
    if j: "j < NPROC" for j
  proof -
    have "parent (procs pt' ! j) = parent (procs ?q ! j)"
      using j k len by (simp add: p' upd_nth)
    also have "\<dots> = parent (procs (reparent ?e k) ! j)"
      by (rule parent_wakeup1) (use j len in simp_all)
    finally show ?thesis using j len ini by (simp add: parent_reparent parent_exiting)
  qed
  have z: "pstate (procs pt' ! k) = ZOMBIE" "xstate (procs pt' ! k) = status"
    using k len by (simp_all add: p' upd_nth)
  have "procs pt' ! i = wake_if (Proc_chan i) (procs (reparent ?e k) ! i)"
    using assms(4,5) k len by (simp add: p' upd_nth opi) (simp add: wakeup1_def upd_nth)
  then have awake: "\<not> (pstate (procs pt' ! i) = SLEEPING \<and> chan (procs pt' ! i) = Some (Proc_chan i))"
    using wake_if_awake by metis
  have len': "length (procs pt') = NPROC" using len by (simp add: p')
  have pk: "parent (procs pt' ! k) = Some i" using par [OF k] assms(3,5) by simp
  have "procs pt' ! k \<in> set (procs pt')" using k len' by simp
  from wait_returns [OF this pk z(1)] len' have
    "\<exists>z < NPROC. parent (procs pt' ! z) = Some i \<and> pstate (procs pt' ! z) = ZOMBIE
        \<and> snd (snd (wait pt' i True)) = Returned (pid (procs pt' ! z))" by simp
  then show ?thesis using z awake pk par ini by blast
qed

text \<open>A child of the first process, in entry 1.\<close>

definition forked_table :: ptable where
  "forked_table = fst (fork boot_table 0 (Some 0) (Some 0) (Some 0) True)"

lemma boot_slot: "find_slot (\<lambda>p. pstate p = UNUSED) (procs boot_table) = Some 1"
  unfolding find_slot_Some_iff by (simp add: boot_table_facts) (simp add: zero_proc_def)

lemma forked_eq:
  "forked_table = upd_proc (boot_table\<lparr>nextpid := 3\<rparr>) 1
     (\<lambda>p. fork_copy 0 (procs boot_table ! 0) (procs boot_table ! 0) (new_proc 2 0 0 0 p))"
proof -
  have "1 < length (procs boot_table)" "int_inc 2 = 3" by (simp_all add: boot_table_facts int_inc_def)
  then show ?thesis
    by (simp add: forked_table_def fork_def allocproc_Ok [OF boot_slot] Let_def boot_table_facts upd_proc_def)
qed

lemma forked_reach: "proc_run b forked_table"
proof -
  obtain cs r where "fork boot_table 0 (Some 0) (Some 0) (Some 0) True = (forked_table, cs, r)"
    unfolding forked_table_def by (metis prod.collapse)
  moreover have "in_use boot_table 0" by (simp add: in_use_def boot_table_facts)
  moreover have "b \<longrightarrow> nextpid boot_table < INT_MAX" by (simp add: boot_table_facts INT_MAX_def)
  ultimately show ?thesis using proc_run.fork [OF boot_table_reach] by blast
qed

lemma forked_facts:
  "initproc forked_table = Some 0" "in_use forked_table 1" "in_use forked_table 0"
  "parent (procs forked_table ! 1) = Some 0" "pid (procs forked_table ! 1) = 2" "0 < NPROC"
  by (simp_all add: forked_eq upd_proc_def boot_table_facts fork_copy_def in_use_def new_proc_facts)

theorem exit_then_wait_witness:
  "\<exists>pt' cs. exit_proc forked_table 1 7 = Inr (pt', cs) \<and> pstate (procs pt' ! 1) = ZOMBIE
     \<and> xstate (procs pt' ! 1) = 7"
proof -
  have len: "length (procs forked_table) = NPROC" using pt_ok_length [OF proc_reach_ok [OF forked_reach]] .
  have one: "1 < NPROC" by (simp add: NPROC_def)
  have "parent (procs (exiting forked_table 1 0) ! 1) = Some 0"
    using parent_exiting [OF len one] forked_facts(4) by simp
  then obtain pt' cs where e: "exit_proc forked_table 1 7 = Inr (pt', cs)"
    using forked_facts(1)
    by (simp add: exit_proc_def exiting_def Let_def close_files_def upd_proc_def)
  from exit_then_wait [OF forked_reach forked_facts(2,4,6) _ e] show ?thesis using e by auto
qed


lemma copy_no_files:
  assumes "length (ofile p) = NOFILE" and "ofile np = no_files"
  shows "copy_ofile p np = ofile p"
  unfolding copy_ofile_def assms(2) no_files_def
  by (rule nth_equalityI) (use assms(1) in \<open>auto split: option.splits\<close>)

text \<open>
  C31: fork. When the allocations and the copy succeed, fork takes the first unused entry, gives it
  the next process number and returns that number; the child is runnable, has the caller as parent
  and its size, files, directory, name, ids, masks and handlers, starts at the highest scheduling level
  with no pending signal; its shared memory, with the address of each region in use, is that of entry 0
  of the table, which the code reads instead of the caller; and no other entry changes. The other components are called to count
  the shared memory, the message queues, the open files and the directory once more. Without an
  unused entry fork returns -1 and changes nothing.
\<close>

theorem fork_child:
  assumes "proc_reach pt" and "in_use pt i"
  shows "case find_slot (\<lambda>p. pstate p = UNUSED) (procs pt) of
      None \<Rightarrow> fork pt i (Some t) (Some a) (Some g) True = (pt, [], -1)
    | Some k \<Rightarrow>
       (\<exists>pt' cs. fork pt i (Some t) (Some a) (Some g) True = (pt', cs, nextpid pt)
          \<and> (let c = procs pt' ! k; p = procs pt ! i; p0 = procs pt ! 0 in
               pid c = nextpid pt \<and> pstate c = RUNNABLE \<and> parent c = Some i \<and> ofile c = ofile p \<and> cwd c = cwd p
             \<and> pname c = pname p \<and> sz c = sz p \<and> trace_mask c = trace_mask p \<and> mqmask c = mqmask p
             \<and> uid c = uid p \<and> gid c = gid p \<and> umask c = umask p \<and> pgid c = pgid p
             \<and> sid c = sid p \<and> signal_handlers c = signal_handlers p \<and> pending_signals c = 0 \<and> \<not> paused c
             \<and> mlfq_level c = 0 \<and> pagetable c = Some g \<and> trapframe c = Some t \<and> alarm_trapframe c = Some a
             \<and> shm c = (if k = 0 then KERNBASE else shm p0) \<and> shmkeymask c = (if k = 0 then 0 else shmkeymask p0)
             \<and> (\<forall>r < 8. bit (shmkeymask c) r \<longrightarrow> shmva c ! r = shmva p0 ! r)
             \<and> cs = [Shmaddcount (shmkeymask c), Addmqcount (mqmask p)] @ dup_calls p)
          \<and> (\<forall>j < NPROC. j \<noteq> k \<longrightarrow> procs pt' ! j = procs pt ! j) \<and> nextpid pt' = int_inc (nextpid pt))"
proof (cases "find_slot (\<lambda>p. pstate p = UNUSED) (procs pt)")
  case None
  then show ?thesis by (simp add: fork_def allocproc_def)
next
  case (Some k)
  have ok: "pt_inv False pt" by (rule proc_reach_ok [OF assms(1)])
  note len = pt_ok_length [OF ok]
  have k: "k < NPROC" "pstate (procs pt ! k) = UNUSED" using slot_less [OF ok Some] by auto
  then have ik: "i \<noteq> k" and i: "i < NPROC" using assms(2) by (auto simp: in_use_def)
  let ?n = "new_proc (nextpid pt) t a g (procs pt ! k)"
  let ?p0 = "if k = 0 then ?n else procs pt ! 0"
  have files: "copy_ofile (procs pt ! i) ?n = ofile (procs pt ! i)"
    using copy_no_files [of "procs pt ! i" ?n] idle_files [OF ok k(1)] k(2) pt_ok_entry [OF ok i]
    by (simp add: new_proc_facts entry_ok_def)
  have "fork pt i (Some t) (Some a) (Some g) True =
     (upd_proc (pt\<lparr>nextpid := int_inc (nextpid pt)\<rparr>) k (\<lambda>_. fork_copy i (procs pt ! i) ?p0 ?n),
      [Shmaddcount (shmkeymask ?p0), Addmqcount (mqmask (procs pt ! i))] @ dup_calls (procs pt ! i), nextpid pt)"
    using k(1) ik len by (simp add: fork_def allocproc_Ok [OF Some] Let_def upd_nth new_proc_facts upd_proc_def)
  then show ?thesis
    using k(1) len files
    by (simp add: Some Let_def upd_nth fork_copy_def copy_shmva_def shmkeyused_def new_proc_facts)
      (simp add: new_proc_def alloc_after_def alloc_before_def)
qed

theorem fork_child_witness:
  "\<exists>pt' cs. fork boot_table 0 (Some 0) (Some 0) (Some 0) True = (pt', cs, 2) \<and> parent (procs pt' ! 1) = Some 0"
proof -
  have "in_use boot_table 0" by (simp add: in_use_def boot_table_facts)
  from fork_child [OF boot_table_reach this, of 0 0 0] show ?thesis
    by (simp add: boot_slot boot_table_facts Let_def) blast
qed

text \<open>
  C32: kill with the number 0 is accepted and marks an unused entry. When that entry is the one
  the next fork takes, the new process starts out killed, although nobody named it.
\<close>

theorem kill_zero_kills_next_child:
  assumes "pt_ok pt" and "find_slot (\<lambda>p. pid p = 0) (procs pt) = Some k"
    and "find_slot (\<lambda>p. pstate p = UNUSED) (procs pt) = Some k" and "in_use pt i"
  shows "\<exists>pt1 pt2 cs. kill pt 0 = (pt1, 0) \<and> fork pt1 i (Some t) (Some a) (Some g) True = (pt2, cs, nextpid pt)
       \<and> pid (procs pt2 ! k) = nextpid pt \<and> killed (procs pt2 ! k)"
proof -
  note len = pt_ok_length [OF assms(1)]
  have k: "k < NPROC" "pstate (procs pt ! k) = UNUSED" using slot_less [OF assms(1,3)] by auto
  let ?pt1 = "fst (kill pt 0)"
  have kl: "kill pt 0 = (?pt1, 0)" "?pt1 = upd_proc pt k (\<lambda>p. p\<lparr>killed := True\<rparr>)"
    using assms(2) k by (simp_all add: kill_def upd_proc_def)
  have "find_slot (\<lambda>p. pstate p = UNUSED) (procs ?pt1) = Some k"
    using assms(3) k len unfolding find_slot_Some_iff by (auto simp: kl(2) upd_nth)
  note al = allocproc_Ok [OF this]
  have "\<exists>pt2 cs. fork ?pt1 i (Some t) (Some a) (Some g) True = (pt2, cs, nextpid pt)
       \<and> pid (procs pt2 ! k) = nextpid pt \<and> killed (procs pt2 ! k)"
    unfolding kl(2)
    using k len by (simp add: fork_def al [unfolded kl(2)] Let_def upd_nth new_proc_facts fork_copy_def)
  with kl(1) show ?thesis by blast
qed

theorem kill_zero_kills_next_child_witness:
  "\<exists>pt1 pt2 cs. kill boot_table 0 = (pt1, 0) \<and> fork pt1 0 (Some 0) (Some 0) (Some 0) True = (pt2, cs, 2)
     \<and> pid (procs pt2 ! 1) = 2 \<and> killed (procs pt2 ! 1)"
proof -
  have "find_slot (\<lambda>p. pid p = 0) (procs boot_table) = Some 1"
    unfolding find_slot_Some_iff by (simp add: boot_table_facts) (simp add: zero_proc_def)
  moreover have "in_use boot_table 0" by (simp add: in_use_def boot_table_facts)
  ultimately show ?thesis
    using kill_zero_kills_next_child [OF proc_reach_ok [OF boot_table_reach] _ boot_slot, of 0 0 0 0]
    by (simp add: boot_table_facts)
qed

text \<open>
  C35: \<open>join\<close> cannot reap a thread: as soon as a thread of the caller has exited, the kernel stack
  address it passes to \<open>kfree\<close> is outside of physical memory and the kernel panics.
\<close>

theorem join_panics:
  assumes "proc_reach pt" and "p \<in> set (procs pt)" and "pthread p = Some i" and "pstate p = ZOMBIE"
  shows "join kend pt i = Inl ''kfree''"
proof -
  obtain k where "find_slot (\<lambda>p. pthread p = Some i \<and> pstate p = ZOMBIE) (procs pt) = Some k"
    using find_slot_ex [of p "procs pt" "\<lambda>p. pthread p = Some i \<and> pstate p = ZOMBIE"] assms by auto
  then show ?thesis by (rule join_reaps [OF proc_reach_ok [OF assms(1)]])
qed

text \<open>The first process makes a thread, in entry 1, and the thread exits.\<close>

definition cloned_table :: ptable where
  "cloned_table = fst (clone boot_table 0 (Some 0) (Some 0) (Some 0))"

lemma cloned_reach: "proc_run b cloned_table"
proof -
  obtain cs r where "clone boot_table 0 (Some 0) (Some 0) (Some 0) = (cloned_table, cs, r)"
    unfolding cloned_table_def by (metis prod.collapse)
  moreover have "in_use boot_table 0" by (simp add: in_use_def boot_table_facts)
  moreover have "b \<longrightarrow> nextpid boot_table < INT_MAX" by (simp add: boot_table_facts INT_MAX_def)
  ultimately show ?thesis using proc_run.clone [OF boot_table_reach] by blast
qed

lemma cloned_facts:
  "initproc cloned_table = Some 0" "in_use cloned_table 1" "parent (procs cloned_table ! 1) = None"
  "pthread (procs cloned_table ! 1) = Some 0"
  by (simp_all add: cloned_table_def clone_def allocproc_Ok [OF boot_slot] Let_def boot_table_facts upd_nth
      in_use_def)

definition thread_table :: ptable where
  "thread_table = (case exit_proc cloned_table 1 0 of Inr (pt, cs) \<Rightarrow> pt | Inl _ \<Rightarrow> cloned_table)"

lemma pthread_exiting:
  assumes "length (procs pt) = NPROC" "j < NPROC"
  shows "pthread (procs (exiting pt k ini) ! j) = pthread (procs pt ! j)"
  using assms by (cases "k = j"; cases "ini = j") (simp_all add: exiting_def wakeup1_def upd_proc_def close_files_def)

lemma thread_table_facts:
  "proc_reach thread_table" "1 < length (procs thread_table)"
  "pthread (procs thread_table ! 1) = Some 0" "pstate (procs thread_table ! 1) = ZOMBIE"
proof -
  have len: "length (procs cloned_table) = NPROC" using pt_ok_length [OF proc_reach_ok [OF cloned_reach]] .
  have one: "1 < NPROC" by (simp add: NPROC_def)
  have "parent (procs (exiting cloned_table 1 0) ! 1) = None" "pthread (procs (exiting cloned_table 1 0) ! 1) = Some 0"
    using parent_exiting [OF len one] pthread_exiting [OF len one] cloned_facts(3,4) by simp_all
  then obtain pt' cs where e: "exit_proc cloned_table 1 0 = Inr (pt', cs)"
    using cloned_facts(1) by (simp add: exit_proc_def exiting_def Let_def close_files_def upd_proc_def)
  then have T: "thread_table = pt'" by (simp add: thread_table_def)
  show "proc_reach thread_table" unfolding T by (rule proc_run.exit [OF cloned_reach cloned_facts(2) e])
  then show "1 < length (procs thread_table)" using pt_ok_length [OF proc_reach_ok] one by simp
  obtain ini op where p': "pt' = upd_proc (wakeup1 (reparent (exiting cloned_table 1 ini) 1) op) 1
      (\<lambda>p. p\<lparr>xstate := 0, pstate := ZOMBIE\<rparr>)"
    using exit_proc_Inr [OF e] by metis
  show "pstate (procs thread_table ! 1) = ZOMBIE" using len one by (simp add: T p' upd_nth)
  show "pthread (procs thread_table ! 1) = Some 0"
    using len one pthread_exiting [OF len one, of 1 ini] cloned_facts(4)
    by (cases "op = 1") (simp_all add: T p' upd_proc_def wakeup1_def reparent_def)
qed

theorem join_panics_witness: "join 0 thread_table 0 = Inl ''kfree''"
proof (rule join_panics)
  show "procs thread_table ! 1 \<in> set (procs thread_table)" using thread_table_facts(2) by (rule nth_mem)
qed (fact thread_table_facts)+

text \<open>
  when its second allocation fails, \<open>allocproc\<close> returns with the trap frame page recorded in
  an entry that stays unused; the next successful \<open>allocproc\<close> takes that entry and overwrites the
  record without freeing the page: the page is lost.
\<close>

theorem allocproc_leaks_trapframe:
  assumes "pt_ok pt" and "find_slot (\<lambda>p. pstate p = UNUSED) (procs pt) = Some k"
  shows "\<exists>pt1 pt2. allocproc pt (Some page) None pg = (pt1, [], None) \<and> trapframe (procs pt1 ! k) = Some page
       \<and> pstate (procs pt1 ! k) = UNUSED
       \<and> allocproc pt1 (Some t) (Some a) (Some g) = (pt2, [], Some k) \<and> trapframe (procs pt2 ! k) = Some t"
proof -
  note len = pt_ok_length [OF assms(1)]
  have k: "k < NPROC" "pstate (procs pt ! k) = UNUSED" using slot_less [OF assms] by auto
  let ?pt1 = "fst (allocproc pt (Some page) None pg)"
  have p1: "allocproc pt (Some page) None pg = (?pt1, [], None)"
    "?pt1 = upd_proc (pt\<lparr>nextpid := int_inc (nextpid pt)\<rparr>) k
       (\<lambda>p. (alloc_before (nextpid pt) p)\<lparr>trapframe := Some page, alarm_trapframe := None\<rparr>)"
    using assms(2) by (simp_all add: allocproc_def allocpid_def Let_def upd_proc_def)
  have f: "trapframe (procs ?pt1 ! k) = Some page" "pstate (procs ?pt1 ! k) = UNUSED"
    using k len by (simp_all add: p1(2) upd_nth alloc_before_def)
  have "find_slot (\<lambda>p. pstate p = UNUSED) (procs ?pt1) = Some k"
    using assms(2) k len unfolding find_slot_Some_iff by (auto simp: p1(2) upd_nth alloc_before_def)
  note al = allocproc_Ok [OF this, of t a g]
  have "length (procs ?pt1) = NPROC" using len by (simp add: p1(2))
  then have "trapframe (procs (fst (allocproc ?pt1 (Some t) (Some a) (Some g))) ! k) = Some t"
    using k(1) by (simp add: al upd_nth new_proc_def alloc_after_def)
  with p1(1) f al show ?thesis by (metis fst_conv)
qed

theorem allocproc_leaks_trapframe_witness:
  "\<exists>pt1 pt2. allocproc boot_table (Some 7) None None = (pt1, [], None)
     \<and> allocproc pt1 (Some 8) (Some 9) (Some 10) = (pt2, [], Some 1) \<and> trapframe (procs pt2 ! 1) = Some 8"
  using allocproc_leaks_trapframe [OF proc_reach_ok [OF boot_table_reach] boot_slot] by blast

end
