(* ===== verification/Scheduler.thy ===== *)
theory Scheduler
  imports Proc_Life
begin

text \<open>
  The scheduler of \<open>src/kernel/proc/proc.c\<close>: deadline processes by earliest deadline, then real-time
  processes by priority, then the others by a multi-level feedback queue; and the calls that set
  the policy of a process. One turn of the loop of \<open>scheduler\<close> is \<open>sched_select\<close> followed by
  \<open>run_process\<close>; what happens to the table while the chosen process runs is an argument.
\<close>

section \<open>Operations\<close>

definition MLFQ_LEVELS :: int where
  "MLFQ_LEVELS = 4"

definition MLFQ_BOOST_INTERVAL :: int where
  "MLFQ_BOOST_INTERVAL = 100"

definition mlfq_allotment_init :: "int list" where
  "mlfq_allotment_init = [5, 10, 20, 40]"

definition SCHED_NORMAL :: int where "SCHED_NORMAL = 0"
definition SCHED_FIFO :: int where "SCHED_FIFO = 1"
definition SCHED_RR :: int where "SCHED_RR = 2"
definition SCHED_DEADLINE :: int where "SCHED_DEADLINE = 3"

record sched =
  tab :: ptable
  mlfq_boost_counter :: int
  rt_schedules :: u64
  deadline_misses :: u64
  deadline_schedules :: u64

definition upd_tab :: "sched \<Rightarrow> (ptable \<Rightarrow> ptable) \<Rightarrow> sched" where
  "upd_tab st f = st\<lparr>tab := f (tab st)\<rparr>"

definition boost :: "proc \<Rightarrow> proc" where
  "boost p =
     (if pstate p \<noteq> UNUSED
      then p\<lparr>mlfq_level := 0, mlfq_ticks := 0, mlfq_allotment := mlfq_allotment_init ! 0\<rparr> else p)"

definition mlfq_priority_boost :: "ptable \<Rightarrow> ptable" where
  "mlfq_priority_boost pt = pt\<lparr>procs := map boost (procs pt)\<rparr>"

definition is_rt :: "proc \<Rightarrow> bool" where
  "is_rt p = (pstate p = RUNNABLE \<and> (sched_policy p = SCHED_FIFO \<or> sched_policy p = SCHED_RR))"

primrec find_rt_from :: "proc list \<Rightarrow> nat \<Rightarrow> nat option \<Rightarrow> int \<Rightarrow> nat option" where
  "find_rt_from [] i best best_priority = best"
| "find_rt_from (p # ps) i best best_priority =
     (if is_rt p \<and> rt_priority p > best_priority then find_rt_from ps (i + 1) (Some i) (rt_priority p)
      else find_rt_from ps (i + 1) best best_priority)"

definition find_rt_process :: "ptable \<Rightarrow> nat option" where
  "find_rt_process pt = find_rt_from (procs pt) 0 None (-1)"

definition is_deadline :: "proc \<Rightarrow> bool" where
  "is_deadline p = (pstate p = RUNNABLE \<and> sched_policy p = SCHED_DEADLINE)"

primrec find_deadline_from :: "proc list \<Rightarrow> nat \<Rightarrow> nat option \<Rightarrow> u64 \<Rightarrow> nat option" where
  "find_deadline_from [] i best earliest = best"
| "find_deadline_from (p # ps) i best earliest =
     (if is_deadline p \<and> runtime_remaining p > 0 \<and> deadline p < earliest
      then find_deadline_from ps (i + 1) (Some i) (deadline p)
      else find_deadline_from ps (i + 1) best earliest)"

definition find_deadline_process :: "ptable \<Rightarrow> nat option" where
  "find_deadline_process pt = find_deadline_from (procs pt) 0 None 0xFFFFFFFFFFFFFFFF"

text \<open>\<open>ticks\<close> is a 32-bit counter, compared with 64-bit deadlines.\<close>

definition missed :: "u32 \<Rightarrow> proc \<Rightarrow> bool" where
  "missed ticks p =
     (pstate p \<noteq> UNUSED \<and> sched_policy p = SCHED_DEADLINE \<and> ucast ticks > deadline p
      \<and> runtime_remaining p > 0)"

definition new_period :: "u32 \<Rightarrow> proc \<Rightarrow> proc" where
  "new_period ticks p =
     (if pstate p \<noteq> UNUSED \<and> sched_policy p = SCHED_DEADLINE \<and> ucast ticks \<ge> deadline p
      then p\<lparr>deadline := ucast ticks + period p, runtime_remaining := runtime p\<rparr> else p)"

definition update_deadline_periods :: "u32 \<Rightarrow> sched \<Rightarrow> sched" where
  "update_deadline_periods ticks st =
     st\<lparr>tab := (tab st)\<lparr>procs := map (new_period ticks) (procs (tab st))\<rparr>,
        deadline_misses := deadline_misses st + of_nat (length (filter (missed ticks) (procs (tab st))))\<rparr>"

definition at_level :: "int \<Rightarrow> proc \<Rightarrow> bool" where
  "at_level level p = (pstate p = RUNNABLE \<and> mlfq_level p = level \<and> sched_policy p = SCHED_NORMAL)"

function find_mlfq :: "ptable \<Rightarrow> int \<Rightarrow> nat option" where
  "find_mlfq pt level =
     (if level < MLFQ_LEVELS
      then (case find_slot (at_level level) (procs pt) of
              Some i \<Rightarrow> Some i
            | None \<Rightarrow> find_mlfq pt (level + 1))
      else None)"
  by pat_completeness auto
termination by (relation "measure (\<lambda>(pt, level). nat (MLFQ_LEVELS - level))") auto

declare find_mlfq.simps [simp del]

definition sched_boost :: "sched \<Rightarrow> sched" where
  "sched_boost st =
     (let st = st\<lparr>mlfq_boost_counter := mlfq_boost_counter st + 1\<rparr>
      in if mlfq_boost_counter st \<ge> MLFQ_BOOST_INTERVAL
         then (upd_tab st mlfq_priority_boost)\<lparr>mlfq_boost_counter := 0\<rparr> else st)"

definition sched_select :: "u32 \<Rightarrow> sched \<Rightarrow> sched \<times> nat option" where
  "sched_select ticks st =
     (let st = update_deadline_periods ticks (sched_boost st)
      in case find_deadline_process (tab st) of
           Some i \<Rightarrow> (st\<lparr>deadline_schedules := deadline_schedules st + 1\<rparr>, Some i)
         | None \<Rightarrow>
             (case find_rt_process (tab st) of
                Some i \<Rightarrow> (st\<lparr>rt_schedules := rt_schedules st + 1\<rparr>, Some i)
              | None \<Rightarrow> (st, find_mlfq (tab st) 0)))"

definition after_run :: "proc \<Rightarrow> proc" where
  "after_run p =
     (if pstate p = RUNNABLE
      then (let p = p\<lparr>total_ticks := total_ticks p + 1\<rparr>
            in if sched_policy p = SCHED_DEADLINE
               then (if runtime_remaining p > 0 then p\<lparr>runtime_remaining := runtime_remaining p - 1\<rparr> else p)
               else if sched_policy p = SCHED_NORMAL
               then (let p = p\<lparr>mlfq_ticks := mlfq_ticks p + 1, mlfq_allotment := mlfq_allotment p - 1\<rparr>
                     in if mlfq_allotment p \<le> 0 \<and> mlfq_level p < MLFQ_LEVELS - 1
                        then p\<lparr>mlfq_level := mlfq_level p + 1,
                               mlfq_allotment := mlfq_allotment_init ! nat (mlfq_level p + 1)\<rparr>
                        else p)
               else p)
      else p)"

definition run_process :: "(ptable \<Rightarrow> ptable) \<Rightarrow> sched \<Rightarrow> nat \<Rightarrow> sched" where
  "run_process runs st i =
     (if pstate (procs (tab st) ! i) = RUNNABLE
      then upd_tab (upd_tab (upd_tab st (\<lambda>pt. upd_proc pt i (\<lambda>p. p\<lparr>pstate := RUNNING, mlfq_ticks := 0\<rparr>))) runs)
             (\<lambda>pt. upd_proc pt i after_run)
      else st)"

definition scheduler_turn :: "u32 \<Rightarrow> (nat \<Rightarrow> ptable \<Rightarrow> ptable) \<Rightarrow> sched \<Rightarrow> sched \<times> nat option" where
  "scheduler_turn ticks runs st =
     (case sched_select ticks st of
        (st, None) \<Rightarrow> (st, None)
      | (st, Some i) \<Rightarrow> (run_process (runs i) st i, Some i))"

definition sched_setscheduler :: "ptable \<Rightarrow> int \<Rightarrow> int \<Rightarrow> int \<Rightarrow> ptable \<times> int" where
  "sched_setscheduler pt pd policy prio =
     (if policy < 0 \<or> policy > 3 then (pt, -1)
      else if (policy = SCHED_FIFO \<or> policy = SCHED_RR) \<and> (prio < 0 \<or> prio > 99) then (pt, -1)
      else (case find_slot (\<lambda>p. pid p = pd) (procs pt) of
              Some i \<Rightarrow>
                (upd_proc pt i (\<lambda>p. if policy = SCHED_FIFO \<or> policy = SCHED_RR
                                     then p\<lparr>sched_policy := policy, rt_priority := prio\<rparr>
                                     else p\<lparr>sched_policy := policy\<rparr>), 0)
            | None \<Rightarrow> (pt, -1)))"

definition sched_setdeadline :: "u32 \<Rightarrow> ptable \<Rightarrow> int \<Rightarrow> u64 \<Rightarrow> u64 \<Rightarrow> u64 \<Rightarrow> ptable \<times> int" where
  "sched_setdeadline ticks pt pd rt dl pr =
     (if rt = 0 \<or> pr = 0 \<or> rt > pr then (pt, -1)
      else (case find_slot (\<lambda>p. pid p = pd) (procs pt) of
              Some i \<Rightarrow>
                (upd_proc pt i (\<lambda>p. p\<lparr>sched_policy := SCHED_DEADLINE, runtime := rt, runtime_remaining := rt,
                                     period := pr, deadline := ucast ticks + dl\<rparr>), 0)
            | None \<Rightarrow> (pt, -1)))"

definition sched_get_stats :: "sched \<Rightarrow> u64 \<times> u64 \<times> u64" where
  "sched_get_stats st = (rt_schedules st, deadline_schedules st, deadline_misses st)"

section \<open>What the scans find\<close>

text \<open>
  Both scans of the table keep the best entry so far and replace it by a strictly better one: the
  contract of such a scan, and what it finds.
\<close>

locale best_scan =
  fixes elig :: "'a \<Rightarrow> bool" and key :: "'a \<Rightarrow> 'k" and le :: "'k \<Rightarrow> 'k \<Rightarrow> bool"
    and scan :: "'a list \<Rightarrow> nat \<Rightarrow> nat option \<Rightarrow> 'k \<Rightarrow> nat option"
  assumes le_trans: "le a b \<Longrightarrow> le b c \<Longrightarrow> le a c"
    and le_total: "le a b \<or> le b a"
    and scan_Nil: "scan [] i best b = best"
    and scan_Cons: "scan (p # ps) i best b =
      (if elig p \<and> \<not> le (key p) b then scan ps (i + 1) (Some i) (key p) else scan ps (i + 1) best b)"
begin

lemma scan_spec:
  "case scan ps i best b of
     Some k \<Rightarrow> (scan ps i best b = best \<and> (\<forall>p \<in> set ps. elig p \<longrightarrow> le (key p) b))
       \<or> (i \<le> k \<and> k < i + length ps \<and> elig (ps ! (k - i)) \<and> \<not> le (key (ps ! (k - i))) b
          \<and> (\<forall>p \<in> set ps. elig p \<longrightarrow> le (key p) (key (ps ! (k - i)))))
   | None \<Rightarrow> best = None \<and> (\<forall>p \<in> set ps. elig p \<longrightarrow> le (key p) b)"
proof (induction ps arbitrary: i best b)
  case Nil
  then show ?case by (auto simp: scan_Nil split: option.splits)
next
  case (Cons p ps)
  have nth: "(p # ps) ! (k - i) = ps ! (k - (i + 1))" if "i + 1 \<le> k" for k
    using that by (simp add: nth_Cons')
  show ?case
  proof (cases "elig p \<and> \<not> le (key p) b")
    case True
    then have eq: "scan (p # ps) i best b = scan ps (i + 1) (Some i) (key p)" by (simp add: scan_Cons)
    note ih = Cons.IH [where i = "i + 1" and best = "Some i" and b = "key p"]
    obtain k where r: "scan ps (i + 1) (Some i) (key p) = Some k" using ih by (cases "scan ps (i + 1) (Some i) (key p)") auto
    from ih r have "(k = i \<and> (\<forall>q \<in> set ps. elig q \<longrightarrow> le (key q) (key p)))
      \<or> (i + 1 \<le> k \<and> k < i + 1 + length ps \<and> elig (ps ! (k - (i + 1))) \<and> \<not> le (key (ps ! (k - (i + 1)))) (key p)
         \<and> (\<forall>q \<in> set ps. elig q \<longrightarrow> le (key q) (key (ps ! (k - (i + 1))))))" by simp
    then show ?thesis
    proof
      assume "k = i \<and> (\<forall>q \<in> set ps. elig q \<longrightarrow> le (key q) (key p))"
      then show ?thesis using True r eq le_total [of "key p" "key p"] by auto
    next
      assume k: "i + 1 \<le> k \<and> k < i + 1 + length ps \<and> elig (ps ! (k - (i + 1))) \<and> \<not> le (key (ps ! (k - (i + 1)))) (key p)
         \<and> (\<forall>q \<in> set ps. elig q \<longrightarrow> le (key q) (key (ps ! (k - (i + 1)))))"
      let ?b = "key (ps ! (k - (i + 1)))"
      have "le (key p) ?b" using k le_total by blast
      moreover have "\<not> le ?b b" using k True le_total le_trans by blast
      ultimately show ?thesis using k nth [of k] r eq by auto
    qed
  next
    case False
    then have eq: "scan (p # ps) i best b = scan ps (i + 1) best b" by (simp only: scan_Cons if_False)
    have pb: "elig p \<longrightarrow> le (key p) b" using False by blast
    show ?thesis
    proof (cases "scan ps (i + 1) best b")
      case None
      then show ?thesis using Cons.IH [where i = "i + 1" and best = best and b = b] eq pb by auto
    next
      case (Some k)
      then have "(Some k = best \<and> (\<forall>q \<in> set ps. elig q \<longrightarrow> le (key q) b))
        \<or> (i + 1 \<le> k \<and> k < i + 1 + length ps \<and> elig (ps ! (k - (i + 1))) \<and> \<not> le (key (ps ! (k - (i + 1)))) b
          \<and> (\<forall>q \<in> set ps. elig q \<longrightarrow> le (key q) (key (ps ! (k - (i + 1))))))"
        using Cons.IH [where i = "i + 1" and best = best and b = b] by simp
      moreover have "elig p \<longrightarrow> le (key p) x" if "\<not> le x b" for x
        using pb that le_total le_trans by blast
      ultimately show ?thesis using Some eq pb nth [of k] by auto
    qed
  qed
qed

lemma scan_Some:
  assumes "scan ps 0 None b = Some k"
  shows "k < length ps \<and> elig (ps ! k) \<and> \<not> le (key (ps ! k)) b \<and> (\<forall>p \<in> set ps. elig p \<longrightarrow> le (key p) (key (ps ! k)))"
  using scan_spec [where ps = ps and i = 0 and best = None and b = b] assms by simp

lemma scan_None: "scan ps 0 None b = None \<Longrightarrow> p \<in> set ps \<Longrightarrow> elig p \<Longrightarrow> le (key p) b"
  using scan_spec [where ps = ps and i = 0 and best = None and b = b] by simp

end

interpretation rt: best_scan is_rt rt_priority "(\<le>)" find_rt_from
  by unfold_locales auto

definition has_budget :: "proc \<Rightarrow> bool" where
  "has_budget p = (is_deadline p \<and> runtime_remaining p > 0)"

interpretation edf: best_scan has_budget deadline "\<lambda>a b. b \<le> a" find_deadline_from
  by unfold_locales (auto simp: has_budget_def)

lemma find_mlfq_Some:
  "find_mlfq pt l = Some i \<Longrightarrow>
   i < length (procs pt) \<and> l \<le> mlfq_level (procs pt ! i) \<and> at_level (mlfq_level (procs pt ! i)) (procs pt ! i)
   \<and> (\<forall>p \<in> set (procs pt). \<forall>m. l \<le> m \<longrightarrow> at_level m p \<longrightarrow> mlfq_level (procs pt ! i) \<le> m)"
proof (induction pt l rule: find_mlfq.induct)
  case (1 pt l)
  then have l: "l < MLFQ_LEVELS" by (subst (asm) find_mlfq.simps) (simp split: if_splits)
  show ?case
  proof (cases "find_slot (at_level l) (procs pt)")
    case None
    then have "find_mlfq pt (l + 1) = Some i" using "1.prems" l by (subst (asm) find_mlfq.simps) simp
    note ih = "1.IH" [OF l None this]
    have "\<not> at_level l p" if "p \<in> set (procs pt)" for p using None that by (simp add: find_slot_None_iff)
    then have "m \<noteq> l" if "p \<in> set (procs pt)" "at_level m p" for m p using that by blast
    then have "l + 1 \<le> m" if "p \<in> set (procs pt)" "at_level m p" "l \<le> m" for m p using that by force
    with ih show ?thesis by auto
  next
    case (Some k)
    then have "i = k" using "1.prems" l by (subst (asm) find_mlfq.simps) simp
    with find_slot_SomeD(1,2) [OF Some] show ?thesis by (auto simp: at_level_def)
  qed
qed

lemma find_mlfq_None:
  "find_mlfq pt l = None \<Longrightarrow> p \<in> set (procs pt) \<Longrightarrow> at_level m p \<Longrightarrow> l \<le> m \<Longrightarrow> MLFQ_LEVELS \<le> m"
proof (induction pt l rule: find_mlfq.induct)
  case (1 pt l)
  show ?case
  proof (cases "l < MLFQ_LEVELS")
    case True
    then have "find_slot (at_level l) (procs pt) = None" "find_mlfq pt (l + 1) = None"
      using "1.prems"(1) by (subst (asm) find_mlfq.simps, simp split: option.splits)+
    moreover from this(1) have "m \<noteq> l" using "1.prems"(2,3) by (auto simp: find_slot_None_iff)
    ultimately show ?thesis using "1.IH" [OF True] "1.prems" by auto
  qed (use "1.prems" in simp)
qed

section \<open>Fields the scheduler relies on\<close>

definition sched_ok :: "proc \<Rightarrow> bool" where
  "sched_ok p = (0 \<le> mlfq_level p \<and> mlfq_level p < MLFQ_LEVELS \<and> 0 \<le> sched_policy p \<and> sched_policy p \<le> 3
      \<and> (sched_policy p = SCHED_FIFO \<or> sched_policy p = SCHED_RR \<longrightarrow> 0 \<le> rt_priority p \<and> rt_priority p \<le> 99))"

lemmas sched_consts = MLFQ_LEVELS_def SCHED_NORMAL_def SCHED_FIFO_def SCHED_RR_def SCHED_DEADLINE_def

lemma sched_ok_zero: "sched_ok zero_proc"
  by (simp add: sched_ok_def zero_proc_def sched_consts)

lemma sched_ok_new: "sched_ok (new_proc pd t a g p)"
  by (simp add: sched_ok_def new_proc_def alloc_after_def sched_consts)

lemma sched_ok_boost: "sched_ok p \<Longrightarrow> sched_ok (boost p)"
  by (simp add: sched_ok_def boost_def sched_consts)

lemma sched_ok_period: "sched_ok p \<Longrightarrow> sched_ok (new_period ticks p)"
  by (simp add: sched_ok_def new_period_def)

lemma sched_ok_after_run: "sched_ok p \<Longrightarrow> sched_ok (after_run p)"
  by (auto simp: sched_ok_def after_run_def Let_def sched_consts)

text \<open>The invariant over the whole table, kept by a turn and by the calls.\<close>

definition all_ok :: "ptable \<Rightarrow> bool" where
  "all_ok pt = (length (procs pt) = NPROC \<and> (\<forall>p \<in> set (procs pt). sched_ok p))"

lemma all_ok_map: "all_ok pt \<Longrightarrow> (\<And>p. sched_ok p \<Longrightarrow> sched_ok (g p)) \<Longrightarrow> all_ok (pt\<lparr>procs := map g (procs pt)\<rparr>)"
  by (auto simp: all_ok_def)

lemma all_ok_upd:
  assumes "all_ok pt" and "\<And>p. sched_ok p \<Longrightarrow> sched_ok (f p)"
  shows "all_ok (upd_proc pt i f)"
proof (cases "i < length (procs pt)")
  case True
  then have "sched_ok (f (procs pt ! i))" using assms by (auto simp: all_ok_def)
  then show ?thesis
    using assms(1) by (auto simp: all_ok_def upd_proc_def dest!: set_update_subset_insert [THEN subsetD])
next
  case False
  with assms(1) show ?thesis by (simp add: upd_proc_def list_update_beyond)
qed

lemma all_ok_select:
  assumes "all_ok (tab st)" and "sched_select ticks st = (st', sel)"
  shows "all_ok (tab st')"
proof -
  have "all_ok (tab (sched_boost st))"
    using assms(1) by (auto simp: sched_boost_def Let_def upd_tab_def mlfq_priority_boost_def intro!: all_ok_map sched_ok_boost)
  then have "all_ok (tab (update_deadline_periods ticks (sched_boost st)))"
    by (auto simp: update_deadline_periods_def intro!: all_ok_map sched_ok_period)
  then show ?thesis
    using assms(2) by (auto simp: sched_select_def Let_def split: option.splits)
qed

text \<open>What a search of each class that finds nothing says of the table.\<close>

lemma no_deadline_process:
  assumes "find_deadline_process pt = None" and "q \<in> set (procs pt)" and "has_budget q"
  shows "deadline q = 0xFFFFFFFFFFFFFFFF"
proof -
  have m: "(0xFFFFFFFFFFFFFFFF :: u64) = -1" by simp
  have "(0xFFFFFFFFFFFFFFFF :: u64) \<le> deadline q"
    using edf.scan_None [OF assms(1) [unfolded find_deadline_process_def] assms(2,3)] .
  then show ?thesis unfolding m by (simp only: word_order.extremum_unique)
qed

lemma no_rt_process:
  assumes "all_ok pt" and "find_rt_process pt = None" and q: "q \<in> set (procs pt)"
  shows "\<not> is_rt q"
proof
  assume r: "is_rt q"
  from rt.scan_None [OF assms(2) [unfolded find_rt_process_def] q r] have "rt_priority q \<le> -1" .
  moreover have "sched_ok q" using assms(1) q by (simp add: all_ok_def)
  ultimately show False using r by (auto simp: is_rt_def sched_ok_def)
qed

lemma no_mlfq_process:
  assumes "all_ok pt" and "find_mlfq pt 0 = None" and q: "q \<in> set (procs pt)" and "\<not> is_rt q" and "pstate q = RUNNABLE"
  shows "is_deadline q"
proof -
  have ok: "sched_ok q" using assms(1) q by (simp add: all_ok_def)
  then have "\<not> at_level (mlfq_level q) q"
    using find_mlfq_None [of pt 0 q "mlfq_level q"] assms(2) q by (auto simp: sched_ok_def)
  with ok show ?thesis
    using assms(4,5) by (auto simp: at_level_def is_rt_def is_deadline_def sched_ok_def sched_consts)
qed

section \<open>Properties\<close>

text \<open>
  C25: what the scheduler picks. A deadline process with budget left and the earliest deadline, if
  there is one; otherwise a real-time process of the highest priority; otherwise a normal process of
  the highest feedback level that has one. It picks nothing exactly when no process is runnable but
  deadline processes without budget or with the largest possible deadline.
\<close>

theorem sched_select_picks:
  assumes "all_ok (tab st)" and "sched_select ticks st = (st', sel)"
  shows "case sel of
      Some i \<Rightarrow>
        (let ps = procs (tab st'); p = ps ! i in
           i < NPROC \<and> pstate p = RUNNABLE
         \<and> (\<forall>q \<in> set ps. has_budget q \<and> deadline q \<noteq> 0xFFFFFFFFFFFFFFFF \<longrightarrow> has_budget p \<and> deadline p \<le> deadline q)
         \<and> (\<forall>q \<in> set ps. is_rt q \<longrightarrow> has_budget p \<or> is_rt p \<and> rt_priority q \<le> rt_priority p)
         \<and> (\<forall>q \<in> set ps. at_level (mlfq_level q) q \<longrightarrow>
              has_budget p \<or> is_rt p \<or> at_level (mlfq_level p) p \<and> mlfq_level p \<le> mlfq_level q))
    | None \<Rightarrow>
        (\<forall>q \<in> set (procs (tab st')). pstate q = RUNNABLE \<longrightarrow>
           is_deadline q \<and> (runtime_remaining q = 0 \<or> deadline q = 0xFFFFFFFFFFFFFFFF))"
proof -
  let ?st = "update_deadline_periods ticks (sched_boost st)"
  let ?ps = "procs (tab ?st)"
  have ok: "all_ok (tab st')" by (rule all_ok_select [OF assms])
  have tab: "tab st' = tab ?st"
    using assms(2) by (auto simp: sched_select_def Let_def split: option.splits)
  show ?thesis
  proof (cases "find_deadline_process (tab ?st)")
    case (Some i)
    then have sel: "sel = Some i" using assms(2) by (simp add: sched_select_def Let_def)
    from edf.scan_Some [OF Some [unfolded find_deadline_process_def]] show ?thesis
      using ok sel by (auto simp: tab Let_def has_budget_def is_deadline_def all_ok_def)
  next
    case ne: None
    have nobud: "deadline q = 0xFFFFFFFFFFFFFFFF" if "q \<in> set ?ps" "has_budget q" for q
      by (rule no_deadline_process [OF ne that])
    show ?thesis
    proof (cases "find_rt_process (tab ?st)")
      case (Some i)
      then have sel: "sel = Some i" using assms(2) ne by (simp add: sched_select_def Let_def)
      from rt.scan_Some [OF Some [unfolded find_rt_process_def]] show ?thesis
        using ok sel nobud by (auto simp: tab Let_def is_rt_def all_ok_def)
    next
      case nr: None
      have nort: "\<not> is_rt q" if "q \<in> set ?ps" for q
        by (rule no_rt_process [OF ok [unfolded tab] nr that])
      have sel: "sel = find_mlfq (tab ?st) 0" using assms(2) ne nr by (auto simp: sched_select_def Let_def)
      have lev: "0 \<le> mlfq_level q \<and> mlfq_level q < MLFQ_LEVELS" if "q \<in> set ?ps" for q
        using ok that by (auto simp: tab all_ok_def sched_ok_def)
      show ?thesis
      proof (cases sel)
        case None
        then have "is_deadline q" if "q \<in> set ?ps" and "pstate q = RUNNABLE" for q
          using no_mlfq_process [OF ok [unfolded tab] _ that(1) nort [OF that(1)] that(2)] sel by simp
        then show ?thesis
          using None nobud by (auto simp: tab has_budget_def word_gt_0)
      next
        case (Some i)
        then have "find_mlfq (tab ?st) 0 = Some i" using sel by simp
        from find_mlfq_Some [OF this] show ?thesis
          using ok Some nobud nort lev by (auto simp: tab Let_def all_ok_def at_level_def)
      qed
    qed
  qed
qed

lemma zero_table_ok: "all_ok procinit"
  by (auto simp: all_ok_def procinit_def NPROC_def sched_ok_def zero_proc_def sched_consts)

definition zero_sched :: sched where
  "zero_sched = \<lparr>tab = procinit, mlfq_boost_counter = 0, rt_schedules = 0, deadline_misses = 0, deadline_schedules = 0\<rparr>"

theorem sched_select_picks_witness:
  "snd (sched_select 0 (zero_sched\<lparr>tab := boot_table\<rparr>)) \<noteq> None"
proof
  let ?st = "zero_sched\<lparr>tab := boot_table\<rparr>"
  assume n: "snd (sched_select 0 ?st) = None"
  have "all_ok boot_table"
    unfolding boot_table_def fst_conv
    by (rule all_ok_upd) (use zero_table_ok in \<open>auto simp: all_ok_def sched_ok_def new_proc_def alloc_after_def\<close>)
  then have "all_ok (tab ?st)" by simp
  moreover have "sched_select 0 ?st = (fst (sched_select 0 ?st), None)" using n by (metis prod.collapse)
  ultimately have picks: "\<forall>q \<in> set (procs (tab (fst (sched_select 0 ?st)))). pstate q = RUNNABLE \<longrightarrow> is_deadline q"
    using sched_select_picks [of ?st 0 "fst (sched_select 0 ?st)" None] by simp
  have b: "sched_boost ?st = ?st\<lparr>mlfq_boost_counter := 1\<rparr>"
    by (simp add: sched_boost_def zero_sched_def MLFQ_BOOST_INTERVAL_def)
  have "tab (fst (sched_select 0 ?st)) = boot_table\<lparr>procs := map (new_period 0) (procs boot_table)\<rparr>"
    by (simp add: sched_select_def b Let_def update_deadline_periods_def split: option.splits)
  then have "procs (tab (fst (sched_select 0 ?st))) ! 0 = new_period 0 (procs boot_table ! 0)"
    by (simp add: boot_table_facts)
  moreover have "new_period 0 (procs boot_table ! 0) \<in> set (procs (tab (fst (sched_select 0 ?st))))"
    using calculation boot_table_facts(3) NPROC_pos(1)
      \<open>tab (fst (sched_select 0 ?st)) = boot_table\<lparr>procs := map (new_period 0) (procs boot_table)\<rparr>\<close> by auto
  moreover have "sched_policy (procs boot_table ! 0) = 0"
    by (simp add: boot_table_def upd_proc_def procinit_def NPROC_def new_proc_def alloc_after_def)
  ultimately show False
    using picks n boot_table_facts(5) by (auto simp: new_period_def is_deadline_def sched_consts)
qed

text \<open>
  the fields the scheduler relies on stay in range: feedback levels between 0 and 3, policies
  between 0 and 3, real-time priorities between 0 and 99. A turn keeps them if the processes that
  run keep them, and so do the calls that set a policy, whatever their arguments.
\<close>

theorem sched_fields_bounded:
  assumes "all_ok (tab st)" and "\<And>i pt. all_ok pt \<Longrightarrow> all_ok (runs i pt)"
  shows "all_ok (tab (fst (scheduler_turn ticks runs st)))
       \<and> all_ok (fst (sched_setscheduler (tab st) pd policy prio))
       \<and> all_ok (fst (sched_setdeadline ticks (tab st) pd rt dl pr))"
proof -
  obtain st1 sel where sel: "sched_select ticks st = (st1, sel)" by (cases "sched_select ticks st")
  have ok1: "all_ok (tab st1)" by (rule all_ok_select [OF assms(1) sel])
  have "all_ok (tab (run_process (runs i) st1 i))" for i
  proof -
    have "all_ok (upd_proc (tab st1) i (\<lambda>p. p\<lparr>pstate := RUNNING, mlfq_ticks := 0\<rparr>))"
      by (rule all_ok_upd [OF ok1]) (simp add: sched_ok_def)
    from all_ok_upd [OF assms(2) [OF this] sched_ok_after_run] show ?thesis
      by (simp add: run_process_def upd_tab_def ok1)
  qed
  then have "all_ok (tab (fst (scheduler_turn ticks runs st)))"
    using ok1 by (simp add: scheduler_turn_def sel split: option.splits)
  moreover have "all_ok (fst (sched_setscheduler (tab st) pd policy prio))"
    using assms(1) by (auto simp: sched_setscheduler_def sched_ok_def sched_consts intro!: all_ok_upd split: option.splits)
  moreover have "all_ok (fst (sched_setdeadline ticks (tab st) pd rt dl pr))"
    using assms(1) by (auto simp: sched_setdeadline_def sched_ok_def sched_consts intro!: all_ok_upd split: option.splits)
  ultimately show ?thesis by blast
qed

theorem sched_fields_bounded_witness:
  "all_ok (fst (sched_setscheduler procinit 0 2 99)) \<and> all_ok (tab (fst (scheduler_turn 0 (\<lambda>_ pt. pt) zero_sched)))"
  using sched_fields_bounded [of zero_sched "\<lambda>_ pt. pt" 0 0 2 99] zero_table_ok by (simp add: zero_sched_def)

section \<open>Starvation\<close>

text \<open>
  A machine with \<open>n\<close> normal processes that always want to run, in the first \<open>n\<close> entries, \<open>r\<close>
  turns after a priority boost.
\<close>

definition level_after :: "nat \<Rightarrow> nat \<Rightarrow> int" where
  "level_after r m = (if 5 * (m + 1) \<le> r then 1 else 0)"

definition allot_after :: "nat \<Rightarrow> nat \<Rightarrow> int" where
  "allot_after r m = (if 5 * (m + 1) \<le> r then 10 else if 5 * m \<le> r then 5 - (int r - 5 * int m) else 5)"

definition busy :: "nat \<Rightarrow> nat \<Rightarrow> ptable \<Rightarrow> bool" where
  "busy n r pt =
     (length (procs pt) = NPROC \<and>
      (\<forall>m < NPROC. if m < n
         then pstate (procs pt ! m) = RUNNABLE \<and> sched_policy (procs pt ! m) = SCHED_NORMAL
            \<and> mlfq_level (procs pt ! m) = level_after r m \<and> mlfq_allotment (procs pt ! m) = allot_after r m
         else pstate (procs pt ! m) = UNUSED))"

text \<open>The processes never sleep and never exit.\<close>

definition yields :: "nat \<Rightarrow> ptable \<Rightarrow> ptable" where
  "yields i pt = yield pt i"

fun run_turns :: "u32 list \<Rightarrow> sched \<Rightarrow> sched \<times> nat option list" where
  "run_turns [] st = (st, [])"
| "run_turns (t # ts) st =
     (let (st1, sel) = scheduler_turn t yields st; (st2, sels) = run_turns ts st1 in (st2, sel # sels))"

lemma busy_cases:
  assumes "busy n r pt" and "p \<in> set (procs pt)"
  shows "pstate p = UNUSED \<or> pstate p = RUNNABLE \<and> sched_policy p = SCHED_NORMAL"
proof -
  obtain i where "i < NPROC" "p = procs pt ! i" using assms by (auto simp: busy_def in_set_conv_nth)
  with assms(1) show ?thesis by (cases "i < n") (auto simp: busy_def)
qed

lemma busy_period: "busy n r pt \<Longrightarrow> map (new_period t) (procs pt) = procs pt"
proof (rule map_idI)
  fix p assume "busy n r pt" "p \<in> set (procs pt)"
  then have "\<not> (pstate p \<noteq> UNUSED \<and> sched_policy p = SCHED_DEADLINE \<and> ucast t \<ge> deadline p)"
    using busy_cases [of n r pt p] by (auto simp: sched_consts)
  then show "new_period t p = p" unfolding new_period_def by (rule if_not_P)
qed

lemma busy_no_deadline:
  assumes "busy n r pt"
  shows "find_deadline_process pt = None"
proof (rule ccontr)
  assume "find_deadline_process pt \<noteq> None"
  then obtain i where "find_deadline_process pt = Some i" by blast
  from edf.scan_Some [OF this [unfolded find_deadline_process_def]] have
    "has_budget (procs pt ! i)" "procs pt ! i \<in> set (procs pt)" by auto
  with busy_cases [OF assms] show False by (fastforce simp: has_budget_def is_deadline_def sched_consts)
qed

lemma busy_no_rt:
  assumes "busy n r pt"
  shows "find_rt_process pt = None"
proof (rule ccontr)
  assume "find_rt_process pt \<noteq> None"
  then obtain i where "find_rt_process pt = Some i" by blast
  from rt.scan_Some [OF this [unfolded find_rt_process_def]] have
    "is_rt (procs pt ! i)" "procs pt ! i \<in> set (procs pt)" by auto
  with busy_cases [OF assms] show False by (fastforce simp: is_rt_def sched_consts)
qed

lemma busy_pick:
  assumes "busy n r pt" and "21 \<le> n" "n \<le> NPROC" "k < 20" and r: "5 * k \<le> r" "r < 5 * (k + 1)"
  shows "find_mlfq pt 0 = Some k"
proof -
  have k: "k < n" using assms by simp
  have lev: "at_level 0 (procs pt ! m) \<longleftrightarrow> \<not> 5 * (m + 1) \<le> r" if "m < n" for m
    using assms(1,3) that by (auto simp: busy_def at_level_def level_after_def)
  have "find_slot (at_level 0) (procs pt) = Some k"
    unfolding find_slot_Some_iff
  proof (intro conjI allI impI)
    show "k < length (procs pt)" using k assms(1,3) by (simp add: busy_def)
    show "at_level 0 (procs pt ! k)" using lev [OF k] r by simp
    show "\<not> at_level 0 (procs pt ! j)" if "j < k" for j
      using lev [of j] that k r by simp
  qed
  then show ?thesis by (subst find_mlfq.simps) (simp add: MLFQ_LEVELS_def)
qed

lemma busy_after_run:
  assumes p: "pstate p = RUNNABLE" "sched_policy p = SCHED_NORMAL" "mlfq_level p = 0" "mlfq_allotment p = allot_after r k"
    and r: "5 * k \<le> r" "r < 5 * (k + 1)"
  defines "q \<equiv> after_run (p\<lparr>mlfq_ticks := 0\<rparr>)"
  shows "pstate q = RUNNABLE \<and> sched_policy q = SCHED_NORMAL \<and> mlfq_level q = level_after (r + 1) k
       \<and> mlfq_allotment q = allot_after (r + 1) k"
proof -
  have a: "mlfq_allotment p = 5 - (int r - 5 * int k)" using p(4) r by (simp add: allot_after_def)
  show ?thesis
  proof (cases "5 * (k + 1) \<le> r + 1")
    case True
    then have "mlfq_allotment p - 1 \<le> 0" using a r by presburger
    with True p show ?thesis
      by (simp add: q_def after_run_def Let_def sched_consts level_after_def allot_after_def mlfq_allotment_init_def)
  next
    case False
    then have "\<not> mlfq_allotment p - 1 \<le> 0" using a r by presburger
    with False p a r show ?thesis
      by (simp add: q_def after_run_def Let_def sched_consts level_after_def allot_after_def)
  qed
qed

lemma busy_other:
  assumes "m \<noteq> k" and r: "5 * k \<le> r" "r < 5 * (k + 1)"
  shows "level_after (r + 1) m = level_after r m" and "allot_after (r + 1) m = allot_after r m"
proof -
  have "5 * (m + 1) \<le> r \<or> r + 1 \<le> 5 * m" using assms by presburger
  then show "level_after (r + 1) m = level_after r m" "allot_after (r + 1) m = allot_after r m"
    by (auto simp: level_after_def allot_after_def)
qed

lemma busy_run:
  assumes b: "busy n r (tab st)" and n: "21 \<le> n" "n \<le> NPROC" and k20: "k < 20"
    and r: "5 * k \<le> r" "r < 5 * (k + 1)"
  shows "busy n (r + 1) (tab (run_process (yields k) st k))"
    and "mlfq_boost_counter (run_process (yields k) st k) = mlfq_boost_counter st"
proof -
  let ?p = "procs (tab st) ! k"
  have k: "k < n" "k < NPROC" using n k20 by simp_all
  have p: "pstate ?p = RUNNABLE" "sched_policy ?p = SCHED_NORMAL" "mlfq_level ?p = 0" "mlfq_allotment ?p = allot_after r k"
    using b k r by (auto simp: busy_def level_after_def)
  have len: "length (procs (tab st)) = NPROC" using b by (simp add: busy_def)
  have e: "?p\<lparr>mlfq_ticks := 0, pstate := RUNNABLE\<rparr> = ?p\<lparr>mlfq_ticks := 0\<rparr>"
    by (rule proc.equality) (simp_all add: p(1))
  have "tab (run_process (yields k) st k)
      = (tab st)\<lparr>procs := (procs (tab st))[k := after_run (?p\<lparr>mlfq_ticks := 0, pstate := RUNNABLE\<rparr>)]\<rparr>"
    using p(1) len k by (simp add: run_process_def upd_tab_def yields_def yield_def upd_proc_def)
  then have t: "tab (run_process (yields k) st k) = upd_proc (tab st) k (\<lambda>p. after_run (p\<lparr>mlfq_ticks := 0\<rparr>))"
    unfolding upd_proc_def e .
  show "mlfq_boost_counter (run_process (yields k) st k) = mlfq_boost_counter st"
    by (simp add: run_process_def upd_tab_def)
  let ?q = "upd_proc (tab st) k (\<lambda>p. after_run (p\<lparr>mlfq_ticks := 0\<rparr>))"
  have "if m < n
       then pstate (procs ?q ! m) = RUNNABLE \<and> sched_policy (procs ?q ! m) = SCHED_NORMAL
          \<and> mlfq_level (procs ?q ! m) = level_after (r + 1) m \<and> mlfq_allotment (procs ?q ! m) = allot_after (r + 1) m
       else pstate (procs ?q ! m) = UNUSED" if m: "m < NPROC" for m
  proof (cases "m = k")
    case True
    then show ?thesis using busy_after_run [OF p r] k len by (simp add: upd_nth)
  next
    case False
    have "procs ?q ! m = procs (tab st) ! m" using False k len by (simp add: upd_nth)
    then show ?thesis
      using conjunct2 [OF b [unfolded busy_def], rule_format, OF m] by (simp only: busy_other [OF False r])
  qed
  then show "busy n (r + 1) (tab (run_process (yields k) st k))"
    unfolding t busy_def using len by simp
qed

lemma busy_boost: "busy n r pt \<Longrightarrow> busy n 0 (mlfq_priority_boost pt)"
  unfolding busy_def
proof (intro conjI allI impI)
  fix m assume b: "length (procs pt) = NPROC \<and>
      (\<forall>m < NPROC. if m < n
         then pstate (procs pt ! m) = RUNNABLE \<and> sched_policy (procs pt ! m) = SCHED_NORMAL
            \<and> mlfq_level (procs pt ! m) = level_after r m \<and> mlfq_allotment (procs pt ! m) = allot_after r m
         else pstate (procs pt ! m) = UNUSED)" and m: "m < NPROC"
  have nth: "procs (mlfq_priority_boost pt) ! m = boost (procs pt ! m)"
    using b m by (simp add: mlfq_priority_boost_def)
  from conjunct2 [OF b, rule_format, OF m] show "if m < n
         then pstate (procs (mlfq_priority_boost pt) ! m) = RUNNABLE
            \<and> sched_policy (procs (mlfq_priority_boost pt) ! m) = SCHED_NORMAL
            \<and> mlfq_level (procs (mlfq_priority_boost pt) ! m) = level_after 0 m
            \<and> mlfq_allotment (procs (mlfq_priority_boost pt) ! m) = allot_after 0 m
         else pstate (procs (mlfq_priority_boost pt) ! m) = UNUSED"
    unfolding nth by (cases "m < n") (simp_all add: boost_def level_after_def allot_after_def mlfq_allotment_init_def)
qed (simp add: mlfq_priority_boost_def)

lemma busy_turn:
  assumes b: "busy n r (tab st)" and n: "21 \<le> n" "n \<le> NPROC" and r: "1 \<le> r" "r \<le> 100"
    and c: "mlfq_boost_counter st = int r - 1"
  defines "r0 \<equiv> if r = 100 then 0 else r"
  shows "\<exists>st' k. scheduler_turn t yields st = (st', Some k) \<and> k < 20 \<and> busy n (r0 + 1) (tab st')
       \<and> mlfq_boost_counter st' = int r0"
proof -
  have b0: "busy n r0 (tab (sched_boost st))" and c0: "mlfq_boost_counter (sched_boost st) = int r0"
    using b c r busy_boost [OF b]
    by (auto simp: sched_boost_def Let_def MLFQ_BOOST_INTERVAL_def upd_tab_def r0_def)
  have r0: "r0 < 100" using r by (simp add: r0_def)
  define k where "k = r0 div 5"
  have rk: "5 * k \<le> r0" "r0 < 5 * (k + 1)" "k < 20"
    using r0 unfolding k_def by presburger+
  let ?st = "update_deadline_periods t (sched_boost st)"
  have tab: "tab ?st = tab (sched_boost st)"
    by (simp add: update_deadline_periods_def busy_period [OF b0])
  have "sched_select t st = (?st, Some k)"
    by (simp add: sched_select_def Let_def tab busy_no_deadline [OF b0] busy_no_rt [OF b0]
        busy_pick [OF b0 n rk(3) rk(1,2)])
  moreover have "busy n r0 (tab ?st)" using b0 by (simp add: tab)
  moreover have "mlfq_boost_counter ?st = int r0" using c0 by (simp add: update_deadline_periods_def)
  ultimately show ?thesis using busy_run [OF _ n rk(3) rk(1,2), of ?st] rk(3) by (simp add: scheduler_turn_def)
qed

text \<open>
  C27: on one CPU the priority boost does not prevent starvation. Let a single CPU run the scheduler, and let
  there be 21 or more normal processes that always want to run, with the levels and quotas they have \<open>r\<close>
  turns after a boost, as after the boost itself. Then the CPU picks only the first 20 entries, for any number
  of turns and whatever the clock reads: the boost every 100 turns comes just when the first 20 have
  used their 5 turns each, and every scan starts at entry 0. With several CPUs, which share the
  counter, the turns interleave and the statement is not made.
\<close>

theorem mlfq_starves:
  assumes "busy n r (tab st)" and "21 \<le> n" and "n \<le> NPROC" and "1 \<le> r" and "r \<le> 100"
    and "mlfq_boost_counter st = int r - 1"
  shows "\<forall>sel \<in> set (snd (run_turns ts st)). \<exists>i < 20. sel = Some i"
  using assms
proof (induction ts arbitrary: st r)
  case (Cons t ts)
  let ?r0 = "if r = 100 then 0 else r"
  obtain st' k where t: "scheduler_turn t yields st = (st', Some k)" "k < 20" "busy n (?r0 + 1) (tab st')"
    "mlfq_boost_counter st' = int ?r0"
    using busy_turn [OF Cons.prems(1-6)] by blast
  have r: "1 \<le> ?r0 + 1" "?r0 + 1 \<le> 100" using Cons.prems(5) by simp_all
  have c: "mlfq_boost_counter st' = int (?r0 + 1) - 1" using t(4) by simp
  have "\<forall>sel \<in> set (snd (run_turns ts st')). \<exists>i < 20. sel = Some i"
    by (rule Cons.IH [OF t(3) Cons.prems(2,3) r c])
  moreover have "snd (run_turns (t # ts) st) = Some k # snd (run_turns ts st')"
    by (simp add: t(1) split: prod.splits)
  ultimately show ?case using t(2) by (metis set_ConsD)
qed simp

text \<open>A table with 21 such processes, one turn after a boost.\<close>

definition busy_proc :: "nat \<Rightarrow> proc" where
  "busy_proc m = (new_proc (int m + 1) 0 0 0 zero_proc)\<lparr>pstate := RUNNABLE, mlfq_allotment := allot_after 1 m\<rparr>"

definition busy_sched :: sched where
  "busy_sched = zero_sched\<lparr>tab := procinit\<lparr>procs := map (\<lambda>m. if m < 21 then busy_proc m else zero_proc) [0..<NPROC]\<rparr>\<rparr>"

theorem mlfq_starves_witness:
  "Some 20 \<notin> set (snd (run_turns [1, 2, 3] busy_sched))"
proof -
  have "busy 21 1 (tab busy_sched)"
    by (simp add: busy_def busy_sched_def busy_proc_def new_proc_def alloc_after_def alloc_before_def zero_proc_def
        level_after_def sched_consts)
  moreover have "mlfq_boost_counter busy_sched = int 1 - 1"
    by (simp add: busy_sched_def zero_sched_def)
  moreover have "21 \<le> NPROC" by (simp add: NPROC_def)
  ultimately have "\<forall>sel \<in> set (snd (run_turns [1, 2, 3] busy_sched)). \<exists>i < 20. sel = Some i"
    by (intro mlfq_starves [of 21 1]) simp_all
  then show ?thesis by (metis less_irrefl option.inject)
qed

end
