(* ===== verification/Freezer.thy ===== *)
theory Freezer
  imports Scheduler
begin

text \<open>
  The process freezer, \<open>src/kernel/proc/freezer.c\<close>: a flag in the process table and a table of
  records with statistics. The clock is an argument. Printing is left out.
\<close>

section \<open>Operations\<close>

definition FREEZE_STATE_THAWED :: int where "FREEZE_STATE_THAWED = 0"
definition FREEZE_STATE_FROZEN :: int where "FREEZE_STATE_FROZEN = 2"
definition FREEZE_REASON_LOWMEM :: int where "FREEZE_REASON_LOWMEM = 3"
definition FREEZE_REASON_CGROUP :: int where "FREEZE_REASON_CGROUP = 5"
definition FREEZE_PRIO_CRITICAL :: int where "FREEZE_PRIO_CRITICAL = 0"
definition FREEZE_PRIO_BACKGROUND :: int where "FREEZE_PRIO_BACKGROUND = 4"
definition FREEZE_PRIO_CACHED :: int where "FREEZE_PRIO_CACHED = 5"

definition MAX_FROZEN_PROCS :: nat where
  "MAX_FROZEN_PROCS = 32"

record frozen_proc =
  fp_used :: bool
  fp_pid :: int
  fp_state :: int
  fp_reason :: int
  fp_prio :: int
  freeze_time :: u64
  thaw_time :: u64
  frozen_duration :: u64

record freezer =
  frozen_recs :: "frozen_proc list"
  frozen_count :: int
  auto_freeze_enabled :: int
  auto_freeze_threshold :: int
  freeze_timeout :: int
  total_freezes :: u64
  total_thaws :: u64
  total_frozen_time :: u64
  oom_freezes :: u64

definition freezer_init :: freezer where
  "freezer_init =
    \<lparr>frozen_recs = replicate MAX_FROZEN_PROCS
       \<lparr>fp_used = False, fp_pid = 0, fp_state = 0, fp_reason = 0, fp_prio = 0, freeze_time = 0,
        thaw_time = 0, frozen_duration = 0\<rparr>,
     frozen_count = 0, auto_freeze_enabled = 1, auto_freeze_threshold = 80, freeze_timeout = 3000,
     total_freezes = 0, total_thaws = 0, total_frozen_time = 0, oom_freezes = 0\<rparr>"

definition find_frozen_record :: "freezer \<Rightarrow> int \<Rightarrow> nat option" where
  "find_frozen_record fz pd = find_slot (\<lambda>r. fp_used r \<and> fp_pid r = pd) (frozen_recs fz)"

definition alloc_frozen_record :: "freezer \<Rightarrow> nat option" where
  "alloc_frozen_record fz = find_slot (\<lambda>r. \<not> fp_used r) (frozen_recs fz)"

definition find_live :: "ptable \<Rightarrow> int \<Rightarrow> nat option" where
  "find_live pt pd = find_slot (\<lambda>p. pid p = pd \<and> pstate p \<noteq> UNUSED) (procs pt)"

definition record_freeze :: "u32 \<Rightarrow> int \<Rightarrow> int \<Rightarrow> freezer \<Rightarrow> freezer" where
  "record_freeze ticks pd reason fz =
     (let slot = (case find_frozen_record fz pd of Some i \<Rightarrow> Some i | None \<Rightarrow> alloc_frozen_record fz);
          fz = (case slot of
                  None \<Rightarrow> fz
                | Some i \<Rightarrow>
                    fz\<lparr>frozen_recs := (frozen_recs fz)[i := (frozen_recs fz ! i)
                         \<lparr>fp_used := True, fp_pid := pd, fp_state := FREEZE_STATE_FROZEN, fp_reason := reason,
                          freeze_time := ucast ticks\<rparr>],
                       frozen_count := frozen_count fz + 1\<rparr>);
          fz = fz\<lparr>total_freezes := total_freezes fz + 1\<rparr>
      in if reason = FREEZE_REASON_LOWMEM then fz\<lparr>oom_freezes := oom_freezes fz + 1\<rparr> else fz)"

definition freeze_process :: "u32 \<Rightarrow> int \<Rightarrow> int \<Rightarrow> freezer \<times> ptable \<Rightarrow> (freezer \<times> ptable) \<times> int" where
  "freeze_process ticks pd reason = (\<lambda>(fz, pt).
     (case find_live pt pd of
        None \<Rightarrow> ((fz, pt), -1)
      | Some i \<Rightarrow>
          if frozen (procs pt ! i) then ((fz, pt), 0)
          else if pd = 1 then ((fz, pt), -1)
          else ((record_freeze ticks pd reason fz,
                 upd_proc pt i (\<lambda>p. p\<lparr>frozen := True, freeze_reason := reason\<rparr>)), 0)))"

definition record_thaw :: "u32 \<Rightarrow> int \<Rightarrow> freezer \<Rightarrow> freezer" where
  "record_thaw ticks pd fz =
     (let fz = (case find_frozen_record fz pd of
                  None \<Rightarrow> fz
                | Some i \<Rightarrow>
                    (let r = frozen_recs fz ! i; d = ucast ticks - freeze_time r
                     in fz\<lparr>frozen_recs := (frozen_recs fz)[i := r
                             \<lparr>thaw_time := ucast ticks, frozen_duration := frozen_duration r + d,
                              fp_state := FREEZE_STATE_THAWED, fp_used := False\<rparr>],
                           total_frozen_time := total_frozen_time fz + d,
                           frozen_count := frozen_count fz - 1\<rparr>))
      in fz\<lparr>total_thaws := total_thaws fz + 1\<rparr>)"

definition thaw_process :: "u32 \<Rightarrow> int \<Rightarrow> freezer \<times> ptable \<Rightarrow> (freezer \<times> ptable) \<times> int" where
  "thaw_process ticks pd = (\<lambda>(fz, pt).
     (case find_live pt pd of
        None \<Rightarrow> ((fz, pt), -1)
      | Some i \<Rightarrow>
          if \<not> frozen (procs pt ! i) then ((fz, pt), 0)
          else ((record_thaw ticks pd fz,
                 upd_proc pt i (\<lambda>p. p\<lparr>frozen := False, freeze_reason := 0\<rparr>)), 0)))"

text \<open>A loop over the process table that freezes or thaws the entries that pass a test.\<close>

definition sweep ::
  "(proc \<Rightarrow> bool) \<Rightarrow> (int \<Rightarrow> freezer \<times> ptable \<Rightarrow> (freezer \<times> ptable) \<times> int) \<Rightarrow>
     (freezer \<times> ptable) \<times> int \<Rightarrow> (freezer \<times> ptable) \<times> int" where
  "sweep test act s0 =
     fold (\<lambda>i (s, n). if test (procs (snd s) ! i)
                       then (case act (pid (procs (snd s) ! i)) s of (s', r) \<Rightarrow> (s', if r = 0 then n + 1 else n))
                       else (s, n)) [0..<NPROC] s0"

definition freeze_cgroup :: "u32 \<Rightarrow> int \<Rightarrow> freezer \<times> ptable \<Rightarrow> (freezer \<times> ptable) \<times> int" where
  "freeze_cgroup ticks cg s =
     sweep (\<lambda>p. pstate p \<noteq> UNUSED \<and> cgroup_id p = cg)
       (\<lambda>pd. freeze_process ticks pd FREEZE_REASON_CGROUP) (s, 0)"

definition thaw_cgroup :: "u32 \<Rightarrow> int \<Rightarrow> freezer \<times> ptable \<Rightarrow> (freezer \<times> ptable) \<times> int" where
  "thaw_cgroup ticks cg s =
     sweep (\<lambda>p. pstate p \<noteq> UNUSED \<and> cgroup_id p = cg \<and> frozen p) (thaw_process ticks) (s, 0)"

definition freeze_set_priority :: "int \<Rightarrow> int \<Rightarrow> ptable \<Rightarrow> ptable \<times> int" where
  "freeze_set_priority pd prio pt =
     (if prio < FREEZE_PRIO_CRITICAL \<or> prio > FREEZE_PRIO_CACHED then (pt, -1)
      else (case find_live pt pd of
              None \<Rightarrow> (pt, -1)
            | Some i \<Rightarrow> (upd_proc pt i (\<lambda>p. p\<lparr>freeze_prio := prio\<rparr>), 0)))"

definition auto_freeze_background :: "u32 \<Rightarrow> freezer \<times> ptable \<Rightarrow> (freezer \<times> ptable) \<times> int" where
  "auto_freeze_background ticks s =
     (if auto_freeze_enabled (fst s) = 0 then (s, 0)
      else fold (\<lambda>prio. sweep (\<lambda>p. pstate p \<noteq> UNUSED \<and> \<not> frozen p \<and> freeze_prio p \<ge> prio)
                         (\<lambda>pd. freeze_process ticks pd FREEZE_REASON_LOWMEM))
             [FREEZE_PRIO_CACHED, FREEZE_PRIO_BACKGROUND] (s, 0))"

definition is_frozen :: "ptable \<Rightarrow> int \<Rightarrow> bool" where
  "is_frozen pt pd = (case find_live pt pd of Some i \<Rightarrow> frozen (procs pt ! i) | None \<Rightarrow> False)"

definition frozen_count_get :: "freezer \<Rightarrow> int" where
  "frozen_count_get fz = frozen_count fz"

definition freezer_set_auto :: "int \<Rightarrow> freezer \<Rightarrow> freezer \<times> int" where
  "freezer_set_auto enabled fz = (fz\<lparr>auto_freeze_enabled := enabled\<rparr>, 0)"

definition freezer_set_timeout :: "int \<Rightarrow> freezer \<Rightarrow> freezer \<times> int" where
  "freezer_set_timeout timeout fz =
     (if timeout < 0 then (fz, -1) else (fz\<lparr>freeze_timeout := timeout\<rparr>, 0))"

section \<open>Records and flags\<close>

text \<open>
  The records count exactly, and the process of a record, while it lives, is frozen.
\<close>

definition uniq_recs :: "frozen_proc list \<Rightarrow> bool" where
  "uniq_recs rs = (\<forall>i < length rs. \<forall>j < length rs.
     fp_used (rs ! i) \<and> fp_used (rs ! j) \<and> fp_pid (rs ! i) = fp_pid (rs ! j) \<longrightarrow> i = j)"

definition recs_ok :: "freezer \<times> ptable \<Rightarrow> bool" where
  "recs_ok = (\<lambda>(fz, pt).
     length (frozen_recs fz) = MAX_FROZEN_PROCS
     \<and> frozen_count fz = int (length (filter fp_used (frozen_recs fz)))
     \<and> uniq_recs (frozen_recs fz)
     \<and> (\<forall>r \<in> set (frozen_recs fz). fp_used r \<longrightarrow> fp_pid r < nextpid pt)
     \<and> (\<forall>r \<in> set (frozen_recs fz). \<forall>i < NPROC. fp_used r \<and> in_use pt i \<and> pid (procs pt ! i) = fp_pid r
          \<longrightarrow> frozen (procs pt ! i)))"

lemma find_live_Some:
  assumes "pt_ok pt" and "find_live pt pd = Some i"
  shows "i < NPROC" "pid (procs pt ! i) = pd" "in_use pt i"
  using slot_less [OF assms(1) assms(2) [unfolded find_live_def]] by (auto simp: in_use_def)

lemma find_live_None: "pt_ok pt \<Longrightarrow> find_live pt pd = None \<Longrightarrow> in_use pt i \<Longrightarrow> pid (procs pt ! i) \<noteq> pd"
  by (auto simp: find_live_def find_slot_None_iff in_use_def pt_inv_def)

lemma pid_inj: "pt_ok pt \<Longrightarrow> in_use pt i \<Longrightarrow> j < NPROC \<Longrightarrow> pid (procs pt ! j) = pid (procs pt ! i) \<Longrightarrow> j = i"
  unfolding pt_inv_def in_use_def entry_ok_def by (metis less_irrefl)

lemma pt_ok_flags:
  "pt_ok pt \<Longrightarrow> i < NPROC \<Longrightarrow> pt_ok (upd_proc pt i (\<lambda>p. p\<lparr>frozen := b, freeze_reason := r\<rparr>))"
  by (rule pt_ok_keep) (simp_all add: keeps_def)

lemma in_use_flags:
  "length (procs pt) = NPROC \<Longrightarrow> in_use (upd_proc pt i (\<lambda>p. p\<lparr>frozen := b, freeze_reason := r\<rparr>)) j = in_use pt j"
  by (cases "i = j") (auto simp: in_use_def upd_proc_def)

lemma recs_ok_nextpid: "recs_ok (fz, pt) \<Longrightarrow> r \<in> set (frozen_recs fz) \<Longrightarrow> fp_used r \<Longrightarrow> fp_pid r < nextpid pt"
  by (simp add: recs_ok_def)

lemma uniq_recs_add:
  assumes "uniq_recs rs" and "\<forall>r \<in> set rs. \<not> (fp_used r \<and> fp_pid r = fp_pid y)"
  shows "uniq_recs (rs[k := y])"
  unfolding uniq_recs_def
proof (intro allI impI)
  fix i j
  assume ij: "i < length (rs[k := y])" "j < length (rs[k := y])"
    "fp_used (rs[k := y] ! i) \<and> fp_used (rs[k := y] ! j) \<and> fp_pid (rs[k := y] ! i) = fp_pid (rs[k := y] ! j)"
  have no: "\<not> (fp_used (rs ! m) \<and> fp_pid (rs ! m) = fp_pid y)" if "m < length rs" for m
    using assms(2) that by simp
  show "i = j"
    using ij no [of i] no [of j] assms(1) unfolding uniq_recs_def
    by (cases "i = k"; cases "j = k") auto
qed

lemma uniq_recs_remove: "uniq_recs rs \<Longrightarrow> \<not> fp_used y \<Longrightarrow> uniq_recs (rs[k := y])"
  unfolding uniq_recs_def
proof (intro allI impI)
  fix i j
  assume u: "\<forall>i < length rs. \<forall>j < length rs. fp_used (rs ! i) \<and> fp_used (rs ! j) \<and> fp_pid (rs ! i) = fp_pid (rs ! j) \<longrightarrow> i = j"
    and y: "\<not> fp_used y" and ij: "i < length (rs[k := y])" "j < length (rs[k := y])"
    "fp_used (rs[k := y] ! i) \<and> fp_used (rs[k := y] ! j) \<and> fp_pid (rs[k := y] ! i) = fp_pid (rs[k := y] ! j)"
  have "i \<noteq> k" "j \<noteq> k" using ij y by auto
  with u ij show "i = j" by simp
qed

lemma set_update_cases: "r \<in> set (xs[k := y]) \<Longrightarrow> r = y \<or> r \<in> set xs"
  using set_update_subset_insert [of xs k y] by blast

text \<open>What the flags of the other processes are after one changed.\<close>

lemma flag_nth:
  fixes b :: bool and rs :: int
  assumes "pt_ok pt" and "in_use pt i"
  defines "pt' \<equiv> upd_proc pt i (\<lambda>p. p\<lparr>frozen := b, freeze_reason := rs\<rparr>)"
  shows "in_use pt' j = in_use pt j" and "pid (procs pt' ! j) = pid (procs pt ! j)"
    and "frozen (procs pt' ! j) = (if j = i then b else frozen (procs pt ! j))" and "nextpid pt' = nextpid pt"
  using pt_ok_length [OF assms(1)] assms(2)
  by (simp_all add: pt'_def in_use_flags upd_nth in_use_def [of pt i])

text \<open>The table of records after a freeze of a process that is not frozen.\<close>

lemma record_freeze_recs:
  assumes "find_frozen_record fz pd = None"
  shows "(frozen_recs (record_freeze ticks pd reason fz) = frozen_recs fz
        \<and> frozen_count (record_freeze ticks pd reason fz) = frozen_count fz)
     \<or> (\<exists>k y. k < length (frozen_recs fz) \<and> \<not> fp_used (frozen_recs fz ! k) \<and> fp_used y \<and> fp_pid y = pd
        \<and> frozen_recs (record_freeze ticks pd reason fz) = (frozen_recs fz)[k := y]
        \<and> frozen_count (record_freeze ticks pd reason fz) = frozen_count fz + 1)"
proof (cases "alloc_frozen_record fz")
  case None
  then show ?thesis by (simp add: record_freeze_def assms Let_def)
next
  case (Some k)
  let ?y = "(frozen_recs fz ! k)\<lparr>fp_used := True, fp_pid := pd, fp_state := FREEZE_STATE_FROZEN, fp_reason := reason,
              freeze_time := ucast ticks\<rparr>"
  have "k < length (frozen_recs fz)" "\<not> fp_used (frozen_recs fz ! k)"
    using find_slot_SomeD(1,2) [OF Some [unfolded alloc_frozen_record_def]] by auto
  then show ?thesis
    by (intro disjI2 exI [of _ k] exI [of _ ?y]) (simp add: record_freeze_def assms Some Let_def)
qed

lemma recs_ok_freeze:
  assumes ok: "recs_ok (fz, pt)" and pt: "pt_ok pt" and i: "in_use pt i" "pid (procs pt ! i) = pd" and nf: "\<not> frozen (procs pt ! i)"
  shows "recs_ok (record_freeze ticks pd reason fz, upd_proc pt i (\<lambda>p. p\<lparr>frozen := True, freeze_reason := reason\<rparr>))"
proof -
  let ?pt = "upd_proc pt i (\<lambda>p. p\<lparr>frozen := True, freeze_reason := reason\<rparr>)"
  note fl = flag_nth [OF pt i(1), where b = True and rs = reason]
  have iN: "i < NPROC" using i(1) by (simp add: in_use_def)
  have no: "\<forall>r \<in> set (frozen_recs fz). \<not> (fp_used r \<and> fp_pid r = pd)"
    using ok i iN nf by (auto simp: recs_ok_def)
  then have none: "find_frozen_record fz pd = None" by (auto simp: find_frozen_record_def find_slot_None_iff)
  have pd: "pd < nextpid pt" using pt i iN by (auto simp: pt_inv_def entry_ok_def)
  have new: "j = i" if "in_use pt j" "pid (procs pt ! j) = pd" for j
    using pid_inj [OF pt i(1), of j] that i(2) by (simp add: in_use_def)
  from record_freeze_recs [OF none, of ticks reason] show ?thesis
  proof (elim disjE exE conjE)
    assume "frozen_recs (record_freeze ticks pd reason fz) = frozen_recs fz"
      "frozen_count (record_freeze ticks pd reason fz) = frozen_count fz"
    with ok show ?thesis by (simp add: recs_ok_def fl)
  next
    fix k y
    assume k: "k < length (frozen_recs fz)" "\<not> fp_used (frozen_recs fz ! k)" and y: "fp_used y" "fp_pid y = pd"
      and f: "frozen_recs (record_freeze ticks pd reason fz) = (frozen_recs fz)[k := y]"
        "frozen_count (record_freeze ticks pd reason fz) = frozen_count fz + 1"
    have "length (filter fp_used ((frozen_recs fz)[k := y])) = Suc (length (filter fp_used (frozen_recs fz)))"
      by (rule count_fill) (use k y in simp_all)
    moreover have "uniq_recs ((frozen_recs fz)[k := y])"
      using ok no y by (intro uniq_recs_add) (simp_all add: recs_ok_def)
    moreover have "fp_pid r < nextpid pt" if "r \<in> set ((frozen_recs fz)[k := y])" "fp_used r" for r
      using set_update_cases [OF that(1)] that(2) y pd recs_ok_nextpid [OF ok] by blast
    moreover have "j = i \<or> frozen (procs pt ! j)"
      if "r \<in> set ((frozen_recs fz)[k := y])" "j < NPROC" "fp_used r" "in_use pt j" "pid (procs pt ! j) = fp_pid r" for r j
      using set_update_cases [OF that(1)]
    proof
      assume "r = y"
      then show ?thesis using that y new by simp
    next
      assume "r \<in> set (frozen_recs fz)"
      then show ?thesis using that ok unfolding recs_ok_def by blast
    qed
    ultimately show ?thesis
      using ok unfolding recs_ok_def by (simp add: fl f) blast
  qed
qed

text \<open>The table of records after a thaw.\<close>

lemma record_thaw_recs:
  "case find_frozen_record fz pd of
     None \<Rightarrow> frozen_recs (record_thaw ticks pd fz) = frozen_recs fz \<and> frozen_count (record_thaw ticks pd fz) = frozen_count fz
   | Some k \<Rightarrow> (\<exists>y. \<not> fp_used y \<and> frozen_recs (record_thaw ticks pd fz) = (frozen_recs fz)[k := y]
       \<and> frozen_count (record_thaw ticks pd fz) = frozen_count fz - 1)"
proof (cases "find_frozen_record fz pd")
  case None
  then show ?thesis by (simp add: record_thaw_def)
next
  case (Some k)
  let ?r = "frozen_recs fz ! k"
  let ?y = "?r\<lparr>thaw_time := ucast ticks, frozen_duration := frozen_duration ?r + (ucast ticks - freeze_time ?r),
              fp_state := FREEZE_STATE_THAWED, fp_used := False\<rparr>"
  from Some show ?thesis by (simp add: record_thaw_def Let_def) (intro exI [of _ ?y], simp)
qed

lemma recs_ok_thaw:
  assumes ok: "recs_ok (fz, pt)" and pt: "pt_ok pt" and i: "in_use pt i" "pid (procs pt ! i) = pd"
  shows "recs_ok (record_thaw ticks pd fz, upd_proc pt i (\<lambda>p. p\<lparr>frozen := False, freeze_reason := 0\<rparr>))"
proof -
  note fl = flag_nth [OF pt i(1), where b = False and rs = 0]
  show ?thesis
  proof (cases "find_frozen_record fz pd")
    case None
    then have no: "\<forall>r \<in> set (frozen_recs fz). \<not> (fp_used r \<and> fp_pid r = pd)"
      by (simp add: find_frozen_record_def find_slot_None_iff)
    have "frozen_recs (record_thaw ticks pd fz) = frozen_recs fz" "frozen_count (record_thaw ticks pd fz) = frozen_count fz"
      using record_thaw_recs [where fz = fz and pd = pd and ticks = ticks] None by simp_all
    then show ?thesis
      using ok no i(2) unfolding recs_ok_def by (simp add: fl) blast
  next
    case (Some k)
    have k: "k < length (frozen_recs fz)" "fp_used (frozen_recs fz ! k)" "fp_pid (frozen_recs fz ! k) = pd"
      using find_slot_SomeD(1,2) [OF Some [unfolded find_frozen_record_def]] by auto
    obtain y where y: "\<not> fp_used y" "frozen_recs (record_thaw ticks pd fz) = (frozen_recs fz)[k := y]"
      "frozen_count (record_thaw ticks pd fz) = frozen_count fz - 1"
      using record_thaw_recs [where fz = fz and pd = pd and ticks = ticks] Some by auto
    have "Suc (length (filter fp_used ((frozen_recs fz)[k := y]))) = length (filter fp_used (frozen_recs fz))"
      by (rule count_clear) (use k y in simp_all)
    moreover have "uniq_recs ((frozen_recs fz)[k := y])"
      using ok y(1) by (intro uniq_recs_remove) (simp_all add: recs_ok_def)
    moreover have "fp_pid r < nextpid pt" if "r \<in> set ((frozen_recs fz)[k := y])" "fp_used r" for r
      using set_update_cases [OF that(1)] that(2) y recs_ok_nextpid [OF ok] by blast
    moreover have "j \<noteq> i \<and> frozen (procs pt ! j)"
      if r: "r \<in> set ((frozen_recs fz)[k := y])" "j < NPROC" "fp_used r" "in_use pt j" "pid (procs pt ! j) = fp_pid r" for r j
    proof -
      obtain m where m: "m < length (frozen_recs fz)" "r = (frozen_recs fz)[k := y] ! m"
        using r(1) by (auto simp: in_set_conv_nth)
      then have mk: "m \<noteq> k" using r(3) y(1) by auto
      then have mr: "r = frozen_recs fz ! m" using m by simp
      have "fp_pid r \<noteq> pd"
        using ok k m(1) mk mr r(3) unfolding recs_ok_def uniq_recs_def by blast
      moreover have "frozen (procs pt ! j)"
        using ok r mr m(1) unfolding recs_ok_def by auto
      ultimately show ?thesis using r(5) i(2) by auto
    qed
    ultimately show ?thesis
      using ok unfolding recs_ok_def by (simp add: fl y)
  qed
qed

text \<open>Both invariants together, and every operation keeps them.\<close>

definition fz_inv :: "freezer \<times> ptable \<Rightarrow> bool" where
  "fz_inv s = (pt_ok (snd s) \<and> recs_ok s)"

lemma fz_inv_freeze: "fz_inv s \<Longrightarrow> freeze_process ticks pd reason s = (s', r) \<Longrightarrow> fz_inv s'"
proof (cases s)
  case (Pair fz pt)
  assume inv: "fz_inv s" and f: "freeze_process ticks pd reason s = (s', r)"
  have pt: "pt_ok pt" and ok: "recs_ok (fz, pt)" using inv Pair by (simp_all add: fz_inv_def)
  show ?thesis
  proof (cases "find_live pt pd")
    case None
    then show ?thesis using f inv Pair by (simp add: freeze_process_def)
  next
    case (Some i)
    note live = find_live_Some [OF pt Some]
    show ?thesis
    proof (cases "frozen (procs pt ! i) \<or> pd = 1")
      case True
      then show ?thesis using f inv Pair Some by (auto simp: freeze_process_def split: if_splits)
    next
      case False
      then have s': "s' = (record_freeze ticks pd reason fz, upd_proc pt i (\<lambda>p. p\<lparr>frozen := True, freeze_reason := reason\<rparr>))"
        using f Pair Some by (simp add: freeze_process_def)
      show ?thesis
        using recs_ok_freeze [OF ok pt live(3,2), of ticks reason] pt_ok_flags [OF pt live(1)] False
        by (simp add: s' fz_inv_def)
    qed
  qed
qed

lemma fz_inv_thaw: "fz_inv s \<Longrightarrow> thaw_process ticks pd s = (s', r) \<Longrightarrow> fz_inv s'"
proof (cases s)
  case (Pair fz pt)
  assume inv: "fz_inv s" and f: "thaw_process ticks pd s = (s', r)"
  have pt: "pt_ok pt" and ok: "recs_ok (fz, pt)" using inv Pair by (simp_all add: fz_inv_def)
  show ?thesis
  proof (cases "find_live pt pd")
    case None
    then show ?thesis using f inv Pair by (simp add: thaw_process_def)
  next
    case (Some i)
    note live = find_live_Some [OF pt Some]
    show ?thesis
    proof (cases "frozen (procs pt ! i)")
      case False
      then show ?thesis using f inv Pair Some by (simp add: thaw_process_def)
    next
      case True
      then have s': "s' = (record_thaw ticks pd fz, upd_proc pt i (\<lambda>p. p\<lparr>frozen := False, freeze_reason := 0\<rparr>))"
        using f Pair Some by (simp add: thaw_process_def)
      show ?thesis
        using recs_ok_thaw [OF ok pt live(3,2), of ticks] pt_ok_flags [OF pt live(1)]
        by (simp add: s' fz_inv_def)
    qed
  qed
qed

lemma fold_inv:
  assumes "P a" and "\<And>x a. P a \<Longrightarrow> P (f x a)"
  shows "P (fold f xs a)"
  using assms(1) by (induction xs arbitrary: a) (simp_all add: assms(2))

lemma fz_inv_sweep:
  assumes "fz_inv (fst s0)" and "\<And>pd s s' r. fz_inv s \<Longrightarrow> act pd s = (s', r) \<Longrightarrow> fz_inv s'"
  shows "fz_inv (fst (sweep test act s0))"
  unfolding sweep_def
proof (rule fold_inv [where P = "\<lambda>a. fz_inv (fst a)", OF assms(1)])
  fix i and a :: "(freezer \<times> ptable) \<times> int"
  assume "fz_inv (fst a)"
  then show "fz_inv (fst (case a of (s, n) \<Rightarrow>
      if test (procs (snd s) ! i)
      then (case act (pid (procs (snd s) ! i)) s of (s', r) \<Rightarrow> (s', if r = 0 then n + 1 else n))
      else (s, n)))"
    using assms(2) by (auto split: prod.splits)
qed

lemma fz_inv_cgroup:
  "fz_inv s \<Longrightarrow> fz_inv (fst (freeze_cgroup ticks cg s))" "fz_inv s \<Longrightarrow> fz_inv (fst (thaw_cgroup ticks cg s))"
proof -
  assume inv: "fz_inv s"
  show "fz_inv (fst (freeze_cgroup ticks cg s))"
    unfolding freeze_cgroup_def by (rule fz_inv_sweep) (simp add: inv, erule (1) fz_inv_freeze)
  show "fz_inv (fst (thaw_cgroup ticks cg s))"
    unfolding thaw_cgroup_def by (rule fz_inv_sweep) (simp add: inv, erule (1) fz_inv_thaw)
qed

lemma fz_inv_auto: "fz_inv s \<Longrightarrow> fz_inv (fst (auto_freeze_background ticks s))"
proof -
  assume inv: "fz_inv s"
  let ?step = "\<lambda>prio. sweep (\<lambda>p. pstate p \<noteq> UNUSED \<and> \<not> frozen p \<and> freeze_prio p \<ge> prio)
                  (\<lambda>pd. freeze_process ticks pd FREEZE_REASON_LOWMEM)"
  have "fz_inv (fst (fold ?step [FREEZE_PRIO_CACHED, FREEZE_PRIO_BACKGROUND] (s, 0)))"
  proof (rule fold_inv [where P = "\<lambda>a. fz_inv (fst a)"])
    show "fz_inv (fst (?step prio a))" if "fz_inv (fst a)" for prio a
      by (rule fz_inv_sweep [OF that]) (erule (1) fz_inv_freeze)
  qed (simp add: inv)
  then show ?thesis using inv unfolding auto_freeze_background_def by simp
qed

text \<open>
  What the rest of the kernel may do to the process table between two calls: processes that stay
  keep their number and flag, processes that appear have numbers not given out before. This leaves out
  the wrap-around of \<open>nextpid\<close>.
\<close>

definition evolves :: "ptable \<Rightarrow> ptable \<Rightarrow> bool" where
  "evolves pt pt' = (pt_ok pt' \<and> nextpid pt \<le> nextpid pt'
     \<and> (\<forall>i. in_use pt' i \<longrightarrow>
          in_use pt i \<and> pid (procs pt' ! i) = pid (procs pt ! i) \<and> frozen (procs pt' ! i) = frozen (procs pt ! i)
          \<or> nextpid pt \<le> pid (procs pt' ! i)))"

lemma fz_inv_evolves:
  assumes "fz_inv (fz, pt)" and "evolves pt pt'"
  shows "fz_inv (fz, pt')"
proof -
  have ok: "recs_ok (fz, pt)" using assms(1) by (simp add: fz_inv_def)
  have "frozen (procs pt' ! i)"
    if r: "r \<in> set (frozen_recs fz)" "fp_used r" and i: "i < NPROC" "in_use pt' i" "pid (procs pt' ! i) = fp_pid r" for r i
  proof -
    have "fp_pid r < nextpid pt" by (rule recs_ok_nextpid [OF ok r])
    then have "in_use pt i \<and> pid (procs pt' ! i) = pid (procs pt ! i) \<and> frozen (procs pt' ! i) = frozen (procs pt ! i)"
      using assms(2) i unfolding evolves_def by force
    then show ?thesis using ok r i unfolding recs_ok_def by auto
  qed
  moreover have "fp_pid r < nextpid pt'" if "r \<in> set (frozen_recs fz)" "fp_used r" for r
    using recs_ok_nextpid [OF ok that] assms(2) by (simp add: evolves_def)
  ultimately show ?thesis
    using ok assms(2) by (simp add: fz_inv_def recs_ok_def evolves_def)
qed

text \<open>A successful fork is such a change, as long as \<open>nextpid\<close> does not overflow.\<close>

lemma fork_evolves:
  assumes ok: "pt_ok pt" and i: "in_use pt i" and small: "nextpid pt < INT_MAX"
    and f: "fork pt i (Some t) (Some a) (Some g) True = (pt', cs, r)"
  shows "evolves pt pt'"
proof (cases "find_slot (\<lambda>p. pstate p = UNUSED) (procs pt)")
  case None
  then have "pt' = pt" using f by (simp add: fork_def allocproc_def)
  then show ?thesis using ok by (simp add: evolves_def)
next
  case (Some k)
  have k: "k < NPROC" using slot_less [OF ok Some] by simp
  have inc: "int_inc (nextpid pt) = nextpid pt + 1" using int_inc_less small ok by (simp add: pt_inv_def)
  have pt': "pt' = upd_proc (pt\<lparr>nextpid := nextpid pt + 1\<rparr>) k (\<lambda>_. procs pt' ! k)" "pid (procs pt' ! k) = nextpid pt"
    using f k pt_ok_length [OF ok] inc
    by (auto simp: fork_def allocproc_Ok [OF Some] Let_def upd_nth fork_copy_def new_proc_facts upd_proc_def)
  have "procs pt' ! j = procs pt ! j" if "j \<noteq> k" for j
    using that k pt_ok_length [OF ok] by (subst pt'(1)) (simp add: upd_nth)
  then have "in_use pt' j \<longrightarrow> in_use pt j \<and> pid (procs pt' ! j) = pid (procs pt ! j) \<and> frozen (procs pt' ! j) = frozen (procs pt ! j)
          \<or> nextpid pt \<le> pid (procs pt' ! j)" for j
    using pt'(2) by (cases "j = k") (simp_all add: in_use_def)
  moreover have "nextpid pt' = nextpid pt + 1" by (subst pt'(1)) simp
  ultimately show ?thesis using pt_ok_fork [OF ok f in_use_less [OF i]] small by (simp add: evolves_def)
qed

inductive fz_reach :: "freezer \<times> ptable \<Rightarrow> bool" where
  start: "pt_ok pt \<Longrightarrow> fz_reach (freezer_init, pt)"
| freeze: "fz_reach s \<Longrightarrow> freeze_process ticks pd reason s = (s', r) \<Longrightarrow> fz_reach s'"
| thaw: "fz_reach s \<Longrightarrow> thaw_process ticks pd s = (s', r) \<Longrightarrow> fz_reach s'"
| freeze_cgroup: "fz_reach s \<Longrightarrow> fz_reach (fst (freeze_cgroup ticks cg s))"
| thaw_cgroup: "fz_reach s \<Longrightarrow> fz_reach (fst (thaw_cgroup ticks cg s))"
| auto: "fz_reach s \<Longrightarrow> fz_reach (fst (auto_freeze_background ticks s))"
| procs: "fz_reach (fz, pt) \<Longrightarrow> evolves pt pt' \<Longrightarrow> fz_reach (fz, pt')"

lemma fz_reach_inv: "fz_reach s \<Longrightarrow> fz_inv s"
proof (induction rule: fz_reach.induct)
  case (start pt)
  then show ?case by (simp add: fz_inv_def recs_ok_def freezer_init_def uniq_recs_def)
next
  case (procs fz pt pt')
  then show ?case using fz_inv_evolves by blast
qed (erule (1) fz_inv_freeze fz_inv_thaw | erule fz_inv_cgroup fz_inv_auto)+

section \<open>Properties\<close>

text \<open>
  the freezer's records are exact. After any sequence of freezes, thaws, sweeps over control
  groups or background processes and changes of the process table, the count is the number of
  records in use, at most one record names a process, a living process that has a record is frozen,
  and thawing it succeeds and frees its record.
\<close>

theorem freezer_records_exact:
  assumes "fz_reach (fz, pt)" and "r \<in> set (frozen_recs fz)" and "fp_used r" and "in_use pt i" and "pid (procs pt ! i) = fp_pid r"
  shows "frozen_count fz = int (length (filter fp_used (frozen_recs fz)))
       \<and> frozen (procs pt ! i)
       \<and> (\<exists>fz' pt'. thaw_process ticks (fp_pid r) (fz, pt) = ((fz', pt'), 0)
            \<and> find_frozen_record fz' (fp_pid r) = None \<and> \<not> frozen (procs pt' ! i) \<and> frozen_count fz' = frozen_count fz - 1)"
proof -
  have inv: "pt_ok pt" "recs_ok (fz, pt)" using fz_reach_inv [OF assms(1)] by (simp_all add: fz_inv_def)
  have i: "i < NPROC" using assms(4) by (simp add: in_use_def)
  have fr: "frozen (procs pt ! i)" using inv(2) assms(2-5) i unfolding recs_ok_def by blast
  obtain k where k: "find_live pt (fp_pid r) = Some k"
    using find_live_None [OF inv(1) _ assms(4), of "fp_pid r"] assms(5) by (cases "find_live pt (fp_pid r)") auto
  have "k = i" using pid_inj [OF inv(1) assms(4)] find_live_Some [OF inv(1) k] assms(5) by simp
  then have th: "thaw_process ticks (fp_pid r) (fz, pt) =
      ((record_thaw ticks (fp_pid r) fz, upd_proc pt i (\<lambda>p. p\<lparr>frozen := False, freeze_reason := 0\<rparr>)), 0)"
    using k fr by (simp add: thaw_process_def)
  note fl = flag_nth [OF inv(1) assms(4), where b = False and rs = 0]
  have nf: "\<not> frozen (procs (upd_proc pt i (\<lambda>p. p\<lparr>frozen := False, freeze_reason := 0\<rparr>)) ! i)" by (simp add: fl)
  have "recs_ok (record_thaw ticks (fp_pid r) fz, upd_proc pt i (\<lambda>p. p\<lparr>frozen := False, freeze_reason := 0\<rparr>))"
    by (rule recs_ok_thaw [OF inv(2,1) assms(4,5)])
  with nf i assms(4,5) have "\<forall>q \<in> set (frozen_recs (record_thaw ticks (fp_pid r) fz)). \<not> (fp_used q \<and> fp_pid q = fp_pid r)"
    unfolding recs_ok_def by (simp add: fl) metis
  then have none: "find_frozen_record (record_thaw ticks (fp_pid r) fz) (fp_pid r) = None"
    by (simp add: find_frozen_record_def find_slot_None_iff)
  have "find_frozen_record fz (fp_pid r) \<noteq> None"
    using assms(2,3) by (auto simp: find_frozen_record_def find_slot_None_iff)
  then have "frozen_count (record_thaw ticks (fp_pid r) fz) = frozen_count fz - 1"
    using record_thaw_recs [where fz = fz and pd = "fp_pid r" and ticks = ticks] by auto
  with th none nf fr inv(2) show ?thesis by (auto simp: recs_ok_def)
qed

theorem freezer_records_exact_witness:
  "\<exists>fz pt. fz_reach (fz, pt) \<and> frozen_count fz = 1 \<and> (\<exists>fz' pt'. thaw_process 9 2 (fz, pt) = ((fz', pt'), 0) \<and> frozen_count fz' = 0)"
proof -
  let ?s = "(freezer_init, forked_table)"
  have ok: "pt_ok forked_table" by (rule proc_reach_ok [OF forked_reach])
  have "find_live forked_table 2 \<noteq> None"
    using find_live_None [OF ok _ forked_facts(2)] forked_facts(5) by blast
  then obtain k where k: "find_live forked_table 2 = Some k" by blast
  then have "k = 1" using pid_inj [OF ok forked_facts(2), of k] find_live_Some [OF ok k] forked_facts(5) by simp
  moreover have "\<not> frozen (procs forked_table ! 1)"
    by (simp add: forked_eq upd_nth boot_table_facts fork_copy_def new_proc_def alloc_after_def)
  ultimately have f: "freeze_process 5 2 1 ?s =
      ((record_freeze 5 2 1 freezer_init, upd_proc forked_table 1 (\<lambda>p. p\<lparr>frozen := True, freeze_reason := 1\<rparr>)), 0)"
    using k by (simp add: freeze_process_def)
  let ?fz = "record_freeze 5 2 1 freezer_init"
  let ?pt = "upd_proc forked_table 1 (\<lambda>p. p\<lparr>frozen := True, freeze_reason := 1\<rparr>)"
  have r: "fz_reach (?fz, ?pt)" by (rule fz_reach.freeze [OF fz_reach.start [OF ok] f])
  have none: "find_frozen_record freezer_init 2 = None"
    by (simp add: find_frozen_record_def freezer_init_def find_slot_None_iff)
  have "alloc_frozen_record freezer_init = Some 0"
    by (simp add: alloc_frozen_record_def freezer_init_def MAX_FROZEN_PROCS_def find_slot_Some_iff)
  then have fz: "frozen_count ?fz = 1" "fp_used (frozen_recs ?fz ! 0)" "fp_pid (frozen_recs ?fz ! 0) = 2"
    "0 < length (frozen_recs ?fz)"
    using none by (simp_all add: record_freeze_def Let_def FREEZE_REASON_LOWMEM_def)
      (simp_all add: freezer_init_def MAX_FROZEN_PROCS_def)
  have mem: "frozen_recs ?fz ! 0 \<in> set (frozen_recs ?fz)" using fz(4) by simp
  note fl = flag_nth [OF ok forked_facts(2), where b = True and rs = 1]
  have u: "in_use ?pt 1" "pid (procs ?pt ! 1) = fp_pid (frozen_recs ?fz ! 0)"
    unfolding fl using forked_facts(2,5) fz(3) by simp_all
  from freezer_records_exact [OF r mem fz(2) u, of 9] show ?thesis
    using r fz by auto
qed

section \<open>The scheduler does not look at the flag\<close>

definition same_sched :: "proc \<Rightarrow> proc \<Rightarrow> bool" where
  "same_sched p q = (pstate p = pstate q \<and> sched_policy p = sched_policy q \<and> rt_priority p = rt_priority q
     \<and> deadline p = deadline q \<and> period p = period q \<and> runtime p = runtime q
     \<and> runtime_remaining p = runtime_remaining q \<and> mlfq_level p = mlfq_level q)"

lemma same_sched_steps:
  "same_sched p q \<Longrightarrow> same_sched (boost p) (boost q)"
  "same_sched p q \<Longrightarrow> same_sched (new_period t p) (new_period t q)"
  by (simp_all add: same_sched_def boost_def new_period_def)

lemma same_sched_scans:
  assumes "list_all2 same_sched ps qs"
  shows "find_deadline_from ps i best d = find_deadline_from qs i best d"
    and "find_rt_from ps i best b = find_rt_from qs i best b"
    and "find_slot (at_level l) ps = find_slot (at_level l) qs"
  using assms
  by (induction arbitrary: i best d b rule: list_all2_induct)
    (auto simp: same_sched_def is_deadline_def is_rt_def at_level_def)

lemma same_sched_mlfq: "list_all2 same_sched (procs pt) (procs qt) \<Longrightarrow> find_mlfq pt l = find_mlfq qt l"
proof (induction pt l rule: find_mlfq.induct)
  case (1 pt l)
  then show ?case
    by (subst (1 2) find_mlfq.simps) (auto simp: same_sched_scans(3) [OF "1.prems"] split: option.splits)
qed

lemma sched_select_same:
  assumes "list_all2 same_sched (procs (tab st)) (procs pt)"
  shows "snd (sched_select t (st\<lparr>tab := pt\<rparr>)) = snd (sched_select t st)"
proof -
  let ?a = "update_deadline_periods t (sched_boost st)"
  let ?b = "update_deadline_periods t (sched_boost (st\<lparr>tab := pt\<rparr>))"
  have "list_all2 same_sched (procs (tab (sched_boost st))) (procs (tab (sched_boost (st\<lparr>tab := pt\<rparr>))))"
    using assms
    by (auto simp: sched_boost_def Let_def upd_tab_def mlfq_priority_boost_def list_all2_map1 list_all2_map2
        elim!: list_all2_mono same_sched_steps)
  then have s: "list_all2 same_sched (procs (tab ?a)) (procs (tab ?b))"
    by (auto simp: update_deadline_periods_def list_all2_map1 list_all2_map2 elim!: list_all2_mono same_sched_steps)
  have "find_deadline_process (tab ?a) = find_deadline_process (tab ?b)"
    "find_rt_process (tab ?a) = find_rt_process (tab ?b)"
    using same_sched_scans(1,2) [OF s] by (simp_all add: find_deadline_process_def find_rt_process_def)
  moreover have "find_mlfq (tab ?a) 0 = find_mlfq (tab ?b) 0" by (rule same_sched_mlfq [OF s])
  ultimately show ?thesis
    by (simp add: sched_select_def Let_def split: option.splits)
qed

text \<open>
  freezing has no effect on scheduling. Whatever process is frozen, the scheduler's next choice
  is the one it would have made otherwise: a frozen process that is runnable keeps being run.
\<close>

theorem frozen_process_still_scheduled:
  "snd (sched_select t (st\<lparr>tab := snd (fst (freeze_process ticks pd reason (fz, tab st)))\<rparr>)) = snd (sched_select t st)"
proof (rule sched_select_same)
  have refl: "list_all2 same_sched ps ps" for ps
    by (simp add: list_all2_conv_all_nth same_sched_def)
  have "list_all2 same_sched (procs pt) (procs (upd_proc pt i (\<lambda>p. p\<lparr>frozen := True, freeze_reason := reason\<rparr>)))" for pt i
    by (cases "i < length (procs pt)")
      (auto simp: list_all2_conv_all_nth upd_proc_def nth_list_update same_sched_def list_update_beyond)
  then show "list_all2 same_sched (procs (tab st)) (procs (snd (fst (freeze_process ticks pd reason (fz, tab st)))))"
    using refl by (simp add: freeze_process_def split: option.splits)
qed

end
