(* ===== verification/Capability.thy ===== *)
theory Capability
  imports Freezer
begin

text \<open>
  The capability sets of processes, \<open>src/kernel/proc/capability.c\<close>: checks with their statistics and
  audit log, changes of the four sets of a process, and the functions for their inheritance, which the
  rest of the kernel never calls: a new process gets its sets from \<open>allocproc\<close>.
  Statistics are counters of 64 bits, the index of the audit log is an \<open>int\<close> that wraps around; the
  calling process is given by its index in the table.
\<close>

section \<open>Operations\<close>

definition CAP_MAX :: int where "CAP_MAX = 32"

definition CAP_SETFCAP :: int where "CAP_SETFCAP = 17"

definition MAX_CAP_AUDIT :: nat where "MAX_CAP_AUDIT = 64"

text \<open>The remainder in C has the sign of the dividend.\<close>

definition c_rem :: "int \<Rightarrow> int \<Rightarrow> int" where
  "c_rem a b = sgn a * (\<bar>a\<bar> mod b)"

record cap_audit =
  ca_pid :: int
  ca_cap :: int
  ca_granted :: bool
  ca_timestamp :: u64

record cap_mgr =
  default_caps :: u32
  root_caps :: u32
  total_checks :: u64
  total_granted :: u64
  total_denied :: u64
  cap_audit_log :: "cap_audit list"
  cap_audit_idx :: int

definition no_audit :: cap_audit where
  "no_audit = \<lparr>ca_pid = 0, ca_cap = 0, ca_granted = False, ca_timestamp = 0\<rparr>"

definition capability_init :: cap_mgr where
  "capability_init = \<lparr>default_caps = push_bit 26 1 OR push_bit 28 1, root_caps = 0xFFFFFFFF, total_checks = 0,
     total_granted = 0, total_denied = 0, cap_audit_log = replicate MAX_CAP_AUDIT no_audit, cap_audit_idx = 0\<rparr>"

definition cap_bit :: "int \<Rightarrow> u32" where
  "cap_bit cap = push_bit (nat cap) 1"

text \<open>Whether a process has a capability, without the bookkeeping.\<close>

definition has_cap :: "ptable \<Rightarrow> int \<Rightarrow> int \<Rightarrow> bool" where
  "has_cap pt pd cap =
     (case find_live pt pd of
        None \<Rightarrow> False
      | Some i \<Rightarrow> uid (procs pt ! i) = 0 \<or> caps_effective (procs pt ! i) AND cap_bit cap \<noteq> 0)"

text \<open>
  A new entry of the audit log. After $2^{31}$ checks the index is negative, and unless it is a multiple of
  64 the store goes to memory in front of the log, which is not represented here.
\<close>

definition audit_store :: "int \<Rightarrow> cap_audit \<Rightarrow> cap_audit list \<Rightarrow> cap_audit list" where
  "audit_store idx a l =
     (let k = c_rem idx (int MAX_CAP_AUDIT) in if k < 0 then l else l[nat k := a])"

definition cap_check :: "u32 \<Rightarrow> int \<Rightarrow> int \<Rightarrow> ptable \<Rightarrow> cap_mgr \<Rightarrow> cap_mgr \<times> bool" where
  "cap_check now pd cap pt c =
     (if cap < 0 \<or> cap \<ge> CAP_MAX then (c, False)
      else let h = has_cap pt pd cap
           in (c\<lparr>total_checks := total_checks c + 1,
                 total_granted := (if h then total_granted c + 1 else total_granted c),
                 total_denied := (if h then total_denied c else total_denied c + 1),
                 cap_audit_log := audit_store (cap_audit_idx c)
                   \<lparr>ca_pid = pd, ca_cap = cap, ca_granted = h, ca_timestamp = ucast now\<rparr> (cap_audit_log c),
                 cap_audit_idx := int_inc (cap_audit_idx c)\<rparr>, h))"

definition cap_capable :: "u32 \<Rightarrow> nat \<Rightarrow> int \<Rightarrow> ptable \<Rightarrow> cap_mgr \<Rightarrow> cap_mgr \<times> bool" where
  "cap_capable now me cap pt c = cap_check now (pid (procs pt ! me)) cap pt c"

text \<open>The change of one set, by the kind of the set.\<close>

definition set_caps :: "int \<Rightarrow> u32 \<Rightarrow> proc \<Rightarrow> proc" where
  "set_caps cap_type caps p =
     (if cap_type = 0 then p\<lparr>caps_effective := caps AND caps_permitted p\<rparr>
      else if cap_type = 1 then p\<lparr>caps_permitted := caps AND caps_bounding p\<rparr>
      else if cap_type = 2 then p\<lparr>caps_inheritable := caps\<rparr>
      else p\<lparr>caps_bounding := caps_bounding p AND caps\<rparr>)"

definition cap_set :: "u32 \<Rightarrow> nat \<Rightarrow> int \<Rightarrow> int \<Rightarrow> u32 \<Rightarrow> ptable \<Rightarrow> cap_mgr \<Rightarrow> ptable \<times> cap_mgr \<times> int" where
  "cap_set now me pd cap_type caps pt c =
     (if cap_type < 0 \<or> cap_type > 3 then (pt, c, - 1)
      else let (c, allowed) = (if uid (procs pt ! me) \<noteq> 0 then cap_capable now me CAP_SETFCAP pt c else (c, True))
           in if \<not> allowed then (pt, c, - 1)
              else (case find_live pt pd of
                      None \<Rightarrow> (pt, c, - 1)
                    | Some i \<Rightarrow> (upd_proc pt i (set_caps cap_type caps), c, 0)))"

definition get_caps :: "int \<Rightarrow> proc \<Rightarrow> u32" where
  "get_caps cap_type p =
     (if cap_type = 0 then caps_effective p else if cap_type = 1 then caps_permitted p
      else if cap_type = 2 then caps_inheritable p else caps_bounding p)"

definition cap_get :: "int \<Rightarrow> int \<Rightarrow> ptable \<Rightarrow> u32 option" where
  "cap_get pd cap_type pt =
     (if cap_type < 0 \<or> cap_type > 3 then None
      else map_option (\<lambda>i. get_caps cap_type (procs pt ! i)) (find_live pt pd))"

definition cap_raise :: "u32 \<Rightarrow> nat \<Rightarrow> int \<Rightarrow> int \<Rightarrow> ptable \<Rightarrow> cap_mgr \<Rightarrow> ptable \<times> cap_mgr \<times> int" where
  "cap_raise now me pd cap pt c =
     (if cap < 0 \<or> cap \<ge> CAP_MAX then (pt, c, - 1)
      else (case cap_get pd 0 pt of
              None \<Rightarrow> (pt, c, - 1)
            | Some cur \<Rightarrow> cap_set now me pd 0 (cur OR cap_bit cap) pt c))"


definition cap_fork_init :: "proc \<Rightarrow> proc \<Rightarrow> proc" where
  "cap_fork_init child par = child\<lparr>
     caps_effective := caps_inheritable par AND caps_permitted par,
     caps_permitted := caps_inheritable par AND caps_bounding par,
     caps_inheritable := caps_inheritable par, caps_bounding := caps_bounding par\<rparr>"


section \<open>The bound of a process\<close>






text \<open>
  The life of process \<open>i\<close>, from a moment at which its sets are within a bound until it is freed: calls on its
  sets and on those of others by any process, and everything else the kernel does, to this and other
  processes. Outside of \<open>capability.c\<close> only \<open>allocproc\<close> writes the sets, of a new process.
\<close>

definition same_caps :: "proc \<Rightarrow> proc \<Rightarrow> bool" where
  "same_caps p q = (caps_effective q = caps_effective p \<and> caps_permitted q = caps_permitted p
     \<and> caps_inheritable q = caps_inheritable p \<and> caps_bounding q = caps_bounding p)"




lemma find_live_less: "find_live pt pd = Some i \<Longrightarrow> i < length (procs pt)"
  unfolding find_live_def by (rule find_slot_SomeD(1))





text \<open>A fork by any process leaves the sets of a process in use alone.\<close>

lemma fork_keeps_caps:
  assumes "proc_reach pt" and "in_use pt j" and "in_use pt i" and "fork pt j (Some t) (Some a) (Some g) True = (pt', cs, r)"
  shows "same_caps (procs pt ! i) (procs pt' ! i)"
proof (cases "find_slot (\<lambda>p. pstate p = UNUSED) (procs pt)")
  case None
  then have "pt' = pt" using assms(4) by (simp add: fork_def allocproc_def)
  then show ?thesis by (simp add: same_caps_def)
next
  case (Some k)
  note ok = proc_reach_ok [OF assms(1)]
  have "k < NPROC" "k \<noteq> i" using slot_less [OF ok Some] assms(3) by (auto simp: in_use_def)
  then have "procs pt' ! i = procs pt ! i"
    using assms(4) pt_ok_length [OF ok] by (auto simp: fork_def allocproc_Ok [OF Some] Let_def upd_nth)
  then show ?thesis by (simp add: same_caps_def)
qed

section \<open>Properties\<close>


text \<open>A table with root and a user process that has one capability.\<close>

definition user_table :: ptable where
  "user_table = \<lparr>procs = [zero_proc\<lparr>pstate := RUNNING, pid := 1\<rparr>,
      zero_proc\<lparr>pstate := RUNNABLE, pid := 2, uid := 1, caps_effective := 16, caps_permitted := 16, caps_bounding := 255\<rparr>],
    nextpid = 3, initproc = Some 0\<rparr>"

lemma user_table_live: "find_live user_table 2 = Some 1" "find_live user_table 1 = Some 0"
  by (simp_all add: find_live_def user_table_def zero_proc_def)



lemma cap_bit_nonzero: "0 \<le> cap \<Longrightarrow> cap < CAP_MAX \<Longrightarrow> cap_bit cap \<noteq> 0"
proof
  assume c: "0 \<le> cap" "cap < CAP_MAX" and z: "cap_bit cap = 0"
  have "bit (cap_bit cap) (nat cap)" using c by (auto simp: cap_bit_def CAP_MAX_def nat_less_iff bit_simps simp del: push_bit_of_1)
  then show False by (simp add: z)
qed

lemma raise_within_all: "((x OR y) AND 0xFFFFFFFF) AND y = (y :: u32)"
proof -
  have all: "(0xFFFFFFFF :: u32) = - 1" by simp
  have "((x OR y) AND 0xFFFFFFFF) AND y = (x OR y) AND y" unfolding all and.right_neutral ..
  also have "\<dots> = y" by (auto simp: bit_eq_iff bit_simps)
  finally show ?thesis .
qed

text \<open>
  C38: taking a capability away from the permitted set has no effect. When root clears the permitted set of
  a process, every check for that process has the same result as before: the effective set is not reduced
  to the permitted one, although \<open>cap_set\<close> means to keep the effective set within it.
\<close>

theorem revoked_capability_still_granted:
  assumes i: "find_live pt pd = Some i" and root: "uid (procs pt ! me) = 0" and s: "cap_set now me pd 1 0 pt c = (pt', c', r)"
  shows "find_live pt' pd = Some i \<and> caps_permitted (procs pt' ! i) = 0 \<and> has_cap pt' pd cap = has_cap pt pd cap"
proof -
  have pt': "pt' = upd_proc pt i (set_caps 1 0)" using i root s by (simp add: cap_set_def)
  have il: "i < length (procs pt)" by (rule find_live_less [OF i])
  have f: "find_live pt' pd = Some i"
    using i il by (simp add: find_live_def find_slot_Some_iff pt' upd_proc_def set_caps_def)
  have "procs pt' ! i = set_caps 1 0 (procs pt ! i)" using il by (simp add: pt' upd_proc_def)
  then show ?thesis using f i by (simp add: has_cap_def set_caps_def)
qed

theorem revoked_capability_still_granted_witness:
  "\<exists>pt' c' r. cap_set 0 0 2 1 0 user_table capability_init = (pt', c', r) \<and> caps_permitted (procs pt' ! 1) = 0 \<and> has_cap pt' 2 4"
proof -
  obtain pt' c' r where s: "cap_set 0 0 2 1 0 user_table capability_init = (pt', c', r)" using prod_cases3 by blast
  have "uid (procs user_table ! 0) = 0" by (simp add: user_table_def zero_proc_def)
  from revoked_capability_still_granted [OF user_table_live(1) this s, of 4]
  have "caps_permitted (procs pt' ! 1) = 0" "has_cap pt' 2 4 = has_cap user_table 2 4" by blast+
  moreover have "has_cap user_table 2 4"
    unfolding has_cap_def user_table_live by (simp add: user_table_def zero_proc_def cap_bit_def)
  ultimately show ?thesis using s by blast
qed

text \<open>
  A child escapes the bound of its parent. Whatever the sets of the caller are, empty ones included, a child
  made by fork has all capabilities in its permitted and bounding sets, so that a raise by root makes a check
  grant it any of them: fork does not call \<open>cap_fork_init\<close>, which would pass on the sets of the parent.
\<close>

lemma fork_escapes_bound:
  assumes r: "proc_run True pt" and i: "in_use pt i" and small: "nextpid pt < INT_MAX"
    and slot: "find_slot (\<lambda>p. pstate p = UNUSED) (procs pt) = Some k"
    and f: "fork pt i (Some t) (Some a) (Some g) True = (pt1, cs, pd)"
    and me: "me < NPROC" "me \<noteq> k" "uid (procs pt ! me) = 0" and cap: "0 \<le> cap" "cap < CAP_MAX"
  shows "uid (procs pt1 ! k) = uid (procs pt ! i)
       \<and> caps_permitted (procs pt1 ! k) = 0xFFFFFFFF \<and> caps_bounding (procs pt1 ! k) = 0xFFFFFFFF
       \<and> (\<exists>pt2 c2 c3. cap_raise now me pd cap pt1 c = (pt2, c2, 0) \<and> cap_check now pd cap pt2 c2 = (c3, True))"
proof -
  note ok = proc_reach_ok [OF r]
  note len = pt_ok_length [OF ok]
  have k: "k < NPROC" using slot_less [OF ok slot] by simp
  have ok1: "pt_ok pt1" using pt_ok_fork [OF ok f in_use_less [OF i]] small by simp
  have ik: "i \<noteq> k" using slot_less [OF ok slot] i by (auto simp: in_use_def)
  have C: "pd = nextpid pt" "pid (procs pt1 ! k) = pd" "pstate (procs pt1 ! k) = RUNNABLE"
    "uid (procs pt1 ! k) = uid (procs pt ! i)" "caps_permitted (procs pt1 ! k) = 0xFFFFFFFF"
    "caps_bounding (procs pt1 ! k) = 0xFFFFFFFF" "procs pt1 ! me = procs pt ! me"
    using f k ik me(2) len
    by (auto simp: fork_def allocproc_Ok [OF slot] Let_def upd_nth fork_copy_def new_proc_facts)
      (auto simp: new_proc_def alloc_after_def)
  have u: "in_use pt1 k" using k C(3) by (simp add: in_use_def)
  then obtain j where j: "find_live pt1 pd = Some j"
    using find_live_None [OF ok1 _ u] C(2) by (cases "find_live pt1 pd") auto
  then have l: "find_live pt1 pd = Some k" using find_live_Some [OF ok1 j] pid_inj [OF ok1 u, of j] C(2) by simp
  let ?f = "set_caps 0 (caps_effective (procs pt1 ! k) OR cap_bit cap)"
  have ra: "cap_raise now me pd cap pt1 c = (upd_proc pt1 k ?f, c, 0)"
    using cap l me C(7) by (simp add: cap_raise_def cap_get_def cap_set_def get_caps_def)
  have l2: "find_live (upd_proc pt1 k ?f) pd = Some k"
    using l k pt_ok_length [OF ok1] by (simp add: find_live_def find_slot_Some_iff upd_proc_def set_caps_def)
  have "caps_effective (?f (procs pt1 ! k)) AND cap_bit cap = cap_bit cap"
    using C(5) by (simp add: set_caps_def raise_within_all)
  then have "has_cap (upd_proc pt1 k ?f) pd cap"
    unfolding has_cap_def l2 using k pt_ok_length [OF ok1] cap cap_bit_nonzero [OF cap] by (simp add: upd_nth)
  then have "snd (cap_check now pd cap (upd_proc pt1 k ?f) c)" using cap by (simp add: cap_check_def Let_def)
  then show ?thesis using C ra by (metis prod.collapse)
qed

text \<open>The child of the first process without capabilities and with an empty bound.\<close>

definition bounded_table :: ptable where
  "bounded_table = upd_proc forked_table 1 (\<lambda>p. p\<lparr>uid := 1, caps_permitted := 0, caps_bounding := 0\<rparr>)"

lemma bounded_procs:
  "length (procs bounded_table) = NPROC" "procs bounded_table ! 0 = procs boot_table ! 0"
  "procs bounded_table ! 1 = (procs forked_table ! 1)\<lparr>uid := 1, caps_permitted := 0, caps_bounding := 0\<rparr>"
  "1 < j \<Longrightarrow> j < NPROC \<Longrightarrow> procs bounded_table ! j = zero_proc\<lparr>kstack := KSTACK j\<rparr>" "nextpid bounded_table = 3"
  by (simp_all add: bounded_table_def forked_eq upd_proc_def boot_table_facts)

lemma bounded_facts:
  "proc_run True bounded_table" "in_use bounded_table 1" "nextpid bounded_table < INT_MAX"
  "find_slot (\<lambda>p. pstate p = UNUSED) (procs bounded_table) = Some 2" "uid (procs bounded_table ! 0) = 0"
proof -
  show "proc_run True bounded_table"
    unfolding bounded_table_def by (rule proc_run.other [OF forked_reach]) (simp_all add: keeps_def)
  have p1: "pstate (procs bounded_table ! 1) \<noteq> UNUSED" using forked_facts(2) unfolding bounded_procs(3) by (simp add: in_use_def)
  then show "in_use bounded_table 1" by (simp add: in_use_def)
  show "nextpid bounded_table < INT_MAX" by (simp add: bounded_procs INT_MAX_def)
  have p0: "pstate (procs bounded_table ! 0) \<noteq> UNUSED" by (simp add: bounded_procs boot_table_facts)
  have "pstate (procs bounded_table ! 2) = UNUSED" by (simp add: bounded_procs NPROC_def zero_proc_def)
  moreover have "pstate (procs bounded_table ! j) \<noteq> UNUSED" if "j < 2" for j
    using that p0 p1 by (cases "j = 0") (auto simp: less_2_cases_iff)
  ultimately show "find_slot (\<lambda>p. pstate p = UNUSED) (procs bounded_table) = Some 2"
    by (simp add: find_slot_Some_iff bounded_procs(1) NPROC_def)
  show "uid (procs bounded_table ! 0) = 0"
    by (simp add: bounded_procs boot_table_def upd_proc_def procinit_def NPROC_def new_proc_def alloc_after_def)
qed

lemma fork_escapes_bound_example:
  "\<exists>pt1 cs pd. caps_bounding (procs bounded_table ! 1) = 0 \<and> caps_permitted (procs bounded_table ! 1) = 0
     \<and> fork bounded_table 1 (Some 0) (Some 0) (Some 0) True = (pt1, cs, pd) \<and> caps_bounding (procs pt1 ! 2) = 0xFFFFFFFF"
proof -
  obtain pt1 cs pd where f: "fork bounded_table 1 (Some 0) (Some 0) (Some 0) True = (pt1, cs, pd)" by (rule prod_cases3)
  have z: "(0 :: nat) < NPROC" "(0 :: nat) \<noteq> 2" "(0 :: int) \<le> 0" "0 < CAP_MAX" by (simp_all add: CAP_MAX_def)
  have "caps_bounding (procs pt1 ! 2) = 0xFFFFFFFF"
    using fork_escapes_bound [OF bounded_facts(1-4) f z(1,2) bounded_facts(5) z(3,4)] by blast
  moreover have "caps_bounding (procs bounded_table ! 1) = 0" "caps_permitted (procs bounded_table ! 1) = 0"
    unfolding bounded_procs(3) by simp_all
  ultimately show ?thesis using f by blast
qed

end
