(* ===== verification/Fs_Block.thy ===== *)
theory Fs_Block
  imports Disk_Block
begin

text \<open>
  The bottom of the file system, \<open>src/kernel/filesystem/fs.c\<close>: the super block and the allocation of
  disk blocks by a bitmap. The routines run inside a transaction: \<open>bread\<close> gives the latest contents
  of a block and \<open>log_write\<close> stores them, as the theories of the buffer cache and the log show, so
  that the disk is a function from block numbers to blocks here. Block numbers are natural numbers.
\<close>

section \<open>Operations\<close>

type_synonym blocks = "nat \<Rightarrow> block"

definition FSMAGIC :: nat where
  "FSMAGIC = 0x10203040"

record superblock =
  magic :: nat
  sb_size :: nat
  nblocks :: nat
  ninodes :: nat
  nlog :: nat
  logstart :: nat
  inodestart :: nat
  bmapstart :: nat

definition readsb :: "blocks \<Rightarrow> superblock" where
  "readsb d =
     (let w = (\<lambda>k. unat (get32 (d 1) (4 * k)))
      in \<lparr>magic = w 0, sb_size = w 1, nblocks = w 2, ninodes = w 3, nlog = w 4, logstart = w 5,
          inodestart = w 6, bmapstart = w 7\<rparr>)"

text \<open>\<open>fsinit\<close> up to the call of \<open>initlog\<close>.\<close>

definition fsinit :: "blocks \<Rightarrow> superblock kres" where
  "fsinit d = (if magic (readsb d) \<noteq> FSMAGIC then Inl ''invalid file system'' else Inr (readsb d))"

definition BPB :: nat where
  "BPB = BSIZE * 8"

definition BBLOCK :: "nat \<Rightarrow> superblock \<Rightarrow> nat" where
  "BBLOCK b sb = b div BPB + bmapstart sb"

definition zeroed :: "block \<Rightarrow> block" where
  "zeroed blk = (\<lambda>i. if i < BSIZE then 0 else blk i)"

definition bzero :: "nat \<Rightarrow> blocks \<Rightarrow> blocks" where
  "bzero b d = d(b := zeroed (d b))"

definition bit_mask :: "nat \<Rightarrow> u8" where
  "bit_mask bi = push_bit (bi mod 8) 1"

definition bit_free :: "block \<Rightarrow> nat \<Rightarrow> bool" where
  "bit_free blk bi = (blk (bi div 8) AND bit_mask bi = 0)"

function find_free_bit :: "superblock \<Rightarrow> block \<Rightarrow> nat \<Rightarrow> nat \<Rightarrow> nat option" where
  "find_free_bit sb blk b bi =
     (if bi < BPB \<and> b + bi < sb_size sb
      then (if bit_free blk bi then Some bi else find_free_bit sb blk b (bi + 1))
      else None)"
  by pat_completeness auto
termination by (relation "measure (\<lambda>(sb, blk, b, bi). BPB - bi)") auto

declare find_free_bit.simps [simp del]

definition mark_bit :: "superblock \<Rightarrow> nat \<Rightarrow> nat \<Rightarrow> blocks \<Rightarrow> blocks" where
  "mark_bit sb b bi d =
     (let blk = d (BBLOCK b sb)
      in d(BBLOCK b sb := blk(bi div 8 := blk (bi div 8) OR bit_mask bi)))"

function balloc_from :: "superblock \<Rightarrow> nat \<Rightarrow> blocks \<Rightarrow> (blocks \<times> nat) kres" where
  "balloc_from sb b d =
     (if b < sb_size sb
      then (case find_free_bit sb (d (BBLOCK b sb)) b 0 of
              Some bi \<Rightarrow> Inr (bzero (b + bi) (mark_bit sb b bi d), b + bi)
            | None \<Rightarrow> balloc_from sb (b + BPB) d)
      else Inl ''balloc: out of blocks'')"
  by pat_completeness auto
termination by (relation "measure (\<lambda>(sb, b, d). sb_size sb - b)") (auto simp: BPB_def)

declare balloc_from.simps [simp del]

definition balloc :: "superblock \<Rightarrow> blocks \<Rightarrow> (blocks \<times> nat) kres" where
  "balloc sb d = balloc_from sb 0 d"

definition bfree :: "superblock \<Rightarrow> nat \<Rightarrow> blocks \<Rightarrow> blocks kres" where
  "bfree sb b d =
     (let blk = d (BBLOCK b sb); bi = b mod BPB
      in if bit_free blk bi then Inl ''freeing free block''
         else Inr (d(BBLOCK b sb := blk(bi div 8 := blk (bi div 8) AND NOT (bit_mask bi)))))"

section \<open>The set of blocks in use\<close>

definition blk_used :: "superblock \<Rightarrow> blocks \<Rightarrow> nat \<Rightarrow> bool" where
  "blk_used sb d b = (\<not> bit_free (d (BBLOCK b sb)) (b mod BPB))"

definition bitmap_blocks :: "superblock \<Rightarrow> nat set" where
  "bitmap_blocks sb = {BBLOCK b sb |b. b < sb_size sb}"

text \<open>What \<open>mkfs\<close> sets up and every operation keeps: the bitmap covers itself.\<close>

definition bitmap_ok :: "superblock \<Rightarrow> blocks \<Rightarrow> bool" where
  "bitmap_ok sb d = (\<forall>c \<in> bitmap_blocks sb. c < sb_size sb \<and> blk_used sb d c)"

lemma bit_free_iff: "bit_free blk bi \<longleftrightarrow> \<not> bit (blk (bi div 8)) (bi mod 8)"
proof -
  have "bit_free blk bi \<longleftrightarrow> (\<forall>n < 8. \<not> (bit (blk (bi div 8)) n \<and> n = bi mod 8))"
    by (auto simp: bit_free_def bit_mask_def bit_eq_iff bit_simps)
  moreover have "bi mod 8 < 8" by simp
  ultimately show ?thesis by blast
qed

lemma BPB_split: "b div BPB = c div BPB \<Longrightarrow> b mod BPB = c mod BPB \<Longrightarrow> b = c"
  by (metis div_mult_mod_eq)

lemma bit_split: "b div 8 = c div 8 \<Longrightarrow> b mod 8 = c mod 8 \<Longrightarrow> b = (c :: nat)"
  by (metis div_mult_mod_eq)

lemma bit_free_mark:
  "bit_free (blk(bi div 8 := blk (bi div 8) OR bit_mask bi)) bj \<longleftrightarrow> bit_free blk bj \<and> bj \<noteq> bi"
  unfolding bit_free_iff using bit_split [of bj bi]
  by (auto simp: bit_mask_def bit_simps)

lemma bit_free_clear:
  "bit_free (blk(bi div 8 := blk (bi div 8) AND NOT (bit_mask bi))) bj \<longleftrightarrow> bit_free blk bj \<or> bj = bi"
  unfolding bit_free_iff using bit_split [of bj bi]
  by (auto simp: bit_mask_def bit_simps)

lemma find_free_bit_Some:
  assumes "find_free_bit sb blk b bi = Some k"
  shows "bi \<le> k \<and> k < BPB \<and> b + k < sb_size sb \<and> bit_free blk k \<and> (\<forall>j. bi \<le> j \<and> j < k \<longrightarrow> \<not> bit_free blk j)"
  using assms
proof (induction sb blk b bi rule: find_free_bit.induct)
  case (1 sb blk b bi)
  show ?case
  proof (cases "bi < BPB \<and> b + bi < sb_size sb \<and> \<not> bit_free blk bi")
    case True
    then have "find_free_bit sb blk b (bi + 1) = Some k" using "1.prems" by (subst (asm) find_free_bit.simps) simp
    with "1.IH" True have ih: "bi + 1 \<le> k \<and> k < BPB \<and> b + k < sb_size sb \<and> bit_free blk k
        \<and> (\<forall>j. bi + 1 \<le> j \<and> j < k \<longrightarrow> \<not> bit_free blk j)" by blast
    moreover have "\<not> bit_free blk j" if "bi \<le> j" "j < k" for j
      using ih that True by (cases "j = bi") auto
    ultimately show ?thesis by auto
  next
    case False
    then show ?thesis using "1.prems" by (subst (asm) find_free_bit.simps) (auto split: if_splits)
  qed
qed

lemma find_free_bit_None:
  assumes "find_free_bit sb blk b bi = None" and "bi \<le> j" and "j < BPB" and "b + j < sb_size sb"
  shows "\<not> bit_free blk j"
  using assms
proof (induction sb blk b bi rule: find_free_bit.induct)
  case (1 sb blk b bi)
  then have lt: "bi < BPB \<and> b + bi < sb_size sb" by linarith
  moreover have nf: "\<not> bit_free blk bi" and rest: "find_free_bit sb blk b (bi + 1) = None"
    using "1.prems"(1) lt by (subst (asm) find_free_bit.simps, simp split: if_splits)+
  ultimately show ?case using "1.IH" "1.prems" by (cases "j = bi") auto
qed

lemma BPB_block: "b mod BPB = 0 \<Longrightarrow> bi < BPB \<Longrightarrow> (b + bi) div BPB = b div BPB \<and> (b + bi) mod BPB = bi"
  by (auto simp: BPB_def)

lemma blk_used_mark:
  assumes "b mod BPB = 0" "bi < BPB"
  shows "blk_used sb (mark_bit sb b bi d) c \<longleftrightarrow> blk_used sb d c \<or> c = b + bi"
proof (cases "BBLOCK c sb = BBLOCK b sb")
  case True
  then have "c div BPB = (b + bi) div BPB" using BPB_block [OF assms] by (simp add: BBLOCK_def)
  then have "c mod BPB = bi \<longleftrightarrow> c = b + bi" using BPB_block [OF assms] BPB_split [of c "b + bi"] by auto
  with True show ?thesis by (simp add: blk_used_def mark_bit_def Let_def bit_free_mark)
next
  case False
  then have "c \<noteq> b + bi" using BPB_block [OF assms] by (auto simp: BBLOCK_def)
  with False show ?thesis by (simp add: blk_used_def mark_bit_def Let_def)
qed

lemma blk_used_cong: "d (BBLOCK c sb) = d' (BBLOCK c sb) \<Longrightarrow> blk_used sb d c = blk_used sb d' c"
  by (simp add: blk_used_def)

lemma balloc_from_Inr:
  assumes "balloc_from sb b d = Inr (d', k)" and "b mod BPB = 0"
  shows "b \<le> k \<and> k < sb_size sb \<and> \<not> blk_used sb d k \<and> (\<forall>j. b \<le> j \<and> j < k \<longrightarrow> blk_used sb d j)
       \<and> (\<exists>b0 bi. b0 mod BPB = 0 \<and> bi < BPB \<and> k = b0 + bi \<and> d' = bzero k (mark_bit sb b0 bi d))"
  using assms
proof (induction sb b d rule: balloc_from.induct)
  case (1 sb b d)
  have lt: "b < sb_size sb" using "1.prems"(1) by (subst (asm) balloc_from.simps) (simp split: if_splits)
  have used: "blk_used sb d (b + j) \<longleftrightarrow> \<not> bit_free (d (BBLOCK b sb)) j" if "j < BPB" for j
    using BPB_block [OF "1.prems"(2) that] by (simp add: blk_used_def BBLOCK_def)
  show ?case
  proof (cases "find_free_bit sb (d (BBLOCK b sb)) b 0")
    case (Some bi)
    then have r: "d' = bzero (b + bi) (mark_bit sb b bi d)" "k = b + bi"
      using "1.prems"(1) lt by (subst (asm) balloc_from.simps, simp)+
    note f = find_free_bit_Some [OF Some]
    have "blk_used sb d j" if "b \<le> j" "j < k" for j
      using used [of "j - b"] f that r(2) by auto
    moreover have "\<not> blk_used sb d k" "b \<le> k" "k < sb_size sb" using f r used [of bi] by simp_all
    moreover have "\<exists>b0 bi. b0 mod BPB = 0 \<and> bi < BPB \<and> k = b0 + bi \<and> d' = bzero k (mark_bit sb b0 bi d)"
      by (rule exI [of _ b], rule exI [of _ bi]) (use "1.prems"(2) f r in simp)
    ultimately show ?thesis by blast
  next
    case None
    then have "balloc_from sb (b + BPB) d = Inr (d', k)"
      using "1.prems"(1) lt by (subst (asm) balloc_from.simps) simp
    moreover have "(b + BPB) mod BPB = 0" using "1.prems"(2) by simp
    ultimately have ih: "b + BPB \<le> k \<and> k < sb_size sb \<and> \<not> blk_used sb d k \<and> (\<forall>j. b + BPB \<le> j \<and> j < k \<longrightarrow> blk_used sb d j)
       \<and> (\<exists>b0 bi. b0 mod BPB = 0 \<and> bi < BPB \<and> k = b0 + bi \<and> d' = bzero k (mark_bit sb b0 bi d))"
      by (rule "1.IH" [OF lt None])
    have "blk_used sb d j" if "b \<le> j" "j < k" for j
    proof (cases "b + BPB \<le> j")
      case True
      then show ?thesis using ih that by blast
    next
      case False
      then show ?thesis
        using used [of "j - b"] find_free_bit_None [OF None, of "j - b"] that ih by simp
    qed
    then show ?thesis using ih by auto
  qed
qed

lemma balloc_from_Inl:
  assumes "balloc_from sb b d = Inl e" and "b mod BPB = 0" and "b \<le> j" and "j < sb_size sb"
  shows "blk_used sb d j"
  using assms
proof (induction sb b d rule: balloc_from.induct)
  case (1 sb b d)
  have lt: "b < sb_size sb" using "1.prems" by simp
  then have none: "find_free_bit sb (d (BBLOCK b sb)) b 0 = None" and rest: "balloc_from sb (b + BPB) d = Inl e"
    using "1.prems"(1) by (subst (asm) balloc_from.simps, simp split: option.splits)+
  show ?case
  proof (cases "b + BPB \<le> j")
    case True
    then show ?thesis using "1.IH" [OF lt none rest] "1.prems" by simp
  next
    case False
    then have j: "j - b < BPB" "b + (j - b) = j" using "1.prems" by simp_all
    have "\<not> bit_free (d (BBLOCK b sb)) (j - b)"
      by (rule find_free_bit_None [OF none]) (use j "1.prems" in simp_all)
    then show ?thesis
      using BPB_block [OF "1.prems"(2) j(1)] j(2) by (simp add: blk_used_def BBLOCK_def)
  qed
qed

lemma zeroed_zero: "i < BSIZE \<Longrightarrow> zeroed blk i = 0"
  by (simp add: zeroed_def)

text \<open>What an allocation does to the disk.\<close>

lemma balloc_Inr:
  assumes "balloc sb d = Inr (d', k)" and ok: "bitmap_ok sb d"
  shows "k < sb_size sb" and "\<not> blk_used sb d k" and "\<forall>j < k. blk_used sb d j"
    and "c < sb_size sb \<Longrightarrow> blk_used sb d' c \<longleftrightarrow> blk_used sb d c \<or> c = k"
    and "d' k = zeroed (d k)" and "\<forall>c. c \<noteq> k \<and> c \<notin> bitmap_blocks sb \<longrightarrow> d' c = d c" and "k \<notin> bitmap_blocks sb"
proof -
  note b = balloc_from_Inr [OF assms(1) [unfolded balloc_def]]
  then show k: "k < sb_size sb" and free: "\<not> blk_used sb d k" and "\<forall>j < k. blk_used sb d j" by simp_all
  obtain b0 bi where k0: "b0 mod BPB = 0" "bi < BPB" "k = b0 + bi" and d': "d' = bzero k (mark_bit sb b0 bi d)"
    using b [OF mod_0] by (elim conjE exE) (rule that)
  show nb: "k \<notin> bitmap_blocks sb" using ok free by (auto simp: bitmap_ok_def)
  have bb: "BBLOCK k sb = BBLOCK b0 sb" using BPB_block [OF k0(1,2)] by (simp add: BBLOCK_def k0(3))
  have "BBLOCK b0 sb \<in> bitmap_blocks sb" unfolding bitmap_blocks_def bb [symmetric] using k by auto
  then show "\<forall>c. c \<noteq> k \<and> c \<notin> bitmap_blocks sb \<longrightarrow> d' c = d c"
    by (auto simp: d' bzero_def mark_bit_def Let_def)
  have "k \<noteq> BBLOCK b0 sb" using nb \<open>BBLOCK b0 sb \<in> bitmap_blocks sb\<close> by blast
  then show "d' k = zeroed (d k)" by (simp add: d' bzero_def mark_bit_def Let_def)
  show "blk_used sb d' c \<longleftrightarrow> blk_used sb d c \<or> c = k" if "c < sb_size sb"
  proof -
    have "BBLOCK c sb \<noteq> k" using that nb by (auto simp: bitmap_blocks_def)
    then have "blk_used sb d' c = blk_used sb (mark_bit sb b0 bi d) c"
      by (simp add: d' bzero_def blk_used_def)
    then show ?thesis using blk_used_mark [OF k0(1,2)] k0(3) by simp
  qed
qed

lemma balloc_Inl: "balloc sb d = Inl e \<Longrightarrow> j < sb_size sb \<Longrightarrow> blk_used sb d j"
  unfolding balloc_def by (erule balloc_from_Inl) simp_all

lemma bfree_Inr:
  assumes "bfree sb k d = Inr d'" and "k < sb_size sb"
  shows "blk_used sb d k" and "blk_used sb d' c \<longleftrightarrow> blk_used sb d c \<and> c \<noteq> k"
    and "\<forall>c. c \<notin> bitmap_blocks sb \<longrightarrow> d' c = d c"
proof -
  let ?blk = "d (BBLOCK k sb)"
  have nf: "\<not> bit_free ?blk (k mod BPB)"
    and d': "d' = d(BBLOCK k sb := ?blk((k mod BPB) div 8 := ?blk ((k mod BPB) div 8) AND NOT (bit_mask (k mod BPB))))"
    using assms(1) by (auto simp: bfree_def Let_def split: if_splits)
  show "blk_used sb d k" using nf by (simp add: blk_used_def)
  show "\<forall>c. c \<notin> bitmap_blocks sb \<longrightarrow> d' c = d c"
    using assms(2) by (auto simp: d' bitmap_blocks_def)
  show "blk_used sb d' c \<longleftrightarrow> blk_used sb d c \<and> c \<noteq> k"
  proof (cases "BBLOCK c sb = BBLOCK k sb")
    case True
    then have "c mod BPB = k mod BPB \<longleftrightarrow> c = k" using BPB_split [of c k] by (auto simp: BBLOCK_def)
    with True show ?thesis by (simp add: blk_used_def d' bit_free_clear)
  next
    case False
    then show ?thesis by (auto simp: blk_used_def d')
  qed
qed

lemma bfree_used: "blk_used sb d k \<Longrightarrow> \<exists>d'. bfree sb k d = Inr d'"
  by (simp add: bfree_def blk_used_def Let_def)

lemma bitmap_ok_balloc:
  assumes "balloc sb d = Inr (d', k)" and ok: "bitmap_ok sb d"
  shows "bitmap_ok sb d'"
  using ok balloc_Inr(4) [OF assms] by (auto simp: bitmap_ok_def)

lemma bitmap_ok_bfree:
  assumes "bfree sb k d = Inr d'" and "k < sb_size sb" and "k \<notin> bitmap_blocks sb" and "bitmap_ok sb d"
  shows "bitmap_ok sb d'"
  using assms(3,4) bfree_Inr(2) [OF assms(1,2)] by (auto simp: bitmap_ok_def)

section \<open>Properties\<close>

text \<open>
  C17: the block allocator. \<open>balloc\<close> returns the lowest free block, now in use and zeroed, with no
  other block's contents or state changed outside of the bitmap; it panics exactly when every block
  is in use; \<open>bfree\<close> makes the block free again and restores which blocks are in use, and freeing
  a block twice panics.
\<close>

theorem balloc_bfree:
  assumes "bitmap_ok sb d"
  shows "case balloc sb d of
      Inl e \<Rightarrow> (\<forall>b < sb_size sb. blk_used sb d b)
    | Inr (d', k) \<Rightarrow>
        k < sb_size sb \<and> \<not> blk_used sb d k \<and> (\<forall>b < k. blk_used sb d b)
      \<and> (\<forall>b < sb_size sb. blk_used sb d' b \<longleftrightarrow> blk_used sb d b \<or> b = k)
      \<and> (\<forall>i < BSIZE. d' k i = 0) \<and> (\<forall>b. b \<noteq> k \<and> b \<notin> bitmap_blocks sb \<longrightarrow> d' b = d b)
      \<and> (\<exists>d''. bfree sb k d' = Inr d'' \<and> (\<forall>b < sb_size sb. blk_used sb d'' b = blk_used sb d b)
           \<and> bfree sb k d'' = Inl ''freeing free block'')"
proof (cases "balloc sb d")
  case (Inl e)
  then show ?thesis using balloc_Inl [OF Inl] by simp
next
  case (Inr r)
  obtain d' k where r: "r = (d', k)" by (cases r)
  note b = balloc_Inr [OF Inr [unfolded r] assms]
  have "blk_used sb d' k" using b(4) [OF b(1)] by simp
  then obtain d'' where d'': "bfree sb k d' = Inr d''" using bfree_used by blast
  note f = bfree_Inr [OF d'' b(1)]
  have "\<forall>c < sb_size sb. blk_used sb d'' c = blk_used sb d c" using b(2,4) f(2) by blast
  moreover have "bfree sb k d'' = Inl ''freeing free block''"
    using f(2) [of k] by (simp add: bfree_def blk_used_def Let_def)
  ultimately show ?thesis using Inr r b d'' by (auto simp: zeroed_zero)
qed

text \<open>A small disk: 16 blocks, the bitmap in block 2, the first five blocks in use.\<close>

definition small_sb :: superblock where
  "small_sb = \<lparr>magic = FSMAGIC, sb_size = 16, nblocks = 10, ninodes = 8, nlog = 0, logstart = 0,
     inodestart = 3, bmapstart = 2\<rparr>"

definition small_disk :: blocks where
  "small_disk = (\<lambda>_ _. 0)(2 := (\<lambda>_. 0)(0 := 31))"

lemma small_bitmap: "bitmap_blocks small_sb = {2}"
proof -
  have "BBLOCK b small_sb = 2" if "b < sb_size small_sb" for b
    using that by (simp add: BBLOCK_def BPB_def small_sb_def)
  moreover have "0 < sb_size small_sb" by (simp add: small_sb_def)
  ultimately show ?thesis by (force simp: bitmap_blocks_def)
qed

lemma small_ok: "bitmap_ok small_sb small_disk"
  unfolding bitmap_ok_def small_bitmap
  by (simp add: blk_used_def BBLOCK_def BPB_def small_sb_def small_disk_def bit_free_def bit_mask_def)

theorem balloc_bfree_witness:
  "\<exists>d'. balloc small_sb small_disk = Inr (d', 5) \<and> blk_used small_sb d' 5 \<and> d' 5 1023 = 0"
proof -
  have "find_free_bit small_sb (small_disk 2) 0 0 = Some 5"
    by (simp add: find_free_bit.simps small_sb_def small_disk_def BPB_def bit_free_def bit_mask_def)
  then have "balloc small_sb small_disk = Inr (bzero 5 (mark_bit small_sb 0 5 small_disk), 5)"
    by (simp add: balloc_def balloc_from.simps BBLOCK_def BPB_def) (simp add: small_sb_def)
  with balloc_bfree [OF small_ok] show ?thesis
    by (simp add: small_sb_def)
qed

end
