(* ===== verification/Fs_Dinode.thy ===== *)
theory Fs_Dinode
  imports Fs_Block Spinlock
begin

text \<open>
  Inodes on disk, \<open>src/kernel/include/fs.h\<close> and \<open>src/kernel/filesystem/fs.c\<close>: the layout of
  \<open>struct dinode\<close> in a block, the copy of an in-memory inode to disk (\<open>iupdate\<close>) and back (the body of
  \<open>ilock\<close>), and the allocation of an inode number (\<open>ialloc\<close>).
\<close>

section \<open>Operations\<close>

text \<open>\<open>struct inode\<close>, the in-memory copy. Sizes and block numbers are natural numbers, reduced modulo \<open>2 ^ 32\<close> where they
  are stored on disk.\<close>

record inode =
  i_dev :: nat
  i_inum :: nat
  i_ref :: int
  i_lock :: sleeplock
  i_valid :: bool
  i_type :: u8
  i_mode :: u8
  i_major :: u16
  i_minor :: u16
  i_nlink :: u16
  i_size :: nat
  addrs :: "nat list"

definition get16 :: "block \<Rightarrow> nat \<Rightarrow> u16" where
  "get16 b k = of_nat (unat (b k) + 256 * unat (b (k + 1)))"

definition put16 :: "nat \<Rightarrow> u16 \<Rightarrow> block \<Rightarrow> block" where
  "put16 k v b = b(k := of_nat (unat v), k + 1 := of_nat (unat v div 256))"

abbreviation IPB :: nat where "IPB \<equiv> 16"

definition IBLOCK :: "nat \<Rightarrow> superblock \<Rightarrow> nat" where
  "IBLOCK i sb = i div IPB + inodestart sb"

text \<open>The offset of an inode in its block.\<close>

definition dinode_off :: "nat \<Rightarrow> nat" where
  "dinode_off i = 64 * (i mod IPB)"

primrec put_addrs :: "nat \<Rightarrow> nat list \<Rightarrow> block \<Rightarrow> block" where
  "put_addrs k [] b = b"
| "put_addrs k (a # as) b = put_addrs (k + 4) as (put32 k (of_nat a) b)"

definition store_dinode :: "nat \<Rightarrow> inode \<Rightarrow> block \<Rightarrow> block" where
  "store_dinode k ip b =
     put_addrs (k + 12) (addrs ip) (put32 (k + 8) (of_nat (i_size ip)) (put16 (k + 6) (i_nlink ip)
       (put16 (k + 4) (i_minor ip) (put16 (k + 2) (i_major ip) (b(k := i_mode ip, k + 1 := i_type ip))))))"

definition load_dinode :: "nat \<Rightarrow> block \<Rightarrow> inode \<Rightarrow> inode" where
  "load_dinode k b ip = ip\<lparr>i_type := b (k + 1), i_major := get16 b (k + 2), i_minor := get16 b (k + 4),
     i_nlink := get16 b (k + 6), i_size := unat (get32 b (k + 8)), i_mode := b k,
     addrs := map (\<lambda>j. unat (get32 b (k + 12 + 4 * j))) [0..<13]\<rparr>"

definition iupdate :: "superblock \<Rightarrow> inode \<Rightarrow> blocks \<Rightarrow> blocks" where
  "iupdate sb ip d =
     (let b = IBLOCK (i_inum ip) sb in d(b := store_dinode (dinode_off (i_inum ip)) ip (d b)))"

definition dinode_type :: "superblock \<Rightarrow> nat \<Rightarrow> blocks \<Rightarrow> u8" where
  "dinode_type sb i d = d (IBLOCK i sb) (dinode_off i + 1)"

text \<open>The loop of \<open>ialloc\<close> up to the call of \<open>iget\<close>: the number of the inode.\<close>

function ialloc_from :: "superblock \<Rightarrow> nat \<Rightarrow> u8 \<Rightarrow> blocks \<Rightarrow> (blocks \<times> nat) kres" where
  "ialloc_from sb inum type d =
     (if inum < ninodes sb
      then (if dinode_type sb inum d = 0
            then (let b = IBLOCK inum sb; k = dinode_off inum;
                      blk = (\<lambda>i. if k \<le> i \<and> i < k + 64 then 0 else d b i)
                  in Inr (d(b := blk(k + 1 := type, k := 3)), inum))
            else ialloc_from sb (inum + 1) type d)
      else Inl ''ialloc: no inodes'')"
  by pat_completeness auto
termination by (relation "measure (\<lambda>(sb, inum, type, d). ninodes sb - inum)") auto

declare ialloc_from.simps [simp del]

section \<open>Reading back what was written\<close>

lemma get16_put16 [simp]: "get16 (put16 k v b) k = v"
proof -
  have v: "unat v < 65536" using unsigned_less [of v, where ?'a = nat] by simp
  then have sum: "unat v mod 256 + 256 * (unat v div 256 mod 256) = unat v" by (simp add: less_mult_imp_div_less)
  have bytes: "put16 k v b k = of_nat (unat v)" "put16 k v b (k + 1) = of_nat (unat v div 256)"
    unfolding put16_def by (simp_all only: fun_upd_apply) simp_all
  show ?thesis unfolding get16_def bytes unat_of_nat_u8 sum by simp
qed

lemma get16_put16_other [simp]: "k + 2 \<le> j \<or> j + 2 \<le> k \<Longrightarrow> get16 (put16 k v b) j = get16 b j"
  by (auto simp: get16_def put16_def)

lemma put16_outside: "i < k \<or> k + 2 \<le> i \<Longrightarrow> put16 k v b i = b i"
  by (auto simp: put16_def)

lemma put_addrs_outside: "i < k \<or> k + 4 * length as \<le> i \<Longrightarrow> put_addrs k as b i = b i"
  by (induction as arbitrary: k b) (auto simp: put32_outside)

lemma get32_cong: "(\<And>i. k \<le> i \<Longrightarrow> i < k + 4 \<Longrightarrow> b i = c i) \<Longrightarrow> get32 b k = get32 c k"
  by (simp add: get32_def)

lemma get16_cong: "(\<And>i. k \<le> i \<Longrightarrow> i < k + 2 \<Longrightarrow> b i = c i) \<Longrightarrow> get16 b k = get16 c k"
  by (simp add: get16_def)

lemma get32_put_addrs: "j < length as \<Longrightarrow> get32 (put_addrs k as b) (k + 4 * j) = of_nat (as ! j)"
proof (induction as arbitrary: k b j)
  case (Cons a as)
  show ?case
  proof (cases j)
    case 0
    have "get32 (put_addrs (k + 4) as (put32 k (of_nat a) b)) k = get32 (put32 k (of_nat a) b) k"
      by (rule get32_cong) (simp add: put_addrs_outside)
    then show ?thesis using 0 by simp
  next
    case (Suc i)
    then show ?thesis using Cons.IH [of i "k + 4"] Cons.prems by (simp add: algebra_simps)
  qed
qed simp

lemma store_dinode_outside:
  assumes "length (addrs ip) = 13" and "i < k \<or> k + 64 \<le> i"
  shows "store_dinode k ip b i = b i"
  using assms by (auto simp: store_dinode_def put_addrs_outside put32_outside put16_outside)

definition inode_fits :: "inode \<Rightarrow> bool" where
  "inode_fits ip = (length (addrs ip) = 13 \<and> (\<forall>a \<in> set (addrs ip). a < 2 ^ 32) \<and> i_size ip < 2 ^ 32)"

lemma load_store_dinode:
  assumes "inode_fits ip"
  shows "load_dinode k (store_dinode k ip b) jp
    = ip\<lparr>i_dev := i_dev jp, i_inum := i_inum jp, i_ref := i_ref jp, i_lock := i_lock jp, i_valid := i_valid jp\<rparr>"
proof -
  let ?h = "put32 (k + 8) (of_nat (i_size ip)) (put16 (k + 6) (i_nlink ip)
       (put16 (k + 4) (i_minor ip) (put16 (k + 2) (i_major ip) (b(k := i_mode ip, k + 1 := i_type ip)))))"
  have len: "length (addrs ip) = 13" using assms by (simp add: inode_fits_def)
  have s: "store_dinode k ip b = put_addrs (k + 12) (addrs ip) ?h" by (simp add: store_dinode_def)
  have low: "store_dinode k ip b i = ?h i" if "i < k + 12" for i
    unfolding s using that by (simp add: put_addrs_outside)
  have h16: "get16 (put32 (k + 8) v c) i = get16 c i" if "i + 2 \<le> k + 8" for v c i
    by (rule get16_cong) (use that in \<open>simp add: put32_outside\<close>)
  have m: "store_dinode k ip b (k + 1) = i_type ip" "store_dinode k ip b k = i_mode ip"
    by (simp_all add: low put32_outside put16_outside)
  have g: "get16 (store_dinode k ip b) i = get16 ?h i" if "i + 2 \<le> k + 12" for i
    by (rule get16_cong) (use that in \<open>simp add: low\<close>)
  have f: "get16 (store_dinode k ip b) (k + 2) = i_major ip" "get16 (store_dinode k ip b) (k + 4) = i_minor ip"
    "get16 (store_dinode k ip b) (k + 6) = i_nlink ip"
    by (simp_all add: g h16)
  have "get32 (store_dinode k ip b) (k + 8) = get32 ?h (k + 8)"
    by (rule get32_cong) (simp add: low)
  then have z: "unat (get32 (store_dinode k ip b) (k + 8)) = i_size ip"
    using assms by (simp add: inode_fits_def unat_of_nat)
  have "map (\<lambda>j. unat (get32 (store_dinode k ip b) (k + 12 + 4 * j))) [0..<13] = addrs ip"
  proof (rule nth_equalityI)
    fix j assume "j < length (map (\<lambda>j. unat (get32 (store_dinode k ip b) (k + 12 + 4 * j))) [0..<13])"
    then have j: "j < 13" by simp
    then have "addrs ip ! j < 2 ^ 32" using assms len by (auto simp: inode_fits_def)
    then show "map (\<lambda>j. unat (get32 (store_dinode k ip b) (k + 12 + 4 * j))) [0..<13] ! j = addrs ip ! j"
      using j len get32_put_addrs [of j "addrs ip" "k + 12"] by (simp add: s unat_of_nat del: upt_rec_numeral)
  qed (simp add: len)
  then show ?thesis unfolding load_dinode_def m f z by (intro inode.equality) simp_all
qed

lemma dinode_apart:
  assumes "i \<noteq> j" and "IBLOCK i sb = IBLOCK j sb"
  shows "dinode_off i + 64 \<le> dinode_off j \<or> dinode_off j + 64 \<le> dinode_off i"
proof -
  have "i div 16 = j div 16" using assms(2) by (simp add: IBLOCK_def)
  then have "i mod 16 \<noteq> j mod 16" using assms(1) by (metis div_mult_mod_eq)
  then show ?thesis unfolding dinode_off_def by linarith
qed

lemma load_dinode_cong:
  assumes "\<And>i. k \<le> i \<Longrightarrow> i < k + 64 \<Longrightarrow> b i = c i"
  shows "load_dinode k b ip = load_dinode k c ip"
proof -
  have w: "get32 b (k + 12 + 4 * j) = get32 c (k + 12 + 4 * j)" if "j < 13" for j
    by (rule get32_cong) (use that assms in simp)
  have "get16 b (k + j) = get16 c (k + j)" if "j < 8" for j
    by (rule get16_cong) (use that assms in simp)
  from this [of 2] this [of 4] this [of 6]
  have h: "get16 b (k + 2) = get16 c (k + 2)" "get16 b (k + 4) = get16 c (k + 4)" "get16 b (k + 6) = get16 c (k + 6)"
    by simp_all
  have z: "get32 b (k + 8) = get32 c (k + 8)" by (rule get32_cong) (use assms in simp)
  have a: "map (\<lambda>j. unat (get32 b (k + 12 + 4 * j))) [0..<13] = map (\<lambda>j. unat (get32 c (k + 12 + 4 * j))) [0..<13]"
    by (rule map_cong) (simp_all only: set_upt atLeastLessThan_iff w)
  have m: "b k = c k" "b (k + 1) = c (k + 1)" using assms by simp_all
  show ?thesis unfolding load_dinode_def h z a m ..
qed

text \<open>An update writes one inode and no other.\<close>

lemma iupdate_load:
  "inode_fits ip \<Longrightarrow> load_dinode (dinode_off (i_inum ip)) (iupdate sb ip d (IBLOCK (i_inum ip) sb)) jp
    = ip\<lparr>i_dev := i_dev jp, i_inum := i_inum jp, i_ref := i_ref jp, i_lock := i_lock jp, i_valid := i_valid jp\<rparr>"
  by (simp add: iupdate_def Let_def load_store_dinode)

lemma iupdate_other:
  assumes "inode_fits ip" and "j \<noteq> i_inum ip"
  shows "load_dinode (dinode_off j) (iupdate sb ip d (IBLOCK j sb)) jp = load_dinode (dinode_off j) (d (IBLOCK j sb)) jp"
proof (cases "IBLOCK j sb = IBLOCK (i_inum ip) sb")
  case True
  show ?thesis
  proof (rule load_dinode_cong)
    fix i assume "dinode_off j \<le> i" "i < dinode_off j + 64"
    then show "iupdate sb ip d (IBLOCK j sb) i = d (IBLOCK j sb) i"
      using dinode_apart [OF assms(2) True] assms(1)
      by (auto simp: iupdate_def Let_def True inode_fits_def store_dinode_outside)
  qed
next
  case False
  then show ?thesis by (simp add: iupdate_def Let_def)
qed

text \<open>The other inodes in the block of inode \<open>i\<close> are kept: every byte outside of its 64 is the same.\<close>

definition other_dinodes_kept :: "superblock \<Rightarrow> nat \<Rightarrow> blocks \<Rightarrow> blocks \<Rightarrow> bool" where
  "other_dinodes_kept sb i d d' =
     (\<forall>b. b < dinode_off i \<or> dinode_off i + 64 \<le> b \<longrightarrow> d' (IBLOCK i sb) b = d (IBLOCK i sb) b)"

lemma iupdate_kept: "length (addrs ip) = 13 \<Longrightarrow> other_dinodes_kept sb (i_inum ip) d (iupdate sb ip d)"
  by (simp add: other_dinodes_kept_def iupdate_def Let_def store_dinode_outside)

lemma kept_refl [simp]: "other_dinodes_kept sb i d d"
  by (simp add: other_dinodes_kept_def)

lemma kept_trans: "other_dinodes_kept sb i d d1 \<Longrightarrow> other_dinodes_kept sb i d1 d2 \<Longrightarrow> other_dinodes_kept sb i d d2"
  by (simp add: other_dinodes_kept_def)

lemma kept_same: "d' (IBLOCK i sb) = d (IBLOCK i sb) \<Longrightarrow> other_dinodes_kept sb i d d'"
  by (simp add: other_dinodes_kept_def)

lemma kept_load:
  assumes "other_dinodes_kept sb i d d'" and "j \<noteq> i" and "IBLOCK j sb = IBLOCK i sb"
  shows "load_dinode (dinode_off j) (d' (IBLOCK j sb)) jp = load_dinode (dinode_off j) (d (IBLOCK j sb)) jp"
proof (rule load_dinode_cong)
  fix b assume "dinode_off j \<le> b" "b < dinode_off j + 64"
  then show "d' (IBLOCK j sb) b = d (IBLOCK j sb) b"
    using dinode_apart [OF assms(2,3)] assms(1,3) unfolding other_dinodes_kept_def by force
qed

lemma iupdate_block: "b \<noteq> IBLOCK (i_inum ip) sb \<Longrightarrow> iupdate sb ip d b = d b"
  by (simp add: iupdate_def Let_def)

end
