(* ===== verification/Fs_Map.thy ===== *)
theory Fs_Map
  imports Fs_Dinode
begin

text \<open>
  The block map of an inode, \<open>src/kernel/filesystem/fs.c\<close>: eleven direct blocks, one indirect and
  one doubly indirect block. \<open>bmap\<close> looks up the disk block of a file block and allocates what is
  missing on the way; \<open>itrunc\<close> frees every block of the file.
\<close>

section \<open>Operations\<close>

abbreviation NDIRECT :: nat where "NDIRECT \<equiv> 11"

abbreviation NINDIRECT :: nat where "NINDIRECT \<equiv> 256"

abbreviation NDINDIRECT :: nat where "NDINDIRECT \<equiv> 65536"

abbreviation MAXFILE :: nat where "MAXFILE \<equiv> 65803"

definition entry :: "blocks \<Rightarrow> nat \<Rightarrow> nat \<Rightarrow> nat" where
  "entry d b k = unat (get32 (d b) (4 * k))"

text \<open>The two ways a missing block is added: in the inode, or in an indirect block.\<close>

definition get_addr :: "superblock \<Rightarrow> nat \<Rightarrow> inode \<Rightarrow> blocks \<Rightarrow> (inode \<times> blocks \<times> nat) kres" where
  "get_addr sb k ip d =
     (if addrs ip ! k \<noteq> 0 then Inr (ip, d, addrs ip ! k)
      else (case balloc sb d of
              Inl e \<Rightarrow> Inl e
            | Inr (d, b) \<Rightarrow> Inr (ip\<lparr>addrs := (addrs ip)[k := b]\<rparr>, d, b)))"

definition get_entry :: "superblock \<Rightarrow> nat \<Rightarrow> nat \<Rightarrow> blocks \<Rightarrow> (blocks \<times> nat) kres" where
  "get_entry sb blk k d =
     (if entry d blk k \<noteq> 0 then Inr (d, entry d blk k)
      else (case balloc sb d of
              Inl e \<Rightarrow> Inl e
            | Inr (d, b) \<Rightarrow> Inr (d(blk := put32 (4 * k) (of_nat b) (d blk)), b)))"

definition bmap :: "superblock \<Rightarrow> inode \<Rightarrow> nat \<Rightarrow> blocks \<Rightarrow> (inode \<times> blocks \<times> nat) kres" where
  "bmap sb ip bn d =
     (if bn < NDIRECT then get_addr sb bn ip d
      else let bn = bn - NDIRECT in
      if bn < NINDIRECT then
        (case get_addr sb NDIRECT ip d of
           Inl e \<Rightarrow> Inl e
         | Inr (ip, d, a) \<Rightarrow>
             (case get_entry sb a bn d of Inl e \<Rightarrow> Inl e | Inr (d, b) \<Rightarrow> Inr (ip, d, b)))
      else let bn = bn - NINDIRECT in
      if bn < NDINDIRECT then
        (case get_addr sb (NDIRECT + 1) ip d of
           Inl e \<Rightarrow> Inl e
         | Inr (ip, d, a2) \<Rightarrow>
             (case get_entry sb a2 (bn div NINDIRECT) d of
                Inl e \<Rightarrow> Inl e
              | Inr (d, a1) \<Rightarrow>
                  (case get_entry sb a1 (bn mod NINDIRECT) d of Inl e \<Rightarrow> Inl e | Inr (d, b) \<Rightarrow> Inr (ip, d, b))))
      else Inl ''bmap: out of range'')"

text \<open>The three loops of \<open>itrunc\<close>: over the direct blocks, over the entries of an indirect block, and
  over those of the doubly indirect block.\<close>

primrec trunc_direct :: "superblock \<Rightarrow> nat list \<Rightarrow> inode \<Rightarrow> blocks \<Rightarrow> (inode \<times> blocks) kres" where
  "trunc_direct sb [] ip d = Inr (ip, d)"
| "trunc_direct sb (i # is) ip d =
     (if addrs ip ! i \<noteq> 0
      then (case bfree sb (addrs ip ! i) d of
              Inl e \<Rightarrow> Inl e
            | Inr d \<Rightarrow> trunc_direct sb is (ip\<lparr>addrs := (addrs ip)[i := 0]\<rparr>) d)
      else trunc_direct sb is ip d)"

primrec free_entries :: "superblock \<Rightarrow> nat \<Rightarrow> nat list \<Rightarrow> blocks \<Rightarrow> blocks kres" where
  "free_entries sb a [] d = Inr d"
| "free_entries sb a (j # js) d =
     (if entry d a j \<noteq> 0
      then (case bfree sb (entry d a j) d of Inl e \<Rightarrow> Inl e | Inr d \<Rightarrow> free_entries sb a js d)
      else free_entries sb a js d)"

primrec free_tables :: "superblock \<Rightarrow> nat \<Rightarrow> nat list \<Rightarrow> blocks \<Rightarrow> blocks kres" where
  "free_tables sb a [] d = Inr d"
| "free_tables sb a (i # is) d =
     (if entry d a i \<noteq> 0
      then (case free_entries sb (entry d a i) [0..<NINDIRECT] d of
              Inl e \<Rightarrow> Inl e
            | Inr d \<Rightarrow>
                (case bfree sb (entry d a i) d of Inl e \<Rightarrow> Inl e | Inr d \<Rightarrow> free_tables sb a is d))
      else free_tables sb a is d)"

definition trunc_indirect :: "superblock \<Rightarrow> inode \<Rightarrow> blocks \<Rightarrow> (inode \<times> blocks) kres" where
  "trunc_indirect sb ip d =
     (if addrs ip ! NDIRECT \<noteq> 0
      then (case free_entries sb (addrs ip ! NDIRECT) [0..<NINDIRECT] d of
              Inl e \<Rightarrow> Inl e
            | Inr d \<Rightarrow>
                (case bfree sb (addrs ip ! NDIRECT) d of
                   Inl e \<Rightarrow> Inl e
                 | Inr d \<Rightarrow> Inr (ip\<lparr>addrs := (addrs ip)[NDIRECT := 0]\<rparr>, d)))
      else Inr (ip, d))"

definition trunc_double :: "superblock \<Rightarrow> inode \<Rightarrow> blocks \<Rightarrow> (inode \<times> blocks) kres" where
  "trunc_double sb ip d =
     (if addrs ip ! (NDIRECT + 1) \<noteq> 0
      then (case free_tables sb (addrs ip ! (NDIRECT + 1)) [0..<NINDIRECT] d of
              Inl e \<Rightarrow> Inl e
            | Inr d \<Rightarrow>
                (case bfree sb (addrs ip ! (NDIRECT + 1)) d of
                   Inl e \<Rightarrow> Inl e
                 | Inr d \<Rightarrow> Inr (ip\<lparr>addrs := (addrs ip)[NDIRECT + 1 := 0]\<rparr>, d)))
      else Inr (ip, d))"

definition itrunc :: "superblock \<Rightarrow> inode \<Rightarrow> blocks \<Rightarrow> (inode \<times> blocks) kres" where
  "itrunc sb ip d =
     (case trunc_direct sb [0..<NDIRECT] ip d of
        Inl e \<Rightarrow> Inl e
      | Inr (ip, d) \<Rightarrow>
          (case trunc_indirect sb ip d of
             Inl e \<Rightarrow> Inl e
           | Inr (ip, d) \<Rightarrow>
               (case trunc_double sb ip d of
                  Inl e \<Rightarrow> Inl e
                | Inr (ip, d) \<Rightarrow> (let ip = ip\<lparr>i_size := 0\<rparr> in Inr (ip, iupdate sb ip d)))))"

section \<open>The tree of blocks\<close>

text \<open>A place that holds a block number: an element of \<open>addrs\<close>, or an entry of the block that
  another place refers to.\<close>

datatype slot = Root nat | Child slot nat

fun is_table :: "slot \<Rightarrow> bool" where
  "is_table (Root n) = (n = 11 \<or> n = 12)"
| "is_table (Child s k) = (s = Root 12)"

fun slot_ok :: "slot \<Rightarrow> bool" where
  "slot_ok (Root n) = (n < 13)"
| "slot_ok (Child s k) = (k < 256 \<and> slot_ok s \<and> is_table s)"

definition leaf_slot :: "slot \<Rightarrow> bool" where
  "leaf_slot t = (slot_ok t \<and> \<not> is_table t)"

primrec slot_blk :: "nat list \<Rightarrow> blocks \<Rightarrow> slot \<Rightarrow> nat" where
  "slot_blk as d (Root n) = as ! n"
| "slot_blk as d (Child s k) = (if slot_blk as d s = 0 then 0 else entry d (slot_blk as d s) k)"

definition tree_blocks :: "nat list \<Rightarrow> blocks \<Rightarrow> nat set" where
  "tree_blocks as d = {b. b \<noteq> 0 \<and> (\<exists>t. slot_ok t \<and> slot_blk as d t = b)}"

text \<open>The place of the n-th block of the file.\<close>

definition leaf :: "nat \<Rightarrow> slot" where
  "leaf n = (if n < 11 then Root n
     else if n - 11 < 256 then Child (Root 11) (n - 11)
     else Child (Child (Root 12) ((n - 267) div 256)) ((n - 267) mod 256))"

lemma leaf_leaf: "n < MAXFILE \<Longrightarrow> leaf_slot (leaf n)"
  by (auto simp: leaf_slot_def leaf_def)

lemma leaf_inj: "leaf n = leaf m \<Longrightarrow> n = m"
proof -
  assume a: "leaf n = leaf m"
  have "n - 267 = m - 267" if "(n - 267) div 256 = (m - 267) div 256" "(n - 267) mod 256 = (m - 267) mod 256"
    using that by (metis div_mult_mod_eq)
  with a show ?thesis by (auto simp: leaf_def split: if_splits)
qed

text \<open>The state of the file system a file lives in, and a file whose blocks are its own.\<close>

definition fs_ok :: "superblock \<Rightarrow> blocks \<Rightarrow> bool" where
  "fs_ok sb d = (bitmap_ok sb d \<and> blk_used sb d 0 \<and> sb_size sb < 2 ^ 32)"

definition tree_ok :: "superblock \<Rightarrow> nat list \<Rightarrow> blocks \<Rightarrow> bool" where
  "tree_ok sb as d = (fs_ok sb d \<and> length as = 13
     \<and> (\<forall>b \<in> tree_blocks as d. b < sb_size sb \<and> blk_used sb d b \<and> b \<notin> bitmap_blocks sb)
     \<and> (\<forall>s t. slot_ok s \<and> slot_ok t \<and> slot_blk as d s = slot_blk as d t \<and> slot_blk as d s \<noteq> 0 \<longrightarrow> s = t))"

text \<open>The bytes of a data block; a missing block reads as zeros.\<close>

definition content :: "nat list \<Rightarrow> blocks \<Rightarrow> slot \<Rightarrow> nat \<Rightarrow> u8" where
  "content as d t i = (if slot_blk as d t = 0 then 0 else d (slot_blk as d t) i)"

text \<open>The blocks at the places in S may have been added; the contents of the file are the same, and so
  is everything else on the disk.\<close>

definition extends :: "superblock \<Rightarrow> slot set \<Rightarrow> nat list \<Rightarrow> blocks \<Rightarrow> nat list \<Rightarrow> blocks \<Rightarrow> bool" where
  "extends sb S as d as' d' = (tree_ok sb as' d'
     \<and> (\<forall>t. slot_ok t \<and> (slot_blk as d t \<noteq> 0 \<or> t \<notin> S) \<longrightarrow> slot_blk as' d' t = slot_blk as d t)
     \<and> (\<forall>t i. leaf_slot t \<and> i < BSIZE \<longrightarrow> content as' d' t i = content as d t i)
     \<and> (\<forall>c < sb_size sb. blk_used sb d c \<longrightarrow> blk_used sb d' c)
     \<and> (\<forall>c < sb_size sb. blk_used sb d c \<and> c \<notin> bitmap_blocks sb \<and> c \<notin> tree_blocks as d
          \<longrightarrow> d' c = d c \<and> c \<notin> tree_blocks as' d'))"

lemma extends_refl: "tree_ok sb as d \<Longrightarrow> extends sb S as d as d"
  by (simp add: extends_def)

lemma extends_trans:
  assumes "extends sb S as d as1 d1" and "extends sb T as1 d1 as2 d2"
  shows "extends sb (S \<union> T) as d as2 d2"
proof -
  note e1 = assms(1) [unfolded extends_def] and e2 = assms(2) [unfolded extends_def]
  have "slot_blk as2 d2 t = slot_blk as d t" if "slot_ok t" "slot_blk as d t \<noteq> 0 \<or> t \<notin> S \<union> T" for t
  proof -
    have "slot_blk as1 d1 t = slot_blk as d t" using e1 that by blast
    then show ?thesis using e2 that by force
  qed
  then show ?thesis unfolding extends_def using e1 e2 by simp
qed

lemma extends_mono: "extends sb S as d as' d' \<Longrightarrow> S \<subseteq> T \<Longrightarrow> extends sb T as d as' d'"
  unfolding extends_def by blast

lemma tree_blocksI: "slot_ok t \<Longrightarrow> slot_blk as d t \<noteq> 0 \<Longrightarrow> slot_blk as d t \<in> tree_blocks as d"
  by (auto simp: tree_blocks_def)

lemma tree_okD:
  assumes "tree_ok sb as d" and "slot_ok t" and "slot_blk as d t \<noteq> 0"
  shows "slot_blk as d t < sb_size sb" and "blk_used sb d (slot_blk as d t)" and "slot_blk as d t \<notin> bitmap_blocks sb"
  using assms(1) tree_blocksI [OF assms(2,3)] by (simp_all add: tree_ok_def)

lemma tree_ok_inj:
  "tree_ok sb as d \<Longrightarrow> slot_ok s \<Longrightarrow> slot_ok t \<Longrightarrow> slot_blk as d s = slot_blk as d t \<Longrightarrow> slot_blk as d s \<noteq> 0 \<Longrightarrow> s = t"
  by (simp add: tree_ok_def)

lemma entry_zero: "\<forall>i < BSIZE. d b i = 0 \<Longrightarrow> j < 256 \<Longrightarrow> entry d b j = 0"
  by (simp add: entry_def get32_def)

lemma entry_put:
  assumes "k < 2 ^ 32"
  shows "entry (d(b := put32 (4 * i) (of_nat k) (d b))) b j = (if j = i then k else entry d b j)"
proof (cases "j = i")
  case True
  then show ?thesis using assms by (simp add: entry_def unat_of_nat)
next
  case False
  then have "4 * i + 4 \<le> 4 * j \<or> 4 * j + 4 \<le> 4 * i" by linarith
  with False show ?thesis by (simp add: entry_def get32_put32_other)
qed

text \<open>The block that \<open>balloc\<close> returns is fresh with respect to the tree.\<close>

lemma balloc_fresh:
  assumes "tree_ok sb as d" and "balloc sb d = Inr (d', k)"
  shows "k \<noteq> 0" and "k \<notin> tree_blocks as d" and "k < 2 ^ 32"
    and "\<forall>i < BSIZE. d' k i = 0" and "fs_ok sb d'"
proof -
  have ok: "bitmap_ok sb d" "blk_used sb d 0" "sb_size sb < 2 ^ 32" using assms(1) by (simp_all add: tree_ok_def fs_ok_def)
  note b = balloc_Inr [OF assms(2) ok(1)]
  show "k \<noteq> 0" using ok(2) b(2) by metis
  show "k \<notin> tree_blocks as d" using assms(1) b(2) by (auto simp: tree_ok_def)
  show "k < 2 ^ 32" using b(1) ok(3) by simp
  show "\<forall>i < BSIZE. d' k i = 0" using b(5) by (simp add: zeroed_zero)
  have "0 < sb_size sb" using b(1) by simp
  then show "fs_ok sb d'" using bitmap_ok_balloc [OF assms(2) ok(1)] ok b(4) [of 0] by (simp add: fs_ok_def)
qed

lemma balloc_keeps_block:
  assumes "tree_ok sb as d" and "balloc sb d = Inr (d', k)" and "slot_ok t" and "slot_blk as d t \<noteq> 0"
  shows "d' (slot_blk as d t) = d (slot_blk as d t)" and "slot_blk as d t \<noteq> k"
proof -
  show "slot_blk as d t \<noteq> k" using balloc_fresh(2) [OF assms(1,2)] tree_blocksI [OF assms(3,4)] by metis
  then show "d' (slot_blk as d t) = d (slot_blk as d t)"
    using balloc_Inr(6) [OF assms(2)] assms(1) tree_okD(3) [OF assms(1,3,4)] by (simp add: tree_ok_def fs_ok_def)
qed

text \<open>A new block in one place changes that place only.\<close>

lemma slot_alloc_root:
  assumes ok: "tree_ok sb as d" and n: "n < 13" "as ! n = 0" and al: "balloc sb d = Inr (d', k)"
  shows "slot_ok t \<Longrightarrow> slot_blk (as[n := k]) d' t = (if t = Root n then k else slot_blk as d t)"
proof (induction t)
  case (Root m)
  then show ?case using n ok by (simp add: tree_ok_def nth_list_update)
next
  case (Child t j)
  then have j: "j < 256" "slot_ok t" by simp_all
  note ih = Child.IH [OF j(2)]
  show ?case
  proof (cases "t = Root n")
    case True
    then have "entry d' k j = 0" using entry_zero balloc_fresh(4) [OF ok al] j(1) by blast
    with True ih n(2) show ?thesis by simp
  next
    case False
    with ih have t: "slot_blk (as[n := k]) d' t = slot_blk as d t" by simp
    show ?thesis
    proof (cases "slot_blk as d t = 0")
      case False
      then show ?thesis using t balloc_keeps_block(1) [OF ok al j(2)] by (simp add: entry_def)
    qed (simp add: t)
  qed
qed

lemma slot_alloc_child:
  assumes ok: "tree_ok sb as d" and s: "slot_ok (Child p i)" "slot_blk as d p = b" "b \<noteq> 0" "entry d b i = 0"
    and al: "balloc sb d = Inr (d0, k)" and d': "d' = d0(b := put32 (4 * i) (of_nat k) (d0 b))"
  shows "slot_ok t \<Longrightarrow> slot_blk as d' t = (if t = Child p i then k else slot_blk as d t)"
proof (induction t)
  case (Root m)
  then show ?case by simp
next
  case (Child t j)
  then have j: "j < 256" "slot_ok t" by simp_all
  have p: "slot_ok p" using s(1) by simp
  have b: "d0 b = d b" "b \<noteq> k" using balloc_keeps_block [OF ok al p] s(2,3) by simp_all
  note ih = Child.IH [OF j(2)]
  show ?case
  proof (cases "t = Child p i")
    case True
    have "\<forall>l < BSIZE. d' k l = 0" using balloc_fresh(4) [OF ok al] b(2) by (simp add: d')
    then have "entry d' k j = 0" using entry_zero j(1) by blast
    with True ih s show ?thesis by simp
  next
    case False
    with ih have t: "slot_blk as d' t = slot_blk as d t" by simp
    show ?thesis
    proof (cases "slot_blk as d t = b")
      case True
      then have "t = p" using tree_ok_inj [OF ok j(2) p] s by simp
      moreover have "entry d' b j = (if j = i then k else entry d b j)"
        using entry_put [OF balloc_fresh(3) [OF ok al], of d0 b i j] b(1) by (simp add: d' entry_def)
      ultimately show ?thesis using t True s by simp
    next
      case False
      then have "t \<noteq> p" using s(2) by blast
      moreover have "d' (slot_blk as d t) = d (slot_blk as d t)" if "slot_blk as d t \<noteq> 0"
        using balloc_keeps_block(1) [OF ok al j(2) that] False by (simp add: d')
      ultimately show ?thesis using t by (simp add: entry_def)
    qed
  qed
qed

lemma alloc_extends:
  assumes ok: "tree_ok sb as d" and s: "slot_ok s" "slot_blk as d s = 0" and al: "balloc sb d = Inr (d0, k)"
    and len: "length as' = 13"
    and slots: "\<And>t. slot_ok t \<Longrightarrow> slot_blk as' d' t = (if t = s then k else slot_blk as d t)"
    and diff: "\<And>c. d' c \<noteq> d0 c \<Longrightarrow> \<exists>p. slot_ok p \<and> is_table p \<and> slot_blk as d p = c \<and> c \<noteq> 0"
  shows "extends sb {s} as d as' d'"
proof -
  have bok: "bitmap_ok sb d" using ok by (simp add: tree_ok_def fs_ok_def)
  note b = balloc_Inr [OF al bok] and fresh = balloc_fresh [OF ok al]
  have same: "d' c = d0 c" if "c \<notin> tree_blocks as d" for c
    using diff [of c] that by (auto simp: tree_blocks_def)
  have nb: "c \<notin> tree_blocks as d" if "c \<in> bitmap_blocks sb" for c
    using ok that by (auto simp: tree_ok_def)
  have used0: "blk_used sb d' c = blk_used sb d0 c" if "c < sb_size sb" for c
  proof -
    have "BBLOCK c sb \<in> bitmap_blocks sb" using that by (auto simp: bitmap_blocks_def)
    then show ?thesis using same nb by (simp add: blk_used_def)
  qed
  then have used: "blk_used sb d' c \<longleftrightarrow> blk_used sb d c \<or> c = k" if "c < sb_size sb" for c
    using b(4) that by blast
  have blocks: "tree_blocks as' d' \<subseteq> insert k (tree_blocks as d)"
    using slots by (auto simp: tree_blocks_def split: if_splits)
  have "0 < sb_size sb" using b(1) by simp
  then have fs: "fs_ok sb d'" using fresh(5) used0 by (auto simp: fs_ok_def bitmap_ok_def)
  have tree: "tree_ok sb as' d'" unfolding tree_ok_def
  proof (intro conjI fs len ballI allI impI)
    fix c assume "c \<in> tree_blocks as' d'"
    then have c: "c = k \<or> c \<in> tree_blocks as d" using blocks by blast
    then show lt: "c < sb_size sb" using b(1) ok by (auto simp: tree_ok_def)
    show "blk_used sb d' c" using used [OF lt] c ok by (auto simp: tree_ok_def)
    show "c \<notin> bitmap_blocks sb" using c b(7) nb by blast
  next
    fix t u assume a: "slot_ok t \<and> slot_ok u \<and> slot_blk as' d' t = slot_blk as' d' u \<and> slot_blk as' d' t \<noteq> 0"
    then have "slot_blk as d t \<noteq> k" "slot_blk as d u \<noteq> k"
      using fresh(1,2) by (auto simp: tree_blocks_def)
    then show "t = u" using a slots tree_ok_inj [OF ok, of t u] by (auto split: if_splits)
  qed
  have cont: "content as' d' t i = content as d t i" if "leaf_slot t" "i < BSIZE" for t i
  proof (cases "t = s")
    case True
    have "d' k = d0 k" using same fresh(2) by blast
    then show ?thesis using True slots [OF s(1)] s(2) fresh(4) that by (simp add: content_def)
  next
    case False
    have t: "slot_ok t" "\<not> is_table t" using that(1) by (simp_all add: leaf_slot_def)
    have "d' (slot_blk as d t) = d (slot_blk as d t)" if nz: "slot_blk as d t \<noteq> 0"
    proof -
      have "d' (slot_blk as d t) = d0 (slot_blk as d t)"
        using diff tree_ok_inj [OF ok t(1)] t(2) nz by metis
      then show ?thesis using balloc_keeps_block(1) [OF ok al t(1) nz] by simp
    qed
    then show ?thesis using False slots [OF t(1)] by (simp add: content_def)
  qed
  have rest: "d' c = d c \<and> c \<notin> tree_blocks as' d'"
    if "blk_used sb d c" "c \<notin> bitmap_blocks sb" "c \<notin> tree_blocks as d" for c
  proof -
    have "c \<noteq> k" using that(1) b(2) by blast
    then show ?thesis using same [OF that(3)] b(6) that blocks by auto
  qed
  show ?thesis unfolding extends_def using tree slots cont used rest s by simp
qed

text \<open>What one step of the way down does.\<close>

lemma get_addr_extends:
  assumes ok: "tree_ok sb (addrs ip) d" and n: "n < 13" and g: "get_addr sb n ip d = Inr (ip', d', b)"
  shows "extends sb {Root n} (addrs ip) d (addrs ip') d'" and "slot_blk (addrs ip') d' (Root n) = b" and "b \<noteq> 0"
    and "ip' = ip\<lparr>addrs := addrs ip'\<rparr>"
proof -
  have "extends sb {Root n} (addrs ip) d (addrs ip') d' \<and> slot_blk (addrs ip') d' (Root n) = b \<and> b \<noteq> 0
      \<and> ip' = ip\<lparr>addrs := addrs ip'\<rparr>"
  proof (cases "addrs ip ! n = 0")
    case False
    then show ?thesis using g extends_refl [OF ok] by (auto simp: get_addr_def)
  next
    case True
    then obtain al: "balloc sb d = Inr (d', b)" and ip': "ip' = ip\<lparr>addrs := (addrs ip)[n := b]\<rparr>"
      using g by (auto simp: get_addr_def split: sum.splits)
    have slots: "slot_blk (addrs ip') d' t = (if t = Root n then b else slot_blk (addrs ip) d t)" if "slot_ok t" for t
      using slot_alloc_root [OF ok n True al that] by (simp add: ip')
    have len: "length (addrs ip') = 13" using ok by (simp add: ip' tree_ok_def)
    have "extends sb {Root n} (addrs ip) d (addrs ip') d'"
      by (rule alloc_extends [OF ok _ _ al len slots]) (use n True in simp_all)
    then show ?thesis using slots [of "Root n"] n balloc_fresh(1) [OF ok al] ip' by simp
  qed
  then show "extends sb {Root n} (addrs ip) d (addrs ip') d'" "slot_blk (addrs ip') d' (Root n) = b" "b \<noteq> 0"
    "ip' = ip\<lparr>addrs := addrs ip'\<rparr>" by blast+
qed

lemma get_entry_extends:
  assumes ok: "tree_ok sb as d" and s: "slot_ok (Child p i)" "slot_blk as d p = a" "a \<noteq> 0"
    and g: "get_entry sb a i d = Inr (d', b)"
  shows "extends sb {Child p i} as d as d'" and "slot_blk as d' (Child p i) = b" and "b \<noteq> 0"
proof -
  have "extends sb {Child p i} as d as d' \<and> slot_blk as d' (Child p i) = b \<and> b \<noteq> 0"
  proof (cases "entry d a i = 0")
    case False
    then show ?thesis using g extends_refl [OF ok] s by (auto simp: get_entry_def)
  next
    case True
    then obtain d0 where al: "balloc sb d = Inr (d0, b)" and d': "d' = d0(a := put32 (4 * i) (of_nat b) (d0 a))"
      using g by (auto simp: get_entry_def split: sum.splits)
    note slots = slot_alloc_child [OF ok s True al d']
    have len: "length as = 13" using ok by (simp add: tree_ok_def)
    have "extends sb {Child p i} as d as d'"
    proof (rule alloc_extends [OF ok s(1) _ al len slots])
      show "slot_blk as d (Child p i) = 0" using s True by simp
      show "\<exists>p. slot_ok p \<and> is_table p \<and> slot_blk as d p = c \<and> c \<noteq> 0" if "d' c \<noteq> d0 c" for c
        using that s by (auto simp: d' split: if_splits)
    qed
    then show ?thesis using slots [OF s(1)] balloc_fresh(1) [OF ok al] by simp
  qed
  then show "extends sb {Child p i} as d as d'" "slot_blk as d' (Child p i) = b" "b \<noteq> 0" by blast+
qed

section \<open>bmap\<close>

definition bmap_path :: "nat \<Rightarrow> slot set" where
  "bmap_path bn = insert (leaf bn) {t. is_table t}"

lemma extends_tree: "extends sb S as d as' d' \<Longrightarrow> tree_ok sb as' d'"
  by (simp add: extends_def)

lemma extends_slot: "extends sb S as d as' d' \<Longrightarrow> slot_ok t \<Longrightarrow> slot_blk as d t \<noteq> 0 \<Longrightarrow> slot_blk as' d' t = slot_blk as d t"
  by (simp add: extends_def)

lemma bmap_Inr:
  assumes ok: "tree_ok sb (addrs ip) d" and bn: "bn < MAXFILE" and m: "bmap sb ip bn d = Inr (ip', d', b)"
  shows "extends sb (bmap_path bn) (addrs ip) d (addrs ip') d' \<and> slot_blk (addrs ip') d' (leaf bn) = b \<and> b \<noteq> 0
       \<and> ip' = ip\<lparr>addrs := addrs ip'\<rparr>"
proof -
  consider "bn < 11" | "11 \<le> bn" "bn < 267" | "267 \<le> bn" by linarith
  then show ?thesis
  proof cases
    case 1
    then have g: "get_addr sb bn ip d = Inr (ip', d', b)" using m by (simp add: bmap_def)
    have "bn < 13" using 1 by simp
    note r = get_addr_extends [OF ok this g]
    then show ?thesis using 1 extends_mono [OF r(1), of "bmap_path bn"] by (simp add: leaf_def bmap_path_def)
  next
    case 2
    then have lt: "bn - 11 < 256" by simp
    obtain a d1 where g: "get_addr sb 11 ip d = Inr (ip', d1, a)" and e: "get_entry sb a (bn - 11) d1 = Inr (d', b)"
      using m 2 lt by (auto simp: bmap_def Let_def split: sum.splits)
    have "11 < (13 :: nat)" by simp
    note r = get_addr_extends [OF ok this g]
    have s: "slot_ok (Child (Root 11) (bn - 11))" using 2 by simp
    note r2 = get_entry_extends [OF extends_tree [OF r(1)] s r(2,3) e]
    have "extends sb (bmap_path bn) (addrs ip) d (addrs ip') d'"
      by (rule extends_mono [OF extends_trans [OF r(1) r2(1)]]) (use 2 in \<open>auto simp: bmap_path_def leaf_def\<close>)
    moreover have "leaf bn = Child (Root 11) (bn - 11)" using 2 by (simp add: leaf_def)
    ultimately show ?thesis using r r2 by simp
  next
    case 3
    let ?m = "bn - 267"
    have m': "bn - 11 - 256 = ?m" "\<not> bn - 11 < 256" "?m < 65536" using 3 bn by simp_all
    obtain a2 d1 a1 d2 where g: "get_addr sb 12 ip d = Inr (ip', d1, a2)" and e: "get_entry sb a2 (?m div 256) d1 = Inr (d2, a1)"
      and f: "get_entry sb a1 (?m mod 256) d2 = Inr (d', b)"
      using m 3 m' by (auto simp: bmap_def Let_def split: sum.splits)
    have "12 < (13 :: nat)" by simp
    note r = get_addr_extends [OF ok this g]
    have s: "slot_ok (Child (Root 12) (?m div 256))" "slot_ok (Child (Child (Root 12) (?m div 256)) (?m mod 256))"
      using m'(3) by (auto simp: less_mult_imp_div_less)
    note r2 = get_entry_extends [OF extends_tree [OF r(1)] s(1) r(2,3) e]
    note r3 = get_entry_extends [OF extends_tree [OF r2(1)] s(2) r2(2,3) f]
    have lf: "leaf bn = Child (Child (Root 12) (?m div 256)) (?m mod 256)" using 3 by (simp add: leaf_def)
    have "extends sb (bmap_path bn) (addrs ip) d (addrs ip') d'"
      by (rule extends_mono [OF extends_trans [OF extends_trans [OF r(1) r2(1)] r3(1)]]) (auto simp: bmap_path_def lf)
    then show ?thesis using lf r r3 by simp
  qed
qed

lemma balloc_from_error: "balloc_from sb b d = Inl e \<Longrightarrow> e = ''balloc: out of blocks''"
  by (induction sb b d rule: balloc_from.induct) (subst (asm) (2) balloc_from.simps, simp split: if_splits option.splits)

lemma bmap_Inl: "bn < MAXFILE \<Longrightarrow> bmap sb ip bn d = Inl e \<Longrightarrow> e = ''balloc: out of blocks''"
  using balloc_from_error
  by (auto simp: bmap_def get_addr_def get_entry_def balloc_def Let_def split: if_splits sum.splits)

lemma bmap_range: "MAXFILE \<le> bn \<Longrightarrow> bmap sb ip bn d = Inl ''bmap: out of range''"
proof -
  assume "MAXFILE \<le> bn"
  then have "\<not> bn < 11" "\<not> bn - 11 < 256" "\<not> bn - 11 - 256 < 65536" by simp_all
  then show ?thesis unfolding bmap_def Let_def by (simp only: if_False)
qed

lemma bmap_present:
  assumes "bn < MAXFILE" and "slot_blk (addrs ip) d (leaf bn) \<noteq> 0"
  shows "bmap sb ip bn d = Inr (ip, d, slot_blk (addrs ip) d (leaf bn))"
proof -
  consider "bn < 11" | "11 \<le> bn" "bn < 267" | "267 \<le> bn" by linarith
  then show ?thesis
  proof cases
    case 1
    then show ?thesis using assms by (simp add: bmap_def leaf_def get_addr_def)
  next
    case 2
    then show ?thesis using assms by (simp add: bmap_def leaf_def get_addr_def get_entry_def split: if_splits)
  next
    case 3
    then have "bn - 11 - 256 = bn - 267" "\<not> bn - 11 < 256" "bn - 267 < 65536" using assms(1) by simp_all
    then show ?thesis using assms 3
      by (simp add: bmap_def leaf_def get_addr_def get_entry_def Let_def split: if_splits)
  qed
qed

section \<open>itrunc\<close>

declare upt_rec_numeral [simp del]

text \<open>Freeing a list of blocks, the reference for the loops.\<close>

primrec bfree_all :: "superblock \<Rightarrow> nat list \<Rightarrow> blocks \<Rightarrow> blocks kres" where
  "bfree_all sb [] d = Inr d"
| "bfree_all sb (b # bs) d = (case bfree sb b d of Inl e \<Rightarrow> Inl e | Inr d \<Rightarrow> bfree_all sb bs d)"

lemma bfree_all_append:
  "bfree_all sb (bs @ cs) d = (case bfree_all sb bs d of Inl e \<Rightarrow> Inl e | Inr d \<Rightarrow> bfree_all sb cs d)"
  by (induction bs arbitrary: d) (auto split: sum.splits)

lemma bfree_all_Inr:
  "bfree_all sb bs d = Inr d' \<Longrightarrow> \<forall>b \<in> set bs. b < sb_size sb \<Longrightarrow> c \<notin> bitmap_blocks sb \<Longrightarrow> d' c = d c"
proof (induction bs arbitrary: d)
  case (Cons b bs)
  then obtain d1 where "bfree sb b d = Inr d1" "bfree_all sb bs d1 = Inr d'" by (auto split: sum.splits)
  with Cons bfree_Inr(3) [of sb b d d1] show ?case by simp
qed simp

lemma bfree_all_used:
  assumes "distinct bs" and "\<forall>b \<in> set bs. b < sb_size sb \<and> blk_used sb d b"
  shows "\<exists>d'. bfree_all sb bs d = Inr d' \<and> (\<forall>c. blk_used sb d' c \<longleftrightarrow> blk_used sb d c \<and> c \<notin> set bs)"
  using assms
proof (induction bs arbitrary: d)
  case (Cons b bs)
  then obtain d1 where d1: "bfree sb b d = Inr d1" using bfree_used by (metis list.set_intros(1))
  have b: "b < sb_size sb" using Cons.prems by simp
  note f = bfree_Inr(2) [OF d1 b]
  have "distinct bs" "\<forall>c \<in> set bs. c < sb_size sb \<and> blk_used sb d1 c" using Cons.prems f by auto
  from Cons.IH [OF this] show ?case using d1 f by auto
qed simp

abbreviation nz :: "nat list \<Rightarrow> nat list" where
  "nz \<equiv> filter (\<lambda>b. b \<noteq> 0)"

lemma entry_cong: "d' a = d a \<Longrightarrow> entry d' a = entry d a"
  by (rule ext) (simp add: entry_def)

lemma free_entries_all:
  assumes "a \<notin> bitmap_blocks sb" and "\<forall>j \<in> set js. entry d a j < sb_size sb \<or> entry d a j = 0"
  shows "free_entries sb a js d = bfree_all sb (nz (map (entry d a) js)) d"
  using assms(2)
proof (induction js arbitrary: d)
  case (Cons j js)
  show ?case
  proof (cases "entry d a j = 0")
    case True
    then show ?thesis using Cons by simp
  next
    case False
    have "free_entries sb a js d1 = bfree_all sb (nz (map (entry d a) js)) d1" if "bfree sb (entry d a j) d = Inr d1" for d1
    proof -
      have "d1 a = d a" using bfree_Inr(3) [OF that] Cons.prems False assms(1) by simp
      then have "entry d1 a = entry d a" by (rule entry_cong)
      then show ?thesis using Cons.IH [of d1] Cons.prems by simp
    qed
    with False show ?thesis by (simp split: sum.splits)
  qed
qed simp

text \<open>The blocks that a table of tables refers to, in the order of the loop.\<close>

definition table_list :: "blocks \<Rightarrow> nat \<Rightarrow> nat \<Rightarrow> nat list" where
  "table_list d a i = (if entry d a i = 0 then [] else nz (map (entry d (entry d a i)) [0..<256]) @ [entry d a i])"

lemma free_tables_all:
  assumes "a \<notin> bitmap_blocks sb"
    and "\<forall>i \<in> set is. entry d a i \<noteq> 0 \<longrightarrow> entry d a i < sb_size sb \<and> entry d a i \<notin> bitmap_blocks sb
      \<and> (\<forall>j < 256. entry d (entry d a i) j < sb_size sb \<or> entry d (entry d a i) j = 0)"
  shows "free_tables sb a is d = bfree_all sb (concat (map (table_list d a) is)) d"
  using assms(2)
proof (induction "is" arbitrary: d)
  case (Cons i "is")
  show ?case
  proof (cases "entry d a i = 0")
    case True
    then show ?thesis using Cons by (simp add: table_list_def)
  next
    case False
    let ?t = "entry d a i"
    have t: "?t < sb_size sb" "?t \<notin> bitmap_blocks sb" "\<forall>j \<in> set [0..<256]. entry d ?t j < sb_size sb \<or> entry d ?t j = 0"
      using Cons.prems False by simp_all
    let ?es = "nz (map (entry d ?t) [0..<256])"
    have lt: "\<forall>b \<in> set ?es. b < sb_size sb" using t(3) by auto
    have keep: "d1 c = d c" if "bfree_all sb ?es d = Inr d1" "c \<notin> bitmap_blocks sb" for d1 c
      using bfree_all_Inr [OF that(1) lt that(2)] .
    have step: "free_tables sb a is d2 = bfree_all sb (concat (map (table_list d a) is)) d2"
      if d1: "bfree_all sb ?es d = Inr d1" and d2: "bfree sb ?t d1 = Inr d2" for d1 d2
    proof -
      have k: "d2 c = d c" if "c \<notin> bitmap_blocks sb" for c
        using keep [OF d1 that] bfree_Inr(3) [OF d2 t(1)] that by simp
      have e: "entry d2 a = entry d a" by (rule entry_cong, rule k, rule assms(1))
      have rest: "entry d a l < sb_size sb \<and> entry d a l \<notin> bitmap_blocks sb
          \<and> (\<forall>j < 256. entry d (entry d a l) j < sb_size sb \<or> entry d (entry d a l) j = 0)"
        if "l \<in> set is" "entry d a l \<noteq> 0" for l
        using Cons.prems that by simp
      have ee: "entry d2 (entry d a l) = entry d (entry d a l)" if "l \<in> set is" "entry d a l \<noteq> 0" for l
        by (rule entry_cong, rule k) (use rest [OF that] in simp)
      have "table_list d2 a l = table_list d a l" if "l \<in> set is" for l
        using ee [OF that] by (simp add: table_list_def e)
      then have m: "map (table_list d2 a) is = map (table_list d a) is" by simp
      have "free_tables sb a is d2 = bfree_all sb (concat (map (table_list d2 a) is)) d2"
        by (rule Cons.IH) (simp add: e ee rest)
      then show ?thesis unfolding m .
    qed
    have "free_tables sb a (i # is) d
      = (case bfree_all sb ?es d of Inl e \<Rightarrow> Inl e | Inr d1 \<Rightarrow>
          (case bfree sb (entry d1 a i) d1 of Inl e \<Rightarrow> Inl e | Inr d2 \<Rightarrow> free_tables sb a is d2))"
      using False free_entries_all [OF t(2,3)] by simp
    also have "\<dots> = bfree_all sb (concat (map (table_list d a) (i # is))) d"
    proof (cases "bfree_all sb ?es d")
      case (Inr d1)
      have "entry d1 a i = ?t" using entry_cong [of d1 a d] keep [OF Inr assms(1)] by simp
      then show ?thesis using Inr step [OF Inr] False
        by (simp add: table_list_def bfree_all_append split: sum.splits)
    qed (use False in \<open>simp add: table_list_def bfree_all_append\<close>)
    finally show ?thesis .
  qed
qed simp

text \<open>The places of a file in the order in which \<open>itrunc\<close> frees their blocks.\<close>

definition dir_slots :: "slot list" where
  "dir_slots = map Root [0..<11]"

definition ind_slots :: "slot list" where
  "ind_slots = map (Child (Root 11)) [0..<256] @ [Root 11]"

definition dbl_slots :: "slot list" where
  "dbl_slots = concat (map (\<lambda>i. map (Child (Child (Root 12) i)) [0..<256] @ [Child (Root 12) i]) [0..<256]) @ [Root 12]"

lemma set_slots: "set (dir_slots @ ind_slots @ dbl_slots) = {t. slot_ok t}"
proof (rule set_eqI)
  fix t
  have mem: "t \<in> set (dir_slots @ ind_slots @ dbl_slots) \<longleftrightarrow> (\<exists>n < 11. t = Root n) \<or> (\<exists>k < 256. t = Child (Root 11) k) \<or> t = Root 11
      \<or> (\<exists>i < 256. (\<exists>j < 256. t = Child (Child (Root 12) i) j) \<or> t = Child (Root 12) i) \<or> t = Root 12"
  proof -
    have "t \<in> set dir_slots \<longleftrightarrow> (\<exists>n < 11. t = Root n)" by (auto simp: dir_slots_def)
    moreover have "t \<in> set ind_slots \<longleftrightarrow> (\<exists>k < 256. t = Child (Root 11) k) \<or> t = Root 11"
      by (auto simp: ind_slots_def)
    moreover have "t \<in> set dbl_slots
        \<longleftrightarrow> (\<exists>i < 256. (\<exists>j < 256. t = Child (Child (Root 12) i) j) \<or> t = Child (Root 12) i) \<or> t = Root 12"
    proof -
      let ?U = "\<Union>i \<in> {0..<256}. insert (Child (Root 12) i) (Child (Child (Root 12) i) ` {0..<256})"
      have "t \<in> set dbl_slots \<longleftrightarrow> t = Root 12 \<or> t \<in> ?U" by (simp add: dbl_slots_def)
      moreover have "t \<in> ?U \<longleftrightarrow> (\<exists>i < 256. (\<exists>j < 256. t = Child (Child (Root 12) i) j) \<or> t = Child (Root 12) i)"
        unfolding UN_iff insert_iff image_iff Bex_def atLeastLessThan_iff by auto
      ultimately show ?thesis by (simp only: disj_commute)
    qed
    ultimately show ?thesis by (simp add: disj_assoc)
  qed
  show "t \<in> set (dir_slots @ ind_slots @ dbl_slots) \<longleftrightarrow> t \<in> {t. slot_ok t}"
  proof (cases t)
    case (Root n)
    then show ?thesis unfolding mem by auto
  next
    case (Child s k)
    then show ?thesis unfolding mem by (cases s) auto
  qed
qed

lemma distinct_slots: "distinct (dir_slots @ ind_slots @ dbl_slots)"
proof -
  let ?row = "\<lambda>i. map (Child (Child (Root 12) i)) [0..<256] @ [Child (Root 12) i]"
  have row: "distinct (?row i)" for i by (auto simp: distinct_map inj_on_def)
  have "inj_on ?row (set [0..<256])" by (auto simp: inj_on_def)
  then have "distinct (concat (map ?row [0..<256]))"
    by (intro distinct_concat) (auto simp: distinct_map inj_on_def)
  then show ?thesis
    by (auto simp: dir_slots_def ind_slots_def dbl_slots_def distinct_map inj_on_def)
qed

text \<open>The blocks of the tree do not depend on the bitmap.\<close>

definition tables_ok :: "superblock \<Rightarrow> nat list \<Rightarrow> blocks \<Rightarrow> bool" where
  "tables_ok sb as d = (\<forall>t. slot_ok t \<and> slot_blk as d t \<noteq> 0 \<longrightarrow> slot_blk as d t < sb_size sb \<and> slot_blk as d t \<notin> bitmap_blocks sb)"

primrec slot_root :: "slot \<Rightarrow> nat" where
  "slot_root (Root n) = n"
| "slot_root (Child s k) = slot_root s"

lemma slot_blk_same:
  assumes "tables_ok sb as d" and "\<forall>c. c \<notin> bitmap_blocks sb \<longrightarrow> d' c = d c"
  shows "slot_ok t \<Longrightarrow> as' ! slot_root t = as ! slot_root t \<Longrightarrow> slot_blk as' d' t = slot_blk as d t"
proof (induction t)
  case (Child s k)
  then have s: "slot_blk as' d' s = slot_blk as d s" "slot_ok s" by simp_all
  have "d' (slot_blk as d s) = d (slot_blk as d s)" if "slot_blk as d s \<noteq> 0"
    using assms s(2) that by (simp add: tables_ok_def)
  then show ?case using s by (simp add: entry_def)
qed simp

lemma slot_blk_gone: "as ! slot_root t = 0 \<Longrightarrow> slot_blk as d t = 0"
  by (induction t) simp_all

lemma tables_ok_less:
  assumes "tables_ok sb as d" and "\<forall>c. c \<notin> bitmap_blocks sb \<longrightarrow> d' c = d c" and "\<forall>n. as' ! n = as ! n \<or> as' ! n = 0"
  shows "tables_ok sb as' d'"
  unfolding tables_ok_def
proof (intro allI impI)
  fix t assume t: "slot_ok t \<and> slot_blk as' d' t \<noteq> 0"
  then have "as' ! slot_root t = as ! slot_root t" using assms(3) slot_blk_gone by metis
  then have "slot_blk as' d' t = slot_blk as d t" using slot_blk_same [OF assms(1,2)] t by blast
  then show "slot_blk as' d' t < sb_size sb \<and> slot_blk as' d' t \<notin> bitmap_blocks sb"
    using assms(1) t by (simp add: tables_ok_def)
qed

lemma nz_zero: "(\<And>x. x \<in> set xs \<Longrightarrow> f x = 0) \<Longrightarrow> nz (map f xs) = []"
  by (induction xs) simp_all

lemma nz_concat: "nz (map f (concat (map r xs))) = concat (map (\<lambda>x. nz (map f (r x))) xs)"
  by (induction xs) simp_all

lemma trunc_direct_all:
  assumes "distinct is"
  shows "trunc_direct sb is ip d
    = (case bfree_all sb (nz (map (\<lambda>n. addrs ip ! n) is)) d of
         Inl e \<Rightarrow> Inl e | Inr d' \<Rightarrow> Inr (ip\<lparr>addrs := fold (\<lambda>i as. as[i := 0]) is (addrs ip)\<rparr>, d'))"
  using assms
proof (induction "is" arbitrary: ip d)
  case (Cons i "is")
  have m: "map (\<lambda>n. addrs (ip\<lparr>addrs := (addrs ip)[i := 0]\<rparr>) ! n) is = map (\<lambda>n. addrs ip ! n) is"
  proof (rule map_cong)
    fix n assume "n \<in> set is"
    then have "n \<noteq> i" using Cons.prems by auto
    then show "addrs (ip\<lparr>addrs := (addrs ip)[i := 0]\<rparr>) ! n = addrs ip ! n" by simp
  qed simp
  show ?case
  proof (cases "addrs ip ! i = 0")
    case True
    then have "(addrs ip)[i := 0] = addrs ip" by (metis list_update_id)
    then show ?thesis using True Cons by (simp split: sum.splits)
  next
    case False
    have "distinct is" using Cons.prems by simp
    note ih = Cons.IH [OF this, of "ip\<lparr>addrs := (addrs ip)[i := 0]\<rparr>", unfolded m]
    show ?thesis using False by (cases "bfree sb (addrs ip ! i) d") (simp_all add: ih del: map_eq_conv split: sum.splits)
  qed
qed simp

lemma trunc_indirect_all:
  assumes "tables_ok sb (addrs ip) d"
  shows "trunc_indirect sb ip d
    = (case bfree_all sb (nz (map (slot_blk (addrs ip) d) ind_slots)) d of
         Inl e \<Rightarrow> Inl e | Inr d' \<Rightarrow> Inr (ip\<lparr>addrs := (addrs ip)[11 := 0]\<rparr>, d'))"
proof (cases "addrs ip ! 11 = 0")
  case True
  then have "(addrs ip)[11 := 0] = addrs ip" by (metis list_update_id)
  moreover have "nz (map (slot_blk (addrs ip) d) ind_slots) = []"
    by (rule nz_zero) (auto simp: ind_slots_def True)
  ultimately show ?thesis using True by (simp add: trunc_indirect_def)
next
  case False
  let ?a = "addrs ip ! 11"
  have a: "?a \<notin> bitmap_blocks sb" using assms [unfolded tables_ok_def, rule_format, of "Root 11"] False by simp
  have "\<forall>j \<in> set [0..<256]. entry d ?a j < sb_size sb \<or> entry d ?a j = 0"
  proof
    fix j assume "j \<in> set [0..<256 :: nat]"
    then show "entry d ?a j < sb_size sb \<or> entry d ?a j = 0"
      using assms [unfolded tables_ok_def, rule_format, of "Child (Root 11) j"] False by auto
  qed
  note f = free_entries_all [OF a this]
  have "map (slot_blk (addrs ip) d) ind_slots = map (entry d ?a) [0..<256] @ [?a]"
    using False by (simp add: ind_slots_def)
  then show ?thesis using False f by (simp add: trunc_indirect_def bfree_all_append split: sum.splits)
qed

lemma trunc_double_all:
  assumes "tables_ok sb (addrs ip) d"
  shows "trunc_double sb ip d
    = (case bfree_all sb (nz (map (slot_blk (addrs ip) d) dbl_slots)) d of
         Inl e \<Rightarrow> Inl e | Inr d' \<Rightarrow> Inr (ip\<lparr>addrs := (addrs ip)[12 := 0]\<rparr>, d'))"
proof (cases "addrs ip ! 12 = 0")
  case True
  then have "(addrs ip)[12 := 0] = addrs ip" by (metis list_update_id)
  moreover have "nz (map (slot_blk (addrs ip) d) dbl_slots) = []"
    by (rule nz_zero) (auto simp: dbl_slots_def True)
  ultimately show ?thesis using True by (simp add: trunc_double_def)
next
  case False
  let ?a = "addrs ip ! 12"
  have a: "?a \<notin> bitmap_blocks sb" using assms [unfolded tables_ok_def, rule_format, of "Root 12"] False by simp
  have "\<forall>i \<in> set [0..<256]. entry d ?a i \<noteq> 0 \<longrightarrow> entry d ?a i < sb_size sb \<and> entry d ?a i \<notin> bitmap_blocks sb
      \<and> (\<forall>j < 256. entry d (entry d ?a i) j < sb_size sb \<or> entry d (entry d ?a i) j = 0)"
  proof (intro ballI impI conjI allI)
    fix i assume i: "i \<in> set [0..<256 :: nat]" and nzi: "entry d ?a i \<noteq> 0"
    then show "entry d ?a i < sb_size sb" "entry d ?a i \<notin> bitmap_blocks sb"
      using assms [unfolded tables_ok_def, rule_format, of "Child (Root 12) i"] False by simp_all
    show "entry d (entry d ?a i) j < sb_size sb \<or> entry d (entry d ?a i) j = 0" if "j < 256" for j
      using assms [unfolded tables_ok_def, rule_format, of "Child (Child (Root 12) i) j"] False i nzi that by auto
  qed
  note f = free_tables_all [OF a this]
  have row: "nz (map (slot_blk (addrs ip) d) (map (Child (Child (Root 12) i)) [0..<256] @ [Child (Root 12) i])) = table_list d ?a i" for i
  proof (cases "entry d ?a i = 0")
    case True
    then show ?thesis using False by (simp add: table_list_def nz_zero)
  next
    case nzi: False
    have "map (slot_blk (addrs ip) d) (map (Child (Child (Root 12) i)) [0..<256]) = map (entry d (entry d ?a i)) [0..<256]"
      unfolding map_map by (rule map_cong) (use False nzi in simp_all)
    then show ?thesis using False nzi by (simp only: table_list_def map_append filter_append) simp
  qed
  have "nz (map (slot_blk (addrs ip) d) (concat (map (\<lambda>i. map (Child (Child (Root 12) i)) [0..<256] @ [Child (Root 12) i]) [0..<256])))
      = concat (map (table_list d ?a) [0..<256])"
    by (simp only: nz_concat row)
  then have "nz (map (slot_blk (addrs ip) d) dbl_slots) = concat (map (table_list d ?a) [0..<256]) @ [?a]"
    unfolding dbl_slots_def using False by (simp only: map_append filter_append) simp
  then show ?thesis using False f by (simp add: trunc_double_def bfree_all_append split: sum.splits)
qed

lemma nth_upd: "xs[i := x] ! j = (if i = j \<and> j < length xs then x else xs ! j)"
  by (cases "i < length xs") (auto simp: nth_list_update list_update_beyond)

lemma fold_zero_nth:
  "fold (\<lambda>i as. as[i := 0]) is as ! n = (if n \<in> set is \<and> n < length as then 0 else as ! n)"
  by (induction "is" arbitrary: as) (auto simp: nth_upd)

lemma fold_zero_length: "length (fold (\<lambda>i as. as[i := 0]) is as) = length as"
  by (induction "is" arbitrary: as) simp_all

lemma tree_ok_tables: "tree_ok sb as d \<Longrightarrow> tables_ok sb as d"
  by (simp add: tables_ok_def tree_okD)

lemma tree_list:
  assumes "tree_ok sb as d"
  defines "L \<equiv> nz (map (slot_blk as d) (dir_slots @ ind_slots @ dbl_slots))"
  shows "distinct L" and "set L = tree_blocks as d"
proof -
  let ?S = "filter (\<lambda>t. slot_blk as d t \<noteq> 0) (dir_slots @ ind_slots @ dbl_slots)"
  have L: "L = map (slot_blk as d) ?S" unfolding L_def filter_map comp_def ..
  have S: "set ?S = {t. slot_ok t \<and> slot_blk as d t \<noteq> 0}" using set_slots by auto
  have "inj_on (slot_blk as d) (set ?S)"
    unfolding S using tree_ok_inj [OF assms(1)] by (auto simp: inj_on_def)
  moreover have "distinct ?S" using distinct_slots by (rule distinct_filter)
  ultimately show "distinct L" unfolding L distinct_map by blast
  show "set L = tree_blocks as d" unfolding L set_map S by (auto simp: tree_blocks_def)
qed

lemma itrunc_Inr:
  assumes ok: "tree_ok sb (addrs ip) d"
  shows "\<exists>d'. itrunc sb ip d = Inr (ip\<lparr>addrs := replicate 13 0, i_size := 0\<rparr>, iupdate sb (ip\<lparr>addrs := replicate 13 0, i_size := 0\<rparr>) d')
    \<and> (\<forall>c. blk_used sb d' c \<longleftrightarrow> blk_used sb d c \<and> c \<notin> tree_blocks (addrs ip) d)
    \<and> (\<forall>c. c \<notin> bitmap_blocks sb \<longrightarrow> d' c = d c)"
proof -
  let ?as = "addrs ip" and ?bl = "\<lambda>ss. nz (map (slot_blk (addrs ip) d) ss)"
  let ?as1 = "fold (\<lambda>i as. as[i := 0]) [0..<11] ?as"
  note tb = tree_ok_tables [OF ok] and tl = tree_list [OF ok]
  have lt: "\<forall>b \<in> set (?bl (dir_slots @ ind_slots @ dbl_slots)). b < sb_size sb \<and> blk_used sb d b"
    unfolding tl(2) using ok by (simp add: tree_ok_def)
  from bfree_all_used [OF tl(1) lt] obtain d3 where
    d3: "bfree_all sb (?bl (dir_slots @ ind_slots @ dbl_slots)) d = Inr d3"
    and used: "\<forall>c. blk_used sb d3 c \<longleftrightarrow> blk_used sb d c \<and> c \<notin> tree_blocks ?as d" unfolding tl(2) by blast
  from d3 obtain d1 d2 where d1: "bfree_all sb (?bl dir_slots) d = Inr d1"
    and d2: "bfree_all sb (?bl ind_slots) d1 = Inr d2" and d3: "bfree_all sb (?bl dbl_slots) d2 = Inr d3"
    by (auto simp: bfree_all_append split: sum.splits)
  have lts: "\<forall>b \<in> set (?bl ss). b < sb_size sb" if "set ss \<subseteq> {t. slot_ok t}" for ss
    using tb that by (auto simp: tables_ok_def)
  have sub: "set dir_slots \<subseteq> {t. slot_ok t}" "set ind_slots \<subseteq> {t. slot_ok t}" "set dbl_slots \<subseteq> {t. slot_ok t}"
    using set_slots by auto
  have k1: "\<forall>c. c \<notin> bitmap_blocks sb \<longrightarrow> d1 c = d c" using bfree_all_Inr [OF d1 lts [OF sub(1)]] by blast
  then have k2: "\<forall>c. c \<notin> bitmap_blocks sb \<longrightarrow> d2 c = d c" using bfree_all_Inr [OF d2 lts [OF sub(2)]] by simp
  then have k3: "\<forall>c. c \<notin> bitmap_blocks sb \<longrightarrow> d3 c = d c" using bfree_all_Inr [OF d3 lts [OF sub(3)]] by simp
  have len: "length ?as = 13" using ok by (simp add: tree_ok_def)
  have "map (\<lambda>n. ?as ! n) [0..<11] = map (slot_blk ?as d) dir_slots" by (simp add: dir_slots_def)
  then have s1: "trunc_direct sb [0..<11] ip d = Inr (ip\<lparr>addrs := ?as1\<rparr>, d1)"
    using trunc_direct_all [of "[0..<11]" sb ip d] d1 by simp
  have tb1: "tables_ok sb ?as1 d1"
    by (rule tables_ok_less [OF tb k1]) (simp add: fold_zero_nth)
  have "slot_blk ?as1 d1 t = slot_blk ?as d t" if "t \<in> set ind_slots" for t
    by (rule slot_blk_same [OF tb k1]) (use that sub(2) in \<open>auto simp: ind_slots_def fold_zero_nth\<close>)
  then have "map (slot_blk ?as1 d1) ind_slots = map (slot_blk ?as d) ind_slots" by simp
  then have s2: "trunc_indirect sb (ip\<lparr>addrs := ?as1\<rparr>) d1 = Inr (ip\<lparr>addrs := ?as1[11 := 0]\<rparr>, d2)"
    using trunc_indirect_all [of sb "ip\<lparr>addrs := ?as1\<rparr>" d1] tb1 d2 by (simp del: map_eq_conv)
  have "\<forall>n. ?as1[11 := 0] ! n = ?as ! n \<or> ?as1[11 := 0] ! n = 0"
    by (simp add: fold_zero_nth nth_upd)
  then have tb2: "tables_ok sb (?as1[11 := 0]) d2" by (rule tables_ok_less [OF tb k2])
  have "slot_blk (?as1[11 := 0]) d2 t = slot_blk ?as d t" if "t \<in> set dbl_slots" for t
    by (rule slot_blk_same [OF tb k2]) (use that sub(3) in \<open>auto simp: dbl_slots_def fold_zero_nth\<close>)
  then have "map (slot_blk (?as1[11 := 0]) d2) dbl_slots = map (slot_blk ?as d) dbl_slots" by simp
  then have s3: "trunc_double sb (ip\<lparr>addrs := ?as1[11 := 0]\<rparr>) d2 = Inr (ip\<lparr>addrs := ?as1[11 := 0, 12 := 0]\<rparr>, d3)"
    using trunc_double_all [of sb "ip\<lparr>addrs := ?as1[11 := 0]\<rparr>" d2] tb2 d3 by (simp del: map_eq_conv)
  have "?as1[11 := 0, 12 := 0] = replicate 13 0"
    by (rule nth_equalityI) (simp_all add: fold_zero_length len nth_upd fold_zero_nth)
  then show ?thesis unfolding itrunc_def s1 using s2 s3 used k3 by (intro exI [of _ d3]) (simp add: Let_def)
qed

end
