(* ===== verification/Fs_File.thy ===== *)
theory Fs_File
  imports Fs_Map
begin

text \<open>
  Reading and writing a file, \<open>readi\<close>, \<open>writei\<close> and \<open>stati\<close> of \<open>src/kernel/filesystem/fs.c\<close>, and their
  specification: a file is a list of bytes. The copy between the block and the caller's memory
  (\<open>either_copyout\<close>, \<open>either_copyin\<close>) is a parameter: given the offset in the caller's buffer and the
  length of the chunk, it says how many bytes were copied before it failed, or the whole length.
\<close>

section \<open>Operations\<close>

type_synonym copier = "nat \<Rightarrow> nat \<Rightarrow> nat"

record stat =
  st_dev :: nat
  st_ino :: nat
  st_type :: u8
  st_mode :: u8
  st_nlink :: u16
  st_size :: nat

definition stati :: "inode \<Rightarrow> stat" where
  "stati ip = \<lparr>st_dev = i_dev ip, st_ino = i_inum ip, st_type = i_type ip, st_mode = i_mode ip,
     st_nlink = i_nlink ip, st_size = i_size ip\<rparr>"

text \<open>The length of the next chunk.\<close>

definition chunk :: "nat \<Rightarrow> nat \<Rightarrow> nat \<Rightarrow> nat" where
  "chunk n tot off = min (n - tot) (BSIZE - off mod BSIZE)"

lemma chunk_pos [simp]: "tot < n \<Longrightarrow> 0 < chunk n tot off"
  by (simp add: chunk_def)

lemma chunk_less [simp]: "tot < n \<Longrightarrow> n - (tot + chunk n tot off) < n - tot"
  by (rule diff_less_mono2) simp_all

function readi_loop :: "superblock \<Rightarrow> copier \<Rightarrow> nat \<Rightarrow> nat \<Rightarrow> nat \<Rightarrow> inode \<Rightarrow> blocks \<Rightarrow> u8 list
    \<Rightarrow> (inode \<times> blocks \<times> nat \<times> u8 list) kres" where
  "readi_loop sb cp n tot off ip d out =
     (if tot < n
      then (case bmap sb ip (off div BSIZE) d of
              Inl e \<Rightarrow> Inl e
            | Inr (ip, d, b) \<Rightarrow>
                (let m = chunk n tot off; k = cp tot m;
                     out = out @ map (\<lambda>i. d b (off mod BSIZE + i)) [0..<min k m]
                 in if k < m then Inr (ip, d, tot, out)
                    else readi_loop sb cp n (tot + m) (off + m) ip d out))
      else Inr (ip, d, tot, out))"
  by pat_completeness auto
termination by (relation "measure (\<lambda>(sb, cp, n, tot, off, ip, d, out). n - tot)") auto

declare readi_loop.simps [simp del]

text \<open>The result is the number of bytes read, with the bytes that were stored in the caller's memory.\<close>

definition readi :: "superblock \<Rightarrow> copier \<Rightarrow> inode \<Rightarrow> nat \<Rightarrow> nat \<Rightarrow> blocks \<Rightarrow> (inode \<times> blocks \<times> nat \<times> u8 list) kres" where
  "readi sb cp ip off n d =
     (if off > i_size ip \<or> (off + n) mod 2 ^ 32 < off then Inr (ip, d, 0, [])
      else readi_loop sb cp (if (off + n) mod 2 ^ 32 > i_size ip then i_size ip - off else n) 0 off ip d [])"

text \<open>The block after the first bytes of a chunk have been copied into it.\<close>

definition overlay :: "block \<Rightarrow> nat \<Rightarrow> nat \<Rightarrow> (nat \<Rightarrow> u8) \<Rightarrow> nat \<Rightarrow> block" where
  "overlay blk start k src tot = (\<lambda>i. if start \<le> i \<and> i < start + k then src (tot + (i - start)) else blk i)"

function writei_loop :: "superblock \<Rightarrow> copier \<Rightarrow> (nat \<Rightarrow> u8) \<Rightarrow> nat \<Rightarrow> nat \<Rightarrow> nat \<Rightarrow> inode \<Rightarrow> blocks
    \<Rightarrow> (inode \<times> blocks \<times> nat) kres" where
  "writei_loop sb cp src n tot off ip d =
     (if tot < n
      then (case bmap sb ip (off div BSIZE) d of
              Inl e \<Rightarrow> Inl e
            | Inr (ip, d, b) \<Rightarrow>
                (let m = chunk n tot off; k = cp tot m;
                     d = d(b := overlay (d b) (off mod BSIZE) (min k m) src tot)
                 in if k < m then Inr (ip, d, off)
                    else writei_loop sb cp src n (tot + m) (off + m) ip d))
      else Inr (ip, d, off))"
  by pat_completeness auto
termination by (relation "measure (\<lambda>(sb, cp, src, n, tot, off, ip, d). n - tot)") auto

declare writei_loop.simps [simp del]

definition writei :: "superblock \<Rightarrow> copier \<Rightarrow> (nat \<Rightarrow> u8) \<Rightarrow> inode \<Rightarrow> nat \<Rightarrow> nat \<Rightarrow> blocks \<Rightarrow> (inode \<times> blocks \<times> int) kres" where
  "writei sb cp src ip off n d =
     (if off > i_size ip \<or> (off + n) mod 2 ^ 32 < off then Inr (ip, d, - 1)
      else if (off + n) mod 2 ^ 32 > MAXFILE * BSIZE then Inr (ip, d, - 1)
      else (case writei_loop sb cp src n 0 off ip d of
              Inl e \<Rightarrow> Inl e
            | Inr (ip, d, off) \<Rightarrow>
                (if n > 0
                 then (let ip = (if off > i_size ip then ip\<lparr>i_size := off\<rparr> else ip)
                       in Inr (ip, iupdate sb ip d, int n))
                 else Inr (ip, d, int n))))"

section \<open>Files as lists of bytes\<close>

definition fbyte :: "nat list \<Rightarrow> blocks \<Rightarrow> nat \<Rightarrow> u8" where
  "fbyte as d i = content as d (leaf (i div BSIZE)) (i mod BSIZE)"

definition file_bytes :: "inode \<Rightarrow> blocks \<Rightarrow> u8 list" where
  "file_bytes ip d = map (fbyte (addrs ip) d) [0..<i_size ip]"

text \<open>A well-formed file: its tree of blocks is its own and has no holes below its size, and its inode
  lies outside of it.\<close>

definition file_ok :: "superblock \<Rightarrow> inode \<Rightarrow> blocks \<Rightarrow> bool" where
  "file_ok sb ip d = (tree_ok sb (addrs ip) d \<and> i_size ip \<le> MAXFILE * BSIZE
     \<and> IBLOCK (i_inum ip) sb < sb_size sb \<and> blk_used sb d (IBLOCK (i_inum ip) sb)
     \<and> IBLOCK (i_inum ip) sb \<notin> bitmap_blocks sb \<and> IBLOCK (i_inum ip) sb \<notin> tree_blocks (addrs ip) d
     \<and> (\<forall>q. q * BSIZE < i_size ip \<longrightarrow> slot_blk (addrs ip) d (leaf q) \<noteq> 0))"

text \<open>Blocks are added to the tree, and nothing outside of it changes.\<close>

definition grows :: "superblock \<Rightarrow> nat list \<Rightarrow> blocks \<Rightarrow> nat list \<Rightarrow> blocks \<Rightarrow> bool" where
  "grows sb as d as' d' = (tree_ok sb as' d'
     \<and> (\<forall>t. slot_ok t \<and> slot_blk as d t \<noteq> 0 \<longrightarrow> slot_blk as' d' t = slot_blk as d t)
     \<and> (\<forall>c < sb_size sb. blk_used sb d c \<longrightarrow> blk_used sb d' c)
     \<and> (\<forall>c < sb_size sb. blk_used sb d c \<and> c \<notin> bitmap_blocks sb \<and> c \<notin> tree_blocks as d
          \<longrightarrow> d' c = d c \<and> c \<notin> tree_blocks as' d'))"

lemma grows_refl: "tree_ok sb as d \<Longrightarrow> grows sb as d as d"
  by (simp add: grows_def)

lemma extends_grows: "extends sb S as d as' d' \<Longrightarrow> grows sb as d as' d'"
  unfolding extends_def grows_def by blast

lemma extends_fbyte: "extends sb S as d as' d' \<Longrightarrow> i < MAXFILE * BSIZE \<Longrightarrow> fbyte as' d' i = fbyte as d i"
  by (simp add: extends_def fbyte_def leaf_leaf less_mult_imp_div_less)

lemma grows_trans: "grows sb as d as1 d1 \<Longrightarrow> grows sb as1 d1 as2 d2 \<Longrightarrow> grows sb as d as2 d2"
  unfolding grows_def by metis

text \<open>A change of a block that is no table keeps the tree.\<close>

lemma slot_blk_outside:
  assumes "\<forall>t. slot_ok t \<and> is_table t \<and> slot_blk as d t = c \<longrightarrow> c = 0" and "\<forall>b. b \<noteq> c \<longrightarrow> d' b = d b"
  shows "slot_ok t \<Longrightarrow> slot_blk as d' t = slot_blk as d t"
proof (induction t)
  case (Child s k)
  then have "slot_ok s" "is_table s" "slot_blk as d' s = slot_blk as d s" by simp_all
  moreover have "slot_blk as d s \<noteq> c" if "slot_blk as d s \<noteq> 0" using assms(1) calculation that by metis
  ultimately show ?case using assms(2) by (simp add: entry_def)
qed simp

lemma slot_blk_upd:
  "\<forall>t. slot_ok t \<and> is_table t \<and> slot_blk as d t = c \<longrightarrow> c = 0 \<Longrightarrow> slot_ok t \<Longrightarrow> slot_blk as (d(c := x)) t = slot_blk as d t"
  by (rule slot_blk_outside [where c = c]) simp_all

lemma tree_blocks_upd:
  assumes "\<forall>t. slot_ok t \<and> is_table t \<and> slot_blk as d t = c \<longrightarrow> c = 0"
  shows "tree_blocks as (d(c := x)) = tree_blocks as d"
  using slot_blk_upd [OF assms] by (auto simp: tree_blocks_def)

lemma blk_used_upd: "c \<notin> bitmap_blocks sb \<Longrightarrow> b < sb_size sb \<Longrightarrow> blk_used sb (d(c := x)) b = blk_used sb d b"
  by (auto simp: blk_used_def bitmap_blocks_def)

lemma tree_ok_upd:
  assumes ok: "tree_ok sb as d" and "\<forall>t. slot_ok t \<and> is_table t \<and> slot_blk as d t = c \<longrightarrow> c = 0" and "c \<notin> bitmap_blocks sb"
    and "0 < sb_size sb"
  shows "tree_ok sb as (d(c := x))"
proof -
  have "fs_ok sb (d(c := x))"
    using ok assms(3,4) by (auto simp: tree_ok_def fs_ok_def bitmap_ok_def blk_used_upd)
  then show ?thesis
    using ok slot_blk_upd [OF assms(2)] tree_blocks_upd [OF assms(2)] blk_used_upd [OF assms(3)] by (auto simp: tree_ok_def)
qed

lemma data_block:
  assumes ok: "tree_ok sb as d" and t: "leaf_slot t" "slot_blk as d t = b" "b \<noteq> 0"
  shows "\<forall>u. slot_ok u \<and> is_table u \<and> slot_blk as d u = b \<longrightarrow> b = 0"
  using tree_ok_inj [OF ok] t by (metis leaf_slot_def)

lemma data_write:
  assumes ok: "tree_ok sb as d" and t: "leaf_slot t" "slot_blk as d t = b" "b \<noteq> 0"
  shows "grows sb as d as (d(b := x))"
    and "slot_ok u \<Longrightarrow> slot_blk as (d(b := x)) u = slot_blk as d u"
    and "leaf_slot u \<Longrightarrow> content as (d(b := x)) u i = (if u = t then x i else content as d u i)"
proof -
  note nt = data_block [OF assms]
  have tok: "slot_ok t" using t(1) by (simp add: leaf_slot_def)
  have b: "b < sb_size sb" "b \<notin> bitmap_blocks sb" "b \<in> tree_blocks as d"
    using tree_okD [OF ok tok] tree_blocksI [OF tok, of as d] t(2,3) by simp_all
  note s = slot_blk_upd [OF nt]
  show "slot_ok u \<Longrightarrow> slot_blk as (d(b := x)) u = slot_blk as d u" by (rule s)
  have "tree_ok sb as (d(b := x))" by (rule tree_ok_upd [OF ok nt b(2)]) (use b(1) in simp)
  then show "grows sb as d as (d(b := x))"
    using s blk_used_upd [OF b(2)] tree_blocks_upd [OF nt] b(3) by (auto simp: grows_def)
  show "content as (d(b := x)) u i = (if u = t then x i else content as d u i)" if u: "leaf_slot u"
  proof -
    have uok: "slot_ok u" using u by (simp add: leaf_slot_def)
    have "slot_blk as d u \<noteq> b" if "u \<noteq> t" using tree_ok_inj [OF ok uok tok] that t by metis
    then show ?thesis using s [OF uok] t by (auto simp: content_def)
  qed
qed

lemma fbyte_data_write:
  assumes ok: "tree_ok sb as d" and q: "q < MAXFILE" "slot_blk as d (leaf q) = b" "b \<noteq> 0" and i: "i < MAXFILE * BSIZE"
  shows "fbyte as (d(b := x)) i = (if i div BSIZE = q then x (i mod BSIZE) else fbyte as d i)"
proof -
  have "leaf_slot (leaf (i div BSIZE))" using i by (intro leaf_leaf) (simp add: less_mult_imp_div_less)
  from data_write(3) [OF ok leaf_leaf [OF q(1)] q(2,3) this] show ?thesis
    unfolding fbyte_def using leaf_inj by auto
qed

text \<open>Reading a chunk out of a block, and copying one into it, byte by byte.\<close>

lemma chunk_same_block:
  assumes "j < chunk n tot off"
  shows "(off + j) div BSIZE = off div BSIZE" and "(off + j) mod BSIZE = off mod BSIZE + j"
proof -
  have j: "off mod 1024 + j < 1024" using assms unfolding chunk_def by linarith
  show "(off + j) div BSIZE = off div BSIZE"
    using div_add1_eq [of off j 1024] j by (simp add: mod_less)
  show "(off + j) mod BSIZE = off mod BSIZE + j"
    using mod_add_left_eq [of off 1024 j] j by (simp del: mod_add_left_eq)
qed

lemma overlay_byte:
  assumes "k \<le> chunk n tot off" and "i div BSIZE = off div BSIZE"
  shows "overlay blk (off mod BSIZE) k src tot (i mod BSIZE)
    = (if off \<le> i \<and> i < off + k then src (tot + (i - off)) else blk (i mod BSIZE))"
proof -
  have e: "i = 1024 * (off div 1024) + i mod 1024" "off = 1024 * (off div 1024) + off mod 1024"
    using assms(2) mult_div_mod_eq [of 1024 i] by simp_all
  then have "off \<le> i \<longleftrightarrow> off mod 1024 \<le> i mod 1024" "i < off + k \<longleftrightarrow> i mod 1024 < off mod 1024 + k"
    "i - off = i mod 1024 - off mod 1024" by linarith+
  then show ?thesis by (simp add: overlay_def)
qed

section \<open>The loops\<close>

lemma block_in_range: "tot < n \<Longrightarrow> off + (n - tot) \<le> MAXFILE * BSIZE \<Longrightarrow> off div BSIZE < MAXFILE"
  by (rule less_mult_imp_div_less) simp

lemma chunk_le: "chunk n tot off \<le> n - tot"
  by (simp add: chunk_def)

lemma write_step:
  fixes src :: "nat \<Rightarrow> u8"
  assumes ok: "tree_ok sb (addrs ip) d" and r: "tot < n" "off + (n - tot) \<le> MAXFILE * BSIZE"
    and m: "bmap sb ip (off div BSIZE) d = Inr (ip1, d1, b)" and k: "k \<le> chunk n tot off"
  defines "d2 \<equiv> d1(b := overlay (d1 b) (off mod BSIZE) k src tot)"
  shows "grows sb (addrs ip) d (addrs ip1) d2" and "ip1 = ip\<lparr>addrs := addrs ip1\<rparr>"
    and "slot_blk (addrs ip1) d2 (leaf (off div BSIZE)) \<noteq> 0"
    and "i < MAXFILE * BSIZE \<Longrightarrow>
      fbyte (addrs ip1) d2 i = (if off \<le> i \<and> i < off + k then src (tot + (i - off)) else fbyte (addrs ip) d i)"
proof -
  note q = block_in_range [OF r]
  note bm = bmap_Inr [OF ok q m]
  then have e: "extends sb (bmap_path (off div BSIZE)) (addrs ip) d (addrs ip1) d1"
    and b: "slot_blk (addrs ip1) d1 (leaf (off div BSIZE)) = b" "b \<noteq> 0" by blast+
  note t1 = extends_tree [OF e] and lf = leaf_leaf [OF q]
  show "ip1 = ip\<lparr>addrs := addrs ip1\<rparr>" using bm by blast
  show "grows sb (addrs ip) d (addrs ip1) d2"
    unfolding d2_def by (rule grows_trans [OF extends_grows [OF e] data_write(1) [OF t1 lf b]])
  show "slot_blk (addrs ip1) d2 (leaf (off div BSIZE)) \<noteq> 0"
    unfolding d2_def using data_write(2) [OF t1 lf b] lf b by (simp add: leaf_slot_def)
  show "fbyte (addrs ip1) d2 i = (if off \<le> i \<and> i < off + k then src (tot + (i - off)) else fbyte (addrs ip) d i)"
    if i: "i < MAXFILE * BSIZE"
  proof (cases "i div BSIZE = off div BSIZE")
    case True
    have "d1 b (i mod BSIZE) = fbyte (addrs ip1) d1 i" using True b by (simp add: fbyte_def content_def)
    then show ?thesis
      unfolding d2_def fbyte_data_write [OF t1 q b i] using True overlay_byte [OF k True] extends_fbyte [OF e i] by simp
  next
    case False
    have "\<not> (off \<le> i \<and> i < off + k)"
    proof
      assume a: "off \<le> i \<and> i < off + k"
      then have "i - off < chunk n tot off" using k by linarith
      from chunk_same_block(1) [OF this] a False show False by simp
    qed
    then show ?thesis
      unfolding d2_def fbyte_data_write [OF t1 q b i] using False extends_fbyte [OF e i] by auto
  qed
qed

text \<open>After the loop, the chunks that were copied are in the file; only a chunk whose copy failed may have
  changed bytes after them.\<close>

definition wrote :: "superblock \<Rightarrow> (nat \<Rightarrow> u8) \<Rightarrow> nat \<Rightarrow> nat \<Rightarrow> nat \<Rightarrow> inode \<Rightarrow> blocks \<Rightarrow> inode \<Rightarrow> blocks \<Rightarrow> nat \<Rightarrow> bool" where
  "wrote sb src n tot off ip d ip' d' off' = (grows sb (addrs ip) d (addrs ip') d' \<and> ip' = ip\<lparr>addrs := addrs ip'\<rparr>
     \<and> off \<le> off' \<and> off' \<le> off + (n - tot)
     \<and> (\<forall>i < MAXFILE * BSIZE. i < off' \<or> off + (n - tot) \<le> i \<longrightarrow>
          fbyte (addrs ip') d' i = (if off \<le> i \<and> i < off' then src (tot + (i - off)) else fbyte (addrs ip) d i))
     \<and> (\<forall>i. off \<le> i \<and> i < off' \<longrightarrow> slot_blk (addrs ip') d' (leaf (i div BSIZE)) \<noteq> 0))"

lemma wrote_trans:
  assumes w: "wrote sb src n (tot + m) (off + m) ip1 d1 ip' d' off'" and m: "m \<le> chunk n tot off" "tot < n"
    and range: "off + (n - tot) \<le> MAXFILE * BSIZE"
    and g: "grows sb (addrs ip) d (addrs ip1) d1" and ip1: "ip1 = ip\<lparr>addrs := addrs ip1\<rparr>"
    and b: "slot_blk (addrs ip1) d1 (leaf (off div BSIZE)) \<noteq> 0"
    and f: "\<And>i. i < MAXFILE * BSIZE \<Longrightarrow>
      fbyte (addrs ip1) d1 i = (if off \<le> i \<and> i < off + m then src (tot + (i - off)) else fbyte (addrs ip) d i)"
  shows "wrote sb src n tot off ip d ip' d' off'"
proof -
  have mn: "m \<le> n - tot" using m(1) chunk_le le_trans by blast
  then have len: "off + m + (n - (tot + m)) = off + (n - tot)" by linarith
  note w' = w [unfolded wrote_def len]
  have g': "grows sb (addrs ip1) d1 (addrs ip') d'" and o: "off + m \<le> off'" "off' \<le> off + (n - tot)" using w' by blast+
  have "fbyte (addrs ip') d' i = (if off \<le> i \<and> i < off' then src (tot + (i - off)) else fbyte (addrs ip) d i)"
    if "i < MAXFILE * BSIZE" "i < off' \<or> off + (n - tot) \<le> i" for i
  proof -
    have "fbyte (addrs ip') d' i = (if off + m \<le> i \<and> i < off' then src (tot + m + (i - (off + m))) else fbyte (addrs ip1) d1 i)"
      using w' that by blast
    moreover have "tot + m + (i - (off + m)) = tot + (i - off)" if "off + m \<le> i" using that by simp
    ultimately show ?thesis using f [OF that(1)] o mn that(2) by auto
  qed
  moreover have "slot_blk (addrs ip') d' (leaf (i div BSIZE)) \<noteq> 0" if i: "off \<le> i" "i < off'" for i
  proof (cases "off + m \<le> i")
    case True
    then show ?thesis using w' i by blast
  next
    case False
    then have "i - off < chunk n tot off" using m(1) i by linarith
    then have "i div BSIZE = off div BSIZE" using chunk_same_block(1) i by (metis le_add_diff_inverse)
    moreover have "slot_ok (leaf (off div BSIZE))"
      using leaf_leaf [OF block_in_range [OF m(2) range]] by (simp add: leaf_slot_def)
    ultimately show ?thesis using b g' by (simp add: grows_def)
  qed
  moreover have "ip' = ip\<lparr>addrs := addrs ip'\<rparr>"
  proof -
    have "ip' = ip1\<lparr>addrs := addrs ip'\<rparr>" using w' by blast
    also have "\<dots> = ip\<lparr>addrs := addrs ip'\<rparr>" by (subst ip1) simp
    finally show ?thesis .
  qed
  ultimately show ?thesis unfolding wrote_def using grows_trans [OF g g'] o by simp
qed

lemma writei_loop_wrote:
  assumes "tree_ok sb (addrs ip) d" and "off + (n - tot) \<le> MAXFILE * BSIZE"
  shows "case writei_loop sb cp src n tot off ip d of
      Inl e \<Rightarrow> e = ''balloc: out of blocks''
    | Inr (ip', d', off') \<Rightarrow> wrote sb src n tot off ip d ip' d' off' \<and> ((\<forall>t m. cp t m = m) \<longrightarrow> off' = off + (n - tot))"
  using assms
proof (induction "n - tot" arbitrary: tot off ip d rule: less_induct)
  case less
  note ok = less.prems(1) and range = less.prems(2)
  show ?case
  proof (cases "tot < n")
    case False
    then show ?thesis using grows_refl [OF ok]
      by (subst writei_loop.simps) (simp add: wrote_def)
  next
    case True
    note q = block_in_range [OF True range]
    show ?thesis
    proof (cases "bmap sb ip (off div BSIZE) d")
      case (Inl e)
      then show ?thesis using True bmap_Inl [OF q Inl] by (subst writei_loop.simps) simp
    next
      case (Inr x)
      obtain ip1 d1 b where x: "x = (ip1, d1, b)" by (cases x)
      let ?m = "chunk n tot off" and ?k = "cp tot (chunk n tot off)"
      let ?d2 = "d1(b := overlay (d1 b) (off mod BSIZE) (min ?k ?m) src tot)"
      have le: "min ?k ?m \<le> ?m" by simp
      note st = write_step(1,3,4) [OF ok True range Inr [unfolded x] le, where src = src]
        and ip1 = write_step(2) [OF ok True range Inr [unfolded x] le]
      show ?thesis
      proof (cases "?k < ?m")
        case failed: True
        have "?k < n - tot" using failed chunk_le le_trans less_le_trans by blast
        then have "wrote sb src n tot off ip d ip1 ?d2 off"
          unfolding wrote_def using st ip1 by auto
        moreover have "\<not> (\<forall>t m. cp t m = m)" using failed by (metis less_irrefl)
        ultimately show ?thesis using True failed Inr x by (subst writei_loop.simps) (auto simp: Let_def)
      next
        case False
        then have mk: "min ?k ?m = ?m" by simp
        have len: "off + ?m + (n - (tot + ?m)) = off + (n - tot)" using chunk_le [of n tot off] by linarith
        have "tree_ok sb (addrs ip1) ?d2" using st(1) by (simp add: grows_def)
        note ih = less.hyps [OF chunk_less [OF True, of off] this, of "off + ?m", unfolded len, OF range]
        have eq: "writei_loop sb cp src n tot off ip d = writei_loop sb cp src n (tot + ?m) (off + ?m) ip1 ?d2"
          using True False Inr x by (subst writei_loop.simps) (simp add: Let_def)
        show ?thesis
        proof (cases "writei_loop sb cp src n (tot + ?m) (off + ?m) ip1 ?d2")
          case (Inl e)
          then show ?thesis unfolding eq using ih by simp
        next
          case (Inr y)
          obtain ip' d' off' where y: "y = (ip', d', off')" by (cases y)
          have "wrote sb src n (tot + ?m) (off + ?m) ip1 ?d2 ip' d' off'" using ih Inr y by simp
          from wrote_trans [OF this [unfolded mk] order_refl True range st(1) [unfolded mk] ip1 st(2,3) [unfolded mk]]
          show ?thesis unfolding eq using ih Inr y by (simp add: mk)
        qed
      qed
    qed
  qed
qed

lemma upt_chunk: "map f [off..<off + k] = map (\<lambda>i. f (off + i)) [0..<k]"
  by (simp add: map_add_upt [symmetric] add.commute)

lemma readi_loop_reads:
  assumes "off + (n - tot) \<le> MAXFILE * BSIZE" and "tot \<le> n"
    and "\<forall>i. off \<le> i \<and> i < off + (n - tot) \<longrightarrow> slot_blk (addrs ip) d (leaf (i div BSIZE)) \<noteq> 0"
  shows "\<exists>tot' l. readi_loop sb cp n tot off ip d out = Inr (ip, d, tot', out @ map (fbyte (addrs ip) d) [off..<off + l])
    \<and> tot \<le> tot' \<and> tot' - tot \<le> l \<and> l \<le> n - tot \<and> ((\<forall>t m. cp t m = m) \<longrightarrow> tot' = n \<and> l = n - tot)"
  using assms
proof (induction "n - tot" arbitrary: tot off out rule: less_induct)
  case less
  show ?case
  proof (cases "tot < n")
    case False
    then have "readi_loop sb cp n tot off ip d out = Inr (ip, d, tot, out @ map (fbyte (addrs ip) d) [off..<off + 0])"
      by (subst readi_loop.simps) simp
    then show ?thesis using False less.prems(2) by - (rule exI [of _ tot], rule exI [of _ 0], simp)
  next
    case True
    note q = block_in_range [OF True less.prems(1)]
    let ?m = "chunk n tot off" and ?k = "cp tot (chunk n tot off)"
    let ?b = "slot_blk (addrs ip) d (leaf (off div BSIZE))"
    have b: "?b \<noteq> 0" using less.prems(3) True by simp
    have bytes: "map (\<lambda>i. d ?b (off mod BSIZE + i)) [0..<min ?k ?m] = map (fbyte (addrs ip) d) [off..<off + min ?k ?m]"
      unfolding upt_chunk
    proof (rule map_cong [OF refl])
      fix i assume "i \<in> set [0..<min ?k ?m]"
      then have "i < ?m" by simp
      then show "d ?b (off mod BSIZE + i) = fbyte (addrs ip) d (off + i)"
        using chunk_same_block [of i n tot off] b by (simp add: fbyte_def content_def)
    qed
    have ml: "?m \<le> n - tot" by (rule chunk_le)
    show ?thesis
    proof (cases "?k < ?m")
      case failed: True
      then have "readi_loop sb cp n tot off ip d out = Inr (ip, d, tot, out @ map (fbyte (addrs ip) d) [off..<off + min ?k ?m])"
        using True bmap_present [OF q b] bytes by (subst readi_loop.simps) (simp add: Let_def)
      moreover have "\<not> (\<forall>t m. cp t m = m)" using failed by (metis less_irrefl)
      moreover have "min ?k ?m \<le> n - tot" using ml by linarith
      ultimately show ?thesis
        by - (rule exI [of _ tot], rule exI [of _ "min ?k ?m"], auto)
    next
      case False
      let ?out = "out @ map (fbyte (addrs ip) d) [off..<off + ?m]"
      have eq: "readi_loop sb cp n tot off ip d out = readi_loop sb cp n (tot + ?m) (off + ?m) ip d ?out"
        using True False bmap_present [OF q b] bytes by (subst readi_loop.simps) (simp add: Let_def)
      have len: "off + ?m + (n - (tot + ?m)) = off + (n - tot)" "tot + ?m \<le> n" using ml True by linarith+
      obtain tot' l where ih: "readi_loop sb cp n (tot + ?m) (off + ?m) ip d ?out
            = Inr (ip, d, tot', ?out @ map (fbyte (addrs ip) d) [off + ?m..<off + ?m + l])"
        "tot + ?m \<le> tot'" "tot' - (tot + ?m) \<le> l" "l \<le> n - (tot + ?m)" "(\<forall>t m. cp t m = m) \<longrightarrow> tot' = n \<and> l = n - (tot + ?m)"
        using less.hyps [OF chunk_less [OF True, of off], of "off + ?m" ?out] less.prems len by auto
      have app: "[off..<off + ?m] @ [off + ?m..<off + ?m + l] = [off..<off + (?m + l)]"
        by (metis add.assoc le_add1 upt_add_eq_append)
      have "readi_loop sb cp n tot off ip d out = Inr (ip, d, tot', out @ map (fbyte (addrs ip) d) [off..<off + (?m + l)])"
        unfolding eq ih(1) by (simp flip: app)
      then show ?thesis using ih(2-5) len(2) by - (rule exI [of _ tot'], rule exI [of _ "?m + l"], auto)
    qed
  qed
qed

section \<open>The operations on byte lists\<close>

lemma take_drop_bytes: "take n (drop off (file_bytes ip d)) = map (fbyte (addrs ip) d) [off..<min (off + n) (i_size ip)]"
  by (simp add: file_bytes_def take_map drop_map min_def)

lemma file_ok_present:
  assumes "file_ok sb ip d" and "i < i_size ip"
  shows "slot_blk (addrs ip) d (leaf (i div BSIZE)) \<noteq> 0"
proof -
  have "i div 1024 * 1024 < i_size ip" using assms(2) by (metis div_times_less_eq_dividend le_less_trans)
  then show ?thesis using assms(1) by (simp add: file_ok_def)
qed

lemma readi_bytes:
  assumes ok: "file_ok sb ip d" and "off + n < 2 ^ 32"
  defines "l \<equiv> if off \<le> i_size ip then min n (i_size ip - off) else 0"
  shows "\<exists>k m. readi sb cp ip off n d = Inr (ip, d, k, map (fbyte (addrs ip) d) [off..<off + m])
    \<and> k \<le> m \<and> m \<le> l \<and> ((\<forall>t m. cp t m = m) \<longrightarrow> k = l \<and> m = l)"
proof (cases "off \<le> i_size ip")
  case False
  then show ?thesis by (rule_tac x = 0 in exI, rule_tac x = 0 in exI) (simp add: readi_def l_def)
next
  case True
  have l: "l = min n (i_size ip - off)" using True by (simp add: l_def)
  have r: "readi sb cp ip off n d = readi_loop sb cp l 0 off ip d []"
    using True assms(2) by (auto simp: readi_def l min_def)
  have range: "off + (l - 0) \<le> MAXFILE * BSIZE"
  proof -
    have "l \<le> i_size ip - off" by (simp add: l)
    moreover have "i_size ip \<le> MAXFILE * BSIZE" using ok unfolding file_ok_def by blast
    ultimately show ?thesis using True by linarith
  qed
  have "\<forall>i. off \<le> i \<and> i < off + (l - 0) \<longrightarrow> slot_blk (addrs ip) d (leaf (i div BSIZE)) \<noteq> 0"
  proof (intro allI impI)
    fix i assume "off \<le> i \<and> i < off + (l - 0)"
    then have "i < i_size ip" unfolding l by linarith
    then show "slot_blk (addrs ip) d (leaf (i div BSIZE)) \<noteq> 0" by (rule file_ok_present [OF ok])
  qed
  from readi_loop_reads [OF range le0 this, of sb cp "[]"] show ?thesis unfolding r by simp
qed

text \<open>The inode of the file is written outside of its tree.\<close>

lemma outside_table: "c \<notin> tree_blocks as d \<Longrightarrow> \<forall>t. slot_ok t \<and> is_table t \<and> slot_blk as d t = c \<longrightarrow> c = 0"
  by (auto simp: tree_blocks_def)

lemma fbyte_upd:
  assumes "c \<notin> tree_blocks as d" and "i < MAXFILE * BSIZE"
  shows "fbyte as (d(c := x)) i = fbyte as d i"
proof -
  have lf: "slot_ok (leaf (i div BSIZE))"
    using leaf_leaf [of "i div BSIZE"] assms(2) by (simp add: less_mult_imp_div_less leaf_slot_def)
  have "slot_blk as d (leaf (i div BSIZE)) \<noteq> c" if "slot_blk as d (leaf (i div BSIZE)) \<noteq> 0"
    using assms(1) tree_blocksI [OF lf that] by metis
  then show ?thesis
    using slot_blk_upd [OF outside_table [OF assms(1)] lf] by (simp add: fbyte_def content_def)
qed

lemma iupdate_upd: "\<exists>x. iupdate sb ip d = d(IBLOCK (i_inum ip) sb := x)"
  by (auto simp: iupdate_def Let_def)

lemma file_ok_iupdate:
  assumes g: "grows sb (addrs ip) d (addrs jp) d1" and ok: "file_ok sb ip d" and jp: "i_inum jp = i_inum ip"
    and size: "i_size jp \<le> MAXFILE * BSIZE"
    and dense: "\<forall>q. q * BSIZE < i_size jp \<longrightarrow> slot_blk (addrs jp) d1 (leaf q) \<noteq> 0"
  shows "file_ok sb jp (iupdate sb jp d1)"
    and "i < MAXFILE * BSIZE \<Longrightarrow> fbyte (addrs jp) (iupdate sb jp d1) i = fbyte (addrs jp) d1 i"
    and "tree_blocks (addrs jp) (iupdate sb jp d1) = tree_blocks (addrs jp) d1"
proof -
  let ?c = "IBLOCK (i_inum jp) sb"
  have c: "?c < sb_size sb" "blk_used sb d ?c" "?c \<notin> bitmap_blocks sb" "?c \<notin> tree_blocks (addrs ip) d"
    using ok jp by (simp_all add: file_ok_def)
  then have c1: "?c \<notin> tree_blocks (addrs jp) d1" "blk_used sb d1 ?c" and t: "tree_ok sb (addrs jp) d1"
    using g by (simp_all add: grows_def)
  obtain x where x: "iupdate sb jp d1 = d1(?c := x)" using iupdate_upd by blast
  note nt = outside_table [OF c1(1)]
  show "i < MAXFILE * BSIZE \<Longrightarrow> fbyte (addrs jp) (iupdate sb jp d1) i = fbyte (addrs jp) d1 i"
    unfolding x by (rule fbyte_upd [OF c1(1)])
  show "tree_blocks (addrs jp) (iupdate sb jp d1) = tree_blocks (addrs jp) d1"
    unfolding x by (rule tree_blocks_upd [OF nt])
  have "slot_blk (addrs jp) (d1(?c := x)) (leaf q) \<noteq> 0" if q: "q * BSIZE < i_size jp" for q
  proof -
    have "q < MAXFILE" using q size by simp
    then have "slot_ok (leaf q)" using leaf_leaf by (simp add: leaf_slot_def)
    then show ?thesis using slot_blk_upd [OF nt] dense q by simp
  qed
  moreover have "tree_ok sb (addrs jp) (d1(?c := x))" by (rule tree_ok_upd [OF t nt c(3)]) (use c(1) in simp)
  ultimately show "file_ok sb jp (iupdate sb jp d1)"
    unfolding x file_ok_def using c c1 size tree_blocks_upd [OF nt] blk_used_upd [OF c(3)] by simp
qed

lemma file_ok_fits:
  assumes "file_ok sb ip d"
  shows "inode_fits ip"
proof -
  have t: "tree_ok sb (addrs ip) d" using assms by (simp add: file_ok_def)
  have "addrs ip ! k < 2 ^ 32" if "k < 13" for k
  proof (cases "addrs ip ! k = 0")
    case False
    then have "addrs ip ! k < sb_size sb" using tree_okD(1) [OF t, of "Root k"] that by simp
    then show ?thesis using t by (simp add: tree_ok_def fs_ok_def)
  qed simp
  then show ?thesis using assms t by (auto simp: inode_fits_def tree_ok_def file_ok_def in_set_conv_nth)
qed

definition overwrite :: "nat \<Rightarrow> 'a list \<Rightarrow> 'a list \<Rightarrow> 'a list" where
  "overwrite off new xs = take off xs @ new @ drop (off + length new) xs"

lemma overwrite_map:
  assumes "off \<le> s" and "\<And>i. i < max s (off + n) \<Longrightarrow> g i = (if off \<le> i \<and> i < off + n then h (i - off) else f i)"
  shows "overwrite off (map h [0..<n]) (map f [0..<s]) = map g [0..<max s (off + n)]"
  by (rule nth_equalityI) (use assms in \<open>auto simp: overwrite_def nth_append min_def\<close>)

text \<open>The result of a write: the bytes are in the file, the inode on disk is up to date, and nothing else in use
  has changed: no block outside of the file, and in the block of the inode no byte outside of the inode.\<close>

definition written :: "superblock \<Rightarrow> (nat \<Rightarrow> u8) \<Rightarrow> inode \<Rightarrow> nat \<Rightarrow> nat \<Rightarrow> blocks \<Rightarrow> inode \<Rightarrow> blocks \<Rightarrow> bool" where
  "written sb src ip off n d ip' d' = (file_ok sb ip' d'
     \<and> file_bytes ip' d' = overwrite off (map src [0..<n]) (file_bytes ip d)
     \<and> ip' = ip\<lparr>addrs := addrs ip', i_size := max (i_size ip) (off + n)\<rparr>
     \<and> (n > 0 \<longrightarrow> load_dinode (dinode_off (i_inum ip)) (d' (IBLOCK (i_inum ip) sb)) ip = ip')
     \<and> (\<forall>c < sb_size sb. blk_used sb d c \<and> c \<notin> bitmap_blocks sb \<and> c \<notin> tree_blocks (addrs ip) d \<and> c \<noteq> IBLOCK (i_inum ip) sb
          \<longrightarrow> blk_used sb d' c \<and> d' c = d c \<and> c \<notin> tree_blocks (addrs ip') d')
     \<and> other_dinodes_kept sb (i_inum ip) d d')"

lemma wrote_dense:
  assumes ok: "file_ok sb ip d" and off: "off \<le> i_size ip" "off + n \<le> MAXFILE * BSIZE"
    and w: "wrote sb src n 0 off ip d ip1 d1 (off + n)"
  shows "\<forall>q. q * BSIZE < max (i_size ip) (off + n) \<longrightarrow> slot_blk (addrs ip1) d1 (leaf q) \<noteq> 0"
proof (intro allI impI)
  fix q assume q: "q * BSIZE < max (i_size ip) (off + n)"
  show "slot_blk (addrs ip1) d1 (leaf q) \<noteq> 0"
  proof (cases "q * BSIZE < i_size ip")
    case True
    then have "q < MAXFILE" using ok by (simp add: file_ok_def)
    then have "slot_ok (leaf q)" using leaf_leaf by (simp add: leaf_slot_def)
    then show ?thesis using True w ok by (simp add: wrote_def grows_def file_ok_def)
  next
    case False
    have "\<forall>i. off \<le> i \<and> i < off + n \<longrightarrow> slot_blk (addrs ip1) d1 (leaf (i div BSIZE)) \<noteq> 0"
      using w unfolding wrote_def by blast
    from this [rule_format, of "q * BSIZE"] False q off show ?thesis by simp
  qed
qed

lemma wrote_written:
  assumes ok: "file_ok sb ip d" and off: "off \<le> i_size ip" and n: "off + n \<le> MAXFILE * BSIZE"
    and w: "wrote sb src n 0 off ip d ip1 d1 (off + n)"
  defines "jp \<equiv> ip1\<lparr>i_size := max (i_size ip) (off + n)\<rparr>"
  shows "written sb src ip off n d jp (iupdate sb jp d1)"
proof -
  have g: "grows sb (addrs ip) d (addrs jp) d1" and ip1: "ip1 = ip\<lparr>addrs := addrs ip1\<rparr>"
    and f: "\<And>i. i < MAXFILE * BSIZE \<Longrightarrow> fbyte (addrs jp) d1 i = (if off \<le> i \<and> i < off + n then src (i - off) else fbyte (addrs ip) d i)"
    using w by (auto simp: wrote_def jp_def)
  have inum: "i_inum jp = i_inum ip" unfolding jp_def by (subst ip1) simp
  have size: "i_size jp \<le> MAXFILE * BSIZE" using ok n by (simp add: file_ok_def jp_def)
  have "\<forall>q. q * BSIZE < i_size jp \<longrightarrow> slot_blk (addrs jp) d1 (leaf q) \<noteq> 0"
    using wrote_dense [OF ok off n w] by (simp add: jp_def)
  note fin = file_ok_iupdate [OF g ok inum size this]
  have sz: "i_size jp = max (i_size ip) (off + n)" by (simp add: jp_def)
  have "overwrite off (map src [0..<n]) (map (fbyte (addrs ip) d) [0..<i_size ip]) = map (fbyte (addrs jp) (iupdate sb jp d1)) [0..<i_size jp]"
    unfolding sz
  proof (rule overwrite_map [OF off])
    fix i assume "i < max (i_size ip) (off + n)"
    then have "i < MAXFILE * BSIZE" using size sz by linarith
    then show "fbyte (addrs jp) (iupdate sb jp d1) i = (if off \<le> i \<and> i < off + n then src (i - off) else fbyte (addrs ip) d i)"
      using fin(2) f by simp
  qed
  then have bytes: "file_bytes jp (iupdate sb jp d1) = overwrite off (map src [0..<n]) (file_bytes ip d)"
    by (simp add: file_bytes_def)
  have jp: "jp = ip\<lparr>addrs := addrs jp, i_size := max (i_size ip) (off + n)\<rparr>" unfolding jp_def by (subst ip1) simp
  have "load_dinode (dinode_off (i_inum ip)) (iupdate sb jp d1 (IBLOCK (i_inum ip) sb)) ip
      = jp\<lparr>i_dev := i_dev ip, i_inum := i_inum ip, i_ref := i_ref ip, i_lock := i_lock ip, i_valid := i_valid ip\<rparr>"
    using iupdate_load [OF file_ok_fits [OF fin(1)], of sb d1 ip] inum by simp
  also have "\<dots> = jp" by (subst (1 2) jp) (simp add: inode.equality)
  finally have load: "load_dinode (dinode_off (i_inum ip)) (iupdate sb jp d1 (IBLOCK (i_inum ip) sb)) ip = jp" .
  obtain y where y: "iupdate sb jp d1 = d1(IBLOCK (i_inum ip) sb := y)" using iupdate_upd [of sb jp d1] inum by auto
  have "IBLOCK (i_inum ip) sb \<notin> bitmap_blocks sb" using ok by (simp add: file_ok_def)
  then have "\<forall>c < sb_size sb. blk_used sb d c \<and> c \<notin> bitmap_blocks sb \<and> c \<notin> tree_blocks (addrs ip) d \<and> c \<noteq> IBLOCK (i_inum ip) sb
      \<longrightarrow> blk_used sb (iupdate sb jp d1) c \<and> iupdate sb jp d1 c = d c \<and> c \<notin> tree_blocks (addrs jp) (iupdate sb jp d1)"
    unfolding fin(3) using g blk_used_upd by (simp add: y grows_def)
  moreover have "d1 (IBLOCK (i_inum ip) sb) = d (IBLOCK (i_inum ip) sb)" using g ok by (simp add: grows_def file_ok_def)
  then have "other_dinodes_kept sb (i_inum ip) d (iupdate sb jp d1)"
    using kept_trans [OF kept_same iupdate_kept [of jp, unfolded inum]] file_ok_fits [OF fin(1)] by (simp add: inode_fits_def)
  ultimately show ?thesis unfolding written_def using fin(1) bytes jp load by blast
qed

lemma writei_written:
  assumes ok: "file_ok sb ip d" and off: "off \<le> i_size ip" and n: "off + n \<le> MAXFILE * BSIZE" "n > 0"
  shows "case writei sb (\<lambda>_ m. m) src ip off n d of
      Inl e \<Rightarrow> e = ''balloc: out of blocks''
    | Inr (ip', d', r) \<Rightarrow> r = int n \<and> written sb src ip off n d ip' d'"
proof -
  have t: "tree_ok sb (addrs ip) d" using ok by (simp add: file_ok_def)
  have range: "off + (n - 0) \<le> MAXFILE * BSIZE" using n by simp
  note loop = writei_loop_wrote [OF t range, where cp = "\<lambda>_ m. m" and src = src]
  have w: "writei sb (\<lambda>_ m. m) src ip off n d
      = (case writei_loop sb (\<lambda>_ m. m) src n 0 off ip d of
           Inl e \<Rightarrow> Inl e
         | Inr (ip, d, off) \<Rightarrow> (let ip = (if off > i_size ip then ip\<lparr>i_size := off\<rparr> else ip) in Inr (ip, iupdate sb ip d, int n)))"
    using off n by (simp add: writei_def split: sum.split)
  show ?thesis
  proof (cases "writei_loop sb (\<lambda>_ m. m) src n 0 off ip d")
    case (Inl e)
    then show ?thesis using loop w by simp
  next
    case (Inr x)
    obtain ip1 d1 off1 where x: "x = (ip1, d1, off1)" by (cases x)
    have "wrote sb src n 0 off ip d ip1 d1 off1 \<and> off1 = off + n" using loop unfolding Inr x by auto
    then have wr: "wrote sb src n 0 off ip d ip1 d1 (off + n)" and o: "off1 = off + n" by blast+
    then have "ip1 = ip\<lparr>addrs := addrs ip1\<rparr>" by (simp add: wrote_def)
    then have "i_size ip1 = i_size ip" by (metis inode.select_convs(11) inode.surjective inode.update_convs(12))
    then have "(if off1 > i_size ip1 then ip1\<lparr>i_size := off1\<rparr> else ip1) = ip1\<lparr>i_size := max (i_size ip) (off + n)\<rparr>"
      using o by (auto simp: max_def intro: inode.equality)
    then show ?thesis using w Inr x wrote_written [OF ok off n(1) wr] by (simp add: Let_def)
  qed
qed

lemma slot_root_less: "slot_ok t \<Longrightarrow> slot_root t < 13"
  by (induction t) simp_all

lemma empty_file_ok:
  assumes ok: "file_ok sb ip d" and used: "\<forall>c. blk_used sb d0 c \<longleftrightarrow> blk_used sb d c \<and> c \<notin> tree_blocks (addrs ip) d"
  shows "file_ok sb (ip\<lparr>addrs := replicate 13 0, i_size := 0\<rparr>) d0"
proof -
  have t: "tree_ok sb (addrs ip) d" using ok by (simp add: file_ok_def)
  have none: "slot_blk (replicate 13 0) d0 t = 0" if "slot_ok t" for t
    using slot_root_less [OF that] by (intro slot_blk_gone) simp
  have "fs_ok sb d0" using t used by (auto simp: tree_ok_def fs_ok_def bitmap_ok_def tree_blocks_def)
  moreover have tb: "tree_blocks (replicate 13 0) d0 = {}" using none by (auto simp: tree_blocks_def)
  ultimately have "tree_ok sb (replicate 13 0) d0" unfolding tree_ok_def tb using none by auto
  then show ?thesis using ok used by (simp add: file_ok_def tb)
qed

text \<open>A file of three bytes on the small disk: inode 1, its only block is block 4.\<close>

definition small_ip :: inode where
  "small_ip = \<lparr>i_dev = 1, i_inum = 1, i_ref = 1, i_lock = \<lparr>sl_locked = True, sl_pid = 1\<rparr>, i_valid = True, i_type = 2, i_mode = 3,
     i_major = 0, i_minor = 0, i_nlink = 1, i_size = 3, addrs = 4 # replicate 12 0\<rparr>"

lemma small_slots: "slot_blk (addrs small_ip) small_disk t = (if t = Root 0 then 4 else 0)" if "slot_ok t"
proof (cases t)
  case (Root n)
  then show ?thesis using that by (auto simp: small_ip_def nth_Cons')
next
  case (Child s k)
  have "slot_root t \<noteq> 0" "slot_root t < 13" using that Child by (cases s; auto)+
  then have "addrs small_ip ! slot_root t = 0" by (simp add: small_ip_def nth_Cons')
  then show ?thesis using slot_blk_gone Child by simp
qed

lemma small_tree: "tree_blocks (addrs small_ip) small_disk = {4}"
proof -
  have "(\<exists>t. slot_ok t \<and> slot_blk (addrs small_ip) small_disk t = 4)"
    by (rule exI [of _ "Root 0"]) (simp add: small_ip_def)
  then show ?thesis by (auto simp: tree_blocks_def small_slots split: if_splits)
qed

lemma small_used: "blk_used small_sb small_disk 0" "blk_used small_sb small_disk 3" "blk_used small_sb small_disk 4"
  by (simp_all add: blk_used_def BBLOCK_def BPB_def small_sb_def small_disk_def bit_free_def bit_mask_def)

lemma small_sizes: "sb_size small_sb = 16" "IBLOCK (i_inum small_ip) small_sb = 3" "i_size small_ip = 3"
  by (simp_all add: small_sb_def small_ip_def IBLOCK_def)

lemma small_file: "file_ok small_sb small_ip small_disk"
proof -
  have "tree_ok small_sb (addrs small_ip) small_disk"
    unfolding tree_ok_def small_tree fs_ok_def small_bitmap using small_ok small_used small_sizes
    by (auto simp: small_slots split: if_splits) (simp add: small_ip_def)
  moreover have "slot_blk (addrs small_ip) small_disk (leaf q) \<noteq> 0" if "q * BSIZE < 3" for q
  proof -
    have "q = 0" using that by linarith
    then show ?thesis by (simp add: leaf_def small_ip_def)
  qed
  ultimately show ?thesis
    unfolding file_ok_def small_tree small_bitmap small_sizes using small_used by simp
qed

section \<open>Properties\<close>

text \<open>
  C20: reading a file. On a well-formed file, whatever the outcome of the copies, \<open>readi\<close> ends without a
  panic, changes neither the disk nor the inode and delivers a prefix of the requested bytes, at least as
  many as it reports; when every copy succeeds, it reports and delivers exactly the bytes of the file from
  the offset on, up to the end of the file.
\<close>

theorem readi_reads:
  assumes "file_ok sb ip d" and "off + n < 2 ^ 32"
  shows "\<exists>k out. readi sb cp ip off n d = Inr (ip, d, k, out) \<and> k \<le> length out
    \<and> out = take (length out) (take n (drop off (file_bytes ip d)))
    \<and> ((\<forall>t m. cp t m = m) \<longrightarrow> k = length out \<and> out = take n (drop off (file_bytes ip d)))"
proof -
  define l where "l = (if off \<le> i_size ip then min n (i_size ip - off) else 0)"
  obtain k m where r: "readi sb cp ip off n d = Inr (ip, d, k, map (fbyte (addrs ip) d) [off..<off + m])"
    and b: "k \<le> m" "m \<le> l" "(\<forall>t m. cp t m = m) \<longrightarrow> k = l \<and> m = l"
    using readi_bytes [OF assms, of cp] unfolding l_def by blast
  have l: "take n (drop off (file_bytes ip d)) = map (fbyte (addrs ip) d) [off..<off + l]"
    unfolding take_drop_bytes l_def by (auto simp: min_def)
  then have "map (fbyte (addrs ip) d) [off..<off + m] = take m (take n (drop off (file_bytes ip d)))"
    using b(2) by (simp add: take_map)
  then show ?thesis using r b l
    by - (rule exI [of _ k], rule exI [of _ "map (fbyte (addrs ip) d) [off..<off + m]"], auto)
qed

theorem readi_reads_witness:
  "file_bytes small_ip small_disk = [0, 0, 0] \<and>
   (\<exists>k out. readi small_sb (\<lambda>_ m. m) small_ip 1 9 small_disk = Inr (small_ip, small_disk, k, out) \<and> k = 2 \<and> out = [0, 0])"
proof -
  have b: "file_bytes small_ip small_disk = [0, 0, 0]"
    by (simp add: file_bytes_def small_sizes fbyte_def content_def leaf_def upt_rec) (simp add: small_ip_def small_disk_def)
  have "(1 :: nat) + 9 < 2 ^ 32" by simp
  from readi_reads [OF small_file this, of "\<lambda>_ m. m"] b show ?thesis by auto
qed

text \<open>
  C3: writing a file refines overwriting a list of bytes. When the caller's bytes can be read, \<open>writei\<close>
  either returns their number, with the bytes at the offset in the file and the rest of the file as
  before, the file well-formed, its inode on disk up to date, every other block in use unchanged and, in the block
  of the inode, every byte of the other inodes unchanged, or it panics because the disk is full; reading at the offset then gives back the bytes that were written.
\<close>

theorem writei_overwrites:
  assumes ok: "file_ok sb ip d" and off: "off \<le> i_size ip" and n: "off + n \<le> MAXFILE * BSIZE" "n > 0"
  shows "case writei sb (\<lambda>_ m. m) src ip off n d of
      Inl e \<Rightarrow> e = ''balloc: out of blocks''
    | Inr (ip', d', r) \<Rightarrow> r = int n \<and> written sb src ip off n d ip' d'
        \<and> readi sb (\<lambda>_ m. m) ip' off n d' = Inr (ip', d', n, map src [0..<n])"
proof -
  have "readi sb (\<lambda>_ m. m) ip' off n d' = Inr (ip', d', n, map src [0..<n])" if w: "written sb src ip off n d ip' d'" for ip' d'
  proof -
    have ok': "file_ok sb ip' d'" and bytes: "file_bytes ip' d' = overwrite off (map src [0..<n]) (file_bytes ip d)"
      and "ip' = ip\<lparr>addrs := addrs ip', i_size := max (i_size ip) (off + n)\<rparr>" using w unfolding written_def by blast+
    then have size: "i_size ip' = max (i_size ip) (off + n)" by (metis inode.select_convs(11) inode.surjective inode.update_convs(11))
    have lt: "off + n < 2 ^ 32" using n by simp
    have l: "(if off \<le> i_size ip' then min n (i_size ip' - off) else 0) = n" using size by (simp add: le_max_iff_disj)
    have "map (fbyte (addrs ip') d') [off..<off + n] = take n (drop off (file_bytes ip' d'))"
      unfolding take_drop_bytes size by simp
    also have "\<dots> = map src [0..<n]" unfolding bytes overwrite_def using off by (simp add: file_bytes_def)
    finally have eq: "map (fbyte (addrs ip') d') [off..<off + n] = map src [0..<n]" .
    show ?thesis using readi_bytes [OF ok' lt, of "\<lambda>_ m. m"] unfolding l by (auto simp: eq)
  qed
  then show ?thesis using writei_written [OF assms, of src] by (auto split: sum.splits)
qed

theorem writei_overwrites_witness:
  "file_ok small_sb small_ip small_disk \<and>
   (case writei small_sb (\<lambda>_ m. m) (\<lambda>_. 7) small_ip 1 4 small_disk of
      Inl e \<Rightarrow> e = ''balloc: out of blocks''
    | Inr (ip', d', r) \<Rightarrow> r = 4 \<and> readi small_sb (\<lambda>_ m. m) ip' 1 4 d' = Inr (ip', d', 4, [7, 7, 7, 7]))"
proof -
  have "1 \<le> i_size small_ip" "(1 :: nat) + 4 \<le> MAXFILE * BSIZE" "(0 :: nat) < 4" by (simp_all add: small_sizes)
  from writei_overwrites [OF small_file this, of "\<lambda>_. 7"] small_file show ?thesis
    by (auto simp: upt_rec split: sum.splits)
qed

text \<open>
  \<open>writei\<close> reports success for bytes it never wrote. When the caller's memory cannot be read, the loop
  stops, but the function still returns the full count, with the contents and the size of the file
  unchanged.
\<close>

theorem writei_hides_failed_copy:
  assumes ok: "file_ok sb ip d" and off: "off < i_size ip" and n: "off + n \<le> MAXFILE * BSIZE" "n > 0"
  shows "writei sb (\<lambda>_ _. 0) src ip off n d = Inr (ip, iupdate sb ip d, int n)
    \<and> file_bytes ip (iupdate sb ip d) = file_bytes ip d"
proof -
  have t: "tree_ok sb (addrs ip) d" and size: "i_size ip \<le> MAXFILE * BSIZE" using ok by (simp_all add: file_ok_def)
  have q: "off div BSIZE < MAXFILE" using off size by (intro less_mult_imp_div_less) linarith
  note b = bmap_present [OF q file_ok_present [OF ok off]]
  have "overlay blk s 0 src 0 = blk" for blk s unfolding overlay_def by (rule ext) auto
  then have "writei_loop sb (\<lambda>_ _. 0) src n 0 off ip d = Inr (ip, d, off)"
    using n(2) b by (subst writei_loop.simps) (simp add: Let_def)
  moreover have "\<not> off > i_size ip" "(off + n) mod 2 ^ 32 = off + n" using off n by simp_all
  ultimately have w: "writei sb (\<lambda>_ _. 0) src ip off n d = Inr (ip, iupdate sb ip d, int n)"
    using n by (simp add: writei_def)
  have "\<forall>q. q * BSIZE < i_size ip \<longrightarrow> slot_blk (addrs ip) d (leaf q) \<noteq> 0" using ok unfolding file_ok_def by blast
  note fin = file_ok_iupdate(2) [OF grows_refl [OF t] ok refl size this]
  have "file_bytes ip (iupdate sb ip d) = file_bytes ip d" using size by (simp add: file_bytes_def fin)
  with w show ?thesis by blast
qed

theorem writei_hides_failed_copy_witness:
  "writei small_sb (\<lambda>_ _. 0) (\<lambda>_. 7) small_ip 1 4 small_disk = Inr (small_ip, iupdate small_sb small_ip small_disk, 4)
   \<and> file_bytes small_ip (iupdate small_sb small_ip small_disk) = file_bytes small_ip small_disk"
proof -
  have "1 < i_size small_ip" "(1 :: nat) + 4 \<le> MAXFILE * BSIZE" "(0 :: nat) < 4" by (simp_all add: small_sizes)
  from writei_hides_failed_copy [OF small_file this, of "\<lambda>_. 7"] show ?thesis by simp
qed

text \<open>
  C6: truncating a file. On a well-formed file \<open>itrunc\<close> ends without a panic, although \<open>bfree\<close> panics on a
  block that is already free: it frees exactly the blocks of the file, its direct, indirect and doubly
  indirect ones, and no other; the file is then empty and well-formed, and no block but those of the bitmap
  and of its inode is written.
\<close>

theorem itrunc_frees_file:
  assumes ok: "file_ok sb ip d"
  shows "\<exists>ip' d'. itrunc sb ip d = Inr (ip', d') \<and> file_ok sb ip' d' \<and> file_bytes ip' d' = []
    \<and> (\<forall>c < sb_size sb. blk_used sb d' c \<longleftrightarrow> blk_used sb d c \<and> c \<notin> tree_blocks (addrs ip) d)
    \<and> (\<forall>c. c \<notin> bitmap_blocks sb \<and> c \<noteq> IBLOCK (i_inum ip) sb \<longrightarrow> d' c = d c)"
proof -
  let ?ip = "ip\<lparr>addrs := replicate 13 0, i_size := 0\<rparr>"
  have t: "tree_ok sb (addrs ip) d" and nb: "IBLOCK (i_inum ip) sb \<notin> bitmap_blocks sb" using ok by (simp_all add: file_ok_def)
  obtain d0 where r: "itrunc sb ip d = Inr (?ip, iupdate sb ?ip d0)"
    and used: "\<forall>c. blk_used sb d0 c \<longleftrightarrow> blk_used sb d c \<and> c \<notin> tree_blocks (addrs ip) d"
    and same: "\<forall>c. c \<notin> bitmap_blocks sb \<longrightarrow> d0 c = d c"
    using itrunc_Inr [OF t] by blast
  note e = empty_file_ok [OF ok used]
  have "tree_ok sb (addrs ?ip) d0" using e unfolding file_ok_def by blast
  from file_ok_iupdate(1) [OF grows_refl [OF this] e] have f: "file_ok sb ?ip (iupdate sb ?ip d0)" by simp
  obtain x where x: "iupdate sb ?ip d0 = d0(IBLOCK (i_inum ip) sb := x)" using iupdate_upd [of sb ?ip d0] by auto
  have "\<forall>c < sb_size sb. blk_used sb (iupdate sb ?ip d0) c \<longleftrightarrow> blk_used sb d c \<and> c \<notin> tree_blocks (addrs ip) d"
    unfolding x using used blk_used_upd [OF nb] by blast
  moreover have "\<forall>c. c \<notin> bitmap_blocks sb \<and> c \<noteq> IBLOCK (i_inum ip) sb \<longrightarrow> iupdate sb ?ip d0 c = d c"
    unfolding x using same by simp
  moreover have "file_bytes ?ip (iupdate sb ?ip d0) = []" by (simp add: file_bytes_def)
  ultimately show ?thesis using r f by blast
qed

theorem itrunc_frees_file_witness:
  "\<exists>ip' d'. itrunc small_sb small_ip small_disk = Inr (ip', d') \<and> file_bytes ip' d' = []
     \<and> blk_used small_sb small_disk 4 \<and> \<not> blk_used small_sb d' 4 \<and> blk_used small_sb d' 3"
proof -
  obtain ip' d' where r: "itrunc small_sb small_ip small_disk = Inr (ip', d')" "file_bytes ip' d' = []"
    and u: "\<forall>c < 16. blk_used small_sb d' c \<longleftrightarrow> blk_used small_sb small_disk c \<and> c \<notin> {4}"
    using itrunc_frees_file [OF small_file] unfolding small_tree small_sizes(1) by blast
  have "\<not> blk_used small_sb d' 4" "blk_used small_sb d' 3" using u small_used(2) by simp_all
  with r small_used(3) show ?thesis by blast
qed

end
