(* ===== verification/Icache.thy ===== *)
theory Icache
  imports Fs_File
begin

text \<open>
  The cache of inodes in memory, \<open>src/kernel/filesystem/fs.c\<close>: \<open>iinit\<close>, \<open>ialloc\<close>, \<open>iget\<close>, \<open>idup\<close>,
  \<open>ilock\<close>, \<open>iunlock\<close>, \<open>iput\<close> and \<open>iunlockput\<close>. A pointer to an inode is an index in the table; the null
  pointer is an index outside of it. Each routine is one step, which may sleep on the lock of an inode.
\<close>

section \<open>Operations\<close>

abbreviation NINODE :: nat where "NINODE \<equiv> 50"

record ifs =
  icache :: "inode list"
  idisk :: blocks

definition upd_ip :: "nat \<Rightarrow> (inode \<Rightarrow> inode) \<Rightarrow> ifs \<Rightarrow> ifs" where
  "upd_ip k f s = s\<lparr>icache := (icache s)[k := f (icache s ! k)]\<rparr>"

text \<open>A zeroed entry, with its lock initialised.\<close>

definition inode0 :: inode where
  "inode0 = \<lparr>i_dev = 0, i_inum = 0, i_ref = 0, i_lock = initsleeplock, i_valid = False, i_type = 0, i_mode = 0,
     i_major = 0, i_minor = 0, i_nlink = 0, i_size = 0, addrs = replicate 13 0\<rparr>"

definition iinit :: "blocks \<Rightarrow> ifs" where
  "iinit d = \<lparr>icache = replicate NINODE inode0, idisk = d\<rparr>"

definition iget :: "nat \<Rightarrow> nat \<Rightarrow> ifs \<Rightarrow> (nat \<times> ifs) outcome" where
  "iget dev inum s =
     (case find_slot (\<lambda>ip. i_ref ip > 0 \<and> i_dev ip = dev \<and> i_inum ip = inum) (icache s) of
        Some k \<Rightarrow> Done (k, upd_ip k (\<lambda>ip. ip\<lparr>i_ref := i_ref ip + 1\<rparr>) s)
      | None \<Rightarrow>
          (case find_slot (\<lambda>ip. i_ref ip = 0) (icache s) of
             None \<Rightarrow> Panics ''iget: no inodes''
           | Some k \<Rightarrow>
               Done (k, upd_ip k (\<lambda>ip. ip\<lparr>i_dev := dev, i_inum := inum, i_ref := 1, i_valid := False\<rparr>) s)))"

definition ialloc :: "superblock \<Rightarrow> nat \<Rightarrow> u8 \<Rightarrow> ifs \<Rightarrow> (nat \<times> ifs) outcome" where
  "ialloc sb dev type s =
     (case ialloc_from sb 1 type (idisk s) of
        Inl e \<Rightarrow> Panics e
      | Inr (d, inum) \<Rightarrow> iget dev inum (s\<lparr>idisk := d\<rparr>))"

definition idup :: "nat \<Rightarrow> ifs \<Rightarrow> nat \<times> ifs" where
  "idup k s = (k, upd_ip k (\<lambda>ip. ip\<lparr>i_ref := i_ref ip + 1\<rparr>) s)"

definition ilock :: "superblock \<Rightarrow> int \<Rightarrow> nat \<Rightarrow> ifs \<Rightarrow> ifs outcome" where
  "ilock sb pid k s =
     (if k \<ge> NINODE \<or> i_ref (icache s ! k) < 1 then Panics ''ilock''
      else obind (acquiresleep (i_lock (icache s ! k)) pid) (\<lambda>lk.
        let ip = (icache s ! k)\<lparr>i_lock := lk\<rparr>
        in if i_valid ip then Done (s\<lparr>icache := (icache s)[k := ip]\<rparr>)
           else (let ip = (load_dinode (dinode_off (i_inum ip)) (idisk s (IBLOCK (i_inum ip) sb)) ip)\<lparr>i_valid := True\<rparr>
                 in if i_type ip = 0 then Panics ''ilock: no type'' else Done (s\<lparr>icache := (icache s)[k := ip]\<rparr>))))"

definition iunlock :: "int \<Rightarrow> nat \<Rightarrow> ifs \<Rightarrow> ifs outcome" where
  "iunlock pid k s =
     (if k \<ge> NINODE \<or> \<not> holdingsleep (i_lock (icache s ! k)) pid \<or> i_ref (icache s ! k) < 1 then Panics ''iunlock''
      else Done (upd_ip k (\<lambda>ip. ip\<lparr>i_lock := releasesleep (i_lock ip)\<rparr>) s))"

text \<open>The part of \<open>iput\<close> that frees the inode on disk.\<close>

definition ifree :: "superblock \<Rightarrow> int \<Rightarrow> inode \<Rightarrow> blocks \<Rightarrow> (inode \<times> blocks) outcome" where
  "ifree sb pid ip d =
     obind (acquiresleep (i_lock ip) pid) (\<lambda>lk.
       case itrunc sb (ip\<lparr>i_lock := lk\<rparr>) d of
         Inl e \<Rightarrow> Panics e
       | Inr (ip, d) \<Rightarrow>
           (let ip = ip\<lparr>i_type := 0\<rparr>; d = iupdate sb ip d
            in Done (ip\<lparr>i_valid := False, i_lock := releasesleep (i_lock ip)\<rparr>, d)))"

definition iput :: "superblock \<Rightarrow> int \<Rightarrow> nat \<Rightarrow> ifs \<Rightarrow> ifs outcome" where
  "iput sb pid k s =
     (let ip = icache s ! k
      in obind (if i_ref ip = 1 \<and> i_valid ip \<and> i_nlink ip = 0 then ifree sb pid ip (idisk s) else Done (ip, idisk s))
           (\<lambda>(ip, d). Done (s\<lparr>icache := (icache s)[k := ip\<lparr>i_ref := i_ref ip - 1\<rparr>], idisk := d\<rparr>)))"

definition iunlockput :: "superblock \<Rightarrow> int \<Rightarrow> nat \<Rightarrow> ifs \<Rightarrow> ifs outcome" where
  "iunlockput sb pid k s = obind (iunlock pid k s) (iput sb pid k)"

section \<open>Handles\<close>

text \<open>The cache with its users: how many pointers to each entry the rest of the kernel has. A user of an
  entry may lock it, change its fields and the disk while it holds the lock, and unlock it.\<close>

inductive ic_reach :: "superblock \<Rightarrow> ifs \<Rightarrow> (nat \<Rightarrow> nat) \<Rightarrow> bool" for sb where
  init: "ic_reach sb (iinit d) (\<lambda>_. 0)"
| get: "ic_reach sb s H \<Longrightarrow> iget dev inum s = Done (k, s') \<Longrightarrow> ic_reach sb s' (H(k := H k + 1))"
| alloc: "ic_reach sb s H \<Longrightarrow> ialloc sb dev type s = Done (k, s') \<Longrightarrow> ic_reach sb s' (H(k := H k + 1))"
| dup: "ic_reach sb s H \<Longrightarrow> H k > 0 \<Longrightarrow> idup k s = (k, s') \<Longrightarrow> ic_reach sb s' (H(k := H k + 1))"
| lock: "ic_reach sb s H \<Longrightarrow> H k > 0 \<Longrightarrow> ilock sb pid k s = Done s' \<Longrightarrow> ic_reach sb s' H"
| unlock: "ic_reach sb s H \<Longrightarrow> H k > 0 \<Longrightarrow> iunlock pid k s = Done s' \<Longrightarrow> ic_reach sb s' H"
| change: "ic_reach sb s H \<Longrightarrow> H k > 0 \<Longrightarrow> holdingsleep (i_lock (icache s ! k)) pid
    \<Longrightarrow> ip = (icache s ! k)\<lparr>i_type := t, i_mode := m, i_major := ma, i_minor := mi, i_nlink := nl, i_size := sz, addrs := as\<rparr>
    \<Longrightarrow> ic_reach sb (s\<lparr>icache := (icache s)[k := ip], idisk := d\<rparr>) H"
| put: "ic_reach sb s H \<Longrightarrow> H k > 0 \<Longrightarrow> iput sb pid k s = Done s' \<Longrightarrow> ic_reach sb s' (H(k := H k - 1))"

text \<open>The counts are right, and an inode is in one entry only.\<close>

definition ic_ok :: "ifs \<Rightarrow> (nat \<Rightarrow> nat) \<Rightarrow> bool" where
  "ic_ok s H = (length (icache s) = NINODE \<and> (\<forall>k \<ge> NINODE. H k = 0)
     \<and> (\<forall>k < NINODE. i_ref (icache s ! k) = int (H k))
     \<and> (\<forall>j < NINODE. \<forall>k < NINODE. H j > 0 \<and> H k > 0 \<and> i_dev (icache s ! j) = i_dev (icache s ! k)
          \<and> i_inum (icache s ! j) = i_inum (icache s ! k) \<longrightarrow> j = k))"

lemma handle_less: "ic_ok s H \<Longrightarrow> H k > 0 \<Longrightarrow> k < NINODE"
  by (rule ccontr) (simp add: ic_ok_def)

text \<open>A change of one entry that keeps its identity.\<close>

lemma ic_ok_upd:
  assumes ok: "ic_ok s H" and k: "H k > 0" and ip: "i_ref ip = int n"
    and id: "i_dev ip = i_dev (icache s ! k)" "i_inum ip = i_inum (icache s ! k)"
    and s': "icache s' = (icache s)[k := ip]"
  shows "ic_ok s' (H(k := n))"
proof -
  have kl: "k < NINODE" by (rule handle_less [OF ok k])
  have len: "length (icache s) = NINODE" using ok by (simp add: ic_ok_def)
  have nth: "icache s' ! j = (if j = k then ip else icache s ! j)" if "j < NINODE" for j
    using that kl len by (simp add: s' nth_list_update)
  have refs: "i_ref (icache s' ! j) = int ((H(k := n)) j)" if "j < NINODE" for j
    using ok that nth [OF that] ip by (simp add: ic_ok_def)
  have uniq: "i = j" if "i < NINODE" "j < NINODE" "(H(k := n)) i > 0" "(H(k := n)) j > 0"
      "i_dev (icache s' ! i) = i_dev (icache s' ! j)" "i_inum (icache s' ! i) = i_inum (icache s' ! j)" for i j
  proof -
    have "H i > 0" "H j > 0" using that(3,4) k by (auto split: if_splits)
    moreover have "i_dev (icache s ! i) = i_dev (icache s ! j)" "i_inum (icache s ! i) = i_inum (icache s ! j)"
      using that(5,6) nth [OF that(1)] nth [OF that(2)] id by (auto split: if_splits)
    ultimately show ?thesis using ok that(1,2) unfolding ic_ok_def by blast
  qed
  show ?thesis unfolding ic_ok_def
  proof (intro conjI allI impI)
    show "length (icache s') = NINODE" by (simp add: s' len)
    show "(H(k := n)) j = 0" if "j \<ge> NINODE" for j using ok that kl by (simp add: ic_ok_def)
  qed (blast intro: refs uniq)+
qed

lemma ic_ok_disk: "ic_ok (s\<lparr>idisk := d\<rparr>) H = ic_ok s H"
  by (simp add: ic_ok_def)

lemma ic_ok_same:
  assumes "ic_ok s H" and "H k > 0" and "icache s' = (icache s)[k := ip]"
    and "i_ref ip = i_ref (icache s ! k)" "i_dev ip = i_dev (icache s ! k)" "i_inum ip = i_inum (icache s ! k)"
  shows "ic_ok s' H"
proof -
  have "k < NINODE" by (rule handle_less [OF assms(1,2)])
  then have "i_ref ip = int (H k)" using assms(1,4) by (simp add: ic_ok_def)
  from ic_ok_upd [OF assms(1,2) this assms(5,6,3)] show ?thesis by simp
qed

lemma ic_ok_found:
  assumes ok: "ic_ok s H" and f: "find_slot (\<lambda>ip. i_ref ip > 0 \<and> i_dev ip = dev \<and> i_inum ip = inum) (icache s) = Some k"
  shows "k < NINODE" and "H k > 0" and "i_dev (icache s ! k) = dev" and "i_inum (icache s ! k) = inum"
  using find_slot_SomeD(1,2) [OF f] ok by (auto simp: ic_ok_def)

lemma ic_ok_free:
  assumes ok: "ic_ok s H" and f: "find_slot (\<lambda>ip. i_ref ip = 0) (icache s) = Some k"
  shows "k < NINODE" and "H k = 0"
  using find_slot_SomeD(1,2) [OF f] ok by (auto simp: ic_ok_def)

lemma ic_ok_none:
  assumes ok: "ic_ok s H" and f: "find_slot (\<lambda>ip. i_ref ip > 0 \<and> i_dev ip = dev \<and> i_inum ip = inum) (icache s) = None"
    and j: "H j > 0"
  shows "\<not> (i_dev (icache s ! j) = dev \<and> i_inum (icache s ! j) = inum)"
proof -
  have jl: "j < NINODE" by (rule handle_less [OF ok j])
  then have "icache s ! j \<in> set (icache s)" "i_ref (icache s ! j) > 0" using ok j by (simp_all add: ic_ok_def)
  then show ?thesis using f by (auto simp: find_slot_None_iff)
qed

lemma ic_ok_new:
  assumes ok: "ic_ok s H" and f: "find_slot (\<lambda>ip. i_ref ip > 0 \<and> i_dev ip = dev \<and> i_inum ip = inum) (icache s) = None"
    and k: "k < NINODE" "H k = 0" and ip: "i_dev ip = dev" "i_inum ip = inum" "i_ref ip = 1"
    and s': "icache s' = (icache s)[k := ip]"
  shows "ic_ok s' (H(k := 1))"
proof -
  have len: "length (icache s) = NINODE" using ok by (simp add: ic_ok_def)
  have nth: "icache s' ! j = (if j = k then ip else icache s ! j)" if "j < NINODE" for j
    using that k(1) len by (simp add: s' nth_list_update)
  have refs: "i_ref (icache s' ! j) = int ((H(k := 1)) j)" if "j < NINODE" for j
    using ok that nth [OF that] ip(3) by (simp add: ic_ok_def)
  have uniq: "i = j" if "i < NINODE" "j < NINODE" "(H(k := 1)) i > 0" "(H(k := 1)) j > 0"
      "i_dev (icache s' ! i) = i_dev (icache s' ! j)" "i_inum (icache s' ! i) = i_inum (icache s' ! j)" for i j
  proof -
    have other: "\<not> (i_dev (icache s' ! l) = dev \<and> i_inum (icache s' ! l) = inum)" if "l < NINODE" "l \<noteq> k" "(H(k := 1)) l > 0" for l
      using ic_ok_none [OF ok f, of l] nth [OF that(1)] that by simp
    have new: "i_dev (icache s' ! k) = dev" "i_inum (icache s' ! k) = inum" using nth [OF k(1)] ip by simp_all
    consider "i = k" "j = k" | "i = k" "j \<noteq> k" | "i \<noteq> k" "j = k" | "i \<noteq> k" "j \<noteq> k" by blast
    then show ?thesis
    proof cases
      case 2
      then show ?thesis using other [OF that(2) 2(2) that(4)] that(5,6) new by simp
    next
      case 3
      then show ?thesis using other [OF that(1) 3(1) that(3)] that(5,6) new by simp
    next
      case 4
      then have "H i > 0" "H j > 0" "i_dev (icache s ! i) = i_dev (icache s ! j)" "i_inum (icache s ! i) = i_inum (icache s ! j)"
        using that(3-6) nth [OF that(1)] nth [OF that(2)] by simp_all
      then show ?thesis using ok that(1,2) unfolding ic_ok_def by blast
    qed simp
  qed
  show ?thesis unfolding ic_ok_def
  proof (intro conjI allI impI)
    show "length (icache s') = NINODE" by (simp add: s' len)
    show "(H(k := 1)) j = 0" if "j \<ge> NINODE" for j using ok that k(1) by (simp add: ic_ok_def)
  qed (blast intro: refs uniq)+
qed

lemma ic_ok_iget:
  assumes ok: "ic_ok s H" and g: "iget dev inum s = Done (k, s')"
  shows "ic_ok s' (H(k := H k + 1))"
proof (cases "find_slot (\<lambda>ip. i_ref ip > 0 \<and> i_dev ip = dev \<and> i_inum ip = inum) (icache s)")
  case (Some j)
  then have j: "j = k" "icache s' = (icache s)[k := (icache s ! k)\<lparr>i_ref := i_ref (icache s ! k) + 1\<rparr>]"
    using g by (auto simp: iget_def upd_ip_def)
  note f = ic_ok_found [OF ok Some [unfolded j(1)]]
  have "i_ref (icache s ! k) = int (H k)" using ok f(1) by (simp add: ic_ok_def)
  then show ?thesis by (intro ic_ok_upd [OF ok f(2) _ _ _ j(2)]) simp_all
next
  case None
  then obtain j where fr: "find_slot (\<lambda>ip. i_ref ip = 0) (icache s) = Some j"
    and j: "j = k" "icache s' = (icache s)[k := (icache s ! k)\<lparr>i_dev := dev, i_inum := inum, i_ref := 1, i_valid := False\<rparr>]"
    using g by (auto simp: iget_def upd_ip_def split: option.splits)
  note f = ic_ok_free [OF ok fr [unfolded j(1)]]
  have "ic_ok s' (H(k := 1))" by (rule ic_ok_new [OF ok None f _ _ _ j(2)]) simp_all
  then show ?thesis using f(2) by simp
qed

text \<open>\<open>itrunc\<close> changes nothing of an inode but its size and the addresses of its blocks.\<close>

lemma trunc_direct_frame:
  "trunc_direct sb is ip d = Inr (ip', d') \<Longrightarrow> ip'\<lparr>addrs := []\<rparr> = ip\<lparr>addrs := []\<rparr>"
proof (induction "is" arbitrary: ip d)
  case (Cons i "is")
  show ?case
  proof (cases "addrs ip ! i = 0")
    case True
    then show ?thesis using Cons by simp
  next
    case False
    then obtain d1 where "trunc_direct sb is (ip\<lparr>addrs := (addrs ip)[i := 0]\<rparr>) d1 = Inr (ip', d')"
      using Cons.prems by (auto split: sum.splits)
    from Cons.IH [OF this] show ?thesis by simp
  qed
qed simp

lemma itrunc_frame:
  assumes "itrunc sb ip d = Inr (ip', d')"
  shows "ip'\<lparr>addrs := [], i_size := 0\<rparr> = ip\<lparr>addrs := [], i_size := 0\<rparr>"
proof -
  obtain ip1 d1 ip2 d2 ip3 d3 where a: "trunc_direct sb [0..<11] ip d = Inr (ip1, d1)"
    and b: "trunc_indirect sb ip1 d1 = Inr (ip2, d2)" and c: "trunc_double sb ip2 d2 = Inr (ip3, d3)"
    and ip': "ip' = ip3\<lparr>i_size := 0\<rparr>"
    using assms by (auto simp: itrunc_def Let_def split: sum.splits)
  have "ip3\<lparr>addrs := []\<rparr> = ip2\<lparr>addrs := []\<rparr>" using c by (auto simp: trunc_double_def split: if_splits sum.splits)
  also have "\<dots> = ip1\<lparr>addrs := []\<rparr>" using b by (auto simp: trunc_indirect_def split: if_splits sum.splits)
  also have "\<dots> = ip\<lparr>addrs := []\<rparr>" by (rule trunc_direct_frame [OF a])
  finally have "(ip3\<lparr>addrs := []\<rparr>)\<lparr>i_size := 0\<rparr> = (ip\<lparr>addrs := []\<rparr>)\<lparr>i_size := 0\<rparr>" by (rule arg_cong)
  then show ?thesis unfolding ip' by simp
qed

lemma ifree_id:
  assumes "ifree sb pid ip d = Done (ip', d')"
  shows "i_dev ip' = i_dev ip" and "i_inum ip' = i_inum ip" and "i_ref ip' = i_ref ip"
proof -
  obtain lk where a: "acquiresleep (i_lock ip) pid = Done lk"
    using assms by (cases "acquiresleep (i_lock ip) pid") (simp_all add: ifree_def)
  then obtain ip1 d1 where t: "itrunc sb (ip\<lparr>i_lock := lk\<rparr>) d = Inr (ip1, d1)"
    using assms by (cases "itrunc sb (ip\<lparr>i_lock := lk\<rparr>) d") (auto simp: ifree_def)
  then have ip': "ip' = ip1\<lparr>i_type := 0, i_valid := False, i_lock := releasesleep (i_lock ip1)\<rparr>"
    using assms a by (simp add: ifree_def Let_def)
  note f = itrunc_frame [OF t]
  from arg_cong [OF f, of i_dev] arg_cong [OF f, of i_inum] arg_cong [OF f, of i_ref]
  show "i_dev ip' = i_dev ip" "i_inum ip' = i_inum ip" "i_ref ip' = i_ref ip" unfolding ip' by simp_all
qed

lemma ilock_Done:
  assumes "ilock sb pid k s = Done s'"
  shows "\<exists>ip. icache s' = (icache s)[k := ip] \<and> i_ref ip = i_ref (icache s ! k)
    \<and> i_dev ip = i_dev (icache s ! k) \<and> i_inum ip = i_inum (icache s ! k)"
proof -
  have nk: "\<not> (k \<ge> NINODE \<or> i_ref (icache s ! k) < 1)" using assms by (auto simp: ilock_def)
  then obtain lk where "acquiresleep (i_lock (icache s ! k)) pid = Done lk"
    using assms by (cases "acquiresleep (i_lock (icache s ! k)) pid") (simp_all add: ilock_def)
  with nk assms show ?thesis
    by (auto simp: ilock_def Let_def load_dinode_def split: if_splits)
qed

lemma iput_Done:
  assumes "iput sb pid k s = Done s'"
  shows "\<exists>ip. icache s' = (icache s)[k := ip\<lparr>i_ref := i_ref ip - 1\<rparr>] \<and> i_ref ip = i_ref (icache s ! k)
    \<and> i_dev ip = i_dev (icache s ! k) \<and> i_inum ip = i_inum (icache s ! k)"
proof (cases "i_ref (icache s ! k) = 1 \<and> i_valid (icache s ! k) \<and> i_nlink (icache s ! k) = 0")
  case True
  then obtain ip d where f: "ifree sb pid (icache s ! k) (idisk s) = Done (ip, d)"
    and s': "s' = s\<lparr>icache := (icache s)[k := ip\<lparr>i_ref := i_ref ip - 1\<rparr>], idisk := d\<rparr>"
    using assms by (auto simp: iput_def obind_Done)
  show ?thesis using ifree_id [OF f] by (intro exI [of _ ip]) (simp add: s')
next
  case False
  then have "icache s' = (icache s)[k := (icache s ! k)\<lparr>i_ref := i_ref (icache s ! k) - 1\<rparr>]"
    using assms unfolding iput_def Let_def if_not_P [OF False] by auto
  then show ?thesis by (intro exI [of _ "icache s ! k"]) simp
qed

lemma ic_reach_ok: "ic_reach sb s H \<Longrightarrow> ic_ok s H"
proof (induction rule: ic_reach.induct)
  case (init d)
  then show ?case by (simp add: ic_ok_def iinit_def inode0_def)
next
  case (get s H dev inum k s')
  then show ?case by (blast intro: ic_ok_iget)
next
  case (alloc s H dev type k s')
  then obtain d inum where "iget dev inum (s\<lparr>idisk := d\<rparr>) = Done (k, s')"
    by (auto simp: ialloc_def split: sum.splits)
  then show ?case by (rule ic_ok_iget [rotated]) (simp add: ic_ok_disk alloc.IH)
next
  case (dup s H k s')
  have "k < NINODE" by (rule handle_less [OF dup.IH dup.hyps(2)])
  then have "i_ref (icache s ! k) = int (H k)" using dup by (simp add: ic_ok_def)
  moreover have "icache s' = (icache s)[k := (icache s ! k)\<lparr>i_ref := i_ref (icache s ! k) + 1\<rparr>]"
    using dup.hyps(3) by (auto simp: idup_def upd_ip_def)
  ultimately show ?case by (intro ic_ok_upd [OF dup.IH dup.hyps(2)]) simp_all
next
  case (lock s H k pid s')
  obtain ip where "icache s' = (icache s)[k := ip]" "i_ref ip = i_ref (icache s ! k)"
    "i_dev ip = i_dev (icache s ! k)" "i_inum ip = i_inum (icache s ! k)"
    using ilock_Done [OF lock.hyps(3)] by blast
  then show ?case by (rule ic_ok_same [OF lock.IH lock.hyps(2)])
next
  case (unlock s H k pid s')
  then have "icache s' = (icache s)[k := (icache s ! k)\<lparr>i_lock := releasesleep (i_lock (icache s ! k))\<rparr>]"
    by (auto simp: iunlock_def upd_ip_def split: if_splits)
  then show ?case by (rule ic_ok_same [OF unlock.IH unlock.hyps(2)]) simp_all
next
  case (change s H k pid ip t m ma mi nl sz as d)
  show ?case by (rule ic_ok_same [OF change.IH change.hyps(2), where ip = ip]) (simp_all add: change.hyps(4))
next
  case (put s H k pid s')
  obtain ip where ip: "icache s' = (icache s)[k := ip\<lparr>i_ref := i_ref ip - 1\<rparr>]"
    and id: "i_ref ip = i_ref (icache s ! k)" "i_dev ip = i_dev (icache s ! k)" "i_inum ip = i_inum (icache s ! k)"
    using iput_Done [OF put.hyps(3)] by blast
  have "k < NINODE" by (rule handle_less [OF put.IH put.hyps(2)])
  then have "i_ref (icache s ! k) = int (H k)" using put.IH by (simp add: ic_ok_def)
  then show ?case using put.hyps(2) id by (intro ic_ok_upd [OF put.IH put.hyps(2) _ _ _ ip]) simp_all
qed

lemma ic_ok_uniq:
  assumes "ic_ok s H" and "H j > 0" and "H k > 0" and "i_dev (icache s ! j) = i_dev (icache s ! k)"
    and "i_inum (icache s ! j) = i_inum (icache s ! k)"
  shows "j = k"
  using assms handle_less [OF assms(1,2)] handle_less [OF assms(1,3)] unfolding ic_ok_def by blast

lemma icache_nth:
  "length (icache s) = NINODE \<Longrightarrow> k < NINODE \<Longrightarrow> icache (upd_ip k f s) ! j = (if j = k then f (icache s ! k) else icache s ! j)"
  by (auto simp: upd_ip_def)

lemma iget_entry:
  assumes ok: "ic_ok s H" and g: "iget dev inum s = Done (k, s')"
  shows "i_dev (icache s' ! k) = dev" and "i_inum (icache s' ! k) = inum"
    and "H j > 0 \<Longrightarrow> (icache s' ! j)\<lparr>i_ref := 0\<rparr> = (icache s ! j)\<lparr>i_ref := 0\<rparr>"
    and "H j > 0 \<Longrightarrow> i_dev (icache s ! j) = dev \<Longrightarrow> i_inum (icache s ! j) = inum \<Longrightarrow> k = j"
proof -
  have len: "length (icache s) = NINODE" using ok by (simp add: ic_ok_def)
  have "i_dev (icache s' ! k) = dev \<and> i_inum (icache s' ! k) = inum
      \<and> (H j > 0 \<longrightarrow> (icache s' ! j)\<lparr>i_ref := 0\<rparr> = (icache s ! j)\<lparr>i_ref := 0\<rparr>)
      \<and> (H j > 0 \<and> i_dev (icache s ! j) = dev \<and> i_inum (icache s ! j) = inum \<longrightarrow> k = j)"
  proof (cases "find_slot (\<lambda>ip. i_ref ip > 0 \<and> i_dev ip = dev \<and> i_inum ip = inum) (icache s)")
    case (Some i)
    then have i: "i = k" "s' = upd_ip k (\<lambda>ip. ip\<lparr>i_ref := i_ref ip + 1\<rparr>) s" using g by (auto simp: iget_def)
    note f = ic_ok_found [OF ok Some [unfolded i(1)]]
    have "k = j" if "H j > 0" "i_dev (icache s ! j) = dev" "i_inum (icache s ! j) = inum"
      by (rule ic_ok_uniq [OF ok f(2) that(1)]) (simp_all add: f that)
    then show ?thesis unfolding i(2) icache_nth [OF len f(1)] using f(3,4) by simp
  next
    case None
    then obtain i where fr: "find_slot (\<lambda>ip. i_ref ip = 0) (icache s) = Some i" and "i = k"
      and s': "s' = upd_ip k (\<lambda>ip. ip\<lparr>i_dev := dev, i_inum := inum, i_ref := 1, i_valid := False\<rparr>) s"
      using g by (auto simp: iget_def split: option.splits)
    then have f: "k < NINODE" "H k = 0" using ic_ok_free [OF ok] by blast+
    then show ?thesis unfolding s' icache_nth [OF len f(1)] using ic_ok_none [OF ok None, of j] by auto
  qed
  then show "i_dev (icache s' ! k) = dev" "i_inum (icache s' ! k) = inum"
    "H j > 0 \<Longrightarrow> (icache s' ! j)\<lparr>i_ref := 0\<rparr> = (icache s ! j)\<lparr>i_ref := 0\<rparr>"
    "H j > 0 \<Longrightarrow> i_dev (icache s ! j) = dev \<Longrightarrow> i_inum (icache s ! j) = inum \<Longrightarrow> k = j" by blast+
qed

lemma iget_Panics:
  assumes ok: "ic_ok s H" and g: "iget dev inum s = Panics e" and k: "k < NINODE"
  shows "H k > 0 \<and> \<not> (i_dev (icache s ! k) = dev \<and> i_inum (icache s ! k) = inum)"
proof -
  have none: "find_slot (\<lambda>ip. i_ref ip > 0 \<and> i_dev ip = dev \<and> i_inum ip = inum) (icache s) = None"
    and full: "find_slot (\<lambda>ip. i_ref ip = 0) (icache s) = None"
    using g by (auto simp: iget_def split: option.splits)
  have "icache s ! k \<in> set (icache s)" using ok k by (simp add: ic_ok_def)
  then have "i_ref (icache s ! k) \<noteq> 0" using full by (simp add: find_slot_None_iff)
  then have "H k > 0" using ok k by (simp add: ic_ok_def)
  then show ?thesis using ic_ok_none [OF ok none] by blast
qed

section \<open>Properties\<close>

text \<open>
  C9: one entry per inode. In every reachable state of the cache two pointers in use to the same inode are
  equal; \<open>iget\<close> returns the entry in use for the inode if there is one, and never disturbs an entry in
  use; it panics exactly when all entries are in use by other inodes.
\<close>

theorem icache_one_entry:
  assumes "ic_reach sb s H"
  shows "(\<forall>j k. H j > 0 \<and> H k > 0 \<and> i_dev (icache s ! j) = i_dev (icache s ! k)
            \<and> i_inum (icache s ! j) = i_inum (icache s ! k) \<longrightarrow> j = k)
    \<and> (case iget dev inum s of
         Done (k, s') \<Rightarrow> i_dev (icache s' ! k) = dev \<and> i_inum (icache s' ! k) = inum
           \<and> (\<forall>j. H j > 0 \<longrightarrow> (icache s' ! j)\<lparr>i_ref := 0\<rparr> = (icache s ! j)\<lparr>i_ref := 0\<rparr>)
           \<and> (\<forall>j. H j > 0 \<and> i_dev (icache s ! j) = dev \<and> i_inum (icache s ! j) = inum \<longrightarrow> k = j)
       | Panics e \<Rightarrow> (\<forall>k < NINODE. H k > 0 \<and> \<not> (i_dev (icache s ! k) = dev \<and> i_inum (icache s ! k) = inum))
       | Sleeps \<Rightarrow> False)"
proof (rule conjI)
  note ok = ic_reach_ok [OF assms]
  show "\<forall>j k. H j > 0 \<and> H k > 0 \<and> i_dev (icache s ! j) = i_dev (icache s ! k)
      \<and> i_inum (icache s ! j) = i_inum (icache s ! k) \<longrightarrow> j = k"
    using ic_ok_uniq [OF ok] by blast
  have ns: "iget dev inum s \<noteq> Sleeps" by (auto simp: iget_def split: option.splits)
  show "case iget dev inum s of
         Done (k, s') \<Rightarrow> i_dev (icache s' ! k) = dev \<and> i_inum (icache s' ! k) = inum
           \<and> (\<forall>j. H j > 0 \<longrightarrow> (icache s' ! j)\<lparr>i_ref := 0\<rparr> = (icache s ! j)\<lparr>i_ref := 0\<rparr>)
           \<and> (\<forall>j. H j > 0 \<and> i_dev (icache s ! j) = dev \<and> i_inum (icache s ! j) = inum \<longrightarrow> k = j)
       | Panics e \<Rightarrow> (\<forall>k < NINODE. H k > 0 \<and> \<not> (i_dev (icache s ! k) = dev \<and> i_inum (icache s ! k) = inum))
       | Sleeps \<Rightarrow> False"
  proof (cases "iget dev inum s")
    case (Done x)
    then show ?thesis using iget_entry [OF ok, of dev inum "fst x" "snd x"] by (cases x) simp
  next
    case (Panics e)
    show ?thesis unfolding Panics using iget_Panics [OF ok Panics] by auto
  qed (use ns in simp)
qed

text \<open>A cache in which inode 1 is open once.\<close>

definition one_open :: ifs where
  "one_open = (case iget 1 1 (iinit small_disk) of Done (k, s) \<Rightarrow> s | _ \<Rightarrow> iinit small_disk)"

lemma one_open_iget: "iget 1 1 (iinit small_disk) = Done (0, one_open)"
  by (simp add: one_open_def iget_def iinit_def inode0_def find_slot_None_iff numeral_eq_Suc)

lemma one_open_reach: "ic_reach small_sb one_open ((\<lambda>_. 0)(0 := 1))"
  using ic_reach.get [OF ic_reach.init one_open_iget, of small_sb] by simp

lemma one_open_entry: "i_dev (icache one_open ! 0) = 1" "i_inum (icache one_open ! 0) = 1"
  using iget_entry(1,2) [OF ic_reach_ok [OF ic_reach.init] one_open_iget] by simp_all

theorem icache_one_entry_witness:
  "ic_reach small_sb one_open ((\<lambda>_. 0)(0 := 1)) \<and> (case iget 1 1 one_open of Done (k, s') \<Rightarrow> k = 0 | _ \<Rightarrow> False)"
proof -
  define H :: "nat \<Rightarrow> nat" where "H = (\<lambda>_. 0)(0 := 1)"
  have H: "H 0 > 0" "H 1 = 0" by (simp_all add: H_def)
  note r = one_open_reach [folded H_def]
  note p = conjunct2 [OF icache_one_entry [OF r, of 1 1]]
  show ?thesis
  proof (cases "iget 1 1 one_open")
    case (Done x)
    obtain k s' where x: "x = (k, s')" by (cases x)
    have "k = 0" using p [unfolded Done x outcome.case prod.case] H(1) one_open_entry by blast
    then show ?thesis using one_open_reach Done x by simp
  next
    case (Panics e)
    have "H 1 > 0" using p [unfolded Panics outcome.case, rule_format, of 1] by simp
    then show ?thesis using H(2) by simp
  next
    case Sleeps
    then show ?thesis using p by simp
  qed
qed

text \<open>The type of an inode on disk after an update.\<close>

lemma iupdate_type: "inode_fits ip \<Longrightarrow> dinode_type sb (i_inum ip) (iupdate sb ip d) = i_type ip"
  using arg_cong [OF iupdate_load [of ip sb d ip], of i_type] by (simp add: load_dinode_def dinode_type_def)

lemma file_ok_frame: "file_ok sb (ip\<lparr>i_lock := lk, i_type := t\<rparr>) d = file_ok sb ip d"
  by (simp add: file_ok_def)

lemma ifree_frees:
  assumes ok: "file_ok sb ip d" and free: "\<not> sl_locked (i_lock ip)"
  shows "\<exists>ip' d'. ifree sb pid ip d = Done (ip', d') \<and> i_ref ip' = i_ref ip \<and> \<not> i_valid ip' \<and> \<not> sl_locked (i_lock ip')
    \<and> dinode_type sb (i_inum ip) d' = 0
    \<and> (\<forall>c < sb_size sb. blk_used sb d' c \<longleftrightarrow> blk_used sb d c \<and> c \<notin> tree_blocks (addrs ip) d)
    \<and> (\<forall>c. c \<notin> bitmap_blocks sb \<and> c \<noteq> IBLOCK (i_inum ip) sb \<longrightarrow> d' c = d c)
    \<and> other_dinodes_kept sb (i_inum ip) d d'"
proof -
  let ?lk = "(i_lock ip)\<lparr>sl_locked := True, sl_pid := pid\<rparr>"
  let ?ip = "ip\<lparr>i_lock := ?lk\<rparr>" and ?jp = "ip\<lparr>i_lock := ?lk, addrs := replicate 13 0, i_size := 0\<rparr>"
  let ?kp = "ip\<lparr>i_lock := ?lk, addrs := replicate 13 0, i_size := 0, i_type := 0\<rparr>"
  have "file_ok sb ?ip d" using ok by (simp add: file_ok_def)
  then have t: "tree_ok sb (addrs ?ip) d" and nb: "IBLOCK (i_inum ip) sb \<notin> bitmap_blocks sb" using ok by (simp_all add: file_ok_def)
  obtain d0 where r: "itrunc sb ?ip d = Inr (?jp, iupdate sb ?jp d0)"
    and used: "\<forall>c. blk_used sb d0 c \<longleftrightarrow> blk_used sb d c \<and> c \<notin> tree_blocks (addrs ip) d"
    and same: "\<forall>c. c \<notin> bitmap_blocks sb \<longrightarrow> d0 c = d c"
    using itrunc_Inr [OF t] by auto
  let ?d = "iupdate sb ?kp (iupdate sb ?jp d0)"
  have f: "ifree sb pid ip d = Done (?kp\<lparr>i_valid := False, i_lock := releasesleep ?lk\<rparr>, ?d)"
    using free r by (simp add: ifree_def acquiresleep_def Let_def)
  have "inode_fits ?kp" by (simp add: inode_fits_def)
  from iupdate_type [OF this, of sb "iupdate sb ?jp d0"] have ty: "dinode_type sb (i_inum ip) ?d = 0" by simp
  obtain x where "iupdate sb ?jp d0 = d0(IBLOCK (i_inum ip) sb := x)" using iupdate_upd [of sb ?jp d0] by auto
  then obtain y where y: "?d = d0(IBLOCK (i_inum ip) sb := y)" using iupdate_upd [of sb ?kp "iupdate sb ?jp d0"] by auto
  have "\<forall>c < sb_size sb. blk_used sb ?d c \<longleftrightarrow> blk_used sb d c \<and> c \<notin> tree_blocks (addrs ip) d"
    unfolding y using used blk_used_upd [OF nb] by blast
  moreover have "\<forall>c. c \<notin> bitmap_blocks sb \<and> c \<noteq> IBLOCK (i_inum ip) sb \<longrightarrow> ?d c = d c"
    unfolding y using same by simp
  moreover have "other_dinodes_kept sb (i_inum ip) d d0" using same nb by (intro kept_same) simp
  then have "other_dinodes_kept sb (i_inum ip) d ?d"
    using iupdate_kept [of ?jp sb d0] iupdate_kept [of ?kp sb "iupdate sb ?jp d0"] by (auto intro: kept_trans)
  ultimately show ?thesis using f ty by (simp add: releasesleep_def)
qed

text \<open>
  C12: dropping the last reference to a file without links. \<open>iput\<close> then frees every block of the file and
  marks its inode as free on disk, and the entry of the cache is free. No other block is freed, no block is
  written but those of the bitmap and the block of the inode, and there the other inodes keep every byte.
\<close>

theorem iput_last_reference:
  assumes k: "k < length (icache s)" and ip: "ip = icache s ! k" "i_ref ip = 1" "i_valid ip" "i_nlink ip = 0" "\<not> sl_locked (i_lock ip)"
    and ok: "file_ok sb ip (idisk s)"
  shows "\<exists>s'. iput sb pid k s = Done s' \<and> i_ref (icache s' ! k) = 0 \<and> \<not> i_valid (icache s' ! k)
    \<and> dinode_type sb (i_inum ip) (idisk s') = 0
    \<and> (\<forall>c < sb_size sb. blk_used sb (idisk s') c \<longleftrightarrow> blk_used sb (idisk s) c \<and> c \<notin> tree_blocks (addrs ip) (idisk s))
    \<and> (\<forall>c. c \<notin> bitmap_blocks sb \<and> c \<noteq> IBLOCK (i_inum ip) sb \<longrightarrow> idisk s' c = idisk s c)
    \<and> other_dinodes_kept sb (i_inum ip) (idisk s) (idisk s')
    \<and> (\<forall>j. j \<noteq> k \<longrightarrow> icache s' ! j = icache s ! j)"
proof -
  obtain ip' d' where f: "ifree sb pid ip (idisk s) = Done (ip', d')" "i_ref ip' = i_ref ip" "\<not> i_valid ip'"
    and d': "dinode_type sb (i_inum ip) d' = 0"
      "\<forall>c < sb_size sb. blk_used sb d' c \<longleftrightarrow> blk_used sb (idisk s) c \<and> c \<notin> tree_blocks (addrs ip) (idisk s)"
      "\<forall>c. c \<notin> bitmap_blocks sb \<and> c \<noteq> IBLOCK (i_inum ip) sb \<longrightarrow> d' c = idisk s c"
      "other_dinodes_kept sb (i_inum ip) (idisk s) d'"
    using ifree_frees [OF ok ip(5)] by blast
  have "iput sb pid k s = Done (s\<lparr>icache := (icache s)[k := ip'\<lparr>i_ref := 0\<rparr>], idisk := d'\<rparr>)"
    using ip f(1,2) by (simp add: iput_def)
  then show ?thesis using k f(3) d' by simp
qed

definition last_ref :: ifs where
  "last_ref = \<lparr>icache = [small_ip\<lparr>i_lock := initsleeplock, i_nlink := 0\<rparr>], idisk = small_disk\<rparr>"

theorem iput_last_reference_witness:
  "\<exists>s'. iput small_sb 1 0 last_ref = Done s' \<and> i_ref (icache s' ! 0) = 0 \<and> dinode_type small_sb 1 (idisk s') = 0
     \<and> \<not> blk_used small_sb (idisk s') 4 \<and> blk_used small_sb (idisk s') 3"
proof -
  let ?ip = "small_ip\<lparr>i_lock := initsleeplock, i_nlink := 0\<rparr>"
  have "file_ok small_sb ?ip small_disk" using small_file by (simp add: file_ok_def)
  then have a: "0 < length (icache last_ref)" "?ip = icache last_ref ! 0" "i_ref ?ip = 1" "i_valid ?ip" "i_nlink ?ip = 0"
      "\<not> sl_locked (i_lock ?ip)" "file_ok small_sb ?ip (idisk last_ref)"
    by (simp_all add: last_ref_def small_ip_def initsleeplock_def)
  obtain s' where r: "iput small_sb 1 0 last_ref = Done s'" "i_ref (icache s' ! 0) = 0" "dinode_type small_sb (i_inum ?ip) (idisk s') = 0"
    and u: "\<forall>c < sb_size small_sb. blk_used small_sb (idisk s') c \<longleftrightarrow> blk_used small_sb (idisk last_ref) c \<and> c \<notin> tree_blocks (addrs ?ip) (idisk last_ref)"
    using iput_last_reference [OF a, of 1] by blast
  have "idisk last_ref = small_disk" "tree_blocks (addrs ?ip) (idisk last_ref) = {4}" "i_inum ?ip = 1"
    using small_tree by (simp_all add: last_ref_def small_ip_def)
  then show ?thesis using r u small_used small_sizes(1) by simp
qed

end
