(* ===== verification/Fs_Dir.thy ===== *)
theory Fs_Dir
  imports Icache Kstring
begin

text \<open>
  Directories and path names, the last part of \<open>src/kernel/filesystem/fs.c\<close>. A directory is a file of
  16-byte entries, an inode number and a name of up to 14 bytes. Names, paths and the local variable
  \<open>de\<close> of the routines live in a memory; the copies between a block and kernel memory cannot fail.
\<close>

section \<open>Operations\<close>

abbreviation DIRSIZ :: nat where "DIRSIZ \<equiv> 14"

abbreviation T_DIR :: u8 where "T_DIR \<equiv> 1"

definition namecmp :: "mem \<Rightarrow> nat \<Rightarrow> nat \<Rightarrow> int" where
  "namecmp m s t = strncmp m s t DIRSIZ"

text \<open>A copy that cannot fail, and bytes stored at an address.\<close>

abbreviation kcopy :: copier where "kcopy \<equiv> \<lambda>_ m. m"

definition put_bytes :: "nat \<Rightarrow> u8 list \<Rightarrow> mem \<Rightarrow> mem" where
  "put_bytes a bs m = (\<lambda>i. if a \<le> i \<and> i < a + length bs then bs ! (i - a) else m i)"

lemma bmap_size: "bmap sb ip bn d = Inr (ip', d', b) \<Longrightarrow> i_size ip' = i_size ip"
  by (auto simp: bmap_def get_addr_def get_entry_def Let_def split: if_splits sum.splits)

lemma readi_loop_size: "readi_loop sb cp n tot off ip d out = Inr (ip', d', k, out') \<Longrightarrow> i_size ip' = i_size ip"
proof (induction "n - tot" arbitrary: tot off ip d out rule: less_induct)
  case less
  show ?case
  proof (cases "tot < n")
    case False
    then show ?thesis using less.prems by (subst (asm) readi_loop.simps) simp
  next
    case True
    then obtain ip1 d1 b where b: "bmap sb ip (off div BSIZE) d = Inr (ip1, d1, b)"
      using less.prems by (subst (asm) readi_loop.simps) (auto split: sum.splits)
    from less.prems True b consider "ip' = ip1"
      | out1 where "readi_loop sb cp n (tot + chunk n tot off) (off + chunk n tot off) ip1 d1 out1 = Inr (ip', d', k, out')"
      by (subst (asm) readi_loop.simps) (auto simp: Let_def split: if_splits)
    then show ?thesis
    proof cases
      case 1
      then show ?thesis using bmap_size [OF b] by simp
    next
      case 2
      from less.hyps [OF chunk_less [OF True] 2] show ?thesis using bmap_size [OF b] by simp
    qed
  qed
qed

lemma readi_size: "readi sb cp ip off n d = Inr (ip', d', k, out) \<Longrightarrow> i_size ip' = i_size ip"
  using readi_loop_size by (auto simp: readi_def split: if_splits)

text \<open>The loop of \<open>dirlookup\<close>: the inode number and the offset of the entry that matches.\<close>

function dirlookup_from :: "superblock \<Rightarrow> nat \<Rightarrow> nat \<Rightarrow> nat \<Rightarrow> mem \<Rightarrow> inode \<Rightarrow> blocks
    \<Rightarrow> (mem \<times> inode \<times> blocks \<times> (nat \<times> nat) option) kres" where
  "dirlookup_from sb de name off m dp d =
     (if off < i_size dp
      then (case readi sb kcopy dp off 16 d of
              Inl e \<Rightarrow> Inl e
            | Inr (dp', d, r, out) \<Rightarrow>
                (if r \<noteq> 16 then Inl ''dirlookup read''
                 else let m = put_bytes de out m; inum = unat (get16 m de)
                      in if inum = 0 then dirlookup_from sb de name (off + 16) m dp' d
                         else if namecmp m name (de + 2) = 0 then Inr (m, dp', d, Some (inum, off))
                         else dirlookup_from sb de name (off + 16) m dp' d))
      else Inr (m, dp, d, None))"
  by pat_completeness auto
termination by (relation "measure (\<lambda>(sb, de, name, off, m, dp, d). i_size dp - off)") (auto dest!: readi_size)

declare dirlookup_from.simps [simp del]

definition dirlookup :: "superblock \<Rightarrow> nat \<Rightarrow> nat \<Rightarrow> nat \<Rightarrow> mem \<Rightarrow> ifs \<Rightarrow> (mem \<times> ifs \<times> (nat \<times> nat) option) outcome" where
  "dirlookup sb de k name m s =
     (if i_type (icache s ! k) \<noteq> T_DIR then Panics ''dirlookup not DIR''
      else (case dirlookup_from sb de name 0 m (icache s ! k) (idisk s) of
              Inl e \<Rightarrow> Panics e
            | Inr (m, dp, d, r) \<Rightarrow>
                (let s = s\<lparr>icache := (icache s)[k := dp], idisk := d\<rparr>
                 in (case r of
                       None \<Rightarrow> Done (m, s, None)
                     | Some (inum, off) \<Rightarrow>
                         obind (iget (i_dev dp) inum s) (\<lambda>(j, s). Done (m, s, Some (j, off)))))))"

text \<open>The loop of \<open>dirlink\<close> that looks for an empty entry.\<close>

function find_empty :: "superblock \<Rightarrow> nat \<Rightarrow> nat \<Rightarrow> mem \<Rightarrow> inode \<Rightarrow> blocks \<Rightarrow> (mem \<times> inode \<times> blocks \<times> nat) kres" where
  "find_empty sb de off m dp d =
     (if off < i_size dp
      then (case readi sb kcopy dp off 16 d of
              Inl e \<Rightarrow> Inl e
            | Inr (dp', d, r, out) \<Rightarrow>
                (if r \<noteq> 16 then Inl ''dirlink read''
                 else let m = put_bytes de out m
                      in if get16 m de = 0 then Inr (m, dp', d, off)
                         else find_empty sb de (off + 16) m dp' d))
      else Inr (m, dp, d, off))"
  by pat_completeness auto
termination by (relation "measure (\<lambda>(sb, de, off, m, dp, d). i_size dp - off)") (auto dest!: readi_size)

declare find_empty.simps [simp del]

text \<open>The end of \<open>dirlink\<close>: the new entry is built in \<open>de\<close> and written.\<close>

definition add_entry :: "superblock \<Rightarrow> nat \<Rightarrow> nat \<Rightarrow> nat \<Rightarrow> mem \<Rightarrow> inode \<Rightarrow> blocks \<Rightarrow> (mem \<times> inode \<times> blocks) kres" where
  "add_entry sb de name inum m dp d =
     (case find_empty sb de 0 m dp d of
        Inl e \<Rightarrow> Inl e
      | Inr (m, dp, d, off) \<Rightarrow>
          (let m = put16 de (of_nat inum) (strncpy m (de + 2) name (int DIRSIZ))
           in (case writei sb kcopy (\<lambda>i. m (de + i)) dp off 16 d of
                 Inl e \<Rightarrow> Inl e
               | Inr (dp, d, r) \<Rightarrow> (if r \<noteq> 16 then Inl ''dirlink'' else Inr (m, dp, d)))))"

definition dirlink :: "superblock \<Rightarrow> int \<Rightarrow> nat \<Rightarrow> nat \<Rightarrow> nat \<Rightarrow> nat \<Rightarrow> mem \<Rightarrow> ifs \<Rightarrow> (mem \<times> ifs \<times> int) outcome" where
  "dirlink sb pid de k name inum m s =
     obind (dirlookup sb de k name m s) (\<lambda>(m, s, r).
       case r of
         Some (j, off) \<Rightarrow> obind (iput sb pid j s) (\<lambda>s. Done (m, s, - 1))
       | None \<Rightarrow>
           (case add_entry sb de name inum m (icache s ! k) (idisk s) of
              Inl e \<Rightarrow> Panics e
            | Inr (m, dp, d) \<Rightarrow> Done (m, s\<lparr>icache := (icache s)[k := dp], idisk := d\<rparr>, 0)))"

text \<open>A path is a string without its terminator. \<open>skipelem\<close> returns the rest of the path and the element
  it copies to the name; names of 14 bytes or more are cut and not terminated.\<close>

fun skip_slashes :: "u8 list \<Rightarrow> u8 list" where
  "skip_slashes (c # cs) = (if c = 47 then skip_slashes cs else c # cs)"
| "skip_slashes [] = []"

fun elem_len :: "u8 list \<Rightarrow> nat" where
  "elem_len (c # cs) = (if c \<noteq> 47 then Suc (elem_len cs) else 0)"
| "elem_len [] = 0"

definition skipelem :: "u8 list \<Rightarrow> (u8 list \<times> u8 list) option" where
  "skipelem path =
     (let path = skip_slashes path
      in if path = [] then None
         else let len = elem_len path;
                  name = (if len \<ge> DIRSIZ then take DIRSIZ path else take len path)
              in Some (skip_slashes (drop len path), name))"

lemma skip_slashes_length: "length (skip_slashes p) \<le> length p"
  by (induction p) auto

lemma skip_slashes_head: "skip_slashes p = c # cs \<Longrightarrow> c \<noteq> 47"
  by (induction p) (auto split: if_splits)

lemma skipelem_shorter:
  assumes "skipelem p = Some (rest, name)"
  shows "length rest < length p"
proof -
  let ?p = "skip_slashes p"
  have ne: "?p \<noteq> []" and rest: "rest = skip_slashes (drop (elem_len ?p) ?p)"
    using assms by (auto simp: skipelem_def Let_def split: if_splits)
  then obtain c cs where p: "?p = c # cs" by (cases ?p) auto
  have "0 < elem_len ?p" using skip_slashes_head [OF p] by (simp add: p)
  then have "length (drop (elem_len ?p) ?p) < length ?p" using ne by simp
  then show ?thesis unfolding rest using skip_slashes_length [of p] skip_slashes_length [of "drop (elem_len ?p) ?p"] by linarith
qed

text \<open>What is stored in the name buffer.\<close>

definition put_name :: "nat \<Rightarrow> u8 list \<Rightarrow> mem \<Rightarrow> mem" where
  "put_name name elem m = put_bytes name (if length elem \<ge> DIRSIZ then elem else elem @ [0]) m"

function namex_loop :: "superblock \<Rightarrow> int \<Rightarrow> nat \<Rightarrow> nat \<Rightarrow> bool \<Rightarrow> u8 list \<Rightarrow> nat \<Rightarrow> mem \<Rightarrow> ifs
    \<Rightarrow> (mem \<times> ifs \<times> nat option) outcome" where
  "namex_loop sb pid de name nameiparent path ip m s =
     (case skipelem path of
        None \<Rightarrow> (if nameiparent then obind (iput sb pid ip s) (\<lambda>s. Done (m, s, None)) else Done (m, s, Some ip))
      | Some (path', elem) \<Rightarrow>
          (let m = put_name name elem m
           in obind (ilock sb pid ip s) (\<lambda>s.
                if i_type (icache s ! ip) \<noteq> T_DIR then obind (iunlockput sb pid ip s) (\<lambda>s. Done (m, s, None))
                else if nameiparent \<and> path' = [] then obind (iunlock pid ip s) (\<lambda>s. Done (m, s, Some ip))
                else obind (dirlookup sb de ip name m s) (\<lambda>(m, s, r).
                  case r of
                    None \<Rightarrow> obind (iunlockput sb pid ip s) (\<lambda>s. Done (m, s, None))
                  | Some (inext, off) \<Rightarrow>
                      obind (iunlockput sb pid ip s) (\<lambda>s. namex_loop sb pid de name nameiparent path' inext m s)))))"
  by pat_completeness auto
termination
  by (relation "measure (\<lambda>(sb, pid, de, name, np, path, ip, m, s). length path)") (auto dest: skipelem_shorter)

declare namex_loop.simps [simp del]

abbreviation ROOTINO :: nat where "ROOTINO \<equiv> 1"

definition namex :: "superblock \<Rightarrow> int \<Rightarrow> nat \<Rightarrow> nat \<Rightarrow> bool \<Rightarrow> u8 list \<Rightarrow> nat \<Rightarrow> mem \<Rightarrow> ifs
    \<Rightarrow> (mem \<times> ifs \<times> nat option) outcome" where
  "namex sb pid de cwd nameiparent path name m s =
     obind (if path \<noteq> [] \<and> hd path = 47 then iget 1 ROOTINO s else Done (idup cwd s)) (\<lambda>(ip, s).
       namex_loop sb pid de name nameiparent path ip m s)"

definition namei :: "superblock \<Rightarrow> int \<Rightarrow> nat \<Rightarrow> nat \<Rightarrow> nat \<Rightarrow> u8 list \<Rightarrow> mem \<Rightarrow> ifs \<Rightarrow> (mem \<times> ifs \<times> nat option) outcome" where
  "namei sb pid de cwd name path m s = namex sb pid de cwd False path name m s"

definition nameiparent :: "superblock \<Rightarrow> int \<Rightarrow> nat \<Rightarrow> nat \<Rightarrow> u8 list \<Rightarrow> nat \<Rightarrow> mem \<Rightarrow> ifs \<Rightarrow> (mem \<times> ifs \<times> nat option) outcome" where
  "nameiparent sb pid de cwd path name m s = namex sb pid de cwd True path name m s"

declare cstr_numeral [simp del]

section \<open>Directories as maps from names to inode numbers\<close>

text \<open>The entries of a directory, as bytes of a file, and the map they represent: the first entry in use with
  the name counts.\<close>

definition dent_inum :: "mem \<Rightarrow> nat \<Rightarrow> nat" where
  "dent_inum f i = unat (get16 f (16 * i))"

definition dent_is :: "mem \<Rightarrow> u8 list \<Rightarrow> nat \<Rightarrow> bool" where
  "dent_is f w i = (dent_inum f i \<noteq> 0 \<and> cstr f (16 * i + 2) DIRSIZ = w)"

abbreviation dir_bytes :: "inode \<Rightarrow> blocks \<Rightarrow> mem" where
  "dir_bytes dp d \<equiv> fbyte (addrs dp) d"

definition dir_map :: "inode \<Rightarrow> blocks \<Rightarrow> u8 list \<Rightarrow> nat option" where
  "dir_map dp d w = map_option (dent_inum (dir_bytes dp d)) (find (dent_is (dir_bytes dp d) w) [0..<i_size dp div 16])"

definition dir_ok :: "superblock \<Rightarrow> inode \<Rightarrow> blocks \<Rightarrow> bool" where
  "dir_ok sb dp d = (file_ok sb dp d \<and> i_size dp mod 16 = 0)"

text \<open>The name does not overlap the local variable.\<close>

definition apart :: "nat \<Rightarrow> nat \<Rightarrow> bool" where
  "apart de name = (de + 16 \<le> name \<or> name + DIRSIZ \<le> de)"

lemma cstr_shift: "(\<And>i. i < n \<Longrightarrow> m (s + i) = m' (t + i)) \<Longrightarrow> cstr m s n = cstr m' t n"
proof (induction n arbitrary: s t)
  case (Suc n)
  have "m s = m' t" using Suc.prems [of 0] by simp
  moreover have "cstr m (s + 1) n = cstr m' (t + 1) n"
  proof (rule Suc.IH)
    fix i assume "i < n"
    then show "m (s + 1 + i) = m' (t + 1 + i)" using Suc.prems [of "Suc i"] by simp
  qed
  ultimately show ?case by simp
qed simp

lemma get16_shift: "m s = m' t \<Longrightarrow> m (s + 1) = m' (t + 1) \<Longrightarrow> get16 m s = get16 m' t"
  by (simp add: get16_def)

lemma put_entry:
  fixes f m :: mem and k :: nat
  assumes "apart de name"
  defines "m' \<equiv> put_bytes de (map f [16 * k..<16 * k + 16]) m"
  shows "get16 m' de = get16 f (16 * k)" and "cstr m' (de + 2) DIRSIZ = cstr f (16 * k + 2) DIRSIZ"
    and "cstr m' name DIRSIZ = cstr m name DIRSIZ" and "\<forall>a. a < de \<or> de + 16 \<le> a \<longrightarrow> m' a = m a"
proof -
  have b: "m' (de + i) = f (16 * k + i)" if "i < 16" for i
    using that by (simp add: m'_def put_bytes_def)
  show "get16 m' de = get16 f (16 * k)" using b [of 0] b [of 1] by (intro get16_shift) simp_all
  show "cstr m' (de + 2) DIRSIZ = cstr f (16 * k + 2) DIRSIZ"
  proof (rule cstr_shift)
    fix i :: nat assume "i < 14"
    then show "m' (de + 2 + i) = f (16 * k + 2 + i)" using b [of "2 + i"] by (simp add: add.assoc)
  qed
  show o: "\<forall>a. a < de \<or> de + 16 \<le> a \<longrightarrow> m' a = m a" by (auto simp: m'_def put_bytes_def)
  show "cstr m' name DIRSIZ = cstr m name DIRSIZ"
    by (rule cstr_cong) (use o assms(1) in \<open>auto simp: apart_def\<close>)
qed

lemma readi_entry:
  assumes ok: "dir_ok sb dp d" and k: "k < i_size dp div 16"
  shows "readi sb kcopy dp (16 * k) 16 d = Inr (dp, d, 16, map (dir_bytes dp d) [16 * k..<16 * k + 16])"
proof -
  have f: "file_ok sb dp d" and "i_size dp mod 16 = 0" using ok by (simp_all add: dir_ok_def)
  then have le: "16 * k + 16 \<le> i_size dp" using k by auto
  have "i_size dp \<le> MAXFILE * BSIZE" using f unfolding file_ok_def by blast
  then have lt: "16 * k + 16 < 2 ^ 32" using le by simp
  have l: "(if 16 * k \<le> i_size dp then min 16 (i_size dp - 16 * k) else 0) = 16" using le by simp
  show ?thesis using readi_bytes [OF f lt, of kcopy] unfolding l by auto
qed

lemma dirlookup_from_finds:
  assumes ok: "dir_ok sb dp d" and ap: "apart de name" and "k \<le> i_size dp div 16"
  shows "\<exists>m'. dirlookup_from sb de name (16 * k) m dp d
      = Inr (m', dp, d, map_option (\<lambda>i. (dent_inum (dir_bytes dp d) i, 16 * i))
               (find (dent_is (dir_bytes dp d) (cstr m name DIRSIZ)) [k..<i_size dp div 16]))
    \<and> (\<forall>a. a < de \<or> de + 16 \<le> a \<longrightarrow> m' a = m a)"
  using assms(3)
proof (induction "i_size dp div 16 - k" arbitrary: k m)
  case 0
  then have "k = i_size dp div 16" by simp
  moreover have "\<not> 16 * (i_size dp div 16) < i_size dp" using ok by (auto simp: dir_ok_def)
  ultimately show ?case by (subst dirlookup_from.simps) simp
next
  case (Suc n)
  let ?f = "dir_bytes dp d" and ?n = "i_size dp div 16"
  have k: "k < ?n" using Suc.hyps(2) by simp
  let ?m = "put_bytes de (map ?f [16 * k..<16 * k + 16]) m"
  note pe = put_entry [OF ap, of ?f k m]
  have lt: "16 * k < i_size dp" using k by auto
  have nc: "namecmp ?m name (de + 2) = 0 \<longleftrightarrow> cstr ?f (16 * k + 2) DIRSIZ = cstr m name DIRSIZ"
    unfolding namecmp_def strncmp_zero_iff pe by (rule eq_commute)
  have up: "[k..<?n] = k # [k + 1..<?n]" using k by (simp add: upt_conv_Cons)
  have step: "dirlookup_from sb de name (16 * k) m dp d
      = (if dent_is ?f (cstr m name DIRSIZ) k then Inr (?m, dp, d, Some (dent_inum ?f k, 16 * k))
         else dirlookup_from sb de name (16 * k + 16) ?m dp d)"
    using lt readi_entry [OF ok k] nc pe(1)
    by (subst dirlookup_from.simps) (simp add: Let_def dent_is_def dent_inum_def)
  show ?case
  proof (cases "dent_is ?f (cstr m name DIRSIZ) k")
    case True
    then show ?thesis unfolding step up using pe(4) by simp
  next
    case False
    have n: "n = ?n - (k + 1)" "k + 1 \<le> ?n" and e: "16 * (k + 1) = 16 * k + 16" using Suc.hyps(2) k by simp_all
    obtain m' where "dirlookup_from sb de name (16 * k + 16) ?m dp d
        = Inr (m', dp, d, map_option (\<lambda>i. (dent_inum ?f i, 16 * i)) (find (dent_is ?f (cstr m name DIRSIZ)) [k + 1..<?n]))"
      and "\<forall>a. a < de \<or> de + 16 \<le> a \<longrightarrow> m' a = ?m a"
      using Suc.hyps(1) [OF n, of ?m] unfolding e pe(3) by blast
    then show ?thesis unfolding step up using False pe(4) by simp
  qed
qed

definition empty_slot :: "mem \<Rightarrow> nat \<Rightarrow> nat \<Rightarrow> nat" where
  "empty_slot f k n = (case find (\<lambda>i. dent_inum f i = 0) [k..<n] of Some i \<Rightarrow> i | None \<Rightarrow> n)"

lemma find_empty_finds:
  assumes ok: "dir_ok sb dp d" and ap: "apart de name" and "k \<le> i_size dp div 16"
  shows "\<exists>m'. find_empty sb de (16 * k) m dp d = Inr (m', dp, d, 16 * empty_slot (dir_bytes dp d) k (i_size dp div 16))
    \<and> (\<forall>a. a < de \<or> de + 16 \<le> a \<longrightarrow> m' a = m a)"
  using assms(3)
proof (induction "i_size dp div 16 - k" arbitrary: k m)
  case 0
  then have "k = i_size dp div 16" by simp
  moreover have "\<not> 16 * (i_size dp div 16) < i_size dp" using ok by (auto simp: dir_ok_def)
  ultimately show ?case by (subst find_empty.simps) (simp add: empty_slot_def)
next
  case (Suc n)
  let ?f = "dir_bytes dp d" and ?n = "i_size dp div 16"
  have k: "k < ?n" using Suc.hyps(2) by simp
  let ?m = "put_bytes de (map ?f [16 * k..<16 * k + 16]) m"
  note pe = put_entry [OF ap, of ?f k m]
  have lt: "16 * k < i_size dp" using k by auto
  have up: "[k..<?n] = k # [k + 1..<?n]" using k by (simp add: upt_conv_Cons)
  have z: "get16 ?f (16 * k) = 0 \<longleftrightarrow> dent_inum ?f k = 0" by (simp add: dent_inum_def unat_eq_zero)
  have step: "find_empty sb de (16 * k) m dp d
      = (if dent_inum ?f k = 0 then Inr (?m, dp, d, 16 * k) else find_empty sb de (16 * k + 16) ?m dp d)"
    using lt readi_entry [OF ok k] pe(1) z by (subst find_empty.simps) (simp add: Let_def)
  show ?case
  proof (cases "dent_inum ?f k = 0")
    case True
    then show ?thesis unfolding step empty_slot_def up using pe(4) by simp
  next
    case False
    have n: "n = ?n - (k + 1)" "k + 1 \<le> ?n" and e: "16 * (k + 1) = 16 * k + 16" using Suc.hyps(2) k by simp_all
    obtain m' where "find_empty sb de (16 * k + 16) ?m dp d = Inr (m', dp, d, 16 * empty_slot ?f (k + 1) ?n)"
      and "\<forall>a. a < de \<or> de + 16 \<le> a \<longrightarrow> m' a = ?m a"
      using Suc.hyps(1) [OF n, of ?m] unfolding e by blast
    then show ?thesis unfolding step empty_slot_def up using False pe(4) by simp
  qed
qed

lemma written_bytes:
  assumes w: "written sb src ip off n d ip' d'" and off: "off \<le> i_size ip" and i: "i < max (i_size ip) (off + n)"
  shows "fbyte (addrs ip') d' i = (if off \<le> i \<and> i < off + n then src (i - off) else fbyte (addrs ip) d i)"
proof -
  let ?g = "\<lambda>i. if off \<le> i \<and> i < off + n then src (i - off) else fbyte (addrs ip) d i"
  have "ip' = ip\<lparr>addrs := addrs ip', i_size := max (i_size ip) (off + n)\<rparr>" using w unfolding written_def by blast
  then have size: "i_size ip' = max (i_size ip) (off + n)" by (metis inode.select_convs(11) inode.surjective inode.update_convs(11))
  have "file_bytes ip' d' = overwrite off (map src [0..<n]) (file_bytes ip d)" using w unfolding written_def by blast
  also have "\<dots> = map ?g [0..<max (i_size ip) (off + n)]"
    unfolding file_bytes_def by (rule overwrite_map [OF off]) simp
  finally have "map (fbyte (addrs ip') d') [0..<max (i_size ip) (off + n)] = map ?g [0..<max (i_size ip) (off + n)]"
    by (simp add: file_bytes_def size)
  then have "\<forall>i \<in> {0..<max (i_size ip) (off + n)}. fbyte (addrs ip') d' i = ?g i" by (simp only: map_eq_conv set_upt)
  then show ?thesis using i by (meson atLeastLessThan_iff zero_le)
qed

lemma new_entry:
  fixes m :: mem
  assumes "apart de name" and "inum < 65536"
  defines "m' \<equiv> put16 de (of_nat inum) (strncpy m (de + 2) name (int DIRSIZ))"
  shows "unat (get16 m' de) = inum" and "cstr m' (de + 2) DIRSIZ = cstr m name DIRSIZ"
proof -
  show "unat (get16 m' de) = inum" using assms(2) by (simp add: m'_def unat_of_nat)
  have "\<forall>i < DIRSIZ. \<forall>j \<le> i. de + 2 + j \<noteq> name + i" using assms(1) by (auto simp: apart_def)
  note fld = strncpy_field [OF this, of m]
  have "cstr m' (de + 2) DIRSIZ = cstr (strncpy m (de + 2) name (int DIRSIZ)) (de + 2) DIRSIZ"
    by (rule cstr_cong) (simp add: m'_def put16_outside)
  also have "\<dots> = cstr m name DIRSIZ" by (rule field_cstr [OF fld cstr_nonzero])
  finally show "cstr m' (de + 2) DIRSIZ = cstr m name DIRSIZ" .
qed

lemma empty_slot_props:
  fixes f :: mem and n :: nat
  defines "e \<equiv> empty_slot f 0 n"
  shows "e \<le> n" and "e < n \<Longrightarrow> dent_inum f e = 0"
proof -
  have "e \<le> n \<and> (e < n \<longrightarrow> dent_inum f e = 0)"
  proof (cases "find (\<lambda>i. dent_inum f i = 0) [0..<n]")
    case None
    then show ?thesis by (simp add: e_def empty_slot_def)
  next
    case (Some i)
    then have "i < n" "dent_inum f i = 0" by (auto simp: find_Some_iff)
    then show ?thesis using Some by (simp add: e_def empty_slot_def)
  qed
  then show "e \<le> n" "e < n \<Longrightarrow> dent_inum f e = 0" by blast+
qed

lemma find_append: "find P (xs @ ys) = (case find P xs of None \<Rightarrow> find P ys | Some x \<Rightarrow> Some x)"
  by (induction xs) simp_all

lemma entry_less: "i < q \<Longrightarrow> j < 16 \<Longrightarrow> 16 * i + j < 16 * (q :: nat)"
  by linarith

lemma find_upt_same:
  assumes "e \<le> n" and "\<And>i. i < max n (e + 1) \<Longrightarrow> i \<noteq> e \<Longrightarrow> P' i = P i" and "\<not> P' e" and "e < n \<Longrightarrow> \<not> P e"
  shows "find P' [0..<max n (e + 1)] = find P [0..<n]"
proof (cases "e = n")
  case True
  have "find P' [0..<n] = find P [0..<n]" by (rule find_cong) (use assms(2) True in auto)
  then show ?thesis using True assms(3) by (simp add: find_append split: option.splits)
next
  case False
  then have mx: "max n (e + 1) = n" using assms(1) by simp
  have "P' i = P i" if "i < n" for i using assms(2-4) that mx False assms(1) by (cases "i = e") auto
  then show ?thesis unfolding mx by (intro find_cong) simp_all
qed

lemma find_upt_new:
  assumes "e \<le> n" and "\<And>i. i < max n (e + 1) \<Longrightarrow> i \<noteq> e \<Longrightarrow> \<not> P' i" and "P' e"
  shows "find P' [0..<max n (e + 1)] = Some e"
  unfolding find_Some_iff
  by (rule exI [of _ e]) (use assms in \<open>auto simp: nth_append\<close>)

lemma dir_map_add:
  assumes ok: "dir_ok sb dp d" and w: "written sb src dp (16 * e) 16 d dp' d'"
    and e: "e \<le> i_size dp div 16" "e < i_size dp div 16 \<Longrightarrow> dent_inum (dir_bytes dp d) e = 0"
    and src: "unat (get16 src 0) = inum" "inum \<noteq> 0" "cstr src 2 DIRSIZ = nm" and absent: "dir_map dp d nm = None"
  shows "dir_ok sb dp' d'" and "dir_map dp' d' = (dir_map dp d)(nm \<mapsto> inum)"
proof -
  let ?f = "dir_bytes dp d" and ?g = "dir_bytes dp' d'" and ?n = "i_size dp div 16"
  have "dp' = dp\<lparr>addrs := addrs dp', i_size := max (i_size dp) (16 * e + 16)\<rparr>" using w unfolding written_def by blast
  then have size: "i_size dp' = max (i_size dp) (16 * e + 16)" by (metis inode.select_convs(11) inode.surjective inode.update_convs(11))
  have sz: "i_size dp = 16 * ?n" using ok by (auto simp: dir_ok_def)
  then have size16: "i_size dp' = 16 * max ?n (e + 1)" unfolding size by (simp add: nat_mult_max_right)
  show "dir_ok sb dp' d'" using w size16 by (simp add: dir_ok_def written_def)
  have off: "16 * e \<le> i_size dp" using e(1) sz by simp
  have bytes: "?g i = (if 16 * e \<le> i \<and> i < 16 * e + 16 then src (i - 16 * e) else ?f i)" if "i < 16 * max ?n (e + 1)" for i
    using written_bytes [OF w off, of i] that size16 size by simp
  have same: "dent_inum ?g i = dent_inum ?f i \<and> dent_is ?g nm' i = dent_is ?f nm' i" if i: "i < max ?n (e + 1)" "i \<noteq> e" for i nm'
  proof -
    have b: "?g (16 * i + j) = ?f (16 * i + j)" if "j < 16" for j
      using bytes [OF entry_less [OF i(1) that]] i(2) that by auto
    have "get16 ?g (16 * i) = get16 ?f (16 * i)" using b [of 0] b [of 1] by (intro get16_shift) simp_all
    moreover have "cstr ?g (16 * i + 2) DIRSIZ = cstr ?f (16 * i + 2) DIRSIZ"
      by (rule cstr_shift) (use b [of "2 + _"] in \<open>simp add: add.assoc\<close>)
    ultimately show ?thesis by (simp add: dent_is_def dent_inum_def)
  qed
  have new: "?g (16 * e + j) = src j" if "j < 16" for j
    using bytes [OF entry_less [OF _ that], of e] by (simp add: that)
  have "get16 ?g (16 * e) = get16 src 0" using new [of 0] new [of 1] by (intro get16_shift) simp_all
  then have gi: "dent_inum ?g e = inum" using src(1) by (simp add: dent_inum_def)
  have "cstr ?g (16 * e + 2) DIRSIZ = cstr src 2 DIRSIZ"
    by (rule cstr_shift) (use new [of "2 + _"] in \<open>simp add: add.assoc\<close>)
  then have isn: "dent_is ?g nm' e \<longleftrightarrow> nm' = nm" for nm' using gi src by (auto simp: dent_is_def)
  have n': "i_size dp' div 16 = max ?n (e + 1)" using size16 by simp
  show "dir_map dp' d' = (dir_map dp d)(nm \<mapsto> inum)"
  proof
    fix nm'
    show "dir_map dp' d' nm' = ((dir_map dp d)(nm \<mapsto> inum)) nm'"
    proof (cases "nm' = nm")
      case True
      have "\<not> dent_is ?f nm i" if "i < ?n" for i using absent that by (simp add: dir_map_def find_None_iff)
      then have "\<not> dent_is ?g nm i" if "i < max ?n (e + 1)" "i \<noteq> e" for i
      proof -
        have "i < ?n" using that e(1) by linarith
        then show ?thesis using same [OF that, of nm] \<open>\<And>i. i < ?n \<Longrightarrow> \<not> dent_is ?f nm i\<close> by blast
      qed
      then have "find (dent_is ?g nm) [0..<max ?n (e + 1)] = Some e"
        by (intro find_upt_new [OF e(1)]) (simp_all add: isn)
      then show ?thesis using True gi by (simp add: dir_map_def n')
    next
      case False
      have fs: "find (dent_is ?g nm') [0..<max ?n (e + 1)] = find (dent_is ?f nm') [0..<?n]"
      proof (rule find_upt_same [OF e(1)])
        show "dent_is ?g nm' i = dent_is ?f nm' i" if "i < max ?n (e + 1)" "i \<noteq> e" for i using same [OF that] by blast
        show "\<not> dent_is ?g nm' e" using isn False by blast
        show "\<not> dent_is ?f nm' e" if "e < ?n" using e(2) [OF that] by (simp add: dent_is_def)
      qed
      have "dent_inum ?g i = dent_inum ?f i" if "find (dent_is ?f nm') [0..<?n] = Some i" for i
      proof -
        have "i < ?n" "dent_is ?f nm' i" using that by (auto simp: find_Some_iff)
        moreover have "i \<noteq> e" using calculation e(2) by (auto simp: dent_is_def)
        ultimately show ?thesis using same by simp
      qed
      then show ?thesis using False unfolding dir_map_def n' fs by (cases "find (dent_is ?f nm') [0..<?n]") simp_all
    qed
  qed
qed

lemma add_entry_adds:
  assumes ok: "dir_ok sb dp d" and ap: "apart de name" and inum: "inum \<noteq> 0" "inum < 65536"
    and room: "i_size dp + 16 \<le> MAXFILE * BSIZE" and absent: "dir_map dp d (cstr m name DIRSIZ) = None"
  shows "case add_entry sb de name inum m dp d of
      Inl e \<Rightarrow> e = ''balloc: out of blocks''
    | Inr (m', dp', d') \<Rightarrow> dir_ok sb dp' d' \<and> dir_map dp' d' = (dir_map dp d)(cstr m name DIRSIZ \<mapsto> inum)"
proof -
  let ?f = "dir_bytes dp d" and ?n = "i_size dp div 16"
  define e where "e = empty_slot ?f 0 ?n"
  obtain m1 where fe: "find_empty sb de 0 m dp d = Inr (m1, dp, d, 16 * e)"
    and m1: "\<forall>a. a < de \<or> de + 16 \<le> a \<longrightarrow> m1 a = m a"
    using find_empty_finds [OF ok ap, of 0 m] unfolding e_def by auto
  have nm: "cstr m1 name DIRSIZ = cstr m name DIRSIZ"
    by (rule cstr_cong) (use m1 ap in \<open>auto simp: apart_def\<close>)
  let ?m2 = "put16 de (of_nat inum) (strncpy m1 (de + 2) name (int DIRSIZ))"
  let ?src = "\<lambda>i. ?m2 (de + i)"
  note ne = new_entry [OF ap inum(2), of m1, unfolded nm]
  have src: "unat (get16 ?src 0) = inum" "cstr ?src 2 DIRSIZ = cstr m name DIRSIZ"
  proof -
    have "get16 ?src 0 = get16 ?m2 de" by (rule get16_shift) simp_all
    then show "unat (get16 ?src 0) = inum" using ne(1) by simp
    have "cstr ?src 2 DIRSIZ = cstr ?m2 (de + 2) DIRSIZ" by (rule cstr_shift) (simp add: add.assoc)
    then show "cstr ?src 2 DIRSIZ = cstr m name DIRSIZ" using ne(2) by simp
  qed
  have el: "e \<le> ?n" "e < ?n \<Longrightarrow> dent_inum ?f e = 0" using empty_slot_props [of ?f ?n] by (simp_all add: e_def)
  have f: "file_ok sb dp d" using ok by (simp add: dir_ok_def)
  have "16 * ?n \<le> i_size dp" by simp
  then have off: "16 * e \<le> i_size dp" using el(1) by linarith
  then have rng: "16 * e + 16 \<le> MAXFILE * BSIZE" "(0 :: nat) < 16" using room by linarith+
  note w = writei_written [OF f off rng, of ?src]
  have a: "add_entry sb de name inum m dp d = (case writei sb kcopy ?src dp (16 * e) 16 d of
      Inl e \<Rightarrow> Inl e | Inr (dp, d, r) \<Rightarrow> (if r \<noteq> 16 then Inl ''dirlink'' else Inr (?m2, dp, d)))"
    unfolding add_entry_def fe Let_def sum.case prod.case ..
  show ?thesis
  proof (cases "writei sb kcopy ?src dp (16 * e) 16 d")
    case (Inl x)
    then show ?thesis using w unfolding a by simp
  next
    case (Inr x)
    obtain dp' d' r where x: "x = (dp', d', r)" by (cases x)
    then have r: "r = 16" and wr: "written sb ?src dp (16 * e) 16 d dp' d'" using w Inr by auto
    from dir_map_add [OF ok wr el src(1) inum(1) src(2) absent] show ?thesis unfolding a Inr x using r by simp
  qed
qed

lemma dirlookup_none:
  assumes ok: "dir_ok sb (icache s ! k) (idisk s)" and ty: "i_type (icache s ! k) = T_DIR" and ap: "apart de name"
    and absent: "dir_map (icache s ! k) (idisk s) (cstr m name DIRSIZ) = None"
  shows "\<exists>m'. dirlookup sb de k name m s = Done (m', s, None) \<and> cstr m' name DIRSIZ = cstr m name DIRSIZ"
proof -
  let ?dp = "icache s ! k" and ?nm = "cstr m name DIRSIZ"
  obtain m' where l: "dirlookup_from sb de name 0 m ?dp (idisk s)
      = Inr (m', ?dp, idisk s, map_option (\<lambda>i. (dent_inum (dir_bytes ?dp (idisk s)) i, 16 * i))
          (find (dent_is (dir_bytes ?dp (idisk s)) ?nm) [0..<i_size ?dp div 16]))"
    and o: "\<forall>a. a < de \<or> de + 16 \<le> a \<longrightarrow> m' a = m a"
    using dirlookup_from_finds [OF ok ap, of 0 m] by auto
  have "find (dent_is (dir_bytes ?dp (idisk s)) ?nm) [0..<i_size ?dp div 16] = None" using absent by (simp add: dir_map_def)
  then have "dirlookup sb de k name m s = Done (m', s, None)" using ty l by (simp add: dirlookup_def)
  moreover have "cstr m' name DIRSIZ = ?nm" by (rule cstr_cong) (use o ap in \<open>auto simp: apart_def\<close>)
  ultimately show ?thesis by blast
qed

section \<open>Properties\<close>

text \<open>
  C23: looking a name up in a directory. On a well-formed directory \<open>dirlookup\<close> ends, changes neither the
  directory nor the disk, and returns nothing when the directory has no entry in use with that name, and
  otherwise what \<open>iget\<close> returns for the inode number that the directory gives to the name.
\<close>

theorem dirlookup_finds:
  assumes ok: "dir_ok sb (icache s ! k) (idisk s)" and ty: "i_type (icache s ! k) = T_DIR" and ap: "apart de name"
  shows "\<exists>m'. dirlookup sb de k name m s
    = (case dir_map (icache s ! k) (idisk s) (cstr m name DIRSIZ) of
         None \<Rightarrow> Done (m', s, None)
       | Some inum \<Rightarrow>
           obind (iget (i_dev (icache s ! k)) inum s) (\<lambda>(j, s').
             Done (m', s', Some (j, 16 * the (find (dent_is (dir_bytes (icache s ! k) (idisk s)) (cstr m name DIRSIZ))
               [0..<i_size (icache s ! k) div 16])))))"
proof -
  let ?dp = "icache s ! k"
  let ?P = "dent_is (dir_bytes ?dp (idisk s)) (cstr m name DIRSIZ)"
  obtain m' where l: "dirlookup_from sb de name 0 m ?dp (idisk s)
      = Inr (m', ?dp, idisk s, map_option (\<lambda>i. (dent_inum (dir_bytes ?dp (idisk s)) i, 16 * i)) (find ?P [0..<i_size ?dp div 16]))"
    using dirlookup_from_finds [OF ok ap, of 0 m] by auto
  show ?thesis
    by (rule exI [of _ m'], cases "find ?P [0..<i_size ?dp div 16]")
      (simp_all add: dirlookup_def ty l dir_map_def)
qed

text \<open>
  C14: adding a name to a directory. When the name is not in the directory and there is room, \<open>dirlink\<close>
  returns 0 with the directory extended by exactly that name, and well-formed, or panics because the disk
  is full.
\<close>

theorem dirlink_adds_name:
  assumes k: "k < length (icache s)" and ok: "dir_ok sb (icache s ! k) (idisk s)" and ty: "i_type (icache s ! k) = T_DIR"
    and ap: "apart de name" and inum: "inum \<noteq> 0" "inum < 65536" and room: "i_size (icache s ! k) + 16 \<le> MAXFILE * BSIZE"
    and absent: "dir_map (icache s ! k) (idisk s) (cstr m name DIRSIZ) = None"
  shows "case dirlink sb pid de k name inum m s of
      Done (m', s', r) \<Rightarrow> r = 0 \<and> dir_ok sb (icache s' ! k) (idisk s')
        \<and> dir_map (icache s' ! k) (idisk s') = (dir_map (icache s ! k) (idisk s))(cstr m name DIRSIZ \<mapsto> inum)
    | Panics e \<Rightarrow> e = ''balloc: out of blocks''
    | Sleeps \<Rightarrow> False"
proof -
  obtain m' where l: "dirlookup sb de k name m s = Done (m', s, None)" and nm: "cstr m' name DIRSIZ = cstr m name DIRSIZ"
    using dirlookup_none [OF ok ty ap absent] by blast
  note a = add_entry_adds [OF ok ap inum room, of m', unfolded nm, OF absent]
  show ?thesis
  proof (cases "add_entry sb de name inum m' (icache s ! k) (idisk s)")
    case (Inl e)
    then show ?thesis using a by (simp add: dirlink_def l)
  next
    case (Inr x)
    obtain m2 dp' d' where x: "x = (m2, dp', d')" by (cases x)
    have "dir_ok sb dp' d' \<and> dir_map dp' d' = (dir_map (icache s ! k) (idisk s))(cstr m name DIRSIZ \<mapsto> inum)"
      using a Inr x by simp
    then show ?thesis using k by (simp add: dirlink_def l Inr x)
  qed
qed

text \<open>An empty directory with one unused entry, and the name "a" at address 100.\<close>

definition dir_fs :: ifs where
  "dir_fs = \<lparr>icache = [small_ip\<lparr>i_type := 1, i_size := 16\<rparr>], idisk = small_disk\<rparr>"

definition name_a :: mem where
  "name_a = (\<lambda>_. 0)(100 := 97)"

lemma dir_fs_entry: "icache dir_fs ! 0 = small_ip\<lparr>i_type := 1, i_size := 16\<rparr>" "idisk dir_fs = small_disk"
  by (simp_all add: dir_fs_def)

lemma dir_fs_ok: "dir_ok small_sb (icache dir_fs ! 0) (idisk dir_fs)"
proof -
  have "slot_blk (addrs small_ip) small_disk (leaf q) \<noteq> 0" if "q * BSIZE < 16" for q
  proof -
    have "q = 0" using that by linarith
    then show ?thesis by (simp add: leaf_def small_ip_def)
  qed
  then show ?thesis using small_file by (simp add: dir_ok_def file_ok_def dir_fs_entry)
qed

lemma dir_fs_empty: "dir_map (icache dir_fs ! 0) (idisk dir_fs) w = None"
proof -
  have "dir_bytes (icache dir_fs ! 0) (idisk dir_fs) i = 0" if "i < 16" for i
    using that by (simp add: fbyte_def content_def leaf_def dir_fs_entry) (simp add: small_ip_def small_disk_def)
  then have "get16 (dir_bytes (icache dir_fs ! 0) (idisk dir_fs)) 0 = 0" by (simp add: get16_def)
  then show ?thesis by (simp add: dir_map_def dent_is_def dent_inum_def dir_fs_entry find_None_iff)
qed

lemma name_a_cstr: "cstr name_a 100 DIRSIZ = [97]"
  by (simp add: name_a_def cstr_numeral)

theorem dirlookup_finds_witness:
  "\<exists>m'. dirlookup small_sb 0 0 100 name_a dir_fs = Done (m', dir_fs, None)"
proof -
  have t: "i_type (icache dir_fs ! 0) = T_DIR" "apart 0 100" by (simp_all add: dir_fs_entry apart_def)
  show ?thesis using dirlookup_finds [OF dir_fs_ok t, of name_a] by (simp add: dir_fs_empty)
qed

theorem dirlink_adds_name_witness:
  "case dirlink small_sb 1 0 0 100 7 name_a dir_fs of
     Done (m', s', r) \<Rightarrow> r = 0 \<and> dir_map (icache s' ! 0) (idisk s') [97] = Some 7
   | Panics e \<Rightarrow> e = ''balloc: out of blocks''
   | Sleeps \<Rightarrow> False"
proof -
  have a: "0 < length (icache dir_fs)" "dir_ok small_sb (icache dir_fs ! 0) (idisk dir_fs)" "i_type (icache dir_fs ! 0) = T_DIR"
    "apart 0 100" "(7 :: nat) \<noteq> 0" "(7 :: nat) < 65536" "i_size (icache dir_fs ! 0) + 16 \<le> MAXFILE * BSIZE"
    "dir_map (icache dir_fs ! 0) (idisk dir_fs) (cstr name_a 100 DIRSIZ) = None"
    using dir_fs_ok dir_fs_empty by (simp_all add: dir_fs_entry apart_def) (simp_all add: dir_fs_def)
  show ?thesis using dirlink_adds_name [OF a, of 1] by (auto simp: name_a_cstr split: outcome.splits)
qed

text \<open>The elements of a path: the parts between slashes that are not empty.\<close>

fun path_parts :: "u8 list \<Rightarrow> u8 list \<Rightarrow> u8 list list" where
  "path_parts acc [] = (if acc = [] then [] else [acc])"
| "path_parts acc (c # cs) = (if c = 47 then (if acc = [] then [] else [acc]) @ path_parts [] cs else path_parts (acc @ [c]) cs)"

lemma path_parts_skip: "path_parts [] (skip_slashes p) = path_parts [] p"
  by (induction p) auto

lemma path_parts_elem:
  "path_parts acc p = (if acc @ take (elem_len p) p = [] then [] else [acc @ take (elem_len p) p]) @ path_parts [] (drop (elem_len p) p)"
proof (induction p arbitrary: acc)
  case (Cons c cs)
  show ?case
  proof (cases "c = 47")
    case False
    then show ?thesis using Cons.IH [of "acc @ [c]"] by simp
  qed simp
qed simp

text \<open>
  \<open>skipelem\<close> takes a path apart. It returns nothing exactly when the path has no element; otherwise the
  name is the first element, cut to 14 bytes, the rest of the path has the remaining elements and starts
  with no slash.
\<close>

theorem skipelem_parts:
  "case skipelem path of
     None \<Rightarrow> path_parts [] path = []
   | Some (rest, name) \<Rightarrow> (\<exists>e. path_parts [] path = e # path_parts [] rest \<and> e \<noteq> [] \<and> name = take 14 e
       \<and> 47 \<notin> set e) \<and> skip_slashes rest = rest"
proof -
  let ?p = "skip_slashes path"
  show ?thesis
  proof (cases "?p = []")
    case True
    then show ?thesis using path_parts_skip [of path] by (simp add: skipelem_def)
  next
    case False
    let ?e = "take (elem_len ?p) ?p" and ?r = "skip_slashes (drop (elem_len ?p) ?p)"
    obtain c cs where p: "?p = c # cs" using False by (cases ?p) auto
    have "c \<noteq> 47" by (rule skip_slashes_head [OF p])
    then have ne: "?e \<noteq> []" unfolding p by simp
    have parts: "path_parts [] path = ?e # path_parts [] ?r"
      using path_parts_elem [of "[]" ?p] ne by (simp add: path_parts_skip)
    have "47 \<notin> set (take (elem_len q) q)" for q by (induction q) auto
    moreover have "skip_slashes (skip_slashes q) = skip_slashes q" for q by (induction q) auto
    moreover have "skipelem path = Some (?r, take 14 ?e)"
      using False by (simp add: skipelem_def Let_def min_def)
    ultimately show ?thesis using parts ne by simp
  qed
qed

end
