(* ===== verification/File.thy ===== *)
theory File
  imports Icache Pipe Log
begin

text \<open>
  Open files, \<open>src/kernel/filesystem/file.c\<close>, and \<open>pipealloc\<close> of \<open>src/kernel/proc/pipe.c\<close>: the table of
  open files over the pipes and the cache of inodes. A pointer to an open file is an index in the table, a
  pointer to a pipe the page it is in, which is \<open>None\<close> once it is freed. The state of the log is that of the
  theory of the log; here the calls of \<open>begin_op\<close> and \<open>end_op\<close> are counted. The calls through \<open>devsw\<close> and
  to the sockets go to the drivers: their results are arguments.
\<close>

section \<open>Operations\<close>

abbreviation NFILE :: nat where "NFILE \<equiv> 100"

abbreviation NDEV :: int where "NDEV \<equiv> 10"

datatype fdtype = FD_NONE | FD_PIPE | FD_INODE | FD_DEVICE | FD_SOCK

record kfile =
  f_type :: fdtype
  f_ref :: int
  f_readable :: bool
  f_writable :: bool
  f_pipe :: nat
  f_ip :: nat
  f_sock :: nat
  f_off :: nat
  f_major :: int
  f_lock :: int

record fsys =
  ftable :: "kfile list"
  pipes :: "nat \<Rightarrow> pipe option"
  inodes :: ifs
  ops :: int
  sockets_closed :: "nat list"

text \<open>The functions of the drivers and of the sockets: \<open>None\<close> is a null pointer in \<open>devsw\<close>.\<close>

record drivers =
  dev_read :: "int \<Rightarrow> (int \<Rightarrow> int) option"
  dev_write :: "int \<Rightarrow> (int \<Rightarrow> int) option"
  sockread :: "nat \<Rightarrow> int \<Rightarrow> int"
  sockwrite :: "nat \<Rightarrow> int \<Rightarrow> int"

definition upd_file :: "nat \<Rightarrow> (kfile \<Rightarrow> kfile) \<Rightarrow> fsys \<Rightarrow> fsys" where
  "upd_file k g s = s\<lparr>ftable := (ftable s)[k := g (ftable s ! k)]\<rparr>"

definition file0 :: kfile where
  "file0 = \<lparr>f_type = FD_NONE, f_ref = 0, f_readable = False, f_writable = False, f_pipe = 0, f_ip = 0, f_sock = 0,
     f_off = 0, f_major = 0, f_lock = 0\<rparr>"

text \<open>The table of the running kernel before the first call, over an initialised cache of inodes.\<close>

definition fileinit :: "ifs \<Rightarrow> fsys" where
  "fileinit i = \<lparr>ftable = replicate NFILE file0, pipes = (\<lambda>_. None), inodes = i, ops = 0, sockets_closed = []\<rparr>"

definition op_begin :: "fsys \<Rightarrow> fsys" where
  "op_begin s = s\<lparr>ops := ops s + 1\<rparr>"

definition op_end :: "fsys \<Rightarrow> fsys" where
  "op_end s = s\<lparr>ops := ops s - 1\<rparr>"

text \<open>A call on the cache of inodes.\<close>

definition on_inodes :: "(ifs \<Rightarrow> ifs outcome) \<Rightarrow> fsys \<Rightarrow> fsys outcome" where
  "on_inodes g s = obind (g (inodes s)) (\<lambda>i. Done (s\<lparr>inodes := i\<rparr>))"

definition filealloc :: "fsys \<Rightarrow> fsys \<times> nat option" where
  "filealloc s =
     (case find_slot (\<lambda>f. f_ref f = 0) (ftable s) of
        Some k \<Rightarrow> (upd_file k (\<lambda>f. f\<lparr>f_ref := 1\<rparr>) s, Some k)
      | None \<Rightarrow> (s, None))"

definition filedup :: "nat \<Rightarrow> fsys \<Rightarrow> fsys outcome" where
  "filedup k s =
     (if f_ref (ftable s ! k) < 1 then Panics ''filedup''
      else Done (upd_file k (\<lambda>f. f\<lparr>f_ref := f_ref f + 1\<rparr>) s))"

text \<open>\<open>pipeclose\<close> with its \<open>kfree\<close> of the page of the pipe.\<close>

definition close_pipe :: "nat \<Rightarrow> bool \<Rightarrow> fsys \<Rightarrow> fsys outcome" where
  "close_pipe pg writable s =
     (case pipes s pg of
        None \<Rightarrow> Panics ''use of a freed pipe''
      | Some pi \<Rightarrow>
          (case pipeclose pi writable of
             (pi', woken, freed) \<Rightarrow> Done (s\<lparr>pipes := (pipes s)(pg := if freed then None else Some pi')\<rparr>)))"

definition fileclose :: "superblock \<Rightarrow> int \<Rightarrow> nat \<Rightarrow> fsys \<Rightarrow> fsys outcome" where
  "fileclose sb pid k s =
     (if f_ref (ftable s ! k) < 1 then Panics ''fileclose''
      else let s1 = upd_file k (\<lambda>f. f\<lparr>f_ref := f_ref f - 1\<rparr>) s;
               ff = ftable s ! k
           in if f_ref ff - 1 > 0 then Done s1
              else let s2 = upd_file k (\<lambda>f. f\<lparr>f_ref := 0, f_type := FD_NONE\<rparr>) s1
                   in (case f_type ff of
                         FD_PIPE \<Rightarrow> close_pipe (f_pipe ff) (f_writable ff) s2
                       | FD_INODE \<Rightarrow> obind (on_inodes (iput sb pid (f_ip ff)) (op_begin s2)) (\<lambda>s. Done (op_end s))
                       | FD_DEVICE \<Rightarrow> obind (on_inodes (iput sb pid (f_ip ff)) (op_begin s2)) (\<lambda>s. Done (op_end s))
                       | FD_SOCK \<Rightarrow> Done (s2\<lparr>sockets_closed := f_sock ff # sockets_closed s2\<rparr>)
                       | FD_NONE \<Rightarrow> Done s2))"

text \<open>The result of \<open>copyout\<close> is an argument; the structure it copies is part of the result.\<close>

definition filestat :: "superblock \<Rightarrow> int \<Rightarrow> bool \<Rightarrow> nat \<Rightarrow> fsys \<Rightarrow> (fsys \<times> stat option \<times> int) outcome" where
  "filestat sb pid copied k s =
     (let f = ftable s ! k
      in if f_type f = FD_INODE \<or> f_type f = FD_DEVICE
         then obind (on_inodes (ilock sb pid (f_ip f)) s) (\<lambda>s1.
              let st = stati (icache (inodes s1) ! f_ip f)
              in obind (on_inodes (iunlock pid (f_ip f)) s1) (\<lambda>s2.
                   Done (s2, Some st, (if copied then 0 else - 1))))
         else Done (s, None, - 1))"

text \<open>An \<open>int\<close> passed as an \<open>uint\<close>.\<close>

definition as_uint :: "int \<Rightarrow> nat" where
  "as_uint n = nat (n mod 2 ^ 32)"

definition set_ip :: "nat \<Rightarrow> inode \<Rightarrow> blocks \<Rightarrow> fsys \<Rightarrow> fsys" where
  "set_ip j ip d s = s\<lparr>inodes := \<lparr>icache = (icache (inodes s))[j := ip], idisk = d\<rparr>\<rparr>"

definition advance :: "nat \<Rightarrow> int \<Rightarrow> fsys \<Rightarrow> fsys" where
  "advance k r s = (if r > 0 then upd_file k (\<lambda>f. f\<lparr>f_off := (f_off f + nat r) mod 2 ^ 32\<rparr>) s else s)"

text \<open>The bytes delivered to the caller are part of the result. A call on a pipe runs up to its end or to its next
  \<open>sleep\<close>.\<close>

definition fileread :: "drivers \<Rightarrow> superblock \<Rightarrow> int \<Rightarrow> bool \<Rightarrow> copier \<Rightarrow> nat \<Rightarrow> int \<Rightarrow> fsys
    \<Rightarrow> (fsys \<times> u8 list \<times> pres) outcome" where
  "fileread dv sb pid killed cp k n s =
     (let f = ftable s ! k
      in if \<not> f_readable f then Done (s, [], Ret (- 1))
         else (case f_type f of
                 FD_PIPE \<Rightarrow>
                   (case pipes s (f_pipe f) of
                      None \<Rightarrow> Panics ''use of a freed pipe''
                    | Some pi \<Rightarrow>
                        (case piperead pi (\<lambda>i. cp i 1 = 1) killed n of
                           (pi', woken, out, r) \<Rightarrow> Done (s\<lparr>pipes := (pipes s)(f_pipe f \<mapsto> pi')\<rparr>, out, r)))
               | FD_DEVICE \<Rightarrow>
                   (if f_major f < 0 \<or> f_major f \<ge> NDEV then Done (s, [], Ret (- 1))
                    else (case dev_read dv (f_major f) of
                            None \<Rightarrow> Done (s, [], Ret (- 1))
                          | Some g \<Rightarrow> Done (s, [], Ret (g n))))
               | FD_INODE \<Rightarrow>
                   obind (on_inodes (ilock sb pid (f_ip f)) s) (\<lambda>s.
                     let ip = icache (inodes s) ! f_ip f
                     in if i_mode ip AND 1 = 0
                        then obind (on_inodes (iunlock pid (f_ip f)) s) (\<lambda>s. Done (s, [], Ret (- 1)))
                        else (case readi sb cp ip (f_off f) (as_uint n) (idisk (inodes s)) of
                                Inl e \<Rightarrow> Panics e
                              | Inr (ip, d, r, out) \<Rightarrow>
                                  obind (on_inodes (iunlock pid (f_ip f)) (advance k (int r) (set_ip (f_ip f) ip d s)))
                                    (\<lambda>s. Done (s, out, Ret (int r)))))
               | FD_SOCK \<Rightarrow> Done (s, [], Ret (sockread dv (f_sock f) n))
               | FD_NONE \<Rightarrow> Panics ''fileread''))"

text \<open>The size of the pieces a write to an inode is cut into.\<close>

definition FILEMAX :: int where
  "FILEMAX = int (((MAXOPBLOCKS - 1 - 1 - 2) div 2) * BSIZE)"

text \<open>One transaction of a write: \<open>None\<close> when the inode may not be written.\<close>

definition filewrite_piece :: "superblock \<Rightarrow> int \<Rightarrow> copier \<Rightarrow> (nat \<Rightarrow> u8) \<Rightarrow> nat \<Rightarrow> nat \<Rightarrow> fsys
    \<Rightarrow> (fsys \<times> int option) outcome" where
  "filewrite_piece sb pid cp src k n1 s =
     (let f = ftable s ! k
      in obind (on_inodes (ilock sb pid (f_ip f)) (op_begin s)) (\<lambda>s.
           let ip = icache (inodes s) ! f_ip f
           in if i_mode ip AND 2 = 0
              then obind (on_inodes (iunlock pid (f_ip f)) s) (\<lambda>s. Done (op_end s, None))
              else (case writei sb cp src ip (f_off f) n1 (idisk (inodes s)) of
                      Inl e \<Rightarrow> Panics e
                    | Inr (ip, d, r) \<Rightarrow>
                        obind (on_inodes (iunlock pid (f_ip f)) (advance k r (set_ip (f_ip f) ip d s)))
                          (\<lambda>s. Done (op_end s, Some r)))))"

function filewrite_loop :: "superblock \<Rightarrow> int \<Rightarrow> copier \<Rightarrow> (nat \<Rightarrow> u8) \<Rightarrow> nat \<Rightarrow> int \<Rightarrow> int \<Rightarrow> fsys
    \<Rightarrow> (fsys \<times> int) outcome" where
  "filewrite_loop sb pid cp src k i n s =
     (if i < n
      then (let n1 = min (n - i) FILEMAX
            in (case filewrite_piece sb pid (\<lambda>t. cp (nat i + t)) (\<lambda>t. src (nat i + t)) k (nat n1) s of
                  Panics e \<Rightarrow> Panics e
                | Sleeps \<Rightarrow> Sleeps
                | Done (s, None) \<Rightarrow> Done (s, - 1)
                | Done (s, Some r) \<Rightarrow>
                    (if r < 0 then Done (s, (if i = n then n else - 1))
                     else if r \<noteq> n1 then Panics ''short filewrite''
                     else filewrite_loop sb pid cp src k (i + r) n s)))
      else Done (s, (if i = n then n else - 1)))"
  by pat_completeness auto
termination
  by (relation "measure (\<lambda>(sb, pid, cp, src, k, i, n, s). nat (n - i))") (auto simp: FILEMAX_def)

declare filewrite_loop.simps [simp del]

text \<open>A write to a pipe goes on at byte \<open>i0\<close> after a \<open>sleep\<close>; \<open>i0\<close> is 0 at the start of the call.\<close>

definition filewrite :: "drivers \<Rightarrow> superblock \<Rightarrow> int \<Rightarrow> bool \<Rightarrow> copier \<Rightarrow> (nat \<Rightarrow> u8) \<Rightarrow> nat \<Rightarrow> nat \<Rightarrow> int \<Rightarrow> fsys
    \<Rightarrow> (fsys \<times> pres) outcome" where
  "filewrite dv sb pid killed cp src i0 k n s =
     (let f = ftable s ! k
      in if \<not> f_writable f then Done (s, Ret (- 1))
         else (case f_type f of
                 FD_PIPE \<Rightarrow>
                   (case pipes s (f_pipe f) of
                      None \<Rightarrow> Panics ''use of a freed pipe''
                    | Some pi \<Rightarrow>
                        (case pipewrite pi (\<lambda>i. if cp i 1 = 1 then Some (src i) else None) killed i0 n of
                           (pi', woken, r) \<Rightarrow> Done (s\<lparr>pipes := (pipes s)(f_pipe f \<mapsto> pi')\<rparr>, r)))
               | FD_DEVICE \<Rightarrow>
                   (if f_major f < 0 \<or> f_major f \<ge> NDEV then Done (s, Ret (- 1))
                    else (case dev_write dv (f_major f) of
                            None \<Rightarrow> Done (s, Ret (- 1))
                          | Some g \<Rightarrow> Done (s, Ret (g n))))
               | FD_INODE \<Rightarrow> obind (filewrite_loop sb pid cp src k 0 n s) (\<lambda>(s, r). Done (s, Ret r))
               | FD_SOCK \<Rightarrow> Done (s, Ret (sockwrite dv (f_sock f) n))
               | FD_NONE \<Rightarrow> Panics ''filewrite''))"

text \<open>\<open>kalloc\<close> gives the page of a new pipe and its bytes, or none. The result is the two files.\<close>

definition pipealloc :: "superblock \<Rightarrow> int \<Rightarrow> (nat \<times> u8 list) option \<Rightarrow> fsys \<Rightarrow> (fsys \<times> (nat \<times> nat) option) outcome" where
  "pipealloc sb pid page s =
     (case filealloc s of
        (s, None) \<Rightarrow> Done (s, None)
      | (s, Some f0) \<Rightarrow>
          (case filealloc s of
             (s, None) \<Rightarrow> obind (fileclose sb pid f0 s) (\<lambda>s. Done (s, None))
           | (s, Some f1) \<Rightarrow>
               (case page of
                  None \<Rightarrow> obind (fileclose sb pid f0 s) (\<lambda>s. obind (fileclose sb pid f1 s) (\<lambda>s. Done (s, None)))
                | Some (pg, bytes) \<Rightarrow>
                    let s = s\<lparr>pipes := (pipes s)(pg \<mapsto> pipe_init bytes)\<rparr>;
                        s = upd_file f0 (\<lambda>f. f\<lparr>f_type := FD_PIPE, f_readable := True, f_writable := False, f_pipe := pg\<rparr>) s;
                        s = upd_file f1 (\<lambda>f. f\<lparr>f_type := FD_PIPE, f_readable := False, f_writable := True, f_pipe := pg\<rparr>) s
                    in Done (s, Some (f0, f1)))))"


section \<open>Writing through an open file\<close>

text \<open>An open file on a well-formed inode in the cache that nobody has locked.\<close>

definition open_on :: "superblock \<Rightarrow> nat \<Rightarrow> fsys \<Rightarrow> bool" where
  "open_on sb k s =
     (let j = f_ip (ftable s ! k); ip = icache (inodes s) ! j
      in k < length (ftable s) \<and> f_type (ftable s ! k) = FD_INODE \<and> j < NINODE \<and> length (icache (inodes s)) = NINODE
       \<and> i_ref ip \<ge> 1 \<and> \<not> sl_locked (i_lock ip) \<and> i_valid ip \<and> file_ok sb ip (idisk (inodes s)))"

abbreviation file_ip :: "nat \<Rightarrow> fsys \<Rightarrow> inode" where
  "file_ip k s \<equiv> icache (inodes s) ! f_ip (ftable s ! k)"

abbreviation file_list :: "nat \<Rightarrow> fsys \<Rightarrow> u8 list" where
  "file_list k s \<equiv> file_bytes (file_ip k s) (idisk (inodes s))"

text \<open>The blocks of the disk that a write to a file must leave alone.\<close>

definition foreign :: "superblock \<Rightarrow> inode \<Rightarrow> blocks \<Rightarrow> nat \<Rightarrow> bool" where
  "foreign sb ip d c = (c < sb_size sb \<and> blk_used sb d c \<and> c \<notin> bitmap_blocks sb \<and> c \<notin> tree_blocks (addrs ip) d
     \<and> c \<noteq> IBLOCK (i_inum ip) sb)"

definition file_written :: "superblock \<Rightarrow> (nat \<Rightarrow> u8) \<Rightarrow> nat \<Rightarrow> nat \<Rightarrow> fsys \<Rightarrow> fsys \<Rightarrow> bool" where
  "file_written sb src n k s s' =
     (let f = ftable s ! k; ip = file_ip k s; ip' = file_ip k s'
      in open_on sb k s'
       \<and> file_list k s' = overwrite (f_off f) (map src [0..<n]) (file_list k s)
       \<and> ip' = ip\<lparr>addrs := addrs ip', i_size := max (i_size ip) (f_off f + n), i_lock := i_lock ip'\<rparr>
       \<and> ftable s' = (ftable s)[k := f\<lparr>f_off := f_off f + n\<rparr>]
       \<and> icache (inodes s') = (icache (inodes s))[f_ip f := ip']
       \<and> pipes s' = pipes s \<and> ops s' = ops s \<and> sockets_closed s' = sockets_closed s
       \<and> (\<forall>c. foreign sb ip (idisk (inodes s)) c \<longrightarrow>
            foreign sb ip' (idisk (inodes s')) c \<and> idisk (inodes s') c = idisk (inodes s) c)
       \<and> other_dinodes_kept sb (i_inum ip) (idisk (inodes s)) (idisk (inodes s')))"

lemma overwrite_append:
  assumes "off \<le> length xs"
  shows "overwrite (off + length a) b (overwrite off a xs) = overwrite off (a @ b) xs"
  using assms by (simp add: overwrite_def add.commute add.left_commute)

lemma map_upt_split: "map f [0..<m + n] = map f [0..<m] @ map (\<lambda>t. f (m + t)) [0..<n]"
  by (rule nth_equalityI) (auto simp: nth_append)

lemma file_ok_lock: "file_ok sb (ip\<lparr>i_lock := lk\<rparr>) d = file_ok sb ip d"
  by (simp add: file_ok_def)

lemma file_bytes_lock: "file_bytes (ip\<lparr>i_lock := lk\<rparr>) d = file_bytes ip d"
  by (simp add: file_bytes_def)

lemma file_writtenD:
  assumes "file_written sb src n k s s'"
  shows "open_on sb k s'"
    and "file_list k s' = overwrite (f_off (ftable s ! k)) (map src [0..<n]) (file_list k s)"
    and "file_ip k s' = (file_ip k s)\<lparr>addrs := addrs (file_ip k s'),
           i_size := max (i_size (file_ip k s)) (f_off (ftable s ! k) + n), i_lock := i_lock (file_ip k s')\<rparr>"
    and "ftable s' = (ftable s)[k := (ftable s ! k)\<lparr>f_off := f_off (ftable s ! k) + n\<rparr>]"
    and "icache (inodes s') = (icache (inodes s))[f_ip (ftable s ! k) := file_ip k s']"
    and "pipes s' = pipes s" and "ops s' = ops s" and "sockets_closed s' = sockets_closed s"
    and "foreign sb (file_ip k s) (idisk (inodes s)) c \<Longrightarrow>
           foreign sb (file_ip k s') (idisk (inodes s')) c \<and> idisk (inodes s') c = idisk (inodes s) c"
    and "other_dinodes_kept sb (i_inum (file_ip k s)) (idisk (inodes s)) (idisk (inodes s'))"
  using assms unfolding file_written_def Let_def by blast+

lemma file_writtenI:
  assumes "open_on sb k s'"
    and "file_list k s' = overwrite (f_off (ftable s ! k)) (map src [0..<n]) (file_list k s)"
    and "file_ip k s' = (file_ip k s)\<lparr>addrs := addrs (file_ip k s'),
           i_size := max (i_size (file_ip k s)) (f_off (ftable s ! k) + n), i_lock := i_lock (file_ip k s')\<rparr>"
    and "ftable s' = (ftable s)[k := (ftable s ! k)\<lparr>f_off := f_off (ftable s ! k) + n\<rparr>]"
    and "icache (inodes s') = (icache (inodes s))[f_ip (ftable s ! k) := file_ip k s']"
    and "pipes s' = pipes s" and "ops s' = ops s" and "sockets_closed s' = sockets_closed s"
    and "\<And>c. foreign sb (file_ip k s) (idisk (inodes s)) c \<Longrightarrow>
           foreign sb (file_ip k s') (idisk (inodes s')) c \<and> idisk (inodes s') c = idisk (inodes s) c"
    and "other_dinodes_kept sb (i_inum (file_ip k s)) (idisk (inodes s)) (idisk (inodes s'))"
  shows "file_written sb src n k s s'"
  unfolding file_written_def Let_def by (intro conjI allI impI assms(1-8,10)) (use assms(9) in blast)+

text \<open>The update of the inode, as an equation between records that does not mention the result twice.\<close>

lemma inode_grown_trans:
  assumes "ip1 = ip\<lparr>addrs := as1, i_size := max (i_size ip) a, i_lock := l1\<rparr>"
    and "ip2 = ip1\<lparr>addrs := as2, i_size := max (i_size ip1) b, i_lock := l2\<rparr>" and "a \<le> b"
  shows "ip2 = ip\<lparr>addrs := as2, i_size := max (i_size ip) b, i_lock := l2\<rparr>"
  using assms(3) unfolding assms(2) unfolding assms(1) by (simp add: max_def)

lemma file_written_trans:
  assumes a: "file_written sb src m k s s1" and b: "file_written sb (\<lambda>t. src (m + t)) n k s1 s2"
    and o: "open_on sb k s" and off: "f_off (ftable s ! k) \<le> i_size (file_ip k s)"
  shows "file_written sb src (m + n) k s s2"
proof -
  let ?f = "ftable s ! k"
  note A = file_writtenD [OF a] and B = file_writtenD [OF b]
  have k: "k < length (ftable s)" "f_ip ?f < length (icache (inodes s))" using o by (simp_all add: open_on_def Let_def)
  have f1: "ftable s1 ! k = ?f\<lparr>f_off := f_off ?f + m\<rparr>" unfolding A(4) using k by simp
  then have o1: "f_off (ftable s1 ! k) = f_off ?f + m" and j1: "f_ip (ftable s1 ! k) = f_ip ?f" by simp_all
  have len: "f_off ?f \<le> length (file_list k s)" using off by (simp add: file_bytes_def)
  obtain x where x: "icache (inodes s1) = (icache (inodes s))[f_ip ?f := x]" using A(5) by blast
  show ?thesis
  proof (rule file_writtenI)
    show "file_list k s2 = overwrite (f_off ?f) (map src [0..<m + n]) (file_list k s)"
      unfolding B(2) o1 A(2) map_upt_split using overwrite_append [OF len, of "map src [0..<m]"] by simp
    show "file_ip k s2 = (file_ip k s)\<lparr>addrs := addrs (file_ip k s2), i_size := max (i_size (file_ip k s)) (f_off ?f + (m + n)),
        i_lock := i_lock (file_ip k s2)\<rparr>"
      using inode_grown_trans [OF A(3) B(3) [unfolded o1]] by (simp only: add.assoc le_add1)
    show "ftable s2 = (ftable s)[k := ?f\<lparr>f_off := f_off ?f + (m + n)\<rparr>]"
      unfolding B(4) A(4) using k by (simp add: add.assoc)
    show "icache (inodes s2) = (icache (inodes s))[f_ip ?f := file_ip k s2]"
      using B(5) unfolding j1 x list_update_overwrite .
    fix c assume "foreign sb (file_ip k s) (idisk (inodes s)) c"
    note c = A(9) [OF this]
    show "foreign sb (file_ip k s2) (idisk (inodes s2)) c \<and> idisk (inodes s2) c = idisk (inodes s) c"
      using B(9) [OF conjunct1 [OF c]] unfolding conjunct2 [OF c] .
  next
    have "i_inum (file_ip k s1) = i_inum (file_ip k s)" using arg_cong [OF A(3), of i_inum] by simp
    then show "other_dinodes_kept sb (i_inum (file_ip k s)) (idisk (inodes s)) (idisk (inodes s2))"
      using kept_trans [OF A(10)] B(10) by simp
  qed (simp_all only: A(6-8) B(1,6-8))
qed

text \<open>One transaction.\<close>

lemma filewrite_piece_writes:
  assumes o: "open_on sb k s" and mode: "i_mode (file_ip k s) AND 2 \<noteq> 0"
    and off: "f_off (ftable s ! k) \<le> i_size (file_ip k s)" "f_off (ftable s ! k) + n \<le> MAXFILE * BSIZE" "n > 0"
  shows "case filewrite_piece sb pid (\<lambda>_ m. m) src k n s of
      Done (s', r) \<Rightarrow> r = Some (int n) \<and> file_written sb src n k s s'
    | Panics e \<Rightarrow> e = ''balloc: out of blocks''
    | Sleeps \<Rightarrow> False"
proof -
  let ?f = "ftable s ! k" let ?j = "f_ip ?f" let ?ip = "file_ip k s" let ?i = "inodes s"
  let ?lp = "?ip\<lparr>i_lock := (i_lock ?ip)\<lparr>sl_locked := True, sl_pid := pid\<rparr>\<rparr>"
  have b: "k < length (ftable s)" "?j < NINODE" "length (icache ?i) = NINODE" "i_ref ?ip \<ge> 1" "\<not> sl_locked (i_lock ?ip)"
    "i_valid ?ip" "file_ok sb ?ip (idisk ?i)" "f_type ?f = FD_INODE" using o by (simp_all add: open_on_def Let_def)
  have l: "on_inodes (ilock sb pid ?j) (op_begin s) = Done (s\<lparr>inodes := ?i\<lparr>icache := (icache ?i)[?j := ?lp]\<rparr>, ops := ops s + 1\<rparr>)"
    using b by (simp add: on_inodes_def ilock_def op_begin_def acquiresleep_def Let_def)
  have ok: "file_ok sb ?lp (idisk ?i)" and off': "f_off ?f \<le> i_size ?lp" using b(7) off(1) by (simp_all add: file_ok_lock)
  note w = writei_written [OF ok off' off(2,3), of src]
  show ?thesis
  proof (cases "writei sb (\<lambda>_ m. m) src ?lp (f_off ?f) n (idisk ?i)")
    case (Inl e)
    then show ?thesis using w l b mode by (simp add: filewrite_piece_def Let_def)
  next
    case (Inr x)
    obtain ip' d' r where x: "x = (ip', d', r)" by (cases x)
    have r: "r = int n" and wr: "written sb src ?lp (f_off ?f) n (idisk ?i) ip' d'" using w Inr x by auto
    have ip': "ip' = ?lp\<lparr>addrs := addrs ip', i_size := max (i_size ?ip) (f_off ?f + n)\<rparr>" using wr by (simp add: written_def)
    have lk: "i_lock ip' = (i_lock ?ip)\<lparr>sl_locked := True, sl_pid := pid\<rparr>" "i_ref ip' = i_ref ?ip" "i_valid ip'" "i_inum ip' = i_inum ?ip"
      using b(6) arg_cong [OF ip', of i_lock] arg_cong [OF ip', of i_ref] arg_cong [OF ip', of i_valid] arg_cong [OF ip', of i_inum]
      by simp_all
    let ?up = "ip'\<lparr>i_lock := releasesleep (i_lock ip')\<rparr>"
    let ?s' = "s\<lparr>ftable := (ftable s)[k := ?f\<lparr>f_off := f_off ?f + n\<rparr>], inodes := \<lparr>icache = (icache ?i)[?j := ?up], idisk = d'\<rparr>\<rparr>"
    have run: "filewrite_piece sb pid (\<lambda>_ m. m) src k n s = Done (?s', Some (int n))"
      using l b mode Inr x r off lk
      by (simp add: filewrite_piece_def Let_def on_inodes_def iunlock_def advance_def set_ip_def upd_ip_def upd_file_def op_end_def
          holdingsleep_def fsys.equality ifs.equality)
    have ipu: "?up = ?ip\<lparr>addrs := addrs ip', i_size := max (i_size ?ip) (f_off ?f + n), i_lock := releasesleep (i_lock ip')\<rparr>"
      by (subst ip') simp
    have "open_on sb k ?s'" using b wr lk by (simp add: open_on_def Let_def written_def file_ok_lock releasesleep_def)
    moreover have "\<forall>c. foreign sb ?ip (idisk ?i) c \<longrightarrow> foreign sb ?up d' c \<and> d' c = idisk ?i c"
      using wr lk(4) by (simp add: written_def foreign_def)
    moreover have "file_bytes ?up d' = overwrite (f_off ?f) (map src [0..<n]) (file_bytes ?ip (idisk ?i))"
      using wr by (simp add: written_def file_bytes_lock)
    moreover have "other_dinodes_kept sb (i_inum ?ip) (idisk ?i) d'" using wr by (simp add: written_def)
    ultimately have "file_written sb src n k s ?s'"
      using b by (intro file_writtenI) (simp_all add: ipu [symmetric])
    then show ?thesis using run by simp
  qed
qed

lemma file_written_none:
  assumes o: "open_on sb k s" and off: "f_off (ftable s ! k) \<le> i_size (file_ip k s)"
  shows "file_written sb src 0 k s s"
proof (rule file_writtenI [OF o])
  show "file_list k s = overwrite (f_off (ftable s ! k)) (map src [0..<0]) (file_list k s)" by (simp add: overwrite_def)
  have m: "max (i_size (file_ip k s)) (f_off (ftable s ! k) + 0) = i_size (file_ip k s)" using off by simp
  show "file_ip k s = (file_ip k s)\<lparr>addrs := addrs (file_ip k s), i_size := max (i_size (file_ip k s)) (f_off (ftable s ! k) + 0),
      i_lock := i_lock (file_ip k s)\<rparr>"
    unfolding m by simp
qed simp_all

lemma filewrite_loop_writes:
  assumes "open_on sb k s" and "i_mode (file_ip k s) AND 2 \<noteq> 0" and "f_off (ftable s ! k) \<le> i_size (file_ip k s)"
    and "0 \<le> i" "i \<le> n" "f_off (ftable s ! k) + nat (n - i) \<le> MAXFILE * BSIZE"
  shows "case filewrite_loop sb pid (\<lambda>_ m. m) src k i n s of
      Done (s', r) \<Rightarrow> r = n \<and> file_written sb (\<lambda>t. src (nat i + t)) (nat (n - i)) k s s'
    | Panics e \<Rightarrow> e = ''balloc: out of blocks''
    | Sleeps \<Rightarrow> False"
  using assms
proof (induction "nat (n - i)" arbitrary: i s rule: less_induct)
  case less
  let ?f = "ftable s ! k" let ?n1 = "min (n - i) FILEMAX" let ?src = "\<lambda>t. src (nat i + t)"
  show ?case
  proof (cases "i < n")
    case False
    then have "i = n" using less.prems(5) by simp
    then show ?thesis using file_written_none [OF less.prems(1,3), of ?src] by (subst filewrite_loop.simps) simp
  next
    case True
    then have n1: "0 < ?n1" "?n1 \<le> n - i" by (simp_all add: FILEMAX_def)
    then have "f_off ?f + nat ?n1 \<le> MAXFILE * BSIZE" "0 < nat ?n1" using less.prems(6) by linarith+
    note p = filewrite_piece_writes [OF less.prems(1-3) this, where pid = pid and src = ?src]
    show ?thesis
    proof (cases "filewrite_piece sb pid (\<lambda>_ m. m) ?src k (nat ?n1) s")
      case (Panics e)
      then show ?thesis using True p by (subst filewrite_loop.simps) (simp add: Let_def)
    next
      case Sleeps
      then show ?thesis using p by simp
    next
      case (Done x)
      obtain s1 r where x: "x = (s1, r)" by (cases x)
      have r: "r = Some ?n1" and w: "file_written sb ?src (nat ?n1) k s s1" using p Done x n1(1) by simp_all
      note W = file_writtenD [OF w]
      have k: "k < length (ftable s)" using less.prems(1) by (simp add: open_on_def Let_def)
      have o1: "f_off (ftable s1 ! k) = f_off ?f + nat ?n1" unfolding W(4) using k by simp
      have sz: "i_size (file_ip k s1) = max (i_size (file_ip k s)) (f_off ?f + nat ?n1)" and md: "i_mode (file_ip k s1) = i_mode (file_ip k s)"
        using arg_cong [OF W(3), of i_size] arg_cong [OF W(3), of i_mode] by simp_all
      have split: "nat (n - i) = nat ?n1 + nat (n - (i + ?n1))" "nat (i + ?n1) = nat i + nat ?n1"
        using n1 less.prems(4) by linarith+
      have ih: "case filewrite_loop sb pid (\<lambda>_ m. m) src k (i + ?n1) n s1 of
          Done (s', r) \<Rightarrow> r = n \<and> file_written sb (\<lambda>t. src (nat (i + ?n1) + t)) (nat (n - (i + ?n1))) k s1 s'
        | Panics e \<Rightarrow> e = ''balloc: out of blocks''
        | Sleeps \<Rightarrow> False"
      proof (rule less.hyps)
        show "nat (n - (i + ?n1)) < nat (n - i)" using n1 by linarith
        show "i_mode (file_ip k s1) AND 2 \<noteq> 0" unfolding md by (rule less.prems(2))
        show "f_off (ftable s1 ! k) \<le> i_size (file_ip k s1)" unfolding o1 sz by simp
        show "f_off (ftable s1 ! k) + nat (n - (i + ?n1)) \<le> MAXFILE * BSIZE" unfolding o1 using less.prems(6) split(1) by linarith
      qed (use W(1) n1 less.prems(4) in linarith)+
      have step: "filewrite_loop sb pid (\<lambda>_ m. m) src k i n s = filewrite_loop sb pid (\<lambda>_ m. m) src k (i + ?n1) n s1"
        using True Done x r n1(1) by (subst filewrite_loop.simps) (simp add: Let_def min_less_iff_disj)
      have "file_written sb ?src (nat (n - i)) k s s'"
        if "file_written sb (\<lambda>t. src (nat (i + ?n1) + t)) (nat (n - (i + ?n1))) k s1 s'" for s'
      proof -
        have "file_written sb (\<lambda>t. ?src (nat ?n1 + t)) (nat (n - (i + ?n1))) k s1 s'" using that unfolding split(2) by (simp add: add.assoc)
        from file_written_trans [OF w this less.prems(1,3)] show ?thesis unfolding split(1) .
      qed
      then show ?thesis using ih unfolding step by (auto split: outcome.splits)
    qed
  qed
qed

section \<open>Reading through an open file\<close>

lemma fileread_inode:
  assumes o: "open_on sb k s" and rd: "f_readable (ftable s ! k)" and mode: "i_mode (file_ip k s) AND 1 \<noteq> 0"
    and n: "f_off (ftable s ! k) + as_uint n < 2 ^ 32"
  shows "\<exists>s'. fileread dv sb pid killed (\<lambda>_ m. m) k n s
      = Done (s', take (as_uint n) (drop (f_off (ftable s ! k)) (file_list k s)),
              Ret (int (length (take (as_uint n) (drop (f_off (ftable s ! k)) (file_list k s))))))
    \<and> open_on sb k s' \<and> file_list k s' = file_list k s \<and> idisk (inodes s') = idisk (inodes s)
    \<and> ftable s' = (ftable s)[k := (ftable s ! k)\<lparr>f_off := f_off (ftable s ! k)
         + length (take (as_uint n) (drop (f_off (ftable s ! k)) (file_list k s)))\<rparr>]"
proof -
  let ?f = "ftable s ! k" let ?j = "f_ip ?f" let ?ip = "file_ip k s" let ?i = "inodes s" let ?n = "as_uint n"
  let ?lp = "?ip\<lparr>i_lock := (i_lock ?ip)\<lparr>sl_locked := True, sl_pid := pid\<rparr>\<rparr>"
  let ?up = "?ip\<lparr>i_lock := releasesleep ((i_lock ?ip)\<lparr>sl_locked := True, sl_pid := pid\<rparr>)\<rparr>"
  let ?out = "take ?n (drop (f_off ?f) (file_list k s))"
  have b: "k < length (ftable s)" "?j < NINODE" "length (icache ?i) = NINODE" "i_ref ?ip \<ge> 1" "\<not> sl_locked (i_lock ?ip)"
    "i_valid ?ip" "file_ok sb ?ip (idisk ?i)" "f_type ?f = FD_INODE" using o by (simp_all add: open_on_def Let_def)
  have l: "on_inodes (ilock sb pid ?j) s = Done (s\<lparr>inodes := ?i\<lparr>icache := (icache ?i)[?j := ?lp]\<rparr>\<rparr>)"
    using b by (simp add: on_inodes_def ilock_def acquiresleep_def Let_def)
  have ok: "file_ok sb ?lp (idisk ?i)" using b(7) by (simp add: file_ok_lock)
  have out: "?out = map (fbyte (addrs ?ip) (idisk ?i)) [f_off ?f..<f_off ?f + (if f_off ?f \<le> i_size ?ip then min ?n (i_size ?ip - f_off ?f) else 0)]"
    unfolding take_drop_bytes by (auto simp: min_def)
  have r: "readi sb (\<lambda>_ m. m) ?lp (f_off ?f) ?n (idisk ?i) = Inr (?lp, idisk ?i, length ?out, ?out)"
    using readi_bytes [OF ok n, of "\<lambda>_ m. m"] unfolding out by auto
  have "length ?out \<le> ?n" by simp
  then have wrap: "(f_off ?f + length ?out) mod 2 ^ 32 = f_off ?f + length ?out" using n by (intro mod_less) linarith
  let ?s' = "s\<lparr>ftable := (ftable s)[k := ?f\<lparr>f_off := f_off ?f + length ?out\<rparr>], inodes := ?i\<lparr>icache := (icache ?i)[?j := ?up]\<rparr>\<rparr>"
  have "fileread dv sb pid killed (\<lambda>_ m. m) k n s = Done (?s', ?out, Ret (int (length ?out)))"
  proof (cases "length ?out = 0")
    case True
    have "(ftable s)[k := ?f\<lparr>f_off := f_off ?f + 0\<rparr>] = ftable s" by simp
    then show ?thesis using l b rd mode r unfolding True
      by (simp add: fileread_def Let_def on_inodes_def iunlock_def advance_def set_ip_def upd_ip_def holdingsleep_def)
  next
    case False
    then show ?thesis using l b rd mode r wrap
      by (simp del: length_take length_drop take_eq_Nil drop_eq_Nil
          add: fileread_def Let_def on_inodes_def iunlock_def advance_def set_ip_def upd_ip_def upd_file_def holdingsleep_def)
  qed
  moreover have "open_on sb k ?s'" using b by (simp add: open_on_def Let_def file_ok_lock releasesleep_def)
  moreover have "file_list k ?s' = file_list k s" using b by (simp add: file_bytes_lock)
  ultimately show ?thesis by (intro exI [of _ ?s']) simp
qed

section \<open>Properties\<close>

text \<open>The small file, open for reading and writing at offset 1 and unlocked.\<close>

definition small_open :: fsys where
  "small_open = (fileinit \<lparr>icache = small_ip\<lparr>i_lock := initsleeplock\<rparr> # replicate 49 inode0, idisk = small_disk\<rparr>)
     \<lparr>ftable := file0\<lparr>f_type := FD_INODE, f_ref := 1, f_readable := True, f_writable := True, f_off := 1\<rparr> # replicate 99 file0\<rparr>"

text \<open>No device driver and no socket.\<close>

definition no_drivers :: drivers where
  "no_drivers = \<lparr>dev_read = (\<lambda>_. None), dev_write = (\<lambda>_. None), sockread = (\<lambda>_ _. - 1), sockwrite = (\<lambda>_ _. - 1)\<rparr>"

lemma small_open_facts:
  "f_off (ftable small_open ! 0) = 1" "file_ip 0 small_open = small_ip\<lparr>i_lock := initsleeplock\<rparr>" "f_writable (ftable small_open ! 0)"
  "f_readable (ftable small_open ! 0)" "idisk (inodes small_open) = small_disk" "0 < length (ftable small_open)"
  by (simp_all add: small_open_def fileinit_def file0_def)

lemma small_open_on: "open_on small_sb 0 small_open"
proof -
  have "file_ok small_sb (file_ip 0 small_open) (idisk (inodes small_open))"
    unfolding small_open_facts file_ok_lock by (rule small_file)
  moreover have "i_ref (file_ip 0 small_open) \<ge> 1" "\<not> sl_locked (i_lock (file_ip 0 small_open))" "i_valid (file_ip 0 small_open)"
    unfolding small_open_facts by (simp_all add: initsleeplock_def small_ip_def)
  ultimately show ?thesis unfolding open_on_def Let_def by (simp add: small_open_def fileinit_def file0_def)
qed

text \<open>
  C4: writing through an open file. However long the data, which \<open>filewrite\<close> cuts into transactions that
  fit in the log, the call either panics because the disk is full or returns the number of bytes, and the
  file is then the old one overwritten at the offset of the open file, as by a single write; the offset
  stands after the data, the inode is unlocked, every transaction is closed, no other open file,
  inode or block in use has changed, and in the block of the inode no byte of another inode has.
\<close>

theorem filewrite_writes:
  assumes "open_on sb k s" and "f_writable (ftable s ! k)" and "i_mode (file_ip k s) AND 2 \<noteq> 0"
    and "f_off (ftable s ! k) \<le> i_size (file_ip k s)" and "f_off (ftable s ! k) + n \<le> MAXFILE * BSIZE"
  shows "case filewrite dv sb pid killed (\<lambda>_ m. m) src i0 k (int n) s of
      Done (s', r) \<Rightarrow> r = Ret (int n) \<and> file_written sb src n k s s'
    | Panics e \<Rightarrow> e = ''balloc: out of blocks''
    | Sleeps \<Rightarrow> False"
proof -
  have "f_type (ftable s ! k) = FD_INODE" using assms(1) by (simp add: open_on_def Let_def)
  moreover have "0 \<le> (0 :: int)" "(0 :: int) \<le> int n" "f_off (ftable s ! k) + nat (int n - 0) \<le> MAXFILE * BSIZE"
    using assms(5) by simp_all
  note filewrite_loop_writes [OF assms(1,3,4) this, where pid = pid and src = src]
  ultimately show ?thesis using assms(2) by (auto simp: filewrite_def Let_def split: outcome.splits)
qed

theorem filewrite_writes_witness:
  "case filewrite no_drivers small_sb 7 False (\<lambda>_ m. m) (\<lambda>_. 9) 0 0 5000 small_open of
     Done (s', r) \<Rightarrow> r = Ret 5000 \<and> file_list 0 s' = 0 # replicate 5000 9 \<and> f_off (ftable s' ! 0) = 5001 \<and> ops s' = 0
   | Panics e \<Rightarrow> e = ''balloc: out of blocks''
   | Sleeps \<Rightarrow> False"
proof -
  have h: "i_mode (file_ip 0 small_open) AND 2 \<noteq> 0" "f_off (ftable small_open ! 0) \<le> i_size (file_ip 0 small_open)"
    "f_off (ftable small_open ! 0) + 5000 \<le> MAXFILE * BSIZE" unfolding small_open_facts by (simp_all add: small_ip_def)
  have b: "file_list 0 small_open = [0, 0, 0]"
    unfolding small_open_facts file_bytes_lock
    by (simp add: file_bytes_def small_sizes fbyte_def content_def leaf_def upt_rec) (simp add: small_ip_def small_disk_def)
  have o: "overwrite 1 (map (\<lambda>_. 9 :: u8) [0..<5000]) [0, 0, 0] = 0 # replicate 5000 9"
    unfolding map_replicate_const by (simp add: overwrite_def)
  have "file_list 0 s' = 0 # replicate 5000 9 \<and> f_off (ftable s' ! 0) = 5001 \<and> ops s' = 0"
    if "file_written small_sb (\<lambda>_. 9) 5000 0 small_open s'" for s'
  proof -
    note W = file_writtenD [OF that]
    have "f_off (ftable s' ! 0) = 5001" unfolding W(4) using small_open_facts(1,6) by simp
    moreover have "ops s' = 0" unfolding W(7) by (simp add: small_open_def fileinit_def)
    ultimately show ?thesis unfolding W(2) b small_open_facts(1) o by simp
  qed
  then show ?thesis
    using filewrite_writes [OF small_open_on small_open_facts(3) h, where dv = no_drivers and pid = 7 and killed = False and src = "\<lambda>_. 9" and ?i0.0 = 0]
    by (auto split: outcome.splits)
qed

text \<open>
  C22: reading through an open file returns and delivers the bytes of the file from the offset on, as many as
  there are up to the number asked for, moves the offset behind them and changes nothing else of the file.
  The count is an \<open>int\<close> that is passed on as an \<open>uint\<close>.
\<close>

theorem fileread_reads:
  assumes "open_on sb k s" and "f_readable (ftable s ! k)" and "i_mode (file_ip k s) AND 1 \<noteq> 0"
    and "0 \<le> n" "int (f_off (ftable s ! k)) + n < 2 ^ 32"
  shows "\<exists>s' out. fileread dv sb pid killed (\<lambda>_ m. m) k n s = Done (s', out, Ret (int (length out)))
    \<and> out = take (nat n) (drop (f_off (ftable s ! k)) (file_list k s))
    \<and> open_on sb k s' \<and> file_list k s' = file_list k s \<and> idisk (inodes s') = idisk (inodes s)
    \<and> ftable s' = (ftable s)[k := (ftable s ! k)\<lparr>f_off := f_off (ftable s ! k) + length out\<rparr>]"
proof -
  have "n mod 2 ^ 32 = n" using assms(4,5) by (intro mod_pos_pos_trivial) linarith+
  then have n: "as_uint n = nat n" by (simp add: as_uint_def)
  then have "f_off (ftable s ! k) + as_uint n < 2 ^ 32" using assms(4,5) by simp
  from fileread_inode [OF assms(1-3) this, of dv pid killed] show ?thesis unfolding n by blast
qed

theorem fileread_reads_witness:
  "\<exists>s'. fileread no_drivers small_sb 7 False (\<lambda>_ m. m) 0 9 small_open = Done (s', [0, 0], Ret 2) \<and> f_off (ftable s' ! 0) = 3"
proof -
  have h: "i_mode (file_ip 0 small_open) AND 1 \<noteq> 0" "(0 :: int) \<le> 9" "int (f_off (ftable small_open ! 0)) + 9 < 2 ^ 32"
    unfolding small_open_facts by (simp_all add: small_ip_def)
  have b: "take (nat 9) (drop 1 (file_list 0 small_open)) = [0, 0]"
    unfolding small_open_facts file_bytes_lock
    by (simp add: file_bytes_def small_sizes fbyte_def content_def leaf_def upt_rec) (simp add: small_ip_def small_disk_def)
  obtain s' where "fileread no_drivers small_sb 7 False (\<lambda>_ m. m) 0 9 small_open = Done (s', [0, 0], Ret (int (length [0 :: u8, 0])))"
    "ftable s' = (ftable small_open)[0 := (ftable small_open ! 0)\<lparr>f_off := 1 + length [0 :: u8, 0]\<rparr>]"
    using fileread_reads [OF small_open_on small_open_facts(4) h, of no_drivers 7 False] unfolding small_open_facts(1) b by auto
  then show ?thesis using small_open_facts(6) by (intro exI [of _ s']) simp
qed

text \<open>
  a negative count is not refused: at offset 0, \<open>read\<close> with a count of \<open>-1\<close> delivers the whole file to the
  buffer of the caller.
\<close>

lemma fileread_negative_count:
  assumes "open_on sb k s" and "f_readable (ftable s ! k)" and "i_mode (file_ip k s) AND 1 \<noteq> 0" and "f_off (ftable s ! k) = 0"
  shows "\<exists>s'. fileread dv sb pid killed (\<lambda>_ m. m) k (- 1) s = Done (s', file_list k s, Ret (int (length (file_list k s))))"
proof -
  have u: "as_uint (- 1) = 2 ^ 32 - 1" by (simp add: as_uint_def)
  then have "f_off (ftable s ! k) + as_uint (- 1) < 2 ^ 32" using assms(4) by simp
  moreover have "i_size (file_ip k s) \<le> as_uint (- 1)"
    using assms(1) by (simp add: u open_on_def Let_def file_ok_def)
  then have "take (as_uint (- 1)) (drop 0 (file_list k s)) = file_list k s" by (simp add: file_bytes_def)
  ultimately show ?thesis using fileread_inode [OF assms(1-3), of "- 1" dv pid killed] unfolding assms(4) by auto
qed

end
