(* ===== verification/Page_Table.thy ===== *)
theory Page_Table
  imports Kernel_Prelude
begin

text \<open>
  Page tables, \<open>src/kernel/mm/vm.c\<close>, and the copy-on-write routines of \<open>src/kernel/mm/kalloc.c\<close>. Page
  tables are trees of pages of 512 entries of 64 bits. The state has the entries of every page-table page,
  the contents of the data pages, the pages that the next calls of \<open>kalloc\<close> return (none when the list is
  empty), the reference counts of the pages and the calls made to the page allocator. The pages are pages
  of the allocator, on which \<open>kfree\<close> and \<open>kaddrefcnt\<close> succeed (\<open>Kalloc\<close>).

  Here \<open>kfree\<close> is the abstraction \<open>kfree_page\<close>: it records the call and lowers the count. It neither fills
  the page with junk nor puts it back on the list of pages that \<open>kalloc\<close> returns, and it does not panic. The effect of
  a call on the allocator, its panics included, is \<open>kfree\<close> of theory \<open>Kalloc\<close>; theorems of this
  theory and of those on it state which pages are freed and how often, by the recorded calls.
\<close>

unbundle bit_operations_syntax

section \<open>Operations\<close>

datatype vmcall = Kfree_page u64 | Kaddrefcnt_page u64

record vmstate =
  pte :: "u64 \<Rightarrow> nat \<Rightarrow> u64"
  page :: "u64 \<Rightarrow> nat \<Rightarrow> u8"
  fresh :: "u64 list"
  refcnt :: "u64 \<Rightarrow> int"
  vmcalls :: "vmcall list"

abbreviation PTE_V :: u64 where "PTE_V \<equiv> 1"
abbreviation PTE_R :: u64 where "PTE_R \<equiv> 2"
abbreviation PTE_W :: u64 where "PTE_W \<equiv> 4"
abbreviation PTE_X :: u64 where "PTE_X \<equiv> 8"
abbreviation PTE_U :: u64 where "PTE_U \<equiv> 16"
abbreviation PTE_F :: u64 where "PTE_F \<equiv> 256"
abbreviation MAXVA :: u64 where "MAXVA \<equiv> 0x4000000000"
abbreviation PGSZ :: u64 where "PGSZ \<equiv> 4096"

definition PA2PTE :: "u64 \<Rightarrow> u64" where
  "PA2PTE pa = push_bit 10 (drop_bit 12 pa)"

definition PTE2PA :: "u64 \<Rightarrow> u64" where
  "PTE2PA e = push_bit 12 (drop_bit 10 e)"

definition PTE_FLAGS :: "u64 \<Rightarrow> u64" where
  "PTE_FLAGS e = e AND 0x3FF"

definition PX :: "nat \<Rightarrow> u64 \<Rightarrow> nat" where
  "PX level va = unat (drop_bit (12 + 9 * level) va AND 0x1FF)"

definition PGROUNDDOWN :: "u64 \<Rightarrow> u64" where
  "PGROUNDDOWN a = a AND NOT 4095"

definition PGROUNDUP :: "u64 \<Rightarrow> u64" where
  "PGROUNDUP a = (a + 4095) AND NOT 4095"

definition set_pte :: "u64 \<Rightarrow> nat \<Rightarrow> u64 \<Rightarrow> vmstate \<Rightarrow> vmstate" where
  "set_pte t k e s = s\<lparr>pte := (pte s)(t := (pte s t)(k := e))\<rparr>"

definition zero_table :: "u64 \<Rightarrow> vmstate \<Rightarrow> vmstate" where
  "zero_table t s = s\<lparr>pte := (pte s)(t := \<lambda>_. 0)\<rparr>"

definition kalloc_page :: "u64 \<Rightarrow> u64 list \<Rightarrow> vmstate \<Rightarrow> vmstate" where
  "kalloc_page p ps s = s\<lparr>fresh := ps, refcnt := (refcnt s)(p := 1)\<rparr>"

definition kfree_page :: "u64 \<Rightarrow> vmstate \<Rightarrow> vmstate" where
  "kfree_page p s = s\<lparr>refcnt := (refcnt s)(p := refcnt s p - 1), vmcalls := vmcalls s @ [Kfree_page p]\<rparr>"

definition kaddref_page :: "u64 \<Rightarrow> vmstate \<Rightarrow> vmstate" where
  "kaddref_page p s = s\<lparr>refcnt := (refcnt s)(p := refcnt s p + 1), vmcalls := vmcalls s @ [Kaddrefcnt_page p]\<rparr>"

text \<open>The loop of \<open>walk\<close> from a level down; the result is the place of the entry, if there is one.\<close>

primrec walk_from :: "nat \<Rightarrow> u64 \<Rightarrow> u64 \<Rightarrow> bool \<Rightarrow> vmstate \<Rightarrow> vmstate \<times> (u64 \<times> nat) option" where
  "walk_from 0 t va alloc s = (s, Some (t, PX 0 va))"
| "walk_from (Suc l) t va alloc s =
     (let e = pte s t (PX (Suc l) va)
      in if e AND PTE_V \<noteq> 0 then walk_from l (PTE2PA e) va alloc s
         else if \<not> alloc then (s, None)
         else (case fresh s of
                 [] \<Rightarrow> (s, None)
               | p # ps \<Rightarrow>
                   walk_from l p va alloc
                     (set_pte t (PX (Suc l) va) (PA2PTE p OR PTE_V) (zero_table p (kalloc_page p ps s)))))"

definition walk :: "u64 \<Rightarrow> u64 \<Rightarrow> bool \<Rightarrow> vmstate \<Rightarrow> (vmstate \<times> (u64 \<times> nat) option) kres" where
  "walk pt va alloc s = (if va \<ge> MAXVA then Inl ''walk'' else Inr (walk_from 2 pt va alloc s))"

definition walkaddr :: "u64 \<Rightarrow> u64 \<Rightarrow> vmstate \<Rightarrow> u64" where
  "walkaddr pt va s =
     (if va \<ge> MAXVA then 0
      else (case snd (walk_from 2 pt va False s) of
              None \<Rightarrow> 0
            | Some (t, k) \<Rightarrow>
                (if pte s t k AND PTE_V = 0 then 0
                 else if pte s t k AND PTE_U = 0 then 0
                 else PTE2PA (pte s t k))))"

lemma below_MAXVA: "a < MAXVA \<Longrightarrow> unat (a + PGSZ) = unat a + 4096"
proof -
  assume "a < MAXVA"
  then have "unat a < 2 ^ 38" by (simp add: word_less_nat_alt)
  then show ?thesis by (simp add: unat_word_ariths)
qed

lemma walk_below: "walk pt va alloc s = Inr r \<Longrightarrow> va < MAXVA"
  by (auto simp: walk_def split: if_splits)

function mappages_from :: "u64 \<Rightarrow> u64 \<Rightarrow> u64 \<Rightarrow> u64 \<Rightarrow> u64 \<Rightarrow> vmstate \<Rightarrow> (vmstate \<times> int) kres" where
  "mappages_from pt a final pa perm s =
     (case walk pt a True s of
        Inl e \<Rightarrow> Inl e
      | Inr (s', None) \<Rightarrow> Inr (s', - 1)
      | Inr (s', Some (t, k)) \<Rightarrow>
          (if pte s' t k AND PTE_V \<noteq> 0 then Inl ''remap''
           else let s' = set_pte t k (PA2PTE pa OR perm OR PTE_V) s'
                in if a = final then Inr (s', 0)
                   else mappages_from pt (a + PGSZ) final (pa + PGSZ) perm s'))"
  by pat_completeness auto
termination
  by (relation "measure (\<lambda>(pt, a, final, pa, perm, s). 2 ^ 38 - unat a)")
    (auto dest!: walk_below simp: below_MAXVA word_less_nat_alt)

declare mappages_from.simps [simp del]

definition mappages :: "u64 \<Rightarrow> u64 \<Rightarrow> u64 \<Rightarrow> u64 \<Rightarrow> u64 \<Rightarrow> vmstate \<Rightarrow> (vmstate \<times> int) kres" where
  "mappages pt va sz pa perm s = mappages_from pt (PGROUNDDOWN va) (PGROUNDDOWN (va + sz - 1)) pa perm s"

function uvmunmap_from :: "u64 \<Rightarrow> u64 \<Rightarrow> u64 \<Rightarrow> bool \<Rightarrow> vmstate \<Rightarrow> vmstate kres" where
  "uvmunmap_from pt a lim do_free s =
     (if a < lim
      then (case walk pt a False s of
              Inl e \<Rightarrow> Inl e
            | Inr (_, None) \<Rightarrow> uvmunmap_from pt (a + PGSZ) lim do_free s
            | Inr (_, Some (t, k)) \<Rightarrow>
                (if pte s t k AND PTE_V = 0 then uvmunmap_from pt (a + PGSZ) lim do_free s
                 else if PTE_FLAGS (pte s t k) = PTE_V then Inl ''uvmunmap: not a leaf''
                 else uvmunmap_from pt (a + PGSZ) lim do_free
                        (set_pte t k 0 (if do_free then kfree_page (PTE2PA (pte s t k)) s else s))))
      else Inr s)"
  by pat_completeness auto
termination
  by (relation "measure (\<lambda>(pt, a, lim, do_free, s). 2 ^ 38 - unat a)")
    (auto dest!: walk_below simp: below_MAXVA word_less_nat_alt)

declare uvmunmap_from.simps [simp del]

definition uvmunmap :: "u64 \<Rightarrow> u64 \<Rightarrow> u64 \<Rightarrow> bool \<Rightarrow> vmstate \<Rightarrow> vmstate kres" where
  "uvmunmap pt va npages do_free s =
     (if va AND 4095 \<noteq> 0 then Inl ''uvmunmap: not aligned''
      else uvmunmap_from pt va (va + npages * PGSZ) do_free s)"

section \<open>Addresses and entries\<close>

lemma mask12: "(4095 :: u64) = mask 12" by (simp add: mask_eq_exp_minus_1)

lemma mask9: "(511 :: u64) = mask 9" by (simp add: mask_eq_exp_minus_1)

lemma mask10: "(1023 :: u64) = mask 10" by (simp add: mask_eq_exp_minus_1)

lemma PX_less: "PX l va < 512"
proof -
  have "PX l va = take_bit 9 (unat (drop_bit (12 + 9 * l) va))"
    by (simp add: PX_def mask9 flip: take_bit_eq_mask unsigned_take_bit_eq)
  then show ?thesis using take_bit_nat_less_exp [of 9] by simp
qed

definition aligned :: "u64 \<Rightarrow> bool" where
  "aligned a = (a AND 4095 = 0)"

lemma aligned_bits: "aligned a \<Longrightarrow> n < 12 \<Longrightarrow> \<not> bit a n"
proof -
  assume a: "aligned a" and n: "n < 12"
  have "bit (a AND 4095) n = bit a n" using n by (simp add: mask12 bit_simps)
  then show ?thesis using a by (simp add: aligned_def)
qed

lemma PTE2PA_entry:
  assumes "aligned pa" and "\<And>n. bit f n \<Longrightarrow> n < 10"
  shows "PTE2PA (PA2PTE pa OR f OR PTE_V) = pa"
proof (rule bit_word_eqI)
  fix n assume n: "n < LENGTH(64)"
  show "bit (PTE2PA (PA2PTE pa OR f OR PTE_V)) n = bit pa n"
  proof (cases "n < 12")
    case True
    then show ?thesis using aligned_bits [OF assms(1)] by (simp add: PTE2PA_def bit_simps)
  next
    case False
    then have "\<not> bit f (n - 2)" using assms(2) [of "n - 2"] by auto
    then show ?thesis using False n by (auto simp: PTE2PA_def PA2PTE_def bit_simps)
  qed
qed

lemma PTE2PA_table: "aligned pa \<Longrightarrow> PTE2PA (PA2PTE pa OR PTE_V) = pa"
  using PTE2PA_entry [of pa 0] by simp

lemma valid_entry: "(x OR PTE_V) AND PTE_V \<noteq> 0"
proof
  assume "(x OR PTE_V) AND PTE_V = 0"
  then have "bit ((x OR PTE_V) AND PTE_V) 0 = bit (0 :: u64) 0" by simp
  then show False by (simp add: bit_simps)
qed

text \<open>The indices of an aligned address below the maximum determine it.\<close>

lemma PX_bits:
  assumes "PX l va = PX l vb" and "12 + 9 * l \<le> n" and "n < 12 + 9 * l + 9" and "n < 64"
  shows "bit va n = bit vb n"
proof -
  have "drop_bit (12 + 9 * l) va AND 511 = drop_bit (12 + 9 * l) vb AND 511"
    using assms(1) by (simp only: PX_def word_eq_iff_unsigned [where 'a = nat])
  then have "bit (drop_bit (12 + 9 * l) va AND 511) (n - (12 + 9 * l)) = bit (drop_bit (12 + 9 * l) vb AND 511) (n - (12 + 9 * l))"
    by simp
  then show ?thesis using assms(2-4) by (auto simp: mask9 bit_simps)
qed

lemma MAXVA_bits: "va < MAXVA \<Longrightarrow> 39 \<le> n \<Longrightarrow> \<not> bit va n"
proof
  assume v: "va < MAXVA" and n: "39 \<le> n" and b: "bit va n"
  have "unat va < 2 ^ 38" using v by (simp add: word_less_nat_alt)
  moreover have "(2 :: nat) ^ 38 \<le> 2 ^ n" using n by (intro power_increasing) simp_all
  ultimately have "unat va div 2 ^ n = 0" by simp
  moreover have "bit (unat va) n" using b by (simp add: bit_unsigned_iff)
  ultimately show False by (simp add: bit_iff_odd)
qed

lemma index_inj:
  assumes "aligned va" and "aligned vb" and "va < MAXVA" and "vb < MAXVA"
    and "PX 0 va = PX 0 vb" and "PX 1 va = PX 1 vb" and "PX 2 va = PX 2 vb"
  shows "va = vb"
proof (rule bit_word_eqI)
  fix n assume n: "n < LENGTH(64)"
  consider "n < 12" | "12 \<le> n" "n < 21" | "21 \<le> n" "n < 30" | "30 \<le> n" "n < 39" | "39 \<le> n" by linarith
  then show "bit va n = bit vb n"
  proof cases
    case 1
    then show ?thesis using aligned_bits assms(1,2) by blast
  next
    case 2
    then show ?thesis using PX_bits [OF assms(5), of n] n by simp
  next
    case 3
    then show ?thesis using PX_bits [OF assms(6), of n] n by simp
  next
    case 4
    then show ?thesis using PX_bits [OF assms(7), of n] n by simp
  next
    case 5
    then show ?thesis using MAXVA_bits assms(3,4) by blast
  qed
qed

section \<open>The tree of page tables\<close>

text \<open>A page-table page by its path from the root, the last index first.\<close>

primrec tab :: "vmstate \<Rightarrow> u64 \<Rightarrow> nat list \<Rightarrow> u64 option" where
  "tab s pt [] = Some pt"
| "tab s pt (k # p) =
     (case tab s pt p of
        None \<Rightarrow> None
      | Some t \<Rightarrow> (if pte s t k AND PTE_V \<noteq> 0 then Some (PTE2PA (pte s t k)) else None))"

definition path_ok :: "nat list \<Rightarrow> bool" where
  "path_ok p = (length p \<le> 2 \<and> (\<forall>i \<in> set p. i < 512))"

definition tables :: "vmstate \<Rightarrow> u64 \<Rightarrow> u64 set" where
  "tables s pt = {t. \<exists>p. path_ok p \<and> tab s pt p = Some t}"

text \<open>A well-formed page table: its pages are its own, and the pages that \<open>kalloc\<close> will return are distinct,
  aligned and no page of the tree.\<close>

definition pgtab_ok :: "vmstate \<Rightarrow> u64 \<Rightarrow> bool" where
  "pgtab_ok s pt = ((\<forall>p q. path_ok p \<and> path_ok q \<and> tab s pt p \<noteq> None \<and> tab s pt p = tab s pt q \<longrightarrow> p = q)
     \<and> distinct (fresh s) \<and> (\<forall>x \<in> set (fresh s). aligned x \<and> x \<notin> tables s pt))"

text \<open>The entry for an address, 0 when a table on the way is missing.\<close>

definition leaf_pte :: "vmstate \<Rightarrow> u64 \<Rightarrow> nat list \<Rightarrow> nat \<Rightarrow> u64" where
  "leaf_pte s pt p k = (case tab s pt p of None \<Rightarrow> 0 | Some t \<Rightarrow> pte s t k)"

definition lookup :: "vmstate \<Rightarrow> u64 \<Rightarrow> u64 \<Rightarrow> u64" where
  "lookup s pt va = leaf_pte s pt [PX 1 va, PX 2 va] (PX 0 va)"

lemma path_ok_va [simp]: "path_ok [PX 1 va, PX 2 va]"
  by (simp add: path_ok_def PX_less)

lemma pgtab_inj: "pgtab_ok s pt \<Longrightarrow> path_ok p \<Longrightarrow> path_ok q \<Longrightarrow> tab s pt p = Some t \<Longrightarrow> tab s pt q = Some t \<Longrightarrow> p = q"
  unfolding pgtab_ok_def by (metis option.distinct(1))

lemma tablesI: "path_ok p \<Longrightarrow> tab s pt p = Some t \<Longrightarrow> t \<in> tables s pt"
  by (auto simp: tables_def)

lemma path_ok_tl: "path_ok (k # p) \<Longrightarrow> path_ok p"
  by (simp add: path_ok_def)

lemma tab_root_ok: "pgtab_ok s pt \<Longrightarrow> x \<in> set (fresh s) \<Longrightarrow> path_ok p \<Longrightarrow> tab s pt p \<noteq> Some x"
  unfolding pgtab_ok_def using tablesI by blast

text \<open>Where an address leads from a level.\<close>

primrec vpath :: "nat \<Rightarrow> u64 \<Rightarrow> nat list \<Rightarrow> nat list" where
  "vpath 0 va p = p"
| "vpath (Suc l) va p = vpath l va (PX (Suc l) va # p)"

lemma vpath_2: "vpath 2 va [] = [PX 1 va, PX 2 va]"
  by (simp add: numeral_2_eq_2)

lemma tab_vpath_None: "tab s pt p = None \<Longrightarrow> tab s pt (vpath l va p) = None"
  by (induction l arbitrary: p) simp_all

lemma walk_from_lookup:
  "tab s pt p = Some t \<Longrightarrow> walk_from l t va False s = (s, map_option (\<lambda>t. (t, PX 0 va)) (tab s pt (vpath l va p)))"
proof (induction l arbitrary: p t)
  case (Suc l)
  let ?e = "pte s t (PX (Suc l) va)"
  show ?case
  proof (cases "?e AND PTE_V = 0")
    case True
    then have "tab s pt (PX (Suc l) va # p) = None" using Suc.prems by simp
    then show ?thesis using True tab_vpath_None by (simp add: Let_def)
  next
    case False
    then have "tab s pt (PX (Suc l) va # p) = Some (PTE2PA ?e)" using Suc.prems by simp
    from Suc.IH [OF this] False show ?thesis by (simp add: Let_def)
  qed
qed simp

lemma walk_lookup:
  assumes "va < MAXVA"
  shows "walk pt va False s = Inr (s, map_option (\<lambda>t. (t, PX 0 va)) (tab s pt [PX 1 va, PX 2 va]))"
  using walk_from_lookup [of s pt "[]" pt 2 va] assms by (simp add: walk_def vpath_2)

text \<open>A new table in an empty entry: every other path is as before.\<close>

lemma tab_alloc:
  assumes ok: "pgtab_ok s pt" and fr: "fresh s = n # ps" and t: "tab s pt p = Some t" and p: "path_ok (k # p)"
    and e: "pte s t k AND PTE_V = 0"
  defines "s1 \<equiv> set_pte t k (PA2PTE n OR PTE_V) (zero_table n (kalloc_page n ps s))"
  shows "path_ok q \<Longrightarrow> tab s1 pt q = (if q = k # p then Some n else tab s pt q)"
proof (induction q)
  case Nil
  then show ?case by simp
next
  case (Cons j q)
  have q: "path_ok q" by (rule path_ok_tl [OF Cons.prems])
  have n: "n \<in> set (fresh s)" "aligned n" using ok fr by (simp_all add: pgtab_ok_def)
  have tn: "t \<noteq> n" using tab_root_ok [OF ok n(1) path_ok_tl [OF p]] t by blast
  note ih = Cons.IH [OF q]
  show ?case
  proof (cases "q = k # p")
    case True
    have "pte s1 n j = 0" using tn by (simp add: s1_def set_pte_def zero_table_def kalloc_page_def)
    moreover have "tab s pt (k # p) = None" using t e by simp
    ultimately show ?thesis using True ih by simp
  next
    case False
    then have tq: "tab s1 pt q = tab s pt q" using ih by simp
    show ?thesis
    proof (cases "tab s pt q")
      case None
      then have "q \<noteq> p" using t by auto
      then show ?thesis using tq None by simp
    next
      case (Some u)
      have un: "u \<noteq> n" using tab_root_ok [OF ok n(1) q] Some by blast
      show ?thesis
      proof (cases "u = t \<and> j = k")
        case True
        then have "q = p" using pgtab_inj [OF ok q path_ok_tl [OF p]] Some t by blast
        moreover have "pte s1 t k = PA2PTE n OR PTE_V" by (simp add: s1_def set_pte_def)
        ultimately show ?thesis using True tq Some valid_entry PTE2PA_table [OF n(2)] by simp
      next
        case False
        then have "pte s1 u j = pte s u j" using un by (auto simp: s1_def set_pte_def zero_table_def kalloc_page_def)
        moreover have "\<not> (j = k \<and> q = p)" using False Some t by auto
        ultimately show ?thesis using tq Some by auto
      qed
    qed
  qed
qed

lemma pgtab_alloc:
  assumes ok: "pgtab_ok s pt" and fr: "fresh s = n # ps" and t: "tab s pt p = Some t" and p: "path_ok (k # p)"
    and e: "pte s t k AND PTE_V = 0"
  defines "s1 \<equiv> set_pte t k (PA2PTE n OR PTE_V) (zero_table n (kalloc_page n ps s))"
  shows "pgtab_ok s1 pt" and "tables s1 pt \<subseteq> insert n (tables s pt)"
    and "path_ok q \<Longrightarrow> length q = 2 \<Longrightarrow> leaf_pte s1 pt q j = leaf_pte s pt q j"
proof -
  note ta = tab_alloc [OF ok fr t p e, folded s1_def]
  have f1: "fresh s1 = ps" by (simp add: s1_def set_pte_def zero_table_def kalloc_page_def)
  have nf: "n \<notin> set ps" "n \<in> set (fresh s)" "distinct ps" using ok fr by (simp_all add: pgtab_ok_def)
  show tb: "tables s1 pt \<subseteq> insert n (tables s pt)" using ta by (auto simp: tables_def split: if_splits)
  have inj: "x = y" if "path_ok x" "path_ok y" "tab s1 pt x = Some u" "tab s1 pt y = Some u" for x y u
  proof -
    have "tab s pt z \<noteq> Some n" if "path_ok z" for z by (rule tab_root_ok [OF ok nf(2) that])
    then show ?thesis using ta that pgtab_inj [OF ok that(1,2)] by (metis option.inject)
  qed
  show "pgtab_ok s1 pt"
    unfolding pgtab_ok_def f1
  proof (intro conjI allI impI ballI)
    fix x y assume "path_ok x \<and> path_ok y \<and> tab s1 pt x \<noteq> None \<and> tab s1 pt x = tab s1 pt y"
    then show "x = y" using inj by (metis option.exhaust)
  next
    show "distinct ps" by (rule nf(3))
    fix x assume x: "x \<in> set ps"
    then show "aligned x" using ok fr by (simp add: pgtab_ok_def)
    have "x \<noteq> n" "x \<notin> tables s pt" using x nf(1) ok fr by (auto simp: pgtab_ok_def)
    then show "x \<notin> tables s1 pt" using tb by blast
  qed
  show "leaf_pte s1 pt q j = leaf_pte s pt q j" if q: "path_ok q" "length q = 2"
  proof (cases "q = k # p")
    case True
    have "t \<noteq> n" using tab_root_ok [OF ok nf(2) path_ok_tl [OF p]] t by blast
    then have "pte s1 n j = 0" by (simp add: s1_def set_pte_def zero_table_def kalloc_page_def)
    then show ?thesis using True ta [OF q(1)] t e by (simp add: leaf_pte_def)
  next
    case False
    then have tq: "tab s1 pt q = tab s pt q" using ta [OF q(1)] by simp
    show ?thesis
    proof (cases "tab s pt q")
      case (Some u)
      have "u \<noteq> n" using tab_root_ok [OF ok nf(2) q(1)] Some by blast
      moreover have "u \<noteq> t"
      proof
        assume "u = t"
        then have "q = p" using pgtab_inj [OF ok q(1) path_ok_tl [OF p]] Some t by blast
        then show False using q(2) p by (simp add: path_ok_def)
      qed
      ultimately show ?thesis using tq Some by (simp add: leaf_pte_def s1_def set_pte_def zero_table_def kalloc_page_def)
    qed (simp add: leaf_pte_def tq)
  qed
qed

text \<open>What an operation on one tree may do to the rest: the tables of the tree grow by allocated pages, and
  no other page-table page is written.\<close>

definition tree_step :: "vmstate \<Rightarrow> u64 \<Rightarrow> vmstate \<Rightarrow> bool" where
  "tree_step s pt s' = (pgtab_ok s' pt \<and> (\<exists>k. fresh s' = drop k (fresh s))
     \<and> tables s' pt \<subseteq> tables s pt \<union> (set (fresh s) - set (fresh s'))
     \<and> (\<forall>x. x \<notin> tables s pt \<union> set (fresh s) \<longrightarrow> pte s' x = pte s x))"

lemma tree_stepD:
  assumes "tree_step s pt s'"
  shows "pgtab_ok s' pt" and "\<exists>k. fresh s' = drop k (fresh s)"
    and "tables s' pt \<subseteq> tables s pt \<union> (set (fresh s) - set (fresh s'))"
    and "x \<notin> tables s pt \<Longrightarrow> x \<notin> set (fresh s) \<Longrightarrow> pte s' x = pte s x"
  using assms by (auto simp: tree_step_def)

lemma tree_stepI:
  assumes "pgtab_ok s' pt" and "fresh s' = drop k (fresh s)"
    and "tables s' pt \<subseteq> tables s pt \<union> (set (fresh s) - set (fresh s'))"
    and "\<And>x. x \<notin> tables s pt \<union> set (fresh s) \<Longrightarrow> pte s' x = pte s x"
  shows "tree_step s pt s'"
  unfolding tree_step_def
proof (intro conjI allI impI)
  show "\<exists>k. fresh s' = drop k (fresh s)" using assms(2) by blast
qed (rule assms | assumption)+

lemma tree_step_refl: "pgtab_ok s pt \<Longrightarrow> tree_step s pt s"
  by (auto simp: tree_step_def intro: exI [of _ 0])

lemma tree_step_fresh: "tree_step s pt s' \<Longrightarrow> set (fresh s') \<subseteq> set (fresh s)"
  using tree_stepD(2) [of s pt s'] by (auto dest: in_set_dropD)

lemma tree_step_trans:
  assumes a: "tree_step s pt s1" and b: "tree_step s1 pt s2"
  shows "tree_step s pt s2"
proof -
  note f = tree_step_fresh [OF a] tree_step_fresh [OF b]
  obtain k l where kl: "fresh s1 = drop k (fresh s)" "fresh s2 = drop l (fresh s1)"
    using tree_stepD(2) [OF a] tree_stepD(2) [OF b] by blast
  then have "fresh s2 = drop (l + k) (fresh s)" by simp
  moreover have "tables s2 pt \<subseteq> tables s pt \<union> (set (fresh s) - set (fresh s2))"
    using tree_stepD(3) [OF a] tree_stepD(3) [OF b] f by blast
  moreover have "pte s2 x = pte s x" if x: "x \<notin> tables s pt \<union> set (fresh s)" for x
  proof -
    have "x \<notin> tables s1 pt" "x \<notin> set (fresh s1)" using x tree_stepD(3) [OF a] f by blast+
    then show ?thesis using tree_stepD(4) [OF a, of x] tree_stepD(4) [OF b, of x] x by simp
  qed
  ultimately show ?thesis using tree_stepD(1) [OF b] by (auto simp: tree_step_def)
qed

lemma alloc_tree_step:
  assumes ok: "pgtab_ok s pt" and fr: "fresh s = n # ps" and t: "tab s pt p = Some t" and p: "path_ok (k # p)"
    and e: "pte s t k AND PTE_V = 0"
  shows "tree_step s pt (set_pte t k (PA2PTE n OR PTE_V) (zero_table n (kalloc_page n ps s)))"
proof (rule tree_stepI [of _ _ 1])
  let ?s = "set_pte t k (PA2PTE n OR PTE_V) (zero_table n (kalloc_page n ps s))"
  note a = pgtab_alloc(1,2) [OF ok fr t p e]
  show "pgtab_ok ?s pt" by (rule a(1))
  have f: "fresh ?s = ps" by (simp add: set_pte_def zero_table_def kalloc_page_def)
  then show "fresh ?s = drop 1 (fresh s)" using fr by simp
  have "n \<notin> set ps" using ok fr by (simp add: pgtab_ok_def)
  then have "insert n (tables s pt) \<subseteq> tables s pt \<union> (set (fresh s) - set (fresh ?s))" unfolding f fr by auto
  with a(2) show "tables ?s pt \<subseteq> tables s pt \<union> (set (fresh s) - set (fresh ?s))" by (rule order_trans)
  have "t \<in> tables s pt" by (rule tablesI [OF path_ok_tl [OF p] t])
  then show "pte ?s x = pte s x" if "x \<notin> tables s pt \<union> set (fresh s)" for x
    using that fr by (auto simp: set_pte_def zero_table_def kalloc_page_def)
qed

text \<open>\<open>walk\<close> with \<open>alloc\<close>: it adds the missing tables, at most one a level, and no entry of a leaf changes.\<close>

lemma walk_from_alloc:
  assumes "pgtab_ok s pt" and "tab s pt p = Some t" and "path_ok p" and "length p + l = 2"
    and "walk_from l t va True s = (s', r)"
  shows "tree_step s pt s'"
    and "path_ok q \<Longrightarrow> length q = 2 \<Longrightarrow> leaf_pte s' pt q j = leaf_pte s pt q j"
    and "page s' = page s" and "vmcalls s' = vmcalls s" and "x \<notin> set (fresh s) \<Longrightarrow> refcnt s' x = refcnt s x"
    and "length (fresh s) \<le> length (fresh s') + l"
    and "case r of None \<Rightarrow> fresh s' = [] | Some (u, k) \<Rightarrow> tab s' pt (vpath l va p) = Some u \<and> k = PX 0 va"
    and "r = None \<Longrightarrow> length (fresh s) < l"
proof -
  have "tree_step s pt s' \<and> (path_ok q \<longrightarrow> length q = 2 \<longrightarrow> leaf_pte s' pt q j = leaf_pte s pt q j)
    \<and> page s' = page s \<and> vmcalls s' = vmcalls s \<and> (x \<notin> set (fresh s) \<longrightarrow> refcnt s' x = refcnt s x)
    \<and> length (fresh s) \<le> length (fresh s') + l
    \<and> (case r of None \<Rightarrow> fresh s' = [] | Some (u, k) \<Rightarrow> tab s' pt (vpath l va p) = Some u \<and> k = PX 0 va)
    \<and> (r = None \<longrightarrow> length (fresh s) < l)"
    using assms
  proof (induction l arbitrary: p t s)
    case 0
    then show ?case by (auto simp: tree_step_refl)
  next
    case (Suc l)
    let ?k = "PX (Suc l) va"
    let ?e = "pte s t ?k"
    have pk: "path_ok (?k # p)" "length (?k # p) + l = 2" using Suc.prems(3,4) PX_less [of "Suc l" va] by (simp_all add: path_ok_def)
    show ?case
    proof (cases "?e AND PTE_V = 0")
      case False
      then have t: "tab s pt (?k # p) = Some (PTE2PA ?e)" using Suc.prems(2) by simp
      have w: "walk_from l (PTE2PA ?e) va True s = (s', r)" using Suc.prems(5) False by (simp add: Let_def)
      note ih = Suc.IH [OF Suc.prems(1) t pk w]
      then have "length (fresh s) \<le> length (fresh s') + l" "r = None \<longrightarrow> length (fresh s) < l"
        by - (elim conjE, assumption)+
      then have "length (fresh s) \<le> length (fresh s') + Suc l" "r = None \<longrightarrow> length (fresh s) < Suc l" by linarith+
      with ih show ?thesis unfolding vpath.simps by - (elim conjE, intro conjI; assumption)
    next
      case True
      show ?thesis
      proof (cases "fresh s")
        case Nil
        then have "s' = s" "r = None" using Suc.prems(5) True by (simp_all add: Let_def)
        then show ?thesis using Nil tree_step_refl [OF Suc.prems(1)] by simp
      next
        case (Cons n ps)
        let ?s = "set_pte t ?k (PA2PTE n OR PTE_V) (zero_table n (kalloc_page n ps s))"
        note a = pgtab_alloc [OF Suc.prems(1) Cons Suc.prems(2) pk(1) True]
        note st = alloc_tree_step [OF Suc.prems(1) Cons Suc.prems(2) pk(1) True]
        have t: "tab ?s pt (?k # p) = Some n"
          using tab_alloc [OF Suc.prems(1) Cons Suc.prems(2) pk(1) True pk(1)] by simp
        have w: "walk_from l n va True ?s = (s', r)" using Suc.prems(5) True Cons by (simp add: Let_def)
        have f: "fresh ?s = ps" "page ?s = page s" "vmcalls ?s = vmcalls s" "refcnt ?s = (refcnt s)(n := 1)"
          by (simp_all add: set_pte_def zero_table_def kalloc_page_def)
        note ih = Suc.IH [OF a(1) t pk w, unfolded f]
        then have "length (fresh s) \<le> length (fresh s') + Suc l" "r = None \<longrightarrow> length (fresh s) < Suc l"
          "x \<notin> set (fresh s) \<longrightarrow> refcnt s' x = refcnt s x" using Cons by (elim conjE, simp)+
        moreover have "tree_step s pt s'" by (rule tree_step_trans [OF st conjunct1 [OF ih]])
        moreover have "path_ok q \<longrightarrow> length q = 2 \<longrightarrow> leaf_pte s' pt q j = leaf_pte s pt q j" using ih a(3) by simp
        ultimately show ?thesis using ih unfolding vpath.simps by - (elim conjE, intro conjI; assumption)
      qed
    qed
  qed
  then show "tree_step s pt s'"
    and "path_ok q \<Longrightarrow> length q = 2 \<Longrightarrow> leaf_pte s' pt q j = leaf_pte s pt q j"
    and "page s' = page s" and "vmcalls s' = vmcalls s" and "x \<notin> set (fresh s) \<Longrightarrow> refcnt s' x = refcnt s x"
    and "length (fresh s) \<le> length (fresh s') + l"
    and "case r of None \<Rightarrow> fresh s' = [] | Some (u, k) \<Rightarrow> tab s' pt (vpath l va p) = Some u \<and> k = PX 0 va"
    and "r = None \<Longrightarrow> length (fresh s) < l" by (elim conjE, simp)+
qed

section \<open>Page numbers\<close>

definition vpn :: "u64 \<Rightarrow> nat" where
  "vpn va = unat va div 4096"

lemma PGROUNDDOWN_unat: "unat (PGROUNDDOWN a) = unat a div 4096 * 4096"
proof -
  have "PGROUNDDOWN a = push_bit 12 (drop_bit 12 a)"
    by (rule bit_word_eqI) (auto simp: PGROUNDDOWN_def mask12 bit_simps)
  then have "unat (PGROUNDDOWN a) = take_bit 64 (push_bit 12 (drop_bit 12 (unat a)))"
    using unsigned_less [of a, where 'a = nat] by (simp add: unsigned_push_bit_eq unsigned_drop_bit_eq take_bit_nat_eq_self)
  also have "\<dots> = take_bit 64 (unat a div 4096 * 4096)" by (simp add: push_bit_eq_mult drop_bit_eq_div)
  also have "\<dots> = unat a div 4096 * 4096"
  proof -
    have "unat a div 4096 * 4096 \<le> unat a" by simp
    then have "unat a div 4096 * 4096 < 2 ^ 64" using unsigned_less [of a, where 'a = nat] by simp
    then show ?thesis by (simp add: take_bit_nat_eq_self)
  qed
  finally show ?thesis .
qed

lemma aligned_unat: "aligned a \<longleftrightarrow> unat a mod 4096 = 0"
proof -
  have "unat (a AND 4095) = take_bit 12 (unat a)" by (simp add: mask12 unsigned_take_bit_eq flip: take_bit_eq_mask)
  then have "unat (a AND 4095) = unat a mod 4096" by (simp add: take_bit_eq_mod)
  then show ?thesis by (metis aligned_def unat_eq_zero)
qed

lemma aligned_PGROUNDDOWN [simp]: "aligned (PGROUNDDOWN a)"
  by (simp add: aligned_unat PGROUNDDOWN_unat)

lemma vpn_PGROUNDDOWN [simp]: "vpn (PGROUNDDOWN a) = vpn a"
  by (simp add: vpn_def PGROUNDDOWN_unat)

lemma PGROUNDDOWN_less: "a < MAXVA \<Longrightarrow> PGROUNDDOWN a < MAXVA"
  by (simp add: word_less_nat_alt PGROUNDDOWN_unat)

lemma PGROUNDDOWN_eq_iff: "PGROUNDDOWN a = PGROUNDDOWN b \<longleftrightarrow> vpn a = vpn b"
  by (auto simp: vpn_def word_eq_iff_unsigned [where 'a = nat] PGROUNDDOWN_unat)

lemma PX_PGROUNDDOWN: "l \<le> 2 \<Longrightarrow> PX l (PGROUNDDOWN a) = PX l a"
proof -
  have "drop_bit (12 + 9 * l) (PGROUNDDOWN a) = drop_bit (12 + 9 * l) a"
    by (rule bit_word_eqI) (auto simp: PGROUNDDOWN_def mask12 bit_simps dest: bit_imp_le_length)
  then show ?thesis by (simp add: PX_def)
qed

lemma slot_eq_iff:
  assumes "va < MAXVA" and "vb < MAXVA"
  shows "PX 0 va = PX 0 vb \<and> PX 1 va = PX 1 vb \<and> PX 2 va = PX 2 vb \<longleftrightarrow> vpn va = vpn vb"
proof
  assume a: "PX 0 va = PX 0 vb \<and> PX 1 va = PX 1 vb \<and> PX 2 va = PX 2 vb"
  have "PGROUNDDOWN va = PGROUNDDOWN vb"
    by (rule index_inj) (use a assms PGROUNDDOWN_less in \<open>simp_all add: PX_PGROUNDDOWN\<close>)
  then show "vpn va = vpn vb" by (simp add: PGROUNDDOWN_eq_iff)
next
  assume "vpn va = vpn vb"
  then have "PGROUNDDOWN va = PGROUNDDOWN vb" by (simp add: PGROUNDDOWN_eq_iff)
  then have "PX l va = PX l vb" if "l \<le> 2" for l using PX_PGROUNDDOWN [OF that] by metis
  then show "PX 0 va = PX 0 vb \<and> PX 1 va = PX 1 vb \<and> PX 2 va = PX 2 vb" by simp
qed

lemma lookup_vpn: "va < MAXVA \<Longrightarrow> vb < MAXVA \<Longrightarrow> vpn va = vpn vb \<Longrightarrow> lookup s pt va = lookup s pt vb"
  using slot_eq_iff [of va vb] by (simp add: lookup_def)

lemma next_page:
  assumes "unat a + 4096 \<le> 2 ^ 38"
  shows "unat (a + PGSZ) = unat a + 4096" and "vpn (a + PGSZ) = Suc (vpn a)" and "aligned a \<Longrightarrow> aligned (a + PGSZ)"
proof -
  show u: "unat (a + PGSZ) = unat a + 4096" using assms by (simp add: unat_word_ariths)
  show "vpn (a + PGSZ) = Suc (vpn a)" by (simp add: vpn_def u)
  show "aligned a \<Longrightarrow> aligned (a + PGSZ)" by (simp add: aligned_unat u)
qed

section \<open>Writing one leaf entry\<close>

lemma tab_leaf_write:
  assumes ok: "pgtab_ok s pt" and p: "path_ok p" "length p = 2" "tab s pt p = Some t"
  shows "path_ok q \<Longrightarrow> tab (set_pte t k e s) pt q = tab s pt q"
proof (induction q)
  case (Cons j q)
  note q = path_ok_tl [OF Cons.prems]
  note ih = Cons.IH [OF q]
  show ?case
  proof (cases "tab s pt q")
    case (Some u)
    have "u \<noteq> t"
    proof
      assume "u = t"
      then have "q = p" using pgtab_inj [OF ok q p(1) _ p(3)] Some by blast
      then show False using p(2) Cons.prems by (simp add: path_ok_def)
    qed
    then show ?thesis using ih Some by (simp add: set_pte_def)
  qed (simp add: ih)
qed simp

lemma leaf_write:
  assumes ok: "pgtab_ok s pt" and p: "path_ok p" "length p = 2" "tab s pt p = Some t"
  shows "tree_step s pt (set_pte t k e s)"
    and "path_ok q \<Longrightarrow> leaf_pte (set_pte t k e s) pt q j = (if q = p \<and> j = k then e else leaf_pte s pt q j)"
proof -
  note tw = tab_leaf_write [OF ok p]
  have f: "fresh (set_pte t k e s) = fresh s" by (simp add: set_pte_def)
  have tb: "tables (set_pte t k e s) pt = tables s pt" using tw by (auto simp: tables_def)
  show "tree_step s pt (set_pte t k e s)"
  proof (rule tree_stepI [of _ _ 0])
    show "pgtab_ok (set_pte t k e s) pt" unfolding pgtab_ok_def f tb
      using ok tw unfolding pgtab_ok_def by metis
    show "pte (set_pte t k e s) x = pte s x" if "x \<notin> tables s pt \<union> set (fresh s)" for x
      using that tablesI [OF p(1,3)] by (auto simp: set_pte_def)
  qed (simp_all add: f tb)
  assume q: "path_ok q"
  show "leaf_pte (set_pte t k e s) pt q j = (if q = p \<and> j = k then e else leaf_pte s pt q j)"
    using tw [OF q] pgtab_inj [OF ok q p(1) _ p(3)] p(3)
    by (cases "tab s pt q") (auto simp: leaf_pte_def set_pte_def)
qed

lemma lookup_write:
  assumes "pgtab_ok s pt" and "tab s pt [PX 1 a, PX 2 a] = Some t" and "a < MAXVA" and "v < MAXVA"
  shows "lookup (set_pte t (PX 0 a) e s) pt v = (if vpn v = vpn a then e else lookup s pt v)"
  using leaf_write(2) [OF assms(1) path_ok_va _ assms(2) path_ok_va, of "PX 0 a" e v "PX 0 v"] slot_eq_iff [OF assms(4,3)]
  unfolding lookup_def by auto

lemma page_last: "unat a + n * 4096 < 2 ^ 38 \<Longrightarrow> unat (a + of_nat n * PGSZ) = unat a + n * 4096"
proof -
  assume a: "unat a + n * 4096 < 2 ^ 38"
  then have "unat (of_nat n * PGSZ :: u64) = n * 4096" by (simp add: unat_word_ariths unat_of_nat)
  then show ?thesis using a by (simp add: unat_word_ariths)
qed

section \<open>Mapping a range\<close>

lemma walk_total: "a < MAXVA \<Longrightarrow> \<exists>s1 r. walk pt a alloc s = Inr (s1, r)"
  by (metis linorder_not_less surj_pair walk_def)

lemma walk_alloc:
  assumes ok: "pgtab_ok s pt" and w: "walk pt va True s = Inr (s', r)"
  shows "tree_step s pt s'" and "lookup s' pt v = lookup s pt v" and "page s' = page s" and "vmcalls s' = vmcalls s"
    and "x \<notin> set (fresh s) \<Longrightarrow> refcnt s' x = refcnt s x" and "length (fresh s) \<le> length (fresh s') + 2"
    and "r = None \<Longrightarrow> fresh s' = [] \<and> length (fresh s) < 2"
    and "r = Some (t, k) \<Longrightarrow> tab s' pt [PX 1 va, PX 2 va] = Some t \<and> k = PX 0 va"
proof -
  have wf: "walk_from 2 pt va True s = (s', r)" using w by (simp add: walk_def split: if_splits)
  note wa = walk_from_alloc [OF ok _ _ _ wf, of "[]", simplified]
  have p: "path_ok []" by (simp add: path_ok_def)
  note wa = wa [OF p]
  show "tree_step s pt s'" by (rule wa(1))
  show "lookup s' pt v = lookup s pt v" unfolding lookup_def by (rule wa(2) [OF path_ok_va]) simp
  show "page s' = page s" "vmcalls s' = vmcalls s" by (rule wa(3), rule wa(4))
  show "x \<notin> set (fresh s) \<Longrightarrow> refcnt s' x = refcnt s x" by (rule wa(5))
  show "length (fresh s) \<le> length (fresh s') + 2" using wa(6) by simp
  show "r = None \<Longrightarrow> fresh s' = [] \<and> length (fresh s) < 2" using wa(7,8) by simp
  show "r = Some (t, k) \<Longrightarrow> tab s' pt [PX 1 va, PX 2 va] = Some t \<and> k = PX 0 va" using wa(7) by (simp add: vpath_2)
qed

text \<open>What a mapping operation may change besides the entries.\<close>

definition map_frame :: "vmstate \<Rightarrow> u64 \<Rightarrow> vmstate \<Rightarrow> bool" where
  "map_frame s pt s' = (tree_step s pt s' \<and> page s' = page s \<and> vmcalls s' = vmcalls s
     \<and> (\<forall>x. x \<notin> set (fresh s) \<longrightarrow> refcnt s' x = refcnt s x))"

lemma map_frameD:
  assumes "map_frame s pt s'"
  shows "tree_step s pt s'" and "pgtab_ok s' pt" and "page s' = page s" and "vmcalls s' = vmcalls s"
    and "x \<notin> set (fresh s) \<Longrightarrow> refcnt s' x = refcnt s x"
  using assms tree_stepD(1) [of s pt s'] by (simp_all add: map_frame_def)

lemma map_frame_trans: "map_frame s pt s1 \<Longrightarrow> map_frame s1 pt s2 \<Longrightarrow> map_frame s pt s2"
  using tree_step_trans [of s pt s1 s2] tree_step_fresh [of s pt s1] by (auto simp: map_frame_def)

lemma set_pte_frame [simp]: "page (set_pte t k e s) = page s" "vmcalls (set_pte t k e s) = vmcalls s"
  "refcnt (set_pte t k e s) = refcnt s" "fresh (set_pte t k e s) = fresh s"
  by (simp_all add: set_pte_def)

lemma map_step:
  assumes ok: "pgtab_ok s pt" and w: "walk pt a True s = Inr (s1, Some (t, k))"
  shows "map_frame s pt (set_pte t k e s1)" and "pte s1 t k = lookup s pt a"
    and "v < MAXVA \<Longrightarrow> lookup (set_pte t k e s1) pt v = (if vpn v = vpn a then e else lookup s pt v)"
proof -
  note wa = walk_alloc [OF ok w]
  have t: "tab s1 pt [PX 1 a, PX 2 a] = Some t" and k: "k = PX 0 a" using wa(8) by blast+
  have ok1: "pgtab_ok s1 pt" by (rule tree_stepD(1) [OF wa(1)])
  have a: "a < MAXVA" by (rule walk_below [OF w])
  have "lookup s1 pt a = pte s1 t k" unfolding lookup_def leaf_pte_def t k by simp
  then show "pte s1 t k = lookup s pt a" using wa(2) [of a] by simp
  have "tree_step s1 pt (set_pte t k e s1)" by (rule leaf_write(1) [OF ok1 path_ok_va _ t]) simp
  then show "map_frame s pt (set_pte t k e s1)" using tree_step_trans [OF wa(1)] wa(3-5) by (simp add: map_frame_def)
  assume "v < MAXVA"
  from lookup_write [OF ok1 t a this, of e] show "lookup (set_pte t k e s1) pt v = (if vpn v = vpn a then e else lookup s pt v)"
    unfolding k wa(2) .
qed

lemma mappages_from_maps:
  assumes "pgtab_ok s pt" and "aligned a" and "unat a + n * 4096 < 2 ^ 38" and "final = a + of_nat n * PGSZ"
    and "\<And>v. v < MAXVA \<Longrightarrow> vpn a \<le> vpn v \<Longrightarrow> vpn v \<le> vpn a + n \<Longrightarrow> lookup s pt v AND PTE_V = 0"
    and "2 * Suc n \<le> length (fresh s)"
  shows "\<exists>s'. mappages_from pt a final pa perm s = Inr (s', 0) \<and> map_frame s pt s'
    \<and> (\<forall>v. v < MAXVA \<longrightarrow> lookup s' pt v =
         (if vpn a \<le> vpn v \<and> vpn v \<le> vpn a + n then PA2PTE (pa + of_nat (vpn v - vpn a) * PGSZ) OR perm OR PTE_V
          else lookup s pt v))"
  using assms
proof (induction n arbitrary: a pa s)
  case 0
  have a: "a < MAXVA" using "0.prems"(3) by (simp add: word_less_nat_alt)
  obtain s1 r where w: "walk pt a True s = Inr (s1, r)" using walk_total [OF a] by blast
  obtain t k where r: "r = Some (t, k)" using walk_alloc(7) [OF "0.prems"(1) w] "0.prems"(6) by (cases r) auto
  note st = map_step [OF "0.prems"(1) w [unfolded r]]
  have "pte s1 t k AND PTE_V = 0" using st(2) "0.prems"(5) [OF a] by simp
  then have "mappages_from pt a final pa perm s = Inr (set_pte t k (PA2PTE pa OR perm OR PTE_V) s1, 0)"
    using "0.prems"(4) w r by (subst mappages_from.simps) simp
  then show ?case using st(1,3) by (intro exI conjI allI impI) auto
next
  case (Suc n)
  have a: "a < MAXVA" using Suc.prems(3) by (simp add: word_less_nat_alt)
  obtain s1 r where w: "walk pt a True s = Inr (s1, r)" using walk_total [OF a] by blast
  note wa = walk_alloc [OF Suc.prems(1) w]
  obtain t k where r: "r = Some (t, k)" using wa(7) Suc.prems(6) by (cases r) auto
  note st = map_step [OF Suc.prems(1) w [unfolded r]]
  have u: "unat a + 4096 \<le> 2 ^ 38" using Suc.prems(3) by simp
  note np = next_page [OF u]
  have ne: "a \<noteq> final" using page_last [OF Suc.prems(3)] unfolding Suc.prems(4) by auto
  have z: "pte s1 t k AND PTE_V = 0" using st(2) Suc.prems(5) [OF a] by simp
  let ?s = "set_pte t k (PA2PTE pa OR perm OR PTE_V) s1"
  have m: "mappages_from pt a final pa perm s = mappages_from pt (a + PGSZ) final (pa + PGSZ) perm ?s"
    using ne w r z by (subst mappages_from.simps) simp
  have ok2: "pgtab_ok ?s pt" by (rule map_frameD(2) [OF st(1)])
  have c: "unat (a + PGSZ) + n * 4096 < 2 ^ 38" using Suc.prems(3) np(1) by simp
  have d: "final = a + PGSZ + of_nat n * PGSZ" using Suc.prems(4) by (simp add: algebra_simps)
  have e: "lookup ?s pt v AND PTE_V = 0" if v: "v < MAXVA" "vpn (a + PGSZ) \<le> vpn v" "vpn v \<le> vpn (a + PGSZ) + n" for v
  proof -
    have "lookup ?s pt v = lookup s pt v" using st(3) [OF v(1)] v(2) np(2) by simp
    then show ?thesis using Suc.prems(5) [OF v(1)] v(2,3) np(2) by simp
  qed
  have f: "2 * Suc n \<le> length (fresh ?s)" using wa(6) Suc.prems(6) by simp
  from Suc.IH [OF ok2 np(3) [OF Suc.prems(2)] c d e f, of "pa + PGSZ"] m obtain s' where
    s': "mappages_from pt a final pa perm s = Inr (s', 0)" "map_frame ?s pt s'"
    and lk: "\<And>v. v < MAXVA \<Longrightarrow> lookup s' pt v =
         (if vpn (a + PGSZ) \<le> vpn v \<and> vpn v \<le> vpn (a + PGSZ) + n
          then PA2PTE (pa + PGSZ + of_nat (vpn v - vpn (a + PGSZ)) * PGSZ) OR perm OR PTE_V else lookup ?s pt v)" by auto
  have "lookup s' pt v = (if vpn a \<le> vpn v \<and> vpn v \<le> vpn a + Suc n
      then PA2PTE (pa + of_nat (vpn v - vpn a) * PGSZ) OR perm OR PTE_V else lookup s pt v)" if v: "v < MAXVA" for v
  proof -
    consider "vpn v = vpn a" | "Suc (vpn a) \<le> vpn v" "vpn v \<le> Suc (vpn a) + n" | "vpn v < vpn a \<or> vpn a + Suc n < vpn v" by linarith
    then show ?thesis
    proof cases
      case 2
      then have "vpn v - vpn a = Suc (vpn v - Suc (vpn a))" by simp
      then have "pa + of_nat (vpn v - vpn a) * PGSZ = pa + PGSZ + of_nat (vpn v - Suc (vpn a)) * PGSZ"
        by (simp add: algebra_simps)
      then show ?thesis using lk [OF v] 2 np(2) by simp
    qed (use lk [OF v] st(3) [OF v] np(2) in auto)
  qed
  then show ?case using s' map_frame_trans [OF st(1)] by (intro exI [of _ s']) simp
qed

lemma PGROUNDDOWN_aligned: "aligned a \<Longrightarrow> PGROUNDDOWN a = a"
  by (auto simp: word_eq_iff_unsigned [where 'a = nat] PGROUNDDOWN_unat aligned_unat)

lemma last_page:
  assumes "aligned a" and "unat a + n * 4096 < 2 ^ 38"
  shows "PGROUNDDOWN (a + of_nat (Suc n) * PGSZ - 1) = a + of_nat n * PGSZ"
proof -
  note u = page_last [OF assms(2)]
  have "a + of_nat (Suc n) * PGSZ - 1 = (a + of_nat n * PGSZ) + 4095" by (simp add: algebra_simps)
  moreover have "unat ((a + of_nat n * PGSZ) + 4095) = unat a + n * 4096 + 4095"
    using assms(2) by (simp add: u unat_word_ariths(1) [of "a + of_nat n * PGSZ"])
  moreover have "(unat a + n * 4096 + 4095) div 4096 * 4096 = unat a + n * 4096"
  proof -
    obtain q where q: "unat a = q * 4096" using assms(1) by (auto simp: aligned_unat elim!: dvdE simp flip: dvd_eq_mod_eq_0)
    have "unat a + n * 4096 + 4095 = 4095 + (q + n) * 4096" by (simp add: q algebra_simps)
    then have e: "(unat a + n * 4096 + 4095) div 4096 = q + n" by simp
    show ?thesis unfolding e by (simp add: q algebra_simps)
  qed
  ultimately show ?thesis by (simp add: word_eq_iff_unsigned [where 'a = nat] PGROUNDDOWN_unat u)
qed

text \<open>One page: the three outcomes of \<open>mappages\<close>.\<close>

lemma walk_present:
  assumes "tab s pt [PX 1 a, PX 2 a] = Some t" and "a < MAXVA"
  shows "walk pt a alloc s = Inr (s, Some (t, PX 0 a))"
proof -
  have "walk_from 2 pt a alloc s = (s, Some (t, PX 0 a))"
    using assms(1) by (auto simp: numeral_2_eq_2 Let_def split: if_splits option.splits)
  then show ?thesis using assms(2) by (simp add: walk_def)
qed

lemma walk_valid:
  assumes a: "a < MAXVA" and v: "lookup s pt a AND PTE_V \<noteq> 0"
  obtains t where "walk pt a alloc s = Inr (s, Some (t, PX 0 a))" and "pte s t (PX 0 a) = lookup s pt a"
    and "tab s pt [PX 1 a, PX 2 a] = Some t"
proof -
  obtain t1 where t1: "tab s pt [PX 1 a, PX 2 a] = Some t1"
    using v unfolding lookup_def leaf_pte_def by (cases "tab s pt [PX 1 a, PX 2 a]") auto
  moreover have "pte s t1 (PX 0 a) = lookup s pt a" unfolding lookup_def leaf_pte_def t1 by simp
  ultimately show ?thesis using that walk_present [OF t1 a] by blast
qed

lemma mappages_from_valid: "a < MAXVA \<Longrightarrow> lookup s pt a AND PTE_V \<noteq> 0 \<Longrightarrow> mappages_from pt a final pa perm s = Inl ''remap''"
  by (erule (1) walk_valid [of a s pt True]) (subst mappages_from.simps, simp)

lemma mappages_from_remaps:
  assumes "pgtab_ok s pt" and "unat a + n * 4096 < 2 ^ 38" and "final = a + of_nat n * PGSZ"
    and "v < MAXVA" and "vpn a \<le> vpn v" and "vpn v \<le> vpn a + n" and "lookup s pt v AND PTE_V \<noteq> 0"
    and "2 * Suc n \<le> length (fresh s)"
  shows "mappages_from pt a final pa perm s = Inl ''remap''"
  using assms
proof (induction n arbitrary: a pa s)
  case 0
  have a: "a < MAXVA" using "0.prems"(2) by (simp add: word_less_nat_alt)
  have "vpn v = vpn a" using "0.prems"(5,6) by simp
  then have "lookup s pt a AND PTE_V \<noteq> 0" using "0.prems"(7) lookup_vpn [OF "0.prems"(4) a] by simp
  then show ?case by (rule mappages_from_valid [OF a])
next
  case (Suc n)
  have a: "a < MAXVA" using Suc.prems(2) by (simp add: word_less_nat_alt)
  show ?case
  proof (cases "lookup s pt a AND PTE_V = 0")
    case False
    then show ?thesis by (rule mappages_from_valid [OF a])
  next
    case True
    obtain s1 r where w: "walk pt a True s = Inr (s1, r)" using walk_total [OF a] by blast
    note wa = walk_alloc [OF Suc.prems(1) w]
    obtain t k where r: "r = Some (t, k)" using wa(7) Suc.prems(8) by (cases r) auto
    note st = map_step [OF Suc.prems(1) w [unfolded r]]
    have u: "unat a + 4096 \<le> 2 ^ 38" using Suc.prems(2) by simp
    note np = next_page [OF u]
    have ne: "vpn v \<noteq> vpn a" using True lookup_vpn [OF Suc.prems(4) a] Suc.prems(7) by auto
    have c: "unat (a + PGSZ) + n * 4096 < 2 ^ 38" using Suc.prems(2) np(1) by simp
    have d: "final = a + PGSZ + of_nat n * PGSZ" using Suc.prems(3) by (simp add: algebra_simps)
    let ?s = "set_pte t k (PA2PTE pa OR perm OR PTE_V) s1"
    have "lookup ?s pt v AND PTE_V \<noteq> 0" using st(3) [OF Suc.prems(4)] ne Suc.prems(7) by simp
    moreover have "2 * Suc n \<le> length (fresh ?s)" using wa(6) Suc.prems(8) by simp
    ultimately have ih: "mappages_from pt (a + PGSZ) final (pa + PGSZ) perm ?s = Inl ''remap''"
      using Suc.IH [OF map_frameD(2) [OF st(1)] c d Suc.prems(4)] ne Suc.prems(5,6) np(2) by simp
    have "unat final = unat (a + PGSZ) + n * 4096" using c page_last [OF c] by (simp add: d)
    then have "a \<noteq> final" using np(1) by auto
    then show ?thesis using ih w r True st(2) by (subst mappages_from.simps) simp
  qed
qed

lemma mappages_one_valid:
  assumes a: "aligned a" "a < MAXVA" and v: "lookup s pt a AND PTE_V \<noteq> 0"
  shows "mappages pt a PGSZ pa perm s = Inl ''remap''"
  using mappages_from_valid [OF a(2) v] by (simp add: mappages_def PGROUNDDOWN_aligned [OF a(1)])

lemma mappages_one:
  assumes ok: "pgtab_ok s pt" and a: "aligned a" "a < MAXVA" and v: "lookup s pt a AND PTE_V = 0"
  obtains (mapped) s' where "mappages pt a PGSZ pa perm s = Inr (s', 0)" "map_frame s pt s'" "length (fresh s) \<le> length (fresh s') + 2"
      "\<And>v. v < MAXVA \<Longrightarrow> lookup s' pt v = (if vpn v = vpn a then PA2PTE pa OR perm OR PTE_V else lookup s pt v)"
  | (nomem) s' where "mappages pt a PGSZ pa perm s = Inr (s', - 1)" "map_frame s pt s'" "fresh s' = []" "length (fresh s) < 2"
      "\<And>v. lookup s' pt v = lookup s pt v"
proof -
  have u: "unat a + 0 * 4096 < 2 ^ 38" using a(2) by (simp add: word_less_nat_alt)
  have m: "mappages pt a PGSZ pa perm s = mappages_from pt a a pa perm s"
    using last_page [OF a(1) u] by (simp add: mappages_def PGROUNDDOWN_aligned [OF a(1)])
  obtain s1 r where w: "walk pt a True s = Inr (s1, r)" using walk_total [OF a(2)] by blast
  note wa = walk_alloc [OF ok w]
  show ?thesis
  proof (cases r)
    case None
    show ?thesis
    proof (rule nomem)
      show "mappages pt a PGSZ pa perm s = Inr (s1, - 1)" unfolding m using w None by (subst mappages_from.simps) simp
      show "map_frame s pt s1" using wa(1,3-5) by (simp add: map_frame_def)
      show "fresh s1 = []" "length (fresh s) < 2" using wa(7) [OF None] by blast+
      show "lookup s1 pt v = lookup s pt v" for v by (rule wa(2))
    qed
  next
    case (Some tk)
    then obtain t k where r: "r = Some (t, k)" by (cases tk) simp
    note st = map_step [OF ok w [unfolded r]]
    let ?s = "set_pte t k (PA2PTE pa OR perm OR PTE_V) s1"
    show ?thesis
    proof (rule mapped)
      show "mappages pt a PGSZ pa perm s = Inr (?s, 0)" unfolding m using w r v st(2) by (subst mappages_from.simps) simp
      show "map_frame s pt ?s" by (rule st(1))
      show "length (fresh s) \<le> length (fresh ?s) + 2" using wa(6) by simp
      show "lookup ?s pt v = (if vpn v = vpn a then PA2PTE pa OR perm OR PTE_V else lookup s pt v)" if "v < MAXVA" for v
        by (rule st(3) [OF that])
    qed
  qed
qed

section \<open>Unmapping a range\<close>

text \<open>The physical pages that the valid entries of a range of pages refer to.\<close>

definition mapped_pages :: "vmstate \<Rightarrow> u64 \<Rightarrow> u64 \<Rightarrow> nat \<Rightarrow> u64 list" where
  "mapped_pages s pt a n =
     map (\<lambda>i. PTE2PA (lookup s pt (a + of_nat i * PGSZ)))
       (filter (\<lambda>i. lookup s pt (a + of_nat i * PGSZ) AND PTE_V \<noteq> 0) [0..<n])"

lemma mapped_pages_Suc:
  "mapped_pages s pt a (Suc n) =
     (if lookup s pt a AND PTE_V \<noteq> 0 then [PTE2PA (lookup s pt a)] else []) @ mapped_pages s pt (a + PGSZ) n"
proof -
  have "[0..<Suc n] = 0 # map Suc [0..<n]" by (simp add: map_Suc_upt upt_conv_Cons del: upt_Suc)
  then show ?thesis by (simp add: mapped_pages_def filter_map comp_def algebra_simps del: upt_Suc)
qed

lemma mapped_pages_cong:
  assumes "\<And>i. i < n \<Longrightarrow> lookup s pt (a + of_nat i * PGSZ) = lookup s' pt' (a + of_nat i * PGSZ)"
  shows "mapped_pages s pt a n = mapped_pages s' pt' a n"
proof -
  have "filter (\<lambda>i. lookup s pt (a + of_nat i * PGSZ) AND PTE_V \<noteq> 0) [0..<n] =
    filter (\<lambda>i. lookup s' pt' (a + of_nat i * PGSZ) AND PTE_V \<noteq> 0) [0..<n]"
    using assms by (intro filter_cong) auto
  then show ?thesis using assms unfolding mapped_pages_def by (intro map_cong) auto
qed

lemma page_unat:
  assumes "unat a + n * 4096 \<le> 2 ^ 38" and "i < n"
  shows "unat (a + of_nat i * PGSZ) = unat a + i * 4096" and "a + of_nat i * PGSZ < MAXVA" and "vpn (a + of_nat i * PGSZ) = vpn a + i"
proof -
  have i: "unat a + i * 4096 < 2 ^ 38" using assms by simp
  then show u: "unat (a + of_nat i * PGSZ) = unat a + i * 4096" by (rule page_last)
  show "a + of_nat i * PGSZ < MAXVA" using i by (simp add: word_less_nat_alt u)
  show "vpn (a + of_nat i * PGSZ) = vpn a + i" by (simp add: vpn_def u)
qed

text \<open>What unmapping may change: the entries of the tree, the reference counts and the calls.\<close>

definition unmap_frame :: "vmstate \<Rightarrow> u64 \<Rightarrow> vmstate \<Rightarrow> bool" where
  "unmap_frame s pt s' = (tree_step s pt s' \<and> page s' = page s \<and> fresh s' = fresh s
     \<and> (\<forall>q. path_ok q \<longrightarrow> tab s' pt q = tab s pt q) \<and> (\<forall>x k. pte s' x k = pte s x k \<or> pte s' x k = 0))"

lemma unmap_frameD:
  assumes "unmap_frame s pt s'"
  shows "tree_step s pt s'" and "pgtab_ok s' pt" and "page s' = page s" and "fresh s' = fresh s"
    and "path_ok q \<Longrightarrow> tab s' pt q = tab s pt q" and "pte s' x k = pte s x k \<or> pte s' x k = 0"
  using assms tree_stepD(1) [of s pt s'] by (simp_all add: unmap_frame_def)

lemma unmap_frame_refl: "pgtab_ok s pt \<Longrightarrow> unmap_frame s pt s"
  using tree_step_refl by (simp add: unmap_frame_def)

lemma unmap_frame_trans: "unmap_frame s pt s1 \<Longrightarrow> unmap_frame s1 pt s2 \<Longrightarrow> unmap_frame s pt s2"
  using tree_step_trans [of s pt s1 s2] unfolding unmap_frame_def by metis

lemma kfree_page_frame [simp]: "pte (kfree_page p s) = pte s" "page (kfree_page p s) = page s" "fresh (kfree_page p s) = fresh s"
  "vmcalls (kfree_page p s) = vmcalls s @ [Kfree_page p]"
  by (simp_all add: kfree_page_def)

lemma tab_cong: "pte s' = pte s \<Longrightarrow> tab s' pt p = tab s pt p"
  by (induction p) (simp_all split: option.splits)

lemma pte_cong:
  assumes "pte s' = pte s" and "fresh s' = fresh s"
  shows "pgtab_ok s' pt = pgtab_ok s pt" and "lookup s' pt v = lookup s pt v" and "tables s' pt = tables s pt"
  unfolding pgtab_ok_def lookup_def leaf_pte_def tables_def tab_cong [OF assms(1)] assms by (rule refl)+

lemma unmap_step:
  fixes do_free :: bool
  assumes ok: "pgtab_ok s pt" and w: "walk pt a False s = Inr (s0, Some (t, k))"
  defines "s1 \<equiv> (if do_free then kfree_page (PTE2PA (pte s t k)) s else s)"
  shows "unmap_frame s pt (set_pte t k 0 s1)" and "pte s t k = lookup s pt a"
    and "v < MAXVA \<Longrightarrow> lookup (set_pte t k 0 s1) pt v = (if vpn v = vpn a then 0 else lookup s pt v)"
    and "vmcalls (set_pte t k 0 s1) = vmcalls s @ (if do_free then [Kfree_page (PTE2PA (lookup s pt a))] else [])"
proof -
  have a: "a < MAXVA" by (rule walk_below [OF w])
  have t: "tab s pt [PX 1 a, PX 2 a] = Some t" and k: "k = PX 0 a"
    using w walk_lookup [OF a, of pt s] by (cases "tab s pt [PX 1 a, PX 2 a]"; simp)+
  show e: "pte s t k = lookup s pt a" unfolding lookup_def leaf_pte_def t k by simp
  have s1: "pte s1 = pte s" "fresh s1 = fresh s" "page s1 = page s" by (simp_all add: s1_def)
  note c = pte_cong [OF s1(1,2)]
  have ok1: "pgtab_ok s1 pt" using ok c(1) by simp
  have t1: "tab s1 pt [PX 1 a, PX 2 a] = Some t" unfolding tab_cong [OF s1(1)] by (rule t)
  have "tree_step s1 pt (set_pte t k 0 s1)" by (rule leaf_write(1) [OF ok1 path_ok_va _ t1]) simp
  then have "tree_step s pt (set_pte t k 0 s1)" unfolding tree_step_def c(3) s1 .
  moreover have "tab (set_pte t k 0 s1) pt q = tab s pt q" if "path_ok q" for q
    using tab_leaf_write [OF ok1 path_ok_va _ t1 that] tab_cong [OF s1(1)] by simp
  ultimately show "unmap_frame s pt (set_pte t k 0 s1)" by (simp add: unmap_frame_def s1 set_pte_def)
  show "vmcalls (set_pte t k 0 s1) = vmcalls s @ (if do_free then [Kfree_page (PTE2PA (lookup s pt a))] else [])"
    by (simp add: s1_def e)
  assume "v < MAXVA"
  from lookup_write [OF ok1 t1 a this, of 0] show "lookup (set_pte t k 0 s1) pt v = (if vpn v = vpn a then 0 else lookup s pt v)"
    unfolding k c(2) .
qed

lemma uvmunmap_from_clears:
  assumes "pgtab_ok s pt" and "aligned a" and "unat a + n * 4096 \<le> 2 ^ 38" and "lim = a + of_nat n * PGSZ"
    and "\<And>v. v < MAXVA \<Longrightarrow> vpn a \<le> vpn v \<Longrightarrow> vpn v < vpn a + n \<Longrightarrow> PTE_FLAGS (lookup s pt v) \<noteq> PTE_V"
  shows "\<exists>s'. uvmunmap_from pt a lim do_free s = Inr s' \<and> unmap_frame s pt s'
    \<and> vmcalls s' = vmcalls s @ (if do_free then map Kfree_page (mapped_pages s pt a n) else [])
    \<and> (\<forall>v. v < MAXVA \<longrightarrow> lookup s' pt v =
         (if vpn a \<le> vpn v \<and> vpn v < vpn a + n \<and> lookup s pt v AND PTE_V \<noteq> 0 then 0 else lookup s pt v))"
  using assms
proof (induction n arbitrary: a s)
  case 0
  have "uvmunmap_from pt a lim do_free s = Inr s" using "0.prems"(4) by (subst uvmunmap_from.simps) simp
  then show ?case using unmap_frame_refl [OF "0.prems"(1)] by (auto simp: mapped_pages_def)
next
  case (Suc n)
  have a: "a < MAXVA" using Suc.prems(3) by (simp add: word_less_nat_alt)
  have u: "unat a + 4096 \<le> 2 ^ 38" using Suc.prems(3) by simp
  note np = next_page [OF u]
  have "unat lim = unat a + Suc n * 4096"
  proof -
    have "unat (of_nat (Suc n) * PGSZ :: u64) = Suc n * 4096" using Suc.prems(3) by (simp add: unat_word_ariths unat_of_nat)
    then show ?thesis using Suc.prems(3) unfolding Suc.prems(4) by (simp add: unat_word_ariths)
  qed
  then have lt: "a < lim" by (simp add: word_less_nat_alt)
  have c: "unat (a + PGSZ) + n * 4096 \<le> 2 ^ 38" using Suc.prems(3) np(1) by simp
  have d: "lim = a + PGSZ + of_nat n * PGSZ" using Suc.prems(4) by (simp add: algebra_simps)
  have w0: "walk pt a False s = Inr (s, map_option (\<lambda>t. (t, PX 0 a)) (tab s pt [PX 1 a, PX 2 a]))" by (rule walk_lookup [OF a])
  show ?case
  proof (cases "lookup s pt a AND PTE_V = 0")
    case True
    have m: "uvmunmap_from pt a lim do_free s = uvmunmap_from pt (a + PGSZ) lim do_free s"
    proof (cases "tab s pt [PX 1 a, PX 2 a]")
      case None
      then show ?thesis using lt w0 by (subst uvmunmap_from.simps) (simp del: tab.simps)
    next
      case (Some t)
      then have "pte s t (PX 0 a) AND PTE_V = 0" using True unfolding lookup_def leaf_pte_def Some by simp
      then show ?thesis using lt w0 Some by (subst uvmunmap_from.simps) (simp del: tab.simps)
    qed
    have e: "PTE_FLAGS (lookup s pt v) \<noteq> PTE_V" if "v < MAXVA" "vpn (a + PGSZ) \<le> vpn v" "vpn v < vpn (a + PGSZ) + n" for v
      using Suc.prems(5) that np(2) by simp
    have l: "lookup s pt v AND PTE_V = 0" if "v < MAXVA" "vpn v = vpn a" for v
      using True lookup_vpn [OF that(1) a that(2)] by simp
    show ?thesis
      using Suc.IH [OF Suc.prems(1) np(3) [OF Suc.prems(2)] c d e] True l
      unfolding m mapped_pages_Suc np(2) by (auto simp: Suc_le_eq order_le_less)
  next
    case False
    obtain t where t: "tab s pt [PX 1 a, PX 2 a] = Some t"
      using False unfolding lookup_def leaf_pte_def by (cases "tab s pt [PX 1 a, PX 2 a]") auto
    let ?k = "PX 0 a"
    have w: "walk pt a False s = Inr (s, Some (t, ?k))" using w0 t by simp
    let ?s = "set_pte t ?k 0 (if do_free then kfree_page (PTE2PA (pte s t ?k)) s else s)"
    note st = unmap_step(1) [OF Suc.prems(1) w, where do_free = do_free] unmap_step(2) [OF Suc.prems(1) w]
      unmap_step(3,4) [OF Suc.prems(1) w, where do_free = do_free]
    have "PTE_FLAGS (pte s t ?k) \<noteq> PTE_V" unfolding st(2) by (rule Suc.prems(5) [OF a]) simp_all
    then have m: "uvmunmap_from pt a lim do_free s = uvmunmap_from pt (a + PGSZ) lim do_free ?s"
      using lt w False st(2) by (subst uvmunmap_from.simps) simp
    have e: "PTE_FLAGS (lookup ?s pt v) \<noteq> PTE_V" if v: "v < MAXVA" "vpn (a + PGSZ) \<le> vpn v" "vpn v < vpn (a + PGSZ) + n" for v
      using st(3) [OF v(1)] Suc.prems(5) [OF v(1)] v(2,3) np(2) by simp
    have mp: "mapped_pages ?s pt (a + PGSZ) n = mapped_pages s pt (a + PGSZ) n"
      by (rule mapped_pages_cong) (simp add: st(3) page_unat [OF c] np(2))
    from Suc.IH [OF unmap_frameD(2) [OF st(1)] np(3) [OF Suc.prems(2)] c d e] obtain s' where
      s': "uvmunmap_from pt a lim do_free s = Inr s'" "unmap_frame ?s pt s'"
        "vmcalls s' = vmcalls ?s @ (if do_free then map Kfree_page (mapped_pages s pt (a + PGSZ) n) else [])"
      and lk: "\<And>v. v < MAXVA \<Longrightarrow> lookup s' pt v =
         (if vpn (a + PGSZ) \<le> vpn v \<and> vpn v < vpn (a + PGSZ) + n \<and> lookup ?s pt v AND PTE_V \<noteq> 0 then 0 else lookup ?s pt v)"
      unfolding m mp by blast
    have l: "lookup s pt v AND PTE_V \<noteq> 0" if "v < MAXVA" "vpn v = vpn a" for v
      using False lookup_vpn [OF that(1) a that(2)] by simp
    have "lookup s' pt v = (if vpn a \<le> vpn v \<and> vpn v < vpn a + Suc n \<and> lookup s pt v AND PTE_V \<noteq> 0 then 0 else lookup s pt v)"
      if v: "v < MAXVA" for v
      using lk [OF v] st(3) [OF v] l [OF v] np(2) by auto
    moreover have "vmcalls s' = vmcalls s @ (if do_free then map Kfree_page (mapped_pages s pt a (Suc n)) else [])"
      unfolding s'(3) st(4) mapped_pages_Suc using False by simp
    ultimately show ?thesis using s'(1) unmap_frame_trans [OF st(1) s'(2)] by (intro exI [of _ s']) simp
  qed
qed

section \<open>Correctness of the operations\<close>

lemma empty_pgtab_ok:
  assumes "pte s pt = (\<lambda>_. 0)" and "distinct (pt # fresh s)" and "\<And>x. x \<in> set (fresh s) \<Longrightarrow> aligned x"
  shows "pgtab_ok s pt" and "lookup s pt v = 0"
proof -
  have t: "tab s pt p = (if p = [] then Some pt else None)" for p
  proof (induction p)
    case (Cons k p)
    then show ?case using assms(1) by (cases p) simp_all
  qed simp
  then have "tables s pt \<subseteq> {pt}" by (auto simp: tables_def split: if_splits)
  then show "pgtab_ok s pt" using assms(2,3) t by (auto simp: pgtab_ok_def split: if_splits)
  show "lookup s pt v = 0" unfolding lookup_def leaf_pte_def t by simp
qed

lemma mappages_range:
  assumes "0 < sz" and "unat va + unat sz \<le> 2 ^ 38"
  defines "n \<equiv> vpn (va + sz - 1) - vpn va"
  shows "mappages pt va sz pa perm s = mappages_from pt (PGROUNDDOWN va) (PGROUNDDOWN va + of_nat n * PGSZ) pa perm s"
    and "unat (PGROUNDDOWN va) + n * 4096 < 2 ^ 38" and "vpn va + n = vpn (va + sz - 1)"
proof -
  have sz: "0 < unat sz" using assms(1) by (simp add: word_less_nat_alt)
  have m: "unat (sz - 1) = unat sz - 1" using assms(1) by (simp add: unat_minus_one word_gt_0)
  then have "unat (va + (sz - 1)) = unat va + (unat sz - 1)" using assms(2) sz by (subst unat_word_ariths) simp
  then have u: "unat (va + sz - 1) = unat va + unat sz - 1" using sz by (simp add: add_diff_eq)
  have le: "vpn va \<le> vpn (va + sz - 1)" using sz by (simp add: vpn_def u div_le_mono)
  then show e: "vpn va + n = vpn (va + sz - 1)" by (simp add: n_def)
  have p: "unat (PGROUNDDOWN x) = vpn x * 4096" for x by (simp add: PGROUNDDOWN_unat vpn_def)
  have "vpn (va + sz - 1) * 4096 \<le> unat va + unat sz - 1" unfolding vpn_def u by simp
  then have "(vpn va + n) * 4096 < 2 ^ 38" using assms(2) sz unfolding e by linarith
  then show b: "unat (PGROUNDDOWN va) + n * 4096 < 2 ^ 38" unfolding p by (simp add: algebra_simps)
  have "unat (PGROUNDDOWN (va + sz - 1)) = unat (PGROUNDDOWN va + of_nat n * PGSZ)"
    unfolding page_last [OF b] p e [symmetric] by (simp add: algebra_simps)
  then have "PGROUNDDOWN (va + sz - 1) = PGROUNDDOWN va + of_nat n * PGSZ" by (simp only: word_eq_iff_unsigned [where 'a = nat])
  then show "mappages pt va sz pa perm s = mappages_from pt (PGROUNDDOWN va) (PGROUNDDOWN va + of_nat n * PGSZ) pa perm s"
    by (simp add: mappages_def)
qed

text \<open>A page table with no entry and nine free pages, for the examples.\<close>

definition empty_vm :: vmstate where
  "empty_vm = \<lparr>pte = \<lambda>_ _. 0, page = \<lambda>_ _. 0,
     fresh = [0x80002000, 0x80003000, 0x80004000, 0x80005000, 0x80006000, 0x80007000, 0x80008000, 0x80009000, 0x8000A000],
     refcnt = \<lambda>_. 0, vmcalls = []\<rparr>"

abbreviation empty_pt :: u64 where "empty_pt \<equiv> 0x80001000"

lemma empty_vm_ok: "pgtab_ok empty_vm empty_pt" "lookup empty_vm empty_pt v = 0"
proof -
  have "pte empty_vm empty_pt = (\<lambda>_. 0)" "distinct (empty_pt # fresh empty_vm)" "\<And>x. x \<in> set (fresh empty_vm) \<Longrightarrow> aligned x"
    by (auto simp: empty_vm_def aligned_def)
  from empty_pgtab_ok [OF this] show "pgtab_ok empty_vm empty_pt" "lookup empty_vm empty_pt v = 0" by blast+
qed

text \<open>
  C7: \<open>mappages\<close> on a well-formed page table with enough free pages. When no page of the range is mapped, it
  returns 0 and afterwards the page of number \<open>vpn va + i\<close> has the entry for the physical page \<open>pa + i * PGSIZE\<close>
  with the permissions and the valid bit, every other address below \<open>MAXVA\<close> has the entry it had, and the table is
  well-formed again. When a page of the range is mapped it panics with \<open>remap\<close>.
\<close>

theorem mappages_maps:
  assumes "pgtab_ok s pt" and "0 < sz" and "unat va + unat sz \<le> 2 ^ 38"
    and "2 * Suc (vpn (va + sz - 1) - vpn va) \<le> length (fresh s)"
  shows "if \<exists>v < MAXVA. vpn va \<le> vpn v \<and> vpn v \<le> vpn (va + sz - 1) \<and> lookup s pt v AND PTE_V \<noteq> 0
    then mappages pt va sz pa perm s = Inl ''remap''
    else \<exists>s'. mappages pt va sz pa perm s = Inr (s', 0) \<and> pgtab_ok s' pt
      \<and> (\<forall>v. v < MAXVA \<longrightarrow> lookup s' pt v =
           (if vpn va \<le> vpn v \<and> vpn v \<le> vpn (va + sz - 1) then PA2PTE (pa + of_nat (vpn v - vpn va) * PGSZ) OR perm OR PTE_V
            else lookup s pt v))"
proof -
  let ?n = "vpn (va + sz - 1) - vpn va"
  note r = mappages_range [OF assms(2,3)]
  show ?thesis
  proof (cases "\<exists>v < MAXVA. vpn va \<le> vpn v \<and> vpn v \<le> vpn (va + sz - 1) \<and> lookup s pt v AND PTE_V \<noteq> 0")
    case True
    then obtain v where v: "v < MAXVA" "vpn va \<le> vpn v" "vpn v \<le> vpn va + ?n" "lookup s pt v AND PTE_V \<noteq> 0"
      unfolding r(3) by blast
    show ?thesis
      using True mappages_from_remaps [OF assms(1) r(2) refl v(1) _ _ v(4) assms(4)] v(2,3) r(1) by simp
  next
    case False
    then have f: "lookup s pt v AND PTE_V = 0"
      if "v < MAXVA" "vpn (PGROUNDDOWN va) \<le> vpn v" "vpn v \<le> vpn (PGROUNDDOWN va) + ?n" for v
      using that unfolding vpn_PGROUNDDOWN r(3) by blast
    obtain s' where "mappages pt va sz pa perm s = Inr (s', 0)" "map_frame s pt s'"
      "\<forall>v. v < MAXVA \<longrightarrow> lookup s' pt v = (if vpn va \<le> vpn v \<and> vpn v \<le> vpn (va + sz - 1)
         then PA2PTE (pa + of_nat (vpn v - vpn va) * PGSZ) OR perm OR PTE_V else lookup s pt v)"
      using mappages_from_maps [OF assms(1) aligned_PGROUNDDOWN r(2) refl f assms(4), of pa perm]
      unfolding vpn_PGROUNDDOWN r(3) r(1) [symmetric] by blast
    then show ?thesis using False map_frameD(2) by auto
  qed
qed

lemma vpn_eval [simp]: "vpn (numeral k) = unat (numeral k :: u64) div 4096" "vpn 0 = 0"
  by (simp_all add: vpn_def)

theorem mappages_maps_witness:
  "\<exists>s'. mappages empty_pt 0x1800 0x2000 0x87000000 6 empty_vm = Inr (s', 0)
     \<and> lookup s' empty_pt 0x3ABC = PA2PTE 0x87002000 OR 6 OR PTE_V \<and> lookup s' empty_pt 0x4000 = 0"
proof -
  let ?P = "\<exists>v < MAXVA. vpn 0x1800 \<le> vpn v \<and> vpn v \<le> vpn (0x1800 + 0x2000 - 1) \<and> lookup empty_vm empty_pt v AND PTE_V \<noteq> 0"
  have np: "\<not> ?P" by (simp add: empty_vm_ok)
  have "(0 :: u64) < 0x2000" "unat (0x1800 :: u64) + unat (0x2000 :: u64) \<le> 2 ^ 38"
    "2 * Suc (vpn (0x1800 + 0x2000 - 1) - vpn 0x1800) \<le> length (fresh empty_vm)" by (simp_all add: empty_vm_def)
  from mappages_maps [OF empty_vm_ok(1) this, of "0x87000000" 6] obtain s' where
    m: "mappages empty_pt 0x1800 0x2000 0x87000000 6 empty_vm = Inr (s', 0)"
    and l: "\<forall>v. v < MAXVA \<longrightarrow> lookup s' empty_pt v = (if vpn 0x1800 \<le> vpn v \<and> vpn v \<le> vpn (0x1800 + 0x2000 - 1)
      then PA2PTE (0x87000000 + of_nat (vpn v - vpn 0x1800) * PGSZ) OR 6 OR PTE_V else lookup empty_vm empty_pt v)"
    unfolding if_not_P [OF np] by blast
  show ?thesis using m l [rule_format, of "0x3ABC"] l [rule_format, of "0x4000"] by (simp add: empty_vm_ok)
qed

text \<open>
  C15: \<open>uvmunmap\<close> of a range of leaf entries below \<open>MAXVA\<close> never panics: it clears every valid entry of the range
  and no other entry of the table, which stays well-formed, and with \<open>do_free\<close> calls \<open>kfree\<close> once for each page that
  a valid entry of the range refers to, in the order of the addresses.
\<close>

theorem uvmunmap_clears:
  assumes "pgtab_ok s pt" and "aligned va" and "unat va + unat npages * 4096 \<le> 2 ^ 38"
    and "\<And>v. v < MAXVA \<Longrightarrow> vpn va \<le> vpn v \<Longrightarrow> vpn v < vpn va + unat npages \<Longrightarrow> PTE_FLAGS (lookup s pt v) \<noteq> PTE_V"
  shows "\<exists>s'. uvmunmap pt va npages do_free s = Inr s' \<and> pgtab_ok s' pt
    \<and> vmcalls s' = vmcalls s @ (if do_free then map Kfree_page (mapped_pages s pt va (unat npages)) else [])
    \<and> (\<forall>v. v < MAXVA \<longrightarrow> lookup s' pt v =
         (if vpn va \<le> vpn v \<and> vpn v < vpn va + unat npages \<and> lookup s pt v AND PTE_V \<noteq> 0 then 0 else lookup s pt v))"
proof -
  have "uvmunmap pt va npages do_free s = uvmunmap_from pt va (va + npages * PGSZ) do_free s"
    using assms(2) by (simp add: uvmunmap_def aligned_def)
  then show ?thesis
    using uvmunmap_from_clears [OF assms(1-3) _ assms(4), of "va + npages * PGSZ" do_free] unmap_frameD(2) by auto
qed

theorem uvmunmap_clears_witness:
  "\<exists>s s'. mappages empty_pt 0x1000 PGSZ 0x87000000 22 empty_vm = Inr (s, 0) \<and> uvmunmap empty_pt 0 3 True s = Inr s'
     \<and> vmcalls s' = [Kfree_page 0x87000000] \<and> lookup s' empty_pt 0x1000 = 0"
proof -
  have a: "aligned 0x1000" "(0x1000 :: u64) < MAXVA" "lookup empty_vm empty_pt 0x1000 AND PTE_V = 0"
    by (simp_all add: aligned_def empty_vm_ok)
  obtain s where m: "mappages empty_pt 0x1000 PGSZ 0x87000000 22 empty_vm = Inr (s, 0)" "map_frame empty_vm empty_pt s"
    and l0: "\<And>v. v < MAXVA \<Longrightarrow> lookup s empty_pt v = (if vpn v = 1 then PA2PTE 0x87000000 OR 22 OR PTE_V else 0)"
  proof (cases rule: mappages_one [OF empty_vm_ok(1) a, of "0x87000000" 22, case_names mapped nomem])
    case (mapped s)
    show ?thesis by (rule that [OF mapped(1,2)]) (simp add: mapped(4) empty_vm_ok)
  next
    case (nomem s)
    then show ?thesis by (simp add: empty_vm_def)
  qed
  have e: "PA2PTE 0x87000000 OR 22 OR PTE_V = 0x21C00017" by (simp add: PA2PTE_def push_bit_eq_mult drop_bit_eq_div)
  have l: "lookup s empty_pt v = (if vpn v = 1 then 0x21C00017 else 0)" if "v < MAXVA" for v using l0 [OF that] unfolding e .
  have mp: "mapped_pages s empty_pt 0 3 = [0x87000000]"
    by (simp add: mapped_pages_def l upt_rec PTE2PA_def push_bit_eq_mult drop_bit_eq_div)
  have f: "PTE_FLAGS (lookup s empty_pt v) \<noteq> PTE_V" if "v < MAXVA" for v using that by (simp add: l PTE_FLAGS_def)
  have "\<exists>s'. uvmunmap empty_pt 0 3 True s = Inr s' \<and> pgtab_ok s' empty_pt
    \<and> vmcalls s' = vmcalls s @ (if True then map Kfree_page (mapped_pages s empty_pt 0 (unat (3 :: u64))) else [])
    \<and> (\<forall>v. v < MAXVA \<longrightarrow> lookup s' empty_pt v =
         (if vpn 0 \<le> vpn v \<and> vpn v < vpn 0 + unat (3 :: u64) \<and> lookup s empty_pt v AND PTE_V \<noteq> 0 then 0 else lookup s empty_pt v))"
    by (rule uvmunmap_clears) (use f map_frameD(2) [OF m(2)] in \<open>simp_all add: aligned_def\<close>)
  then obtain s' where s': "uvmunmap empty_pt 0 3 True s = Inr s'" "vmcalls s' = vmcalls s @ [Kfree_page 0x87000000]"
    "lookup s' empty_pt 0x1000 = 0" by (auto simp: mp l)
  moreover have "vmcalls s = []" using map_frameD(4) [OF m(2)] by (simp add: empty_vm_def)
  ultimately show ?thesis using m(1) by auto
qed

end
