(* ===== verification/Vm.thy ===== *)
theory Vm
  imports Page_Table
begin

text \<open>
  User memory, \<open>src/kernel/mm/vm.c\<close>, the copy-on-write routines of \<open>src/kernel/mm/kalloc.c\<close> and the page
  faults of \<open>usertrap\<close> with \<open>mmap_handler\<close> in \<open>src/kernel/interrupt/trap.c\<close>, over the page tables of \<open>Page_Table\<close>.
  Page-table pages and data pages are separate parts of the state: a page is used as the one or as the other.
\<close>

section \<open>Operations\<close>

definition zero_page :: "u64 \<Rightarrow> vmstate \<Rightarrow> vmstate" where
  "zero_page p s = s\<lparr>page := (page s)(p := \<lambda>_. 0)\<rparr>"

definition copy_page :: "u64 \<Rightarrow> u64 \<Rightarrow> vmstate \<Rightarrow> vmstate" where
  "copy_page dst src s = s\<lparr>page := (page s)(dst := page s src)\<rparr>"

text \<open>\<open>memmove\<close> of bytes into a page from an offset.\<close>

definition write_page :: "u64 \<Rightarrow> nat \<Rightarrow> u8 list \<Rightarrow> vmstate \<Rightarrow> vmstate" where
  "write_page p off bs s =
     s\<lparr>page := (page s)(p := \<lambda>i. if off \<le> i \<and> i < off + length bs then bs ! (i - off) else page s p i)\<rparr>"

definition kvmmap :: "u64 \<Rightarrow> u64 \<Rightarrow> u64 \<Rightarrow> u64 \<Rightarrow> u64 \<Rightarrow> vmstate \<Rightarrow> vmstate kres" where
  "kvmmap kernel_pagetable va pa sz perm s =
     (case mappages kernel_pagetable va sz pa perm s of
        Inl e \<Rightarrow> Inl e
      | Inr (s', r) \<Rightarrow> (if r \<noteq> 0 then Inl ''kvmmap'' else Inr s'))"

definition kvmpa :: "u64 \<Rightarrow> u64 \<Rightarrow> vmstate \<Rightarrow> u64 kres" where
  "kvmpa kernel_pagetable va s =
     (case walk kernel_pagetable va False s of
        Inl e \<Rightarrow> Inl e
      | Inr (_, None) \<Rightarrow> Inl ''kvmpa''
      | Inr (_, Some (t, k)) \<Rightarrow>
          (if pte s t k AND PTE_V = 0 then Inl ''kvmpa'' else Inr (PTE2PA (pte s t k) + va mod PGSZ)))"

definition uvmcreate :: "vmstate \<Rightarrow> vmstate \<times> u64" where
  "uvmcreate s = (case fresh s of [] \<Rightarrow> (s, 0) | p # ps \<Rightarrow> (zero_table p (kalloc_page p ps s), p))"

text \<open>\<open>npages\<close> is an \<open>int\<close>, converted back to \<open>uint64\<close> for \<open>uvmunmap\<close>.\<close>

definition uvmdealloc :: "u64 \<Rightarrow> u64 \<Rightarrow> u64 \<Rightarrow> vmstate \<Rightarrow> (vmstate \<times> u64) kres" where
  "uvmdealloc pt oldsz newsz s =
     (if newsz \<ge> oldsz then Inr (s, oldsz)
      else if PGROUNDUP newsz < PGROUNDUP oldsz
      then let npages = ucast ((PGROUNDUP oldsz - PGROUNDUP newsz) div PGSZ) :: u32
           in case uvmunmap pt (PGROUNDUP newsz) (scast npages) True s of
                Inl e \<Rightarrow> Inl e
              | Inr s' \<Rightarrow> Inr (s', newsz)
      else Inr (s, newsz))"

lemma mappages_below: "mappages pt a sz pa perm s = Inr r \<Longrightarrow> a < MAXVA"
proof -
  assume "mappages pt a sz pa perm s = Inr r"
  then have "PGROUNDDOWN a < MAXVA"
    unfolding mappages_def by (subst (asm) mappages_from.simps) (auto dest: walk_below split: sum.splits)
  then have "unat a div 4096 * 4096 < 2 ^ 38" by (simp add: word_less_nat_alt PGROUNDDOWN_unat)
  then have "unat a div 4096 < 2 ^ 26" by simp
  then have "unat a < 2 ^ 38" by (simp add: div_less_iff_less_mult)
  then show ?thesis by (simp add: word_less_nat_alt)
qed

function uvmalloc_from :: "u64 \<Rightarrow> u64 \<Rightarrow> u64 \<Rightarrow> u64 \<Rightarrow> vmstate \<Rightarrow> (vmstate \<times> u64) kres" where
  "uvmalloc_from pt a oldsz newsz s =
     (if a < newsz
      then (case fresh s of
              [] \<Rightarrow> map_sum id (\<lambda>(s', _). (s', 0)) (uvmdealloc pt a oldsz s)
            | mem # ps \<Rightarrow>
                (case mappages pt a PGSZ mem (PTE_W OR PTE_X OR PTE_R OR PTE_U) (zero_page mem (kalloc_page mem ps s)) of
                   Inl e \<Rightarrow> Inl e
                 | Inr (s', r) \<Rightarrow>
                     (if r \<noteq> 0 then map_sum id (\<lambda>(s', _). (s', 0)) (uvmdealloc pt a oldsz (kfree_page mem s'))
                      else uvmalloc_from pt (a + PGSZ) oldsz newsz s')))
      else Inr (s, newsz))"
  by pat_completeness auto
termination
  by (relation "measure (\<lambda>(pt, a, oldsz, newsz, s). 2 ^ 38 - unat a)")
    (auto dest!: mappages_below simp: below_MAXVA word_less_nat_alt)

declare uvmalloc_from.simps [simp del]

definition uvmalloc :: "u64 \<Rightarrow> u64 \<Rightarrow> u64 \<Rightarrow> vmstate \<Rightarrow> (vmstate \<times> u64) kres" where
  "uvmalloc pt oldsz newsz s =
     (if newsz < oldsz then Inr (s, oldsz)
      else uvmalloc_from pt (PGROUNDUP oldsz) (PGROUNDUP oldsz) newsz s)"

text \<open>The recursion of \<open>freewalk\<close> down the tree, with a bound on its depth: \<open>None\<close> when the bound is too small.\<close>

definition entries :: "nat list" where
  "entries = [0..<512]"

definition points_down :: "u64 \<Rightarrow> bool" where
  "points_down e = (e AND PTE_V \<noteq> 0 \<and> e AND (PTE_R OR PTE_W OR PTE_X) = 0)"

primrec freewalk :: "nat \<Rightarrow> u64 \<Rightarrow> vmstate \<Rightarrow> vmstate option" where
  "freewalk 0 pt s = None"
| "freewalk (Suc d) pt s =
     map_option (kfree_page pt)
       (fold (\<lambda>i r. case r of
            None \<Rightarrow> None
          | Some s \<Rightarrow>
              (if points_down (pte s pt i)
               then map_option (set_pte pt i 0) (freewalk d (PTE2PA (pte s pt i)) s)
               else Some s)) entries (Some s))"

declare freewalk.simps(2) [simp del]

definition uvmfree :: "nat \<Rightarrow> u64 \<Rightarrow> u64 \<Rightarrow> vmstate \<Rightarrow> vmstate option kres" where
  "uvmfree d pt sz s =
     (case (if 0 < sz then uvmunmap pt 0 (PGROUNDUP sz div PGSZ) True s else Inr s) of
        Inl e \<Rightarrow> Inl e
      | Inr s' \<Rightarrow> Inr (freewalk d pt s'))"

function uvmcopy_from :: "u64 \<Rightarrow> u64 \<Rightarrow> u64 \<Rightarrow> u64 \<Rightarrow> vmstate \<Rightarrow> (vmstate \<times> int) kres" where
  "uvmcopy_from old new i sz s =
     (if i < sz
      then (case walk old i False s of
              Inl e \<Rightarrow> Inl e
            | Inr (_, None) \<Rightarrow> uvmcopy_from old new (i + PGSZ) sz s
            | Inr (_, Some (t, k)) \<Rightarrow>
                (if pte s t k AND PTE_V = 0 then uvmcopy_from old new (i + PGSZ) sz s
                 else
                   let pa = PTE2PA (pte s t k);
                       flags = PTE_FLAGS (pte s t k);
                       cow = (flags OR PTE_F) AND NOT PTE_W;
                       s1 = (if flags AND PTE_W \<noteq> 0 then set_pte t k (PA2PTE pa OR cow) s else s)
                   in (case mappages new i PGSZ pa (if flags AND PTE_W \<noteq> 0 then cow else flags) s1 of
                         Inl e \<Rightarrow> Inl e
                       | Inr (s2, r) \<Rightarrow>
                           (if r \<noteq> 0 then map_sum id (\<lambda>s3. (s3, - 1)) (uvmunmap new 0 (i div PGSZ) True s2)
                            else uvmcopy_from old new (i + PGSZ) sz (kaddref_page pa s2)))))
      else Inr (s, 0))"
  by pat_completeness auto
termination
  by (relation "measure (\<lambda>(old, new, i, sz, s). 2 ^ 38 - unat i)")
    (auto dest!: walk_below simp: below_MAXVA word_less_nat_alt)

declare uvmcopy_from.simps [simp del]

definition uvmcopy :: "u64 \<Rightarrow> u64 \<Rightarrow> u64 \<Rightarrow> vmstate \<Rightarrow> (vmstate \<times> int) kres" where
  "uvmcopy old new sz s = uvmcopy_from old new 0 sz s"

definition uvmclear :: "u64 \<Rightarrow> u64 \<Rightarrow> vmstate \<Rightarrow> vmstate kres" where
  "uvmclear pt va s =
     (case walk pt va False s of
        Inl e \<Rightarrow> Inl e
      | Inr (_, None) \<Rightarrow> Inl ''uvmclear''
      | Inr (_, Some (t, k)) \<Rightarrow> Inr (set_pte t k (pte s t k AND NOT PTE_U) s))"

definition cowpage :: "u64 \<Rightarrow> u64 \<Rightarrow> vmstate \<Rightarrow> int" where
  "cowpage pt va s =
     (if va \<ge> MAXVA then - 1
      else (case snd (walk_from 2 pt va False s) of
              None \<Rightarrow> - 1
            | Some (t, k) \<Rightarrow>
                (if pte s t k AND PTE_V = 0 then - 1 else if pte s t k AND PTE_F \<noteq> 0 then 0 else - 1)))"

text \<open>\<open>walk\<close> finds an entry whenever \<open>walkaddr\<close> has found the page.\<close>

definition cowalloc :: "u64 \<Rightarrow> u64 \<Rightarrow> vmstate \<Rightarrow> (vmstate \<times> u64) kres" where
  "cowalloc pt va s =
     (if va AND 4095 \<noteq> 0 then Inr (s, 0)
      else let pa = walkaddr pt va s
        in if pa = 0 then Inr (s, 0)
           else (case walk pt va False s of
                   Inl e \<Rightarrow> Inl e
                 | Inr (_, None) \<Rightarrow> Inl ''kerneltrap''
                 | Inr (_, Some (t, k)) \<Rightarrow>
                     (if refcnt s pa = 1 then Inr (set_pte t k ((pte s t k OR PTE_W) AND NOT PTE_F) s, pa)
                      else (case fresh s of
                              [] \<Rightarrow> Inr (s, 0)
                            | mem # ps \<Rightarrow>
                                let s1 = copy_page mem pa (kalloc_page mem ps s);
                                    s2 = set_pte t k (pte s t k AND NOT PTE_V) s1
                                in (case mappages pt va PGSZ mem ((PTE_FLAGS (pte s2 t k) OR PTE_W) AND NOT PTE_F) s2 of
                                      Inl e \<Rightarrow> Inl e
                                    | Inr (s3, r) \<Rightarrow>
                                        (if r \<noteq> 0 then Inr (set_pte t k (pte s3 t k OR PTE_V) (kfree_page mem s3), 0)
                                         else Inr (kfree_page (PGROUNDDOWN pa) s3, mem)))))))"

text \<open>The bytes of one turn of the copying loops.\<close>

definition page_chunk :: "u64 \<Rightarrow> nat \<Rightarrow> nat" where
  "page_chunk va len = min (4096 - unat (va - PGROUNDDOWN va)) len"

lemma page_offset: "unat (va - PGROUNDDOWN va) = unat va mod 4096"
proof -
  have "unat (PGROUNDDOWN va) \<le> unat va" by (simp add: PGROUNDDOWN_unat)
  then have "unat (va - PGROUNDDOWN va) = unat va - unat (PGROUNDDOWN va)" by (simp add: unat_sub word_le_nat_alt)
  then show ?thesis by (simp add: PGROUNDDOWN_unat minus_div_mult_eq_mod)
qed

lemma page_chunk_pos: "0 < len \<Longrightarrow> 0 < page_chunk va len"
  by (simp add: page_chunk_def page_offset)

function copyout :: "u64 \<Rightarrow> u64 \<Rightarrow> u8 list \<Rightarrow> vmstate \<Rightarrow> (vmstate \<times> int) kres" where
  "copyout pt dstva src s =
     (if src = [] then Inr (s, 0)
      else let va0 = PGROUNDDOWN dstva
        in case (if cowpage pt va0 s = 0 then cowalloc pt va0 s else Inr (s, walkaddr pt va0 s)) of
             Inl e \<Rightarrow> Inl e
           | Inr (s', pa0) \<Rightarrow>
               (if pa0 = 0 then Inr (s', - 1)
                else let n = page_chunk dstva (length src)
                  in copyout pt (va0 + PGSZ) (drop n src) (write_page pa0 (unat (dstva - va0)) (take n src) s')))"
  by pat_completeness auto
termination
  by (relation "measure (\<lambda>(pt, dstva, src, s). length src)") (simp_all add: page_chunk_pos)

declare copyout.simps [simp del]

text \<open>The result of \<open>copyin\<close> and \<open>copyinstr\<close> and the bytes that they have stored at the destination.\<close>

function copyin :: "u64 \<Rightarrow> u64 \<Rightarrow> nat \<Rightarrow> vmstate \<Rightarrow> int \<times> u8 list" where
  "copyin pt srcva len s =
     (if len = 0 then (0, [])
      else let va0 = PGROUNDDOWN srcva; pa0 = walkaddr pt va0 s
        in if pa0 = 0 then (- 1, [])
           else let n = page_chunk srcva len; (r, bs) = copyin pt (va0 + PGSZ) (len - n) s
             in (r, map (\<lambda>i. page s pa0 (unat (srcva - va0) + i)) [0..<n] @ bs))"
  by pat_completeness auto
termination
  by (relation "measure (\<lambda>(pt, srcva, len, s). len)") (simp_all add: page_chunk_pos)

declare copyin.simps [simp del]

function copyinstr :: "u64 \<Rightarrow> u64 \<Rightarrow> nat \<Rightarrow> vmstate \<Rightarrow> int \<times> u8 list" where
  "copyinstr pt srcva mx s =
     (if mx = 0 then (- 1, [])
      else let va0 = PGROUNDDOWN srcva; pa0 = walkaddr pt va0 s
        in if pa0 = 0 then (- 1, [])
           else let n = page_chunk srcva mx;
                    bs = map (\<lambda>i. page s pa0 (unat (srcva - va0) + i)) [0..<n]
             in if 0 \<in> set bs then (0, takeWhile (\<lambda>b. b \<noteq> 0) bs @ [0])
                else let (r, bs') = copyinstr pt (va0 + PGSZ) (mx - n) s in (r, bs @ bs'))"
  by pat_completeness auto
termination
  by (relation "measure (\<lambda>(pt, srcva, mx, s). mx)") (simp_all add: page_chunk_pos)

declare copyinstr.simps [simp del]

text \<open>
  A mapped area of a process, with the permissions of its file. The fields of type \<open>int\<close> are 32 bits wide and
  are sign-extended where the code adds them to an address.
\<close>

record vm_area =
  vma_used :: bool
  vma_addr :: u64
  vma_len :: u32
  vma_prot :: u32
  vma_offset :: u32
  vfile_readable :: bool
  vfile_writable :: bool

definition in_area :: "u64 \<Rightarrow> vm_area \<Rightarrow> bool" where
  "in_area va v = (vma_used v \<and> vma_addr v \<le> va \<and> va \<le> vma_addr v + scast (vma_len v) - 1)"

definition vma_flags :: "vm_area \<Rightarrow> u64" where
  "vma_flags v = PTE_U OR (if vma_prot v AND 1 \<noteq> 0 then PTE_R else 0) OR (if vma_prot v AND 2 \<noteq> 0 then PTE_W else 0)
     OR (if vma_prot v AND 4 \<noteq> 0 then PTE_X else 0)"

text \<open>
  \<open>mmap_handler\<close>. The faulting address passes through an \<open>int\<close>. \<open>rd v off\<close> is what \<open>readi\<close> returns for a page at an
  offset of the area's file, with the bytes that it stores.
\<close>

definition mmap_handler ::
  "u64 \<Rightarrow> vm_area list \<Rightarrow> (vm_area \<Rightarrow> u32 \<Rightarrow> int \<times> u8 list) \<Rightarrow> u64 \<Rightarrow> nat \<Rightarrow> vmstate \<Rightarrow> (vmstate \<times> int) kres" where
  "mmap_handler pt areas rd fault_va cause s =
     (let va = scast (ucast fault_va :: u32) :: u64
      in case find (in_area va) areas of
           None \<Rightarrow> Inr (s, - 1)
         | Some v \<Rightarrow>
             (if cause = 13 \<and> \<not> vfile_readable v then Inr (s, - 1)
              else if cause = 15 \<and> \<not> vfile_writable v then Inr (s, - 1)
              else (case fresh s of
                      [] \<Rightarrow> Inr (s, - 1)
                    | pa # ps \<Rightarrow>
                        (let s1 = zero_page pa (kalloc_page pa ps s);
                             (readbytes, bs) = rd v (ucast (scast (vma_offset v) + PGROUNDDOWN (va - vma_addr v)))
                         in if readbytes = 0 then Inr (kfree_page pa s1, - 1)
                            else (case mappages pt (PGROUNDDOWN va) PGSZ pa (vma_flags v) (write_page pa 0 bs s1) of
                                    Inl e \<Rightarrow> Inl e
                                  | Inr (s2, r) \<Rightarrow> (if r \<noteq> 0 then Inr (kfree_page pa s2, - 1) else Inr (s2, 0)))))))"

text \<open>A load or store page fault of \<open>usertrap\<close>: the result tells whether the process is killed. The arguments
  are the size of the process, the end of its shared memory, its stack pointer, its mapped areas and the cause. First
  the lazily allocated pages.\<close>

definition lazy_fault :: "u64 \<Rightarrow> u64 \<Rightarrow> u64 \<Rightarrow> u64 \<Rightarrow> u64 \<Rightarrow> vmstate \<Rightarrow> (vmstate \<times> bool) kres" where
  "lazy_fault pt sz shm sp fault_va s =
     (if PGROUNDUP sp - 1 < fault_va \<and> (fault_va < sz \<or> fault_va < shm) \<and> fresh s \<noteq> []
      then let pa = hd (fresh s)
        in (case mappages pt (PGROUNDDOWN fault_va) PGSZ pa (PTE_R OR PTE_W OR PTE_X OR PTE_U)
                   (zero_page pa (kalloc_page pa (tl (fresh s)) s)) of
              Inl e \<Rightarrow> Inl e
            | Inr (s', r) \<Rightarrow> (if r \<noteq> 0 then Inr (kfree_page pa s', True) else Inr (s', False)))
      else Inr (s, True))"

definition page_fault ::
  "u64 \<Rightarrow> u64 \<Rightarrow> u64 \<Rightarrow> u64 \<Rightarrow> vm_area list \<Rightarrow> (vm_area \<Rightarrow> u32 \<Rightarrow> int \<times> u8 list) \<Rightarrow> nat \<Rightarrow> u64 \<Rightarrow> vmstate \<Rightarrow> (vmstate \<times> bool) kres" where
  "page_fault pt sz shm sp areas rd cause fault_va s =
     (if cowpage pt fault_va s = 0
      then (if fault_va \<ge> sz then Inr (s, True)
            else (case cowalloc pt (PGROUNDDOWN fault_va) s of
                    Inl e \<Rightarrow> Inl e
                  | Inr (s', pa) \<Rightarrow> Inr (s', pa = 0)))
      else if PGROUNDUP sp - 1 < fault_va \<and> fault_va < sz
      then (case mmap_handler pt areas rd fault_va cause s of
              Inl e \<Rightarrow> Inl e
            | Inr (s', r) \<Rightarrow> (if r = 0 then Inr (s', False) else lazy_fault pt sz shm sp fault_va s'))
      else lazy_fault pt sz shm sp fault_va s)"

text \<open>\<open>argaddr\<close> of \<open>src/kernel/syscall.c\<close> for the address of a system call argument, which it allocates lazily.\<close>

definition argaddr :: "u64 \<Rightarrow> u64 \<Rightarrow> u64 \<Rightarrow> u64 \<Rightarrow> vmstate \<Rightarrow> (vmstate \<times> int) kres" where
  "argaddr pt sz sp ip s =
     (if walkaddr pt ip s = 0
      then (if PGROUNDUP sp - 1 < ip \<and> ip < sz
            then (case fresh s of
                    [] \<Rightarrow> Inr (s, - 1)
                  | pa # ps \<Rightarrow>
                      (case mappages pt (PGROUNDDOWN ip) PGSZ pa (PTE_R OR PTE_W OR PTE_X OR PTE_U)
                              (zero_page pa (kalloc_page pa ps s)) of
                         Inl e \<Rightarrow> Inl e
                       | Inr (s', r) \<Rightarrow> (if r \<noteq> 0 then Inr (kfree_page pa s', - 1) else Inr (s', 0))))
            else Inr (s, - 1))
      else Inr (s, 0))"

text \<open>\<open>growproc\<close> of \<open>src/kernel/proc/proc.c\<close>: the size passes through a \<open>uint\<close>. The result has the new size of the
  process and the value returned.\<close>

definition growproc :: "u64 \<Rightarrow> u64 \<Rightarrow> u32 \<Rightarrow> vmstate \<Rightarrow> (vmstate \<times> u64 \<times> int) kres" where
  "growproc pt psz n s =
     (let sz = ucast psz :: u32
      in if 0 < sint n
         then (case uvmalloc pt (ucast sz) (ucast (sz + n)) s of
                 Inl e \<Rightarrow> Inl e
               | Inr (s', r) \<Rightarrow>
                   (let sz = ucast r :: u32 in if sz = 0 then Inr (s', psz, - 1) else Inr (s', ucast sz, 0)))
         else if sint n < 0
         then (case uvmdealloc pt (ucast sz) (ucast (sz + n)) s of
                 Inl e \<Rightarrow> Inl e
               | Inr (s', r) \<Rightarrow> Inr (s', ucast (ucast r :: u32), 0))
         else Inr (s, ucast sz, 0))"

section \<open>Flags of an entry\<close>

lemma flag_bits:
  "x AND PTE_V = 0 \<longleftrightarrow> \<not> bit x 0" "x AND PTE_W = 0 \<longleftrightarrow> \<not> bit x 2" "x AND PTE_U = 0 \<longleftrightarrow> \<not> bit x 4" "x AND PTE_F = 0 \<longleftrightarrow> \<not> bit x 8"
  for x :: u64
  using and_exp_eq_0_iff_not_bit [of x 0] and_exp_eq_0_iff_not_bit [of x 2] and_exp_eq_0_iff_not_bit [of x 4]
    and_exp_eq_0_iff_not_bit [of x 8] by simp_all

lemma flag_consts: "bit PTE_V n \<longleftrightarrow> n = 0" "bit PTE_W n \<longleftrightarrow> n = 2" "bit PTE_F n \<longleftrightarrow> n = 8"
proof -
  have "PTE_W = 2 ^ 2" "PTE_F = 2 ^ 8" by simp_all
  then show "bit PTE_W n \<longleftrightarrow> n = 2" "bit PTE_F n \<longleftrightarrow> n = 8" by (simp_all only: bit_exp_iff possible_bit_word) auto
qed (simp add: bit_1_iff)

lemma bit_PA2PTE: "n < 10 \<Longrightarrow> \<not> bit (PA2PTE p) n"
  by (simp add: PA2PTE_def bit_simps)

lemma bit_FLAGS: "bit (PTE_FLAGS e) n \<longleftrightarrow> bit e n \<and> n < 10"
  by (auto simp: PTE_FLAGS_def mask10 bit_simps)

lemma PTE2PA_aligned [simp]: "aligned (PTE2PA e)"
  unfolding aligned_def by (rule bit_word_eqI) (auto simp: PTE2PA_def mask12 bit_simps)

lemma PTE2PA_eqI: "(\<And>n. 10 \<le> n \<Longrightarrow> n < 64 \<Longrightarrow> bit e n = bit f n) \<Longrightarrow> PTE2PA e = PTE2PA f"
  unfolding PTE2PA_def by (rule bit_word_eqI) (auto simp: bit_simps)

lemmas flag_simps = flag_bits flag_consts bit_PA2PTE bit_FLAGS bit_and_iff bit_or_iff bit_not_iff

section \<open>Reading through a page table\<close>

lemma walk_from_2: "snd (walk_from 2 pt va False s) = map_option (\<lambda>t. (t, PX 0 va)) (tab s pt [PX 1 va, PX 2 va])"
  using walk_from_lookup [of s pt "[]" pt 2 va] by (simp add: vpath_2)

lemma cowpage_lookup:
  "cowpage pt va s = (if va < MAXVA \<and> lookup s pt va AND PTE_V \<noteq> 0 \<and> lookup s pt va AND PTE_F \<noteq> 0 then 0 else - 1)"
  unfolding cowpage_def walk_from_2 lookup_def leaf_pte_def by (cases "tab s pt [PX 1 va, PX 2 va]") auto

lemma walkaddr_lookup:
  "walkaddr pt va s = (if va < MAXVA \<and> lookup s pt va AND PTE_V \<noteq> 0 \<and> lookup s pt va AND PTE_U \<noteq> 0 then PTE2PA (lookup s pt va) else 0)"
  unfolding walkaddr_def walk_from_2 lookup_def leaf_pte_def by (cases "tab s pt [PX 1 va, PX 2 va]") auto

text \<open>A page that the user can reach.\<close>

definition umapped :: "vmstate \<Rightarrow> u64 \<Rightarrow> u64 \<Rightarrow> bool" where
  "umapped s pt v = (v < MAXVA \<and> lookup s pt v AND PTE_V \<noteq> 0 \<and> lookup s pt v AND PTE_U \<noteq> 0)"

definition upage :: "vmstate \<Rightarrow> u64 \<Rightarrow> u64 \<Rightarrow> u64" where
  "upage s pt v = PTE2PA (lookup s pt v)"

lemma walkaddr_upage: "walkaddr pt va s = (if umapped s pt va then upage s pt va else 0)"
  by (simp add: walkaddr_lookup umapped_def upage_def)

text \<open>\<open>copyin\<close> reads nothing but the user pages of the table.\<close>

lemma copyin_cong:
  assumes "\<And>v. umapped s' pt' v = umapped s pt v" and "\<And>v. umapped s pt v \<Longrightarrow> upage s' pt' v = upage s pt v"
    and "\<And>v. umapped s pt v \<Longrightarrow> page s' (upage s pt v) = page s (upage s pt v)"
  shows "copyin pt' va len s' = copyin pt va len s"
proof (induction len arbitrary: va rule: less_induct)
  case (less len)
  let ?v = "PGROUNDDOWN va"
  have w: "walkaddr pt' ?v s' = walkaddr pt ?v s" using assms(1,2) by (simp add: walkaddr_upage)
  show ?case
  proof (cases "len = 0 \<or> walkaddr pt ?v s = 0")
    case True
    then show ?thesis using w by (subst (1 2) copyin.simps) (auto simp: Let_def)
  next
    case False
    then have u: "umapped s pt ?v" "walkaddr pt ?v s = upage s pt ?v" by (auto simp: walkaddr_upage split: if_splits)
    have "copyin pt' (?v + PGSZ) (len - page_chunk va len) s' = copyin pt (?v + PGSZ) (len - page_chunk va len) s"
      using False page_chunk_pos by (intro less.IH) simp
    then show ?thesis using False w assms(3) [OF u(1)] u(2) by (subst (1 2) copyin.simps) (simp add: Let_def)
  qed
qed

section \<open>Two page tables\<close>

definition two_trees :: "vmstate \<Rightarrow> u64 \<Rightarrow> u64 \<Rightarrow> bool" where
  "two_trees s a b = (pgtab_ok s a \<and> pgtab_ok s b \<and> tables s a \<inter> tables s b = {})"

lemma two_trees_sym: "two_trees s a b = two_trees s b a"
  by (auto simp: two_trees_def)

lemma tab_frame:
  assumes "\<And>x. x \<in> tables s pt \<Longrightarrow> pte s' x = pte s x"
  shows "path_ok p \<Longrightarrow> tab s' pt p = tab s pt p"
proof (induction p)
  case (Cons k p)
  have p: "path_ok p" by (rule path_ok_tl [OF Cons.prems])
  show ?case
  proof (cases "tab s pt p")
    case (Some t)
    then show ?thesis using Cons.IH [OF p] assms [OF tablesI [OF p Some]] by simp
  qed (simp add: Cons.IH [OF p])
qed simp

lemma two_trees_step:
  assumes two: "two_trees s a b" and st: "tree_step s a s'"
  shows "two_trees s' a b" and "lookup s' b v = lookup s b v"
proof -
  have ok: "pgtab_ok s a" "pgtab_ok s b" and dj: "tables s a \<inter> tables s b = {}" using two by (simp_all add: two_trees_def)
  have fb: "x \<notin> set (fresh s)" if "x \<in> tables s b" for x using ok(2) that by (auto simp: pgtab_ok_def)
  have pe: "pte s' x = pte s x" if "x \<in> tables s b" for x using tree_stepD(4) [OF st, of x] fb [OF that] dj that by blast
  have tb: "tab s' b p = tab s b p" if "path_ok p" for p by (rule tab_frame [OF _ that]) (rule pe)
  have tt: "tables s' b = tables s b" using tb by (auto simp: tables_def)
  have sub: "set (fresh s') \<subseteq> set (fresh s)" by (rule tree_step_fresh [OF st])
  have "distinct (fresh s')" using tree_stepD(1) [OF st] by (simp add: pgtab_ok_def)
  then have "pgtab_ok s' b"
    using ok(2) tb sub unfolding pgtab_ok_def tt by (intro conjI allI impI ballI) (auto, metis)
  moreover have "tables s' a \<inter> tables s' b = {}" unfolding tt using tree_stepD(3) [OF st] dj fb by blast
  ultimately show "two_trees s' a b" using tree_stepD(1) [OF st] by (simp add: two_trees_def)
  have "leaf_pte s' b [PX 1 v, PX 2 v] (PX 0 v) = leaf_pte s b [PX 1 v, PX 2 v] (PX 0 v)"
    using tb [OF path_ok_va [of v]] pe tablesI [OF path_ok_va [of v], of s b]
    unfolding leaf_pte_def by (cases "tab s b [PX 1 v, PX 2 v]") auto
  then show "lookup s' b v = lookup s b v" by (simp only: lookup_def)
qed

lemma two_trees_cong: "pte s' = pte s \<Longrightarrow> fresh s' = fresh s \<Longrightarrow> two_trees s' a b = two_trees s a b"
  using pte_cong [of s' s] by (simp add: two_trees_def)

end
