(* ===== verification/Vm_Cow.thy ===== *)
theory Vm_Cow
  imports Vm
begin

text \<open>
  Copy-on-write: what \<open>cowalloc\<close> does to a shared page, that a table whose shared pages are marked copy-on-write is
  isolated from another, that \<open>uvmcopy\<close> leaves parent and child so, and that \<open>copyin\<close> reads back what \<open>copyout\<close> wrote.
\<close>

section \<open>Breaking a copy-on-write page\<close>

lemma page_ops_frame [simp]:
  "pte (copy_page d p s) = pte s" "fresh (copy_page d p s) = fresh s" "refcnt (copy_page d p s) = refcnt s"
  "pte (write_page p off bs s) = pte s" "fresh (write_page p off bs s) = fresh s" "refcnt (write_page p off bs s) = refcnt s"
  "pte (kalloc_page p ps s) = pte s" "fresh (kalloc_page p ps s) = ps" "page (kalloc_page p ps s) = page s"
  "pte (kaddref_page p s) = pte s" "fresh (kaddref_page p s) = fresh s" "page (kaddref_page p s) = page s"
  by (simp_all add: copy_page_def write_page_def kalloc_page_def kaddref_page_def)

text \<open>The entry that \<open>cowalloc\<close> writes for a new page.\<close>

definition private_entry :: "u64 \<Rightarrow> u64 \<Rightarrow> u64" where
  "private_entry mem e = PA2PTE mem OR ((PTE_FLAGS (e AND NOT PTE_V) OR PTE_W) AND NOT PTE_F) OR PTE_V"

lemma private_entry_page: "aligned mem \<Longrightarrow> PTE2PA (private_entry mem e) = mem"
  unfolding private_entry_def by (rule PTE2PA_entry) (simp_all only: flag_simps, auto)

text \<open>Taking a page from the allocator keeps the tables.\<close>

lemma kalloc_tree:
  assumes ok: "pgtab_ok s pt" and fr: "fresh s = p # ps" and s': "pte s' = pte s" "fresh s' = ps"
  shows "tree_step s pt s'" and "lookup s' pt v = lookup s pt v" and "aligned p"
proof -
  have t: "tables s' pt = tables s pt" unfolding tables_def tab_cong [OF s'(1)] ..
  show "tree_step s pt s'"
  proof (rule tree_stepI [of _ _ 1])
    show "pgtab_ok s' pt" using ok unfolding pgtab_ok_def t s' tab_cong [OF s'(1)] fr list.set distinct.simps by blast
  qed (use s' t fr in auto)
  show "lookup s' pt v = lookup s pt v" unfolding lookup_def leaf_pte_def tab_cong [OF s'(1)] s'(1) ..
  show "aligned p" using ok fr by (simp add: pgtab_ok_def)
qed

lemma cowalloc_last:
  assumes ok: "pgtab_ok s pt" and va: "aligned va" "umapped s pt va" and rc: "refcnt s (upage s pt va) = 1"
    and nz: "upage s pt va \<noteq> 0"
  obtains s' where "cowalloc pt va s = Inr (s', upage s pt va)" "tree_step s pt s'" "page s' = page s"
    "refcnt s' = refcnt s" "fresh s' = fresh s"
    "\<forall>v. v < MAXVA \<longrightarrow> lookup s' pt v = (if vpn v = vpn va then (lookup s pt va OR PTE_W) AND NOT PTE_F else lookup s pt v)"
proof -
  have lt: "va < MAXVA" and e: "lookup s pt va AND PTE_V \<noteq> 0" using va(2) by (simp_all add: umapped_def)
  obtain t where w: "walk pt va False s = Inr (s, Some (t, PX 0 va))" and p: "pte s t (PX 0 va) = lookup s pt va"
    and t: "tab s pt [PX 1 va, PX 2 va] = Some t" by (rule walk_valid [OF lt e])
  let ?s = "set_pte t (PX 0 va) ((lookup s pt va OR PTE_W) AND NOT PTE_F) s"
  show ?thesis
  proof (rule that)
    show "cowalloc pt va s = Inr (?s, upage s pt va)"
      using va w p rc nz by (simp add: cowalloc_def aligned_def walkaddr_upage Let_def)
    show "tree_step s pt ?s" by (rule leaf_write(1) [OF ok path_ok_va _ t]) simp
    show "\<forall>v. v < MAXVA \<longrightarrow> lookup ?s pt v = (if vpn v = vpn va then (lookup s pt va OR PTE_W) AND NOT PTE_F else lookup s pt v)"
      using lookup_write [OF ok t lt] by blast
  qed simp_all
qed

lemma mappages_present:
  assumes "tab s pt [PX 1 a, PX 2 a] = Some t" and "aligned a" "a < MAXVA" and "pte s t (PX 0 a) AND PTE_V = 0"
  shows "mappages pt a PGSZ pa perm s = Inr (set_pte t (PX 0 a) (PA2PTE pa OR perm OR PTE_V) s, 0)"
proof -
  have u: "unat a + 0 * 4096 < 2 ^ 38" using assms(3) by (simp add: word_less_nat_alt)
  have "mappages pt a PGSZ pa perm s = mappages_from pt a a pa perm s"
    using last_page [OF assms(2) u] by (simp add: mappages_def PGROUNDDOWN_aligned [OF assms(2)])
  then show ?thesis using walk_present [OF assms(1,3), of True] assms(4) by (subst (asm) mappages_from.simps) simp
qed

lemma cowalloc_shared:
  assumes ok: "pgtab_ok s pt" and va: "aligned va" "umapped s pt va" and rc: "refcnt s (upage s pt va) \<noteq> 1"
    and nz: "upage s pt va \<noteq> 0" and fr: "fresh s = mem # ps"
  obtains s' where "cowalloc pt va s = Inr (s', mem)" "tree_step s pt s'" "fresh s' = ps"
    "page s' = (page s)(mem := page s (upage s pt va))"
    "refcnt s' = (refcnt s)(mem := 1, upage s pt va := ((refcnt s)(mem := 1)) (upage s pt va) - 1)"
    "vmcalls s' = vmcalls s @ [Kfree_page (upage s pt va)]"
    "\<forall>v. v < MAXVA \<longrightarrow> lookup s' pt v = (if vpn v = vpn va then private_entry mem (lookup s pt va) else lookup s pt v)"
proof -
  let ?pa = "upage s pt va"
  let ?e = "lookup s pt va"
  let ?k = "PX 0 va"
  have lt: "va < MAXVA" and e: "?e AND PTE_V \<noteq> 0" using va(2) by (simp_all add: umapped_def)
  obtain t where w: "walk pt va False s = Inr (s, Some (t, ?k))" and p: "pte s t ?k = ?e"
    and t: "tab s pt [PX 1 va, PX 2 va] = Some t" by (rule walk_valid [OF lt e])
  define s1 where "s1 = copy_page mem ?pa (kalloc_page mem ps s)"
  define s2 where "s2 = set_pte t ?k (?e AND NOT PTE_V) s1"
  define s3 where "s3 = set_pte t ?k (private_entry mem ?e) s2"
  have s1: "pte s1 = pte s" "fresh s1 = ps" by (simp_all add: s1_def)
  note k = kalloc_tree [OF ok fr s1]
  have t1: "tab s1 pt [PX 1 va, PX 2 va] = Some t" unfolding tab_cong [OF s1(1)] by (rule t)
  have ok1: "pgtab_ok s1 pt" by (rule tree_stepD(1) [OF k(1)])
  have st2: "tree_step s1 pt s2" unfolding s2_def by (rule leaf_write(1) [OF ok1 path_ok_va _ t1]) simp
  have ok2: "pgtab_ok s2 pt" by (rule tree_stepD(1) [OF st2])
  have t2: "tab s2 pt [PX 1 va, PX 2 va] = Some t" unfolding s2_def
    using tab_leaf_write [OF ok1 path_ok_va _ t1 path_ok_va, of ?k "?e AND NOT PTE_V" va] t1 by simp
  have p2: "pte s2 t ?k = ?e AND NOT PTE_V" by (simp add: s2_def set_pte_def)
  then have "pte s2 t ?k AND PTE_V = 0" by (simp add: flag_simps)
  from mappages_present [OF t2 va(1) lt this, of mem "(PTE_FLAGS (?e AND NOT PTE_V) OR PTE_W) AND NOT PTE_F"]
  have m: "mappages pt va PGSZ mem ((PTE_FLAGS (pte s2 t ?k) OR PTE_W) AND NOT PTE_F) s2 = Inr (s3, 0)"
    unfolding p2 s3_def private_entry_def .
  have st3: "tree_step s2 pt s3" unfolding s3_def by (rule leaf_write(1) [OF ok2 path_ok_va _ t2]) simp
  have pd: "PGROUNDDOWN ?pa = ?pa" by (simp add: upage_def PGROUNDDOWN_aligned)
  let ?s = "kfree_page ?pa s3"
  have s': "pte ?s = pte s3" "fresh ?s = fresh s3" by simp_all
  show ?thesis
  proof (rule that)
    show "cowalloc pt va s = Inr (?s, mem)"
      using va w p rc nz fr m [unfolded s2_def s1_def] pd by (simp add: cowalloc_def aligned_def walkaddr_upage Let_def)
    show "tree_step s pt ?s"
      using tree_step_trans [OF k(1) tree_step_trans [OF st2 st3]] unfolding tree_step_def pte_cong [OF s'] s' .
    show "fresh ?s = ps" by (simp add: s3_def s2_def s1)
    show "page ?s = (page s)(mem := page s ?pa)" by (simp add: s3_def s2_def s1_def copy_page_def)
    show "refcnt ?s = (refcnt s)(mem := 1, ?pa := ((refcnt s)(mem := 1)) ?pa - 1)"
      by (simp add: s3_def s2_def s1_def kfree_page_def kalloc_page_def)
    show "vmcalls ?s = vmcalls s @ [Kfree_page ?pa]" by (simp add: s3_def s2_def s1_def copy_page_def kalloc_page_def)
    show "\<forall>v. v < MAXVA \<longrightarrow> lookup ?s pt v = (if vpn v = vpn va then private_entry mem ?e else lookup s pt v)"
    proof (intro allI impI)
      fix v assume v: "v < MAXVA"
      have "lookup s3 pt v = (if vpn v = vpn va then private_entry mem ?e else lookup s2 pt v)"
        unfolding s3_def by (rule lookup_write [OF ok2 t2 lt v])
      moreover have "lookup s2 pt v = (if vpn v = vpn va then ?e AND NOT PTE_V else lookup s1 pt v)"
        unfolding s2_def by (rule lookup_write [OF ok1 t1 lt v])
      ultimately show "lookup ?s pt v = (if vpn v = vpn va then private_entry mem ?e else lookup s pt v)"
        using k(2) [of v] pte_cong(2) [OF s'] by simp
    qed
  qed
qed

section \<open>Isolation\<close>

text \<open>Nothing written through the user pages of one table is seen through the other: a page that both have is
  marked copy-on-write in the first, has more than one reference and one place in it, and the free pages are
  pages of neither.\<close>

definition apart :: "vmstate \<Rightarrow> u64 \<Rightarrow> u64 \<Rightarrow> bool" where
  "apart s a b = (two_trees s a b
     \<and> (\<forall>v w. umapped s a v \<and> umapped s b w \<and> upage s a v = upage s b w \<longrightarrow>
          lookup s a v AND PTE_F \<noteq> 0 \<and> refcnt s (upage s a v) \<noteq> 1
          \<and> (\<forall>u. umapped s a u \<and> upage s a u = upage s a v \<longrightarrow> vpn u = vpn v))
     \<and> (\<forall>w. umapped s b w \<longrightarrow> upage s b w \<notin> set (fresh s)))"

text \<open>What the second table shows.\<close>

definition same_view :: "vmstate \<Rightarrow> u64 \<Rightarrow> vmstate \<Rightarrow> bool" where
  "same_view s b s' = ((\<forall>v. lookup s' b v = lookup s b v)
     \<and> (\<forall>v. umapped s b v \<longrightarrow> page s' (upage s b v) = page s (upage s b v)))"

lemma same_view_umapped:
  assumes "same_view s b s'"
  shows "umapped s' b v = umapped s b v" and "upage s' b v = upage s b v"
  using assms by (simp_all add: same_view_def umapped_def upage_def)

lemma same_view_refl: "same_view s b s"
  by (simp add: same_view_def)

lemma same_view_trans: "same_view s b s1 \<Longrightarrow> same_view s1 b s2 \<Longrightarrow> same_view s b s2"
  using same_view_umapped [of s b s1] by (simp add: same_view_def)

lemma same_view_copyin: "same_view s b s' \<Longrightarrow> copyin b va len s' = copyin b va len s"
  using same_view_umapped [of s b s'] by (intro copyin_cong) (simp_all add: same_view_def)

lemma apartD:
  assumes "apart s a b"
  shows "two_trees s a b"
    and "umapped s a v \<Longrightarrow> umapped s b w \<Longrightarrow> upage s a v = upage s b w \<Longrightarrow> lookup s a v AND PTE_F \<noteq> 0"
    and "umapped s a v \<Longrightarrow> umapped s b w \<Longrightarrow> upage s a v = upage s b w \<Longrightarrow> refcnt s (upage s a v) \<noteq> 1"
    and "umapped s a v \<Longrightarrow> umapped s b w \<Longrightarrow> upage s a v = upage s b w \<Longrightarrow> umapped s a u \<Longrightarrow> upage s a u = upage s a v \<Longrightarrow> vpn u = vpn v"
    and "umapped s b w \<Longrightarrow> upage s b w \<notin> set (fresh s)"
  using assms unfolding apart_def by blast+

lemma apartI:
  assumes "two_trees s a b"
    and "\<And>v w. umapped s a v \<Longrightarrow> umapped s b w \<Longrightarrow> upage s a v = upage s b w \<Longrightarrow> lookup s a v AND PTE_F \<noteq> 0"
    and "\<And>v w. umapped s a v \<Longrightarrow> umapped s b w \<Longrightarrow> upage s a v = upage s b w \<Longrightarrow> refcnt s (upage s a v) \<noteq> 1"
    and "\<And>v w u. umapped s a v \<Longrightarrow> umapped s b w \<Longrightarrow> upage s a v = upage s b w \<Longrightarrow> umapped s a u \<Longrightarrow> upage s a u = upage s a v \<Longrightarrow> vpn u = vpn v"
    and "\<And>w. umapped s b w \<Longrightarrow> upage s b w \<notin> set (fresh s)"
  shows "apart s a b"
  unfolding apart_def using assms by blast

text \<open>Entries of the first table change to pages that the second does not have.\<close>

lemma apart_gen:
  assumes ap: "apart s a b" and st: "tree_step s a s'"
    and lk: "\<And>v w. v < MAXVA \<Longrightarrow> umapped s b w \<Longrightarrow> upage s b w = PTE2PA (lookup s' a v) \<Longrightarrow> lookup s' a v = lookup s a v"
    and rc: "\<And>v w. umapped s a v \<Longrightarrow> lookup s' a v = lookup s a v \<Longrightarrow> umapped s b w \<Longrightarrow> upage s a v = upage s b w \<Longrightarrow> refcnt s' (upage s a v) \<noteq> 1"
    and pg: "\<And>w. umapped s b w \<Longrightarrow> page s' (upage s b w) = page s (upage s b w)"
  shows "apart s' a b" and "same_view s b s'"
proof -
  note two = two_trees_step [OF apartD(1) [OF ap] st]
  show sv: "same_view s b s'" using two(2) pg by (simp add: same_view_def)
  note b = same_view_umapped [OF sv]
  have old: "umapped s a v \<and> upage s' a v = upage s a v \<and> lookup s' a v = lookup s a v"
    if v: "umapped s' a v" "umapped s b w" "upage s' a v = upage s b w" for v w
  proof -
    have "lookup s' a v = lookup s a v" using lk [of v w] v by (simp add: umapped_def upage_def)
    then show ?thesis using v(1) by (simp add: umapped_def upage_def)
  qed
  show "apart s' a b"
    unfolding apart_def
  proof (intro conjI allI impI)
    show "two_trees s' a b" by (rule two(1))
    fix v w assume "umapped s' a v \<and> umapped s' b w \<and> upage s' a v = upage s' b w"
    then have vw: "umapped s' a v" "umapped s b w" "upage s' a v = upage s b w" by (simp_all add: b)
    note o = old [OF vw]
    have eq: "upage s a v = upage s b w" using o vw(3) by simp
    show "lookup s' a v AND PTE_F \<noteq> 0" using apartD(2) [OF ap _ vw(2) eq] o by simp
    show "refcnt s' (upage s' a v) \<noteq> 1" using rc [OF _ _ vw(2) eq] o by simp
    fix u assume u: "umapped s' a u \<and> upage s' a u = upage s' a v"
    then have "upage s' a u = upage s b w" using vw(3) by simp
    note ou = old [OF conjunct1 [OF u] vw(2) this]
    have "upage s a u = upage s a v" using o ou u by simp
    with o ou show "vpn u = vpn v" using apartD(4) [OF ap _ vw(2) eq] by blast
  next
    fix w assume "umapped s' b w"
    then show "upage s' b w \<notin> set (fresh s')" using apartD(5) [OF ap, of w] tree_step_fresh [OF st] by (auto simp: b)
  qed
qed

lemma apart_step:
  assumes ap: "apart s a b" and st: "tree_step s a s'"
    and lk: "\<And>v. v < MAXVA \<Longrightarrow> lookup s' a v = (if vpn v = vpn va then e else lookup s a v)"
    and e: "\<And>w. umapped s b w \<Longrightarrow> upage s b w \<noteq> PTE2PA e"
    and rc: "\<And>v w. umapped s a v \<Longrightarrow> vpn v \<noteq> vpn va \<Longrightarrow> umapped s b w \<Longrightarrow> upage s a v = upage s b w \<Longrightarrow> refcnt s' (upage s a v) \<noteq> 1"
    and pg: "\<And>w. umapped s b w \<Longrightarrow> page s' (upage s b w) = page s (upage s b w)"
  shows "apart s' a b" and "same_view s b s'"
proof -
  have l: "lookup s' a v = lookup s a v" if "v < MAXVA" "umapped s b w" "upage s b w = PTE2PA (lookup s' a v)" for v w
    using lk [OF that(1)] e [OF that(2)] that(3) by (auto split: if_splits)
  have r: "refcnt s' (upage s a v) \<noteq> 1"
    if v: "umapped s a v" "lookup s' a v = lookup s a v" "umapped s b w" "upage s a v = upage s b w" for v w
  proof -
    have "v < MAXVA" using v(1) by (simp add: umapped_def)
    then have "vpn v \<noteq> vpn va" using lk [of v] e [OF v(3)] v(2,4) by (auto simp: upage_def)
    then show ?thesis using rc v by blast
  qed
  show "apart s' a b" "same_view s b s'" by (rule apart_gen [OF ap st l r pg]; assumption)+
qed

lemma cowalloc_apart:
  assumes ap: "apart s a b" and va: "aligned va" "va < MAXVA" and c: "cowalloc a va s = Inr (s', pa)"
  shows "apart s' a b" and "same_view s b s'" and "pa \<noteq> 0 \<Longrightarrow> umapped s b w \<Longrightarrow> upage s b w \<noteq> pa"
proof -
  have "apart s' a b \<and> same_view s b s' \<and> (pa \<noteq> 0 \<longrightarrow> umapped s b w \<longrightarrow> upage s b w \<noteq> pa)"
  proof (cases "umapped s a va \<and> upage s a va \<noteq> 0")
    case False
    then have "s' = s" "pa = 0" using c va by (auto simp: cowalloc_def walkaddr_upage aligned_def Let_def split: if_splits)
    then show ?thesis using ap same_view_refl by simp
  next
    case True
    then have u: "umapped s a va" "upage s a va \<noteq> 0" by simp_all
    have ok: "pgtab_ok s a" using apartD(1) [OF ap] by (simp add: two_trees_def)
    show ?thesis
    proof (cases "refcnt s (upage s a va) = 1")
      case rc: True
      let ?e = "(lookup s a va OR PTE_W) AND NOT PTE_F"
      obtain s1 where
        s1: "cowalloc a va s = Inr (s1, upage s a va)" "tree_step s a s1" "page s1 = page s" "refcnt s1 = refcnt s" "fresh s1 = fresh s"
        and lk: "\<forall>v. v < MAXVA \<longrightarrow> lookup s1 a v = (if vpn v = vpn va then ?e else lookup s a v)"
        by (rule cowalloc_last [OF ok va(1) u(1) rc u(2)])
      have n: "upage s b w \<noteq> upage s a va" if "umapped s b w" for w using apartD(3) [OF ap u(1) that] rc by auto
      have "PTE2PA ?e = upage s a va" unfolding upage_def by (rule PTE2PA_eqI) (simp only: flag_simps, auto)
      then have ne: "upage s b w \<noteq> PTE2PA ?e" if "umapped s b w" for w using n [OF that] by simp
      have r: "refcnt s1 (upage s a v) \<noteq> 1" if "umapped s a v" "umapped s b w" "upage s a v = upage s b w" for v w
        using apartD(3) [OF ap that] s1(4) by simp
      have "apart s1 a b" "same_view s b s1" using apart_step [OF ap s1(2) lk [rule_format] ne] r s1(3) by simp_all
      then show ?thesis using c s1(1) n by simp
    next
      case rc: False
      show ?thesis
      proof (cases "fresh s")
        case Nil
        obtain t where "walk a va False s = Inr (s, Some (t, PX 0 va))"
          by (rule walk_valid [OF va(2), of s a False]) (use u(1) in \<open>simp add: umapped_def\<close>)
        then have "s' = s" "pa = 0" using c va(1) u rc Nil
          by (simp_all add: cowalloc_def walkaddr_upage aligned_def Let_def)
        then show ?thesis using ap same_view_refl by simp
      next
        case (Cons mem ps)
        obtain s1 where
          s1: "cowalloc a va s = Inr (s1, mem)" "tree_step s a s1" "fresh s1 = ps" "page s1 = (page s)(mem := page s (upage s a va))"
            "refcnt s1 = (refcnt s)(mem := 1, upage s a va := ((refcnt s)(mem := 1)) (upage s a va) - 1)"
            "vmcalls s1 = vmcalls s @ [Kfree_page (upage s a va)]"
          and lk: "\<forall>v. v < MAXVA \<longrightarrow> lookup s1 a v = (if vpn v = vpn va then private_entry mem (lookup s a va) else lookup s a v)"
          by (rule cowalloc_shared [OF ok va(1) u(1) rc u(2) Cons])
        have al: "aligned mem" using ok Cons by (simp add: pgtab_ok_def)
        have n: "upage s b w \<noteq> mem" if "umapped s b w" for w using apartD(5) [OF ap that] Cons by auto
        then have ne: "upage s b w \<noteq> PTE2PA (private_entry mem (lookup s a va))" if "umapped s b w" for w
          using that private_entry_page [OF al] by simp
        have r: "refcnt s1 (upage s a v) \<noteq> 1"
          if v: "umapped s a v" "vpn v \<noteq> vpn va" "umapped s b w" "upage s a v = upage s b w" for v w
        proof -
          have "upage s a v \<noteq> upage s a va" using apartD(4) [OF ap v(1,3,4) u(1)] v(2) by auto
          moreover have "upage s a v \<noteq> mem" using n [OF v(3)] v(4) by simp
          ultimately show ?thesis using apartD(3) [OF ap v(1,3,4)] s1(5) by simp
        qed
        have "apart s1 a b" "same_view s b s1" using apart_step [OF ap s1(2) lk [rule_format] ne r] n s1(4) by simp_all
        then show ?thesis using c s1(1) n by simp
      qed
    qed
  qed
  then show "apart s' a b" and "same_view s b s'" and "pa \<noteq> 0 \<Longrightarrow> umapped s b w \<Longrightarrow> upage s b w \<noteq> pa" by blast+
qed

lemma write_apart:
  assumes ap: "apart s a b" and p: "\<And>w. umapped s b w \<Longrightarrow> upage s b w \<noteq> p"
  shows "apart (write_page p off bs s) a b" and "same_view s b (write_page p off bs s)"
proof -
  let ?s = "write_page p off bs s"
  have e: "pte ?s = pte s" "fresh ?s = fresh s" by simp_all
  have u: "umapped ?s x v = umapped s x v" "upage ?s x v = upage s x v" for x v
    by (simp_all add: umapped_def upage_def pte_cong(2) [OF e])
  show "apart ?s a b" using ap unfolding apart_def two_trees_cong [OF e] u pte_cong(2) [OF e] page_ops_frame .
  have "page ?s x = page s x" if "x \<noteq> p" for x using that by (simp add: write_page_def)
  then show "same_view s b ?s" using p by (simp add: same_view_def pte_cong(2) [OF e])
qed

lemma copyout_apart:
  assumes "apart s a b" and "copyout a dst src s = Inr (s', r)"
  shows "apart s' a b \<and> same_view s b s'"
  using assms
proof (induction "length src" arbitrary: dst src s rule: less_induct)
  case less
  note ap = less.prems(1)
  let ?v = "PGROUNDDOWN dst"
  show ?case
  proof (cases "src = []")
    case True
    then show ?thesis using less.prems same_view_refl by (subst (asm) copyout.simps) simp
  next
    case False
    let ?c = "if cowpage a ?v s = 0 then cowalloc a ?v s else Inr (s, walkaddr a ?v s)"
    obtain s1 pa where c: "?c = Inr (s1, pa)" using less.prems(2) False
      by (subst (asm) copyout.simps) (auto simp: Let_def split: sum.splits)
    have step: "apart s1 a b \<and> same_view s b s1 \<and> (pa \<noteq> 0 \<longrightarrow> (\<forall>w. umapped s b w \<longrightarrow> upage s b w \<noteq> pa))"
    proof (cases "cowpage a ?v s = 0")
      case True
      then have "?v < MAXVA" by (simp add: cowpage_lookup split: if_splits)
      then show ?thesis using cowalloc_apart [OF ap aligned_PGROUNDDOWN, of dst s1 pa] c True by auto
    next
      case nc: False
      then have e: "s1 = s" "pa = walkaddr a ?v s" using c by auto
      have "upage s b w \<noteq> pa" if w: "pa \<noteq> 0" "umapped s b w" for w
      proof
        assume eq: "upage s b w = pa"
        have u: "umapped s a ?v" "pa = upage s a ?v" using w(1) e(2) by (auto simp: walkaddr_upage split: if_splits)
        then have "lookup s a ?v AND PTE_F \<noteq> 0" using apartD(2) [OF ap u(1) w(2)] eq by simp
        then show False using nc u(1) by (simp add: cowpage_lookup umapped_def)
      qed
      then show ?thesis using ap e(1) same_view_refl by simp
    qed
    show ?thesis
    proof (cases "pa = 0")
      case True
      then have "s' = s1" using less.prems(2) False c by (subst (asm) copyout.simps) (simp add: Let_def)
      then show ?thesis using step by simp
    next
      case pz: False
      let ?n = "page_chunk dst (length src)"
      let ?s = "write_page pa (unat (dst - ?v)) (take ?n src) s1"
      have r: "copyout a (?v + PGSZ) (drop ?n src) ?s = Inr (s', r)"
        using less.prems(2) False c pz by (subst (asm) copyout.simps) (simp add: Let_def)
      have s1: "apart s1 a b" "same_view s b s1" using step by blast+
      have np: "upage s1 b w \<noteq> pa" if "umapped s1 b w" for w
        using step pz that same_view_umapped [OF s1(2)] by simp
      note wa = write_apart [OF s1(1) np, where off = "unat (dst - ?v)" and bs = "take ?n src"]
      have "length (drop ?n src) < length src" using False page_chunk_pos [of "length src" dst] by simp
      then have "apart s' a b" "same_view ?s b s'" using less.hyps wa(1) r by blast+
      then show ?thesis using same_view_trans [OF s1(2) same_view_trans [OF wa(2)]] by blast
    qed
  qed
qed

section \<open>Copying an address space\<close>

text \<open>What \<open>uvmcopy\<close> makes of a valid entry of the parent, in the parent and in the child.\<close>

definition cow_old :: "u64 \<Rightarrow> u64" where
  "cow_old e = (if e AND PTE_W \<noteq> 0 then PA2PTE (PTE2PA e) OR ((PTE_FLAGS e OR PTE_F) AND NOT PTE_W) else e)"

definition cow_new :: "u64 \<Rightarrow> u64" where
  "cow_new e = PA2PTE (PTE2PA e) OR (if e AND PTE_W \<noteq> 0 then (PTE_FLAGS e OR PTE_F) AND NOT PTE_W else PTE_FLAGS e) OR PTE_V"

lemma PTE2PA_flags: "aligned p \<Longrightarrow> (\<And>n. bit f n \<Longrightarrow> n < 10) \<Longrightarrow> PTE2PA (PA2PTE p OR f) = p"
proof -
  assume a: "aligned p" and f: "\<And>n. bit f n \<Longrightarrow> n < 10"
  have "PTE2PA (PA2PTE p OR f) = PTE2PA (PA2PTE p OR f OR PTE_V)" by (rule PTE2PA_eqI) (auto simp only: flag_simps)
  then show ?thesis using PTE2PA_entry [OF a f] by simp
qed

lemma cow_page: "PTE2PA (cow_old e) = PTE2PA e" "PTE2PA (cow_new e) = PTE2PA e"
proof -
  have f: "bit (PTE_FLAGS e) n \<Longrightarrow> n < 10" "bit ((PTE_FLAGS e OR PTE_F) AND NOT PTE_W) n \<Longrightarrow> n < 10" for n
    by (auto simp only: flag_simps)
  show "PTE2PA (cow_old e) = PTE2PA e" using PTE2PA_flags [OF PTE2PA_aligned f(2)] by (simp add: cow_old_def)
  show "PTE2PA (cow_new e) = PTE2PA e"
    using PTE2PA_entry [OF PTE2PA_aligned f(1)] PTE2PA_entry [OF PTE2PA_aligned f(2)] by (simp add: cow_new_def)
qed

lemma cow_flags:
  assumes "e AND PTE_V \<noteq> 0"
  shows "cow_old e AND PTE_V \<noteq> 0" and "cow_new e AND PTE_V \<noteq> 0" and "cow_old e AND PTE_W = 0" and "cow_new e AND PTE_W = 0"
    and "cow_old e AND PTE_U \<noteq> 0 \<longleftrightarrow> e AND PTE_U \<noteq> 0" and "cow_new e AND PTE_U \<noteq> 0 \<longleftrightarrow> e AND PTE_U \<noteq> 0"
    and "cow_old e AND PTE_F \<noteq> 0 \<longleftrightarrow> e AND PTE_W \<noteq> 0 \<or> e AND PTE_F \<noteq> 0"
    and "cow_new e AND PTE_F \<noteq> 0 \<longleftrightarrow> e AND PTE_W \<noteq> 0 \<or> e AND PTE_F \<noteq> 0"
  using assms by (simp_all only: cow_old_def cow_new_def flag_simps split: if_split) auto

lemma uvmcopy_step:
  assumes two: "two_trees s old new" and i: "aligned i" "i < MAXVA" "i < sz"
    and e: "lookup s old i AND PTE_V \<noteq> 0" and n: "lookup s new i AND PTE_V = 0" and fr: "2 \<le> length (fresh s)"
  obtains s' where "uvmcopy_from old new i sz s = uvmcopy_from old new (i + PGSZ) sz s'" "two_trees s' old new"
    "page s' = page s" "length (fresh s) \<le> length (fresh s') + 2" "set (fresh s') \<subseteq> set (fresh s)"
    "\<forall>v. v < MAXVA \<longrightarrow> lookup s' old v = (if vpn v = vpn i then cow_old (lookup s old i) else lookup s old v)"
    "\<forall>v. v < MAXVA \<longrightarrow> lookup s' new v = (if vpn v = vpn i then cow_new (lookup s old i) else lookup s new v)"
    "\<forall>p. p \<notin> set (fresh s) \<longrightarrow> refcnt s' p = refcnt s p + (if p = upage s old i then 1 else 0)"
proof -
  let ?e = "lookup s old i"
  let ?k = "PX 0 i"
  have ok: "pgtab_ok s old" using two by (simp add: two_trees_def)
  obtain t where w: "walk old i False s = Inr (s, Some (t, ?k))" and p: "pte s t ?k = ?e"
    and t: "tab s old [PX 1 i, PX 2 i] = Some t" by (rule walk_valid [OF i(2) e])
  let ?cow = "(PTE_FLAGS ?e OR PTE_F) AND NOT PTE_W"
  have fw: "PTE_FLAGS ?e AND PTE_W = 0 \<longleftrightarrow> ?e AND PTE_W = 0" by (simp only: flag_simps) auto
  define s1 where "s1 = (if ?e AND PTE_W \<noteq> 0 then set_pte t ?k (PA2PTE (PTE2PA ?e) OR ?cow) s else s)"
  have st1: "tree_step s old s1"
    unfolding s1_def using leaf_write(1) [OF ok path_ok_va _ t] tree_step_refl [OF ok] by simp
  have l1: "lookup s1 old v = (if vpn v = vpn i then cow_old ?e else lookup s old v)" if v: "v < MAXVA" for v
    unfolding s1_def cow_old_def using lookup_write [OF ok t i(2) v] lookup_vpn [OF v i(2), of s old] by auto
  note two1 = two_trees_step [OF two st1]
  have ok1: "pgtab_ok s1 new" using two1(1) by (simp add: two_trees_def)
  have f1: "fresh s1 = fresh s" "page s1 = page s" "refcnt s1 = refcnt s" by (simp_all add: s1_def)
  let ?f = "if ?e AND PTE_W \<noteq> 0 then ?cow else PTE_FLAGS ?e"
  have "lookup s1 new i AND PTE_V = 0" using n two1(2) by simp
  from ok1 i(1,2) this obtain s2 where m: "mappages new i PGSZ (PTE2PA ?e) ?f s1 = Inr (s2, 0)" and fm: "map_frame s1 new s2"
    and len: "length (fresh s1) \<le> length (fresh s2) + 2"
    and l2: "\<forall>v. v < MAXVA \<longrightarrow> lookup s2 new v = (if vpn v = vpn i then PA2PTE (PTE2PA ?e) OR ?f OR PTE_V else lookup s1 new v)"
  proof (cases rule: mappages_one [case_names mapped nomem, where pa = "PTE2PA ?e" and perm = ?f])
    case (mapped s')
    then show ?thesis using that by blast
  next
    case (nomem s')
    then show ?thesis using fr f1(1) by simp
  qed
  note two2 = two_trees_step [OF two1(1) [unfolded two_trees_sym [of s1 old]] map_frameD(1) [OF fm]]
  let ?s = "kaddref_page (PTE2PA ?e) s2"
  have s': "pte ?s = pte s2" "fresh ?s = fresh s2" by simp_all
  show ?thesis
  proof (rule that)
    show "uvmcopy_from old new i sz s = uvmcopy_from old new (i + PGSZ) sz ?s"
      using i(3) w p e m fw unfolding s1_def by (subst uvmcopy_from.simps) (cases "?e AND PTE_W = 0"; simp add: Let_def)
    show "two_trees ?s old new" using two2(1) unfolding two_trees_cong [OF s'] two_trees_sym [of s2 old] .
    show "page ?s = page s" using map_frameD(3) [OF fm] f1(2) by simp
    show "length (fresh s) \<le> length (fresh ?s) + 2" using len f1(1) by simp
    show "set (fresh ?s) \<subseteq> set (fresh s)" using tree_step_fresh [OF map_frameD(1) [OF fm]] f1(1) by simp
    show "\<forall>v. v < MAXVA \<longrightarrow> lookup ?s old v = (if vpn v = vpn i then cow_old ?e else lookup s old v)"
      using l1 two2(2) unfolding pte_cong(2) [OF s'] by simp
    show "\<forall>v. v < MAXVA \<longrightarrow> lookup ?s new v = (if vpn v = vpn i then cow_new ?e else lookup s new v)"
      using l2 two1(2) unfolding pte_cong(2) [OF s'] cow_new_def by simp
    show "\<forall>p. p \<notin> set (fresh s) \<longrightarrow> refcnt ?s p = refcnt s p + (if p = upage s old i then 1 else 0)"
      using map_frameD(5) [OF fm] f1 by (simp add: kaddref_page_def upage_def)
  qed
qed

lemma uvmcopy_skip:
  assumes "i < MAXVA" and "i < sz" and "lookup s old i AND PTE_V = 0"
  shows "uvmcopy_from old new i sz s = uvmcopy_from old new (i + PGSZ) sz s"
proof (cases "tab s old [PX 1 i, PX 2 i]")
  case None
  then show ?thesis using walk_lookup [OF assms(1), of old s] assms(2) by (subst uvmcopy_from.simps) (simp del: tab.simps)
next
  case (Some t)
  then have "pte s t (PX 0 i) AND PTE_V = 0" using assms(3) unfolding lookup_def leaf_pte_def Some by simp
  then show ?thesis using walk_lookup [OF assms(1), of old s] assms(2) Some by (subst uvmcopy_from.simps) (simp del: tab.simps)
qed

lemma next_below_MAXVA: "aligned a \<Longrightarrow> a < MAXVA \<Longrightarrow> unat a + 4096 \<le> 2 ^ 38"
proof -
  assume "aligned a" and a: "a < MAXVA"
  then obtain q where q: "unat a = q * 4096" by (auto simp: aligned_unat elim!: dvdE simp flip: dvd_eq_mod_eq_0)
  then have "q < 2 ^ 26" using a by (simp add: word_less_nat_alt)
  then show ?thesis using q by simp
qed

text \<open>The number of the first page past the size.\<close>

definition end_page :: "u64 \<Rightarrow> nat" where
  "end_page sz = (unat sz + 4095) div 4096"

lemma end_page_less: "aligned i \<Longrightarrow> i < sz \<longleftrightarrow> vpn i < end_page sz"
proof -
  assume "aligned i"
  then obtain q where q: "unat i = q * 4096" by (auto simp: aligned_unat elim!: dvdE simp flip: dvd_eq_mod_eq_0)
  have "q * 4096 < unat sz \<longleftrightarrow> q < (unat sz + 4095) div 4096" by (simp add: less_eq_div_iff_mult_less_eq Suc_le_eq [symmetric])
  then show ?thesis by (simp add: word_less_nat_alt q vpn_def end_page_def)
qed

lemma uvmcopy_from_shares:
  assumes "two_trees s old new" and "aligned i" and "unat sz \<le> 2 ^ 38" and "unat i \<le> 2 ^ 38"
    and "\<forall>v. v < MAXVA \<longrightarrow> vpn i \<le> vpn v \<longrightarrow> vpn v < end_page sz \<longrightarrow> lookup s new v AND PTE_V = 0"
    and "2 * (end_page sz - vpn i) \<le> length (fresh s)"
    and "\<forall>v. umapped s old v \<longrightarrow> upage s old v \<notin> set (fresh s)"
  shows "\<exists>s'. uvmcopy_from old new i sz s = Inr (s', 0) \<and> two_trees s' old new \<and> page s' = page s \<and> set (fresh s') \<subseteq> set (fresh s)
    \<and> (\<forall>v. v < MAXVA \<longrightarrow> lookup s' old v =
         (if vpn i \<le> vpn v \<and> vpn v < end_page sz \<and> lookup s old v AND PTE_V \<noteq> 0 then cow_old (lookup s old v) else lookup s old v))
    \<and> (\<forall>v. v < MAXVA \<longrightarrow> lookup s' new v =
         (if vpn i \<le> vpn v \<and> vpn v < end_page sz \<and> lookup s old v AND PTE_V \<noteq> 0 then cow_new (lookup s old v) else lookup s new v))
    \<and> (\<forall>p. p \<notin> set (fresh s) \<longrightarrow> refcnt s p \<le> refcnt s' p)
    \<and> (\<forall>v. umapped s old v \<longrightarrow> vpn i \<le> vpn v \<longrightarrow> vpn v < end_page sz \<longrightarrow> refcnt s (upage s old v) < refcnt s' (upage s old v))"
  using assms
proof (induction "end_page sz - vpn i" arbitrary: i s)
  case 0
  then have "\<not> i < sz" using end_page_less by simp
  then have "uvmcopy_from old new i sz s = Inr (s, 0)" by (subst uvmcopy_from.simps) simp
  then show ?case using 0 by (intro exI [of _ s]) auto
next
  case (Suc n)
  have lt: "vpn i < end_page sz" using Suc.hyps(2) by simp
  have sz: "i < sz" using end_page_less [OF Suc.prems(2)] lt by simp
  have ui: "unat i < unat sz" using sz by (simp add: word_less_nat_alt)
  then have i: "i < MAXVA" using Suc.prems(3) by (simp add: word_less_nat_alt)
  have nx: "unat i + 4096 \<le> 2 ^ 38" by (rule next_below_MAXVA [OF Suc.prems(2) i])
  note np = next_page [OF nx]
  have ne: "n = end_page sz - vpn (i + PGSZ)" using Suc.hyps(2) np(2) by simp
  have b: "unat (i + PGSZ) \<le> 2 ^ 38" using np(1) nx by simp
  show ?case
  proof (cases "lookup s old i AND PTE_V = 0")
    case True
    have nv: "lookup s old v AND PTE_V = 0" if "v < MAXVA" "vpn v = vpn i" for v using True lookup_vpn [OF that(1) i that(2)] by simp
    have r: "Suc (vpn i) \<le> vpn v \<and> vpn v < end_page sz \<and> lookup s old v AND PTE_V \<noteq> 0 \<longleftrightarrow>
      vpn i \<le> vpn v \<and> vpn v < end_page sz \<and> lookup s old v AND PTE_V \<noteq> 0" if "v < MAXVA" for v
      using nv [OF that] by (auto simp: Suc_le_eq order_le_less)
    have u: "Suc (vpn i) \<le> vpn v" if "umapped s old v" "vpn i \<le> vpn v" for v
      using nv [of v] that by (auto simp: umapped_def Suc_le_eq order_le_less)
    have a5: "\<forall>v. v < MAXVA \<longrightarrow> vpn (i + PGSZ) \<le> vpn v \<longrightarrow> vpn v < end_page sz \<longrightarrow> lookup s new v AND PTE_V = 0"
      using Suc.prems(5) np(2) by simp
    have a6: "2 * (end_page sz - vpn (i + PGSZ)) \<le> length (fresh s)" using Suc.prems(6) np(2) by simp
    from Suc.hyps(1) [OF ne Suc.prems(1) np(3) [OF Suc.prems(2)] Suc.prems(3) b a5 a6 Suc.prems(7)]
    show ?thesis unfolding uvmcopy_skip [OF i sz True] np(2) using r u by (elim exE conjE, intro exI conjI) (assumption | simp)+
  next
    case False
    have n: "lookup s new i AND PTE_V = 0" using Suc.prems(5) i lt by simp
    have fr: "2 \<le> length (fresh s)" using Suc.prems(6) lt by simp
    obtain s1 where s1: "uvmcopy_from old new i sz s = uvmcopy_from old new (i + PGSZ) sz s1" "two_trees s1 old new"
      "page s1 = page s" "length (fresh s) \<le> length (fresh s1) + 2" "set (fresh s1) \<subseteq> set (fresh s)"
      and lo: "\<forall>v. v < MAXVA \<longrightarrow> lookup s1 old v = (if vpn v = vpn i then cow_old (lookup s old i) else lookup s old v)"
      and ln: "\<forall>v. v < MAXVA \<longrightarrow> lookup s1 new v = (if vpn v = vpn i then cow_new (lookup s old i) else lookup s new v)"
      and rc: "\<forall>p. p \<notin> set (fresh s) \<longrightarrow> refcnt s1 p = refcnt s p + (if p = upage s old i then 1 else 0)"
      by (rule uvmcopy_step [OF Suc.prems(1,2) i sz False n fr])
    have lv: "lookup s old v = lookup s old i" if "v < MAXVA" "vpn v = vpn i" for v using lookup_vpn [OF that(1) i that(2)] .
    have um: "umapped s1 old v = umapped s old v" "upage s1 old v = upage s old v" if "v < MAXVA" for v
      using lo that lv [OF that] False cow_flags [OF False] cow_page(1) by (auto simp: umapped_def upage_def)
    have a5: "\<forall>v. v < MAXVA \<longrightarrow> vpn (i + PGSZ) \<le> vpn v \<longrightarrow> vpn v < end_page sz \<longrightarrow> lookup s1 new v AND PTE_V = 0"
      using Suc.prems(5) ln np(2) by simp
    have a6: "2 * (end_page sz - vpn (i + PGSZ)) \<le> length (fresh s1)" using Suc.prems(6) np(2) s1(4) lt by simp
    have lt_of: "v < MAXVA" if "umapped x pt v" for x pt v using that by (simp add: umapped_def)
    have a7: "\<forall>v. umapped s1 old v \<longrightarrow> upage s1 old v \<notin> set (fresh s1)"
      using Suc.prems(7) um lt_of s1(5) by (metis subsetD)
    from Suc.hyps(1) [OF ne s1(2) np(3) [OF Suc.prems(2)] Suc.prems(3) b a5 a6 a7] obtain s' where
      s': "uvmcopy_from old new i sz s = Inr (s', 0)" "two_trees s' old new" "page s' = page s" "set (fresh s') \<subseteq> set (fresh s)"
      and lo': "\<forall>v. v < MAXVA \<longrightarrow> lookup s' old v = (if Suc (vpn i) \<le> vpn v \<and> vpn v < end_page sz \<and> lookup s1 old v AND PTE_V \<noteq> 0
        then cow_old (lookup s1 old v) else lookup s1 old v)"
      and ln': "\<forall>v. v < MAXVA \<longrightarrow> lookup s' new v = (if Suc (vpn i) \<le> vpn v \<and> vpn v < end_page sz \<and> lookup s1 old v AND PTE_V \<noteq> 0
        then cow_new (lookup s1 old v) else lookup s1 new v)"
      and rc': "\<forall>p. p \<notin> set (fresh s1) \<longrightarrow> refcnt s1 p \<le> refcnt s' p"
        "\<forall>v. umapped s1 old v \<longrightarrow> Suc (vpn i) \<le> vpn v \<longrightarrow> vpn v < end_page sz \<longrightarrow> refcnt s1 (upage s1 old v) < refcnt s' (upage s1 old v)"
      unfolding np(2) s1(1) s1(3) using s1(5) by blast
    have "lookup s' old v = (if vpn i \<le> vpn v \<and> vpn v < end_page sz \<and> lookup s old v AND PTE_V \<noteq> 0
      then cow_old (lookup s old v) else lookup s old v)" if v: "v < MAXVA" for v
      using lo' [rule_format, OF v] lo [rule_format, OF v] lv [OF v] False lt by (auto simp: Suc_le_eq order_le_less)
    moreover have "lookup s' new v = (if vpn i \<le> vpn v \<and> vpn v < end_page sz \<and> lookup s old v AND PTE_V \<noteq> 0
      then cow_new (lookup s old v) else lookup s new v)" if v: "v < MAXVA" for v
      using ln' [rule_format, OF v] ln [rule_format, OF v] lo [rule_format, OF v] lv [OF v] False lt
      by (auto simp: Suc_le_eq order_le_less)
    moreover have r: "refcnt s p \<le> refcnt s1 p \<and> refcnt s1 p \<le> refcnt s' p" if "p \<notin> set (fresh s)" for p
      using that rc rc'(1) s1(5) by auto
    moreover have "refcnt s (upage s old v) < refcnt s' (upage s old v)"
      if v: "umapped s old v" "vpn i \<le> vpn v" "vpn v < end_page sz" for v
    proof -
      have f: "upage s old v \<notin> set (fresh s)" using Suc.prems(7) v(1) by blast
      show ?thesis
      proof (cases "vpn v = vpn i")
        case True
        then have "upage s old v = upage s old i" using lv [OF lt_of [OF v(1)]] by (simp add: upage_def)
        then show ?thesis using rc f r [OF f] by auto
      next
        case ne: False
        then have "refcnt s1 (upage s old v) < refcnt s' (upage s old v)"
          using rc'(2) [rule_format, of v] um [OF lt_of [OF v(1)]] v by simp
        then show ?thesis using r [OF f] by simp
      qed
    qed
    ultimately show ?thesis using s' by (intro exI [of _ s']) (meson order_trans)
  qed
qed

text \<open>A parent at \<open>fork\<close>: its user pages lie below its size, are referenced and are mapped once; the child has a table
  of its own with no user page yet; there are free pages for its tables.\<close>

definition forkable :: "vmstate \<Rightarrow> u64 \<Rightarrow> u64 \<Rightarrow> u64 \<Rightarrow> bool" where
  "forkable s old new sz = (two_trees s old new \<and> unat sz \<le> 2 ^ 38 \<and> 2 * end_page sz \<le> length (fresh s)
     \<and> (\<forall>v. \<not> umapped s new v)
     \<and> (\<forall>v. v < MAXVA \<longrightarrow> vpn v < end_page sz \<longrightarrow> lookup s new v AND PTE_V = 0)
     \<and> (\<forall>v. umapped s old v \<longrightarrow> vpn v < end_page sz \<and> 1 \<le> refcnt s (upage s old v) \<and> upage s old v \<notin> set (fresh s))
     \<and> (\<forall>v w. umapped s old v \<and> umapped s old w \<and> upage s old v = upage s old w \<longrightarrow> vpn v = vpn w))"

text \<open>Every user page is writable or copy-on-write already. Pages that \<open>mmap_handler\<close> maps for an area without
  \<open>PROT_WRITE\<close> are neither.\<close>

definition no_read_only :: "vmstate \<Rightarrow> u64 \<Rightarrow> bool" where
  "no_read_only s old = (\<forall>v. umapped s old v \<longrightarrow> lookup s old v AND PTE_W \<noteq> 0 \<or> lookup s old v AND PTE_F \<noteq> 0)"

lemma forkableD:
  assumes "forkable s old new sz"
  shows "two_trees s old new" and "unat sz \<le> 2 ^ 38" and "2 * end_page sz \<le> length (fresh s)" and "\<not> umapped s new v"
    and "v < MAXVA \<Longrightarrow> vpn v < end_page sz \<Longrightarrow> lookup s new v AND PTE_V = 0"
    and "umapped s old v \<Longrightarrow> vpn v < end_page sz" and "umapped s old v \<Longrightarrow> 1 \<le> refcnt s (upage s old v)"
    and "umapped s old v \<Longrightarrow> upage s old v \<notin> set (fresh s)"
    and "umapped s old v \<Longrightarrow> umapped s old w \<Longrightarrow> upage s old v = upage s old w \<Longrightarrow> vpn v = vpn w"
  using assms unfolding forkable_def by blast+

lemma uvmcopy_shared:
  assumes f: "forkable s old new sz"
  obtains s' where "uvmcopy old new sz s = Inr (s', 0)" "two_trees s' old new" "page s' = page s" "set (fresh s') \<subseteq> set (fresh s)"
    "\<And>v. umapped s' old v = umapped s old v" "\<And>v. umapped s' new v = umapped s old v"
    "\<And>v. umapped s old v \<Longrightarrow> upage s' old v = upage s old v" "\<And>v. umapped s old v \<Longrightarrow> upage s' new v = upage s old v"
    "\<And>v. umapped s old v \<Longrightarrow> lookup s' old v = cow_old (lookup s old v)"
    "\<And>v. umapped s old v \<Longrightarrow> lookup s' new v = cow_new (lookup s old v)"
    "\<And>v. umapped s old v \<Longrightarrow> refcnt s' (upage s old v) \<noteq> 1"
proof -
  note D = forkableD [OF f]
  have a: "aligned 0" "unat (0 :: u64) \<le> 2 ^ 38" "vpn 0 = 0" by (simp_all add: aligned_def)
  obtain s' where s': "uvmcopy old new sz s = Inr (s', 0)" "two_trees s' old new" "page s' = page s" "set (fresh s') \<subseteq> set (fresh s)"
    and lo: "\<forall>v. v < MAXVA \<longrightarrow> lookup s' old v =
         (if vpn v < end_page sz \<and> lookup s old v AND PTE_V \<noteq> 0 then cow_old (lookup s old v) else lookup s old v)"
    and ln: "\<forall>v. v < MAXVA \<longrightarrow> lookup s' new v =
         (if vpn v < end_page sz \<and> lookup s old v AND PTE_V \<noteq> 0 then cow_new (lookup s old v) else lookup s new v)"
    and rc: "\<forall>v. umapped s old v \<longrightarrow> vpn v < end_page sz \<longrightarrow> refcnt s (upage s old v) < refcnt s' (upage s old v)"
    using uvmcopy_from_shares [OF D(1) a(1) D(2) a(2), unfolded a(3)] D(3,5,8) unfolding uvmcopy_def by auto
  have uo: "umapped s' old v = umapped s old v" for v
  proof (cases "v < MAXVA \<and> vpn v < end_page sz \<and> lookup s old v AND PTE_V \<noteq> 0")
    case True
    then show ?thesis using lo cow_flags(1,5) [of "lookup s old v"] by (simp add: umapped_def)
  next
    case False
    then have "v < MAXVA \<Longrightarrow> lookup s' old v = lookup s old v" using lo by auto
    then show ?thesis by (auto simp: umapped_def)
  qed
  have un: "umapped s' new v = umapped s old v" for v
  proof (cases "v < MAXVA \<and> vpn v < end_page sz \<and> lookup s old v AND PTE_V \<noteq> 0")
    case True
    then show ?thesis using ln cow_flags(2,6) [of "lookup s old v"] by (simp add: umapped_def)
  next
    case False
    then have "v < MAXVA \<Longrightarrow> lookup s' new v = lookup s new v" using ln by auto
    then have "umapped s' new v \<Longrightarrow> umapped s new v" by (auto simp: umapped_def)
    then show ?thesis using False D(4) [of v] D(6) [of v] by (auto simp: umapped_def)
  qed
  have in_range: "v < MAXVA" "vpn v < end_page sz" "lookup s old v AND PTE_V \<noteq> 0" if "umapped s old v" for v
    using that D(6) [OF that] by (simp_all add: umapped_def)
  have po: "upage s' old v = upage s old v" if "umapped s old v" for v using lo in_range [OF that] cow_page(1) by (simp add: upage_def)
  have pn: "upage s' new v = upage s old v" if "umapped s old v" for v using ln in_range [OF that] cow_page(2) by (simp add: upage_def)
  have r: "refcnt s' (upage s old v) \<noteq> 1" if "umapped s old v" for v
    using rc that in_range(2) [OF that] D(7) [OF that] by fastforce
  show ?thesis
    by (rule that [OF s' uo un po pn _ _ r]) (use lo ln in_range in simp_all)
qed

lemma uvmcopy_forks:
  assumes f: "forkable s old new sz" and w: "no_read_only s old"
  obtains s' where "uvmcopy old new sz s = Inr (s', 0)" "page s' = page s" "apart s' new old" "apart s' old new"
    "\<And>v. umapped s' old v = umapped s old v" "\<And>v. umapped s' new v = umapped s old v"
    "\<And>v. umapped s old v \<Longrightarrow> upage s' old v = upage s old v" "\<And>v. umapped s old v \<Longrightarrow> upage s' new v = upage s old v"
proof -
  note D = forkableD [OF f]
  obtain s' where s': "uvmcopy old new sz s = Inr (s', 0)" "two_trees s' old new" "page s' = page s" "set (fresh s') \<subseteq> set (fresh s)"
    and uo: "\<And>v. umapped s' old v = umapped s old v" and un: "\<And>v. umapped s' new v = umapped s old v"
    and po: "\<And>v. umapped s old v \<Longrightarrow> upage s' old v = upage s old v" and pn: "\<And>v. umapped s old v \<Longrightarrow> upage s' new v = upage s old v"
    and lo: "\<And>v. umapped s old v \<Longrightarrow> lookup s' old v = cow_old (lookup s old v)"
    and ln: "\<And>v. umapped s old v \<Longrightarrow> lookup s' new v = cow_new (lookup s old v)"
    and r: "\<And>v. umapped s old v \<Longrightarrow> refcnt s' (upage s old v) \<noteq> 1"
    by (rule uvmcopy_shared [OF f]) blast
  have wf: "lookup s old v AND PTE_V \<noteq> 0 \<and> (lookup s old v AND PTE_W \<noteq> 0 \<or> lookup s old v AND PTE_F \<noteq> 0)" if "umapped s old v" for v
    using w that unfolding no_read_only_def umapped_def by blast
  have fo: "lookup s' old v AND PTE_F \<noteq> 0" if "umapped s old v" for v
    using lo [OF that] cow_flags(7) [of "lookup s old v"] wf [OF that] by simp
  have fn: "lookup s' new v AND PTE_F \<noteq> 0" if "umapped s old v" for v
    using ln [OF that] cow_flags(8) [of "lookup s old v"] wf [OF that] by simp
  have nf: "upage s old v \<notin> set (fresh s')" if "umapped s old v" for v using D(8) [OF that] s'(4) by blast
  have t: "two_trees s' new old" using s'(2) two_trees_sym by blast
  have inj: "vpn v = vpn w" if "umapped s old v" "umapped s old w" "upage s old v = upage s old w" for v w using D(9) that .
  show ?thesis
  proof (rule that [OF s'(1,3)])
    show "apart s' new old"
    proof (rule apartI [OF t])
      show "lookup s' new v AND PTE_F \<noteq> 0" if "umapped s' new v" for v by (rule fn [OF that [unfolded un]])
      show "refcnt s' (upage s' new v) \<noteq> 1" if "umapped s' new v" for v using r [OF that [unfolded un]] pn [OF that [unfolded un]] by simp
      show "vpn u = vpn v" if "umapped s' new v" "umapped s' new u" "upage s' new u = upage s' new v" for u v
        using inj [OF that(2) [unfolded un] that(1) [unfolded un]] that(3) pn that(1,2) un by simp
      show "upage s' old w \<notin> set (fresh s')" if "umapped s' old w" for w using nf [OF that [unfolded uo]] po [OF that [unfolded uo]] by simp
    qed
    show "apart s' old new"
    proof (rule apartI [OF s'(2)])
      show "lookup s' old v AND PTE_F \<noteq> 0" if "umapped s' old v" for v by (rule fo [OF that [unfolded uo]])
      show "refcnt s' (upage s' old v) \<noteq> 1" if "umapped s' old v" for v using r [OF that [unfolded uo]] po [OF that [unfolded uo]] by simp
      show "vpn u = vpn v" if "umapped s' old v" "umapped s' old u" "upage s' old u = upage s' old v" for u v
        using inj [OF that(2) [unfolded uo] that(1) [unfolded uo]] that(3) po that(1,2) uo by simp
      show "upage s' new w \<notin> set (fresh s')" if "umapped s' new w" for w using nf [OF that [unfolded un]] pn [OF that [unfolded un]] by simp
    qed
  qed (use uo un po pn in blast)+
qed

section \<open>Writing and reading back\<close>

text \<open>No two user pages of a table share a physical page, and no user page is free.\<close>

definition uinj :: "vmstate \<Rightarrow> u64 \<Rightarrow> bool" where
  "uinj s pt = (pgtab_ok s pt \<and> 0 \<notin> set (fresh s)
     \<and> (\<forall>v w. umapped s pt v \<and> umapped s pt w \<and> upage s pt v = upage s pt w \<longrightarrow> vpn v = vpn w)
     \<and> (\<forall>v. umapped s pt v \<longrightarrow> upage s pt v \<notin> set (fresh s)))"

lemma uinjD:
  assumes "uinj s pt"
  shows "pgtab_ok s pt" and "0 \<notin> set (fresh s)"
    and "umapped s pt v \<Longrightarrow> umapped s pt w \<Longrightarrow> upage s pt v = upage s pt w \<Longrightarrow> vpn v = vpn w"
    and "umapped s pt v \<Longrightarrow> upage s pt v \<notin> set (fresh s)"
  using assms unfolding uinj_def by blast+

text \<open>The page that \<open>copyout\<close> writes to: \<open>cowalloc\<close> when the page is copy-on-write, \<open>walkaddr\<close> otherwise.\<close>

definition target :: "u64 \<Rightarrow> u64 \<Rightarrow> vmstate \<Rightarrow> (vmstate \<times> u64) kres" where
  "target pt va s = (if cowpage pt va s = 0 then cowalloc pt va s else Inr (s, walkaddr pt va s))"

lemma one_entry_uinj:
  assumes ui: "uinj s pt" and st: "tree_step s pt s'" and va: "umapped s' pt va"
    and lk: "\<forall>v. v < MAXVA \<longrightarrow> lookup s' pt v = (if vpn v = vpn va then e else lookup s pt v)"
    and e: "\<And>v. umapped s pt v \<Longrightarrow> vpn v \<noteq> vpn va \<Longrightarrow> upage s pt v \<noteq> PTE2PA e" and f: "PTE2PA e \<notin> set (fresh s')"
  shows "uinj s' pt"
  unfolding uinj_def
proof (intro conjI allI impI)
  show "pgtab_ok s' pt" by (rule tree_stepD(1) [OF st])
  have sub: "set (fresh s') \<subseteq> set (fresh s)" by (rule tree_step_fresh [OF st])
  then show "0 \<notin> set (fresh s')" using uinjD(2) [OF ui] by blast
  have new: "upage s' pt v = PTE2PA e" if "umapped s' pt v" "vpn v = vpn va" for v
    using lk that by (simp add: umapped_def upage_def)
  have old: "umapped s pt v \<and> upage s' pt v = upage s pt v" if "umapped s' pt v" "vpn v \<noteq> vpn va" for v
    using lk [rule_format, of v] that by (auto simp: umapped_def upage_def)
  fix v
  show "umapped s' pt v \<Longrightarrow> upage s' pt v \<notin> set (fresh s')"
    using new [of v] old [of v] f uinjD(4) [OF ui, of v] sub by (cases "vpn v = vpn va") auto
  fix w assume a: "umapped s' pt v \<and> umapped s' pt w \<and> upage s' pt v = upage s' pt w"
  show "vpn v = vpn w"
  proof (cases "vpn v = vpn va"; cases "vpn w = vpn va")
    assume "vpn v = vpn va" "vpn w \<noteq> vpn va"
    then show ?thesis using a new [of v] old [of w] e [of w] by simp
  next
    assume "vpn v \<noteq> vpn va" "vpn w = vpn va"
    then show ?thesis using a new [of w] old [of v] e [of v] by simp
  next
    assume "vpn v \<noteq> vpn va" "vpn w \<noteq> vpn va"
    then show ?thesis using a old [of v] old [of w] uinjD(3) [OF ui, of v w] by simp
  qed simp
qed

lemma target_page:
  assumes ui: "uinj s pt" and va: "aligned va" and c: "target pt va s = Inr (s', pa)"
  shows "pa = 0 \<Longrightarrow> s' = s"
    and "pa \<noteq> 0 \<Longrightarrow> uinj s' pt \<and> umapped s' pt va \<and> upage s' pt va = pa
      \<and> (\<forall>v. umapped s pt v \<longrightarrow> vpn v \<noteq> vpn va \<longrightarrow> lookup s' pt v = lookup s pt v \<and> page s' (upage s pt v) = page s (upage s pt v))"
proof -
  have "(pa = 0 \<longrightarrow> s' = s) \<and> (pa \<noteq> 0 \<longrightarrow> uinj s' pt \<and> umapped s' pt va \<and> upage s' pt va = pa
      \<and> (\<forall>v. umapped s pt v \<longrightarrow> vpn v \<noteq> vpn va \<longrightarrow> lookup s' pt v = lookup s pt v \<and> page s' (upage s pt v) = page s (upage s pt v)))"
  proof (cases "cowpage pt va s = 0 \<and> umapped s pt va \<and> upage s pt va \<noteq> 0")
    case False
    then have "s' = s" "pa = walkaddr pt va s"
      using c va by (auto simp: target_def cowalloc_def walkaddr_upage aligned_def Let_def split: if_splits)
    then show ?thesis using ui by (simp add: walkaddr_upage)
  next
    case True
    then have u: "umapped s pt va" "upage s pt va \<noteq> 0" and t: "cowalloc pt va s = Inr (s', pa)" using c by (simp_all add: target_def)
    have lt: "va < MAXVA" and e: "lookup s pt va AND PTE_V \<noteq> 0" "lookup s pt va AND PTE_U \<noteq> 0" using u(1) by (simp_all add: umapped_def)
    note ok = uinjD(1) [OF ui]
    show ?thesis
    proof (cases "refcnt s (upage s pt va) = 1")
      case rc: True
      let ?e = "(lookup s pt va OR PTE_W) AND NOT PTE_F"
      obtain s1 where s1: "cowalloc pt va s = Inr (s1, upage s pt va)" "tree_step s pt s1" "page s1 = page s"
        "refcnt s1 = refcnt s" "fresh s1 = fresh s"
        and lk: "\<forall>v. v < MAXVA \<longrightarrow> lookup s1 pt v = (if vpn v = vpn va then ?e else lookup s pt v)"
        by (rule cowalloc_last [OF ok va u(1) rc u(2)])
      have eq: "s' = s1" "pa = upage s pt va" using t s1(1) by simp_all
      have p: "PTE2PA ?e = upage s pt va" unfolding upage_def by (rule PTE2PA_eqI) (simp only: flag_simps, auto)
      have "?e AND PTE_V \<noteq> 0" "?e AND PTE_U \<noteq> 0" using e by (simp_all only: flag_simps) auto
      then have um: "umapped s1 pt va" using lk lt by (simp add: umapped_def)
      have "upage s1 pt va = pa" using lk lt p eq(2) by (simp add: upage_def)
      moreover have "uinj s1 pt"
      proof (rule one_entry_uinj [OF ui s1(2) um lk], unfold p s1(5))
        show "upage s pt v \<noteq> upage s pt va" if "umapped s pt v" "vpn v \<noteq> vpn va" for v using uinjD(3) [OF ui that(1) u(1)] that(2) by blast
        show "upage s pt va \<notin> set (fresh s)" by (rule uinjD(4) [OF ui u(1)])
      qed
      moreover have "v < MAXVA" if "umapped s pt v" for v using that by (simp add: umapped_def)
      ultimately show ?thesis using um u(2) eq lk s1(3) by simp
    next
      case rc: False
      show ?thesis
      proof (cases "fresh s")
        case Nil
        obtain t where "walk pt va False s = Inr (s, Some (t, PX 0 va))" by (rule walk_valid [OF lt e(1)])
        then have "s' = s" "pa = 0" using t va u rc Nil by (simp_all add: cowalloc_def walkaddr_upage aligned_def Let_def)
        then show ?thesis by simp
      next
        case (Cons mem ps)
        let ?e = "private_entry mem (lookup s pt va)"
        obtain s1 where s1: "cowalloc pt va s = Inr (s1, mem)" "tree_step s pt s1" "fresh s1 = ps" "page s1 = (page s)(mem := page s (upage s pt va))"
            "refcnt s1 = (refcnt s)(mem := 1, upage s pt va := ((refcnt s)(mem := 1)) (upage s pt va) - 1)"
            "vmcalls s1 = vmcalls s @ [Kfree_page (upage s pt va)]"
          and lk: "\<forall>v. v < MAXVA \<longrightarrow> lookup s1 pt v = (if vpn v = vpn va then ?e else lookup s pt v)"
          by (rule cowalloc_shared [OF ok va u(1) rc u(2) Cons])
        have eq: "s' = s1" "pa = mem" using t s1(1) by simp_all
        have mem: "aligned mem" "mem \<noteq> 0" "mem \<notin> set ps" using ok uinjD(2) [OF ui] Cons by (auto simp: pgtab_ok_def)
        have p: "PTE2PA ?e = mem" by (rule private_entry_page [OF mem(1)])
        have "?e AND PTE_V \<noteq> 0" "?e AND PTE_U \<noteq> 0" using e unfolding private_entry_def by (simp_all only: flag_simps) auto
        then have um: "umapped s1 pt va" using lk lt by (simp add: umapped_def)
        have nm: "upage s pt v \<noteq> mem" if "umapped s pt v" for v using uinjD(4) [OF ui that] Cons by auto
        have "upage s1 pt va = pa" using lk lt p eq(2) by (simp add: upage_def)
        moreover have "uinj s1 pt" by (rule one_entry_uinj [OF ui s1(2) um lk], unfold p s1(3)) (use nm mem(3) in blast)+
        moreover have "v < MAXVA" if "umapped s pt v" for v using that by (simp add: umapped_def)
        ultimately show ?thesis using um mem(2) eq lk s1(4) nm by simp
      qed
    qed
  qed
  then show "pa = 0 \<Longrightarrow> s' = s"
    and "pa \<noteq> 0 \<Longrightarrow> uinj s' pt \<and> umapped s' pt va \<and> upage s' pt va = pa
      \<and> (\<forall>v. umapped s pt v \<longrightarrow> vpn v \<noteq> vpn va \<longrightarrow> lookup s' pt v = lookup s pt v \<and> page s' (upage s pt v) = page s (upage s pt v))"
    by blast+
qed

lemma copyout_step:
  assumes "src \<noteq> []" and "target pt (PGROUNDDOWN dst) s = Inr (s1, pa)"
  shows "copyout pt dst src s = (if pa = 0 then Inr (s1, - 1) else
    copyout pt (PGROUNDDOWN dst + PGSZ) (drop (page_chunk dst (length src)) src)
      (write_page pa (unat (dst - PGROUNDDOWN dst)) (take (page_chunk dst (length src)) src) s1))"
  using assms by (subst copyout.simps) (simp add: target_def Let_def)

lemma copyout_target: "copyout pt dst src s = Inr r \<Longrightarrow> src \<noteq> [] \<Longrightarrow> \<exists>s1 pa. target pt (PGROUNDDOWN dst) s = Inr (s1, pa)"
  by (subst (asm) copyout.simps) (auto simp: target_def Let_def split: sum.splits)

lemma write_page_view:
  "lookup (write_page p off bs s) pt v = lookup s pt v" "umapped (write_page p off bs s) pt v = umapped s pt v"
  "upage (write_page p off bs s) pt v = upage s pt v" "uinj (write_page p off bs s) pt = uinj s pt"
proof -
  have e: "pte (write_page p off bs s) = pte s" "fresh (write_page p off bs s) = fresh s" by simp_all
  note c = pte_cong [OF e]
  show u: "lookup (write_page p off bs s) pt v = lookup s pt v" "umapped (write_page p off bs s) pt v = umapped s pt v"
    "upage (write_page p off bs s) pt v = upage s pt v" for v by (simp_all add: umapped_def upage_def c)
  show "uinj (write_page p off bs s) pt = uinj s pt" unfolding uinj_def u c e ..
qed

lemma copyout_keeps:
  assumes "uinj s pt" and "copyout pt dst src s = Inr (s', r)" and "umapped s pt v" and "vpn v < vpn dst"
  shows "lookup s' pt v = lookup s pt v \<and> page s' (upage s pt v) = page s (upage s pt v)"
  using assms
proof (induction "length src" arbitrary: dst src s rule: less_induct)
  case less
  let ?v = "PGROUNDDOWN dst"
  show ?case
  proof (cases "src = []")
    case True
    then show ?thesis using less.prems(2) by (subst (asm) copyout.simps) simp
  next
    case False
    obtain s1 pa where t: "target pt ?v s = Inr (s1, pa)" using copyout_target [OF less.prems(2) False] by blast
    note tp = target_page [OF less.prems(1) aligned_PGROUNDDOWN t]
    note st = copyout_step [OF False t]
    show ?thesis
    proof (cases "pa = 0")
      case True
      then show ?thesis using less.prems(2) st tp(1) by simp
    next
      case pz: False
      let ?n = "page_chunk dst (length src)"
      let ?s = "write_page pa (unat (dst - ?v)) (take ?n src) s1"
      have r: "copyout pt (?v + PGSZ) (drop ?n src) ?s = Inr (s', r)" using less.prems(2) st pz by simp
      have s1: "uinj s1 pt" "umapped s1 pt ?v" "upage s1 pt ?v = pa" "lookup s1 pt v = lookup s pt v"
        "page s1 (upage s pt v) = page s (upage s pt v)" using tp(2) [OF pz] less.prems(3,4) by simp_all
      have uv: "umapped s1 pt v" "upage s1 pt v = upage s pt v" using s1(4) less.prems(3) by (simp_all add: umapped_def upage_def)
      have np: "upage s pt v \<noteq> pa" using uinjD(3) [OF s1(1) uv(1) s1(2)] uv(2) s1(3) less.prems(4) by auto
      have "?v < MAXVA" using s1(2) by (simp add: umapped_def)
      then have nx: "vpn (?v + PGSZ) = Suc (vpn dst)" using next_page(2) [OF next_below_MAXVA] by simp
      have "length (drop ?n src) < length src" using False page_chunk_pos [of "length src" dst] by simp
      moreover have "uinj ?s pt" "umapped ?s pt v" by (simp_all add: write_page_view s1 uv)
      ultimately have "lookup s' pt v = lookup ?s pt v \<and> page s' (upage ?s pt v) = page ?s (upage ?s pt v)"
        using less.hyps [OF _ _ r] nx less.prems(4) by simp
      then show ?thesis using np s1(4,5) uv(2) unfolding write_page_view by (simp add: write_page_def)
    qed
  qed
qed

text \<open>A parent with one user page, for the examples.\<close>

definition parent_vm :: vmstate where
  "parent_vm = empty_vm\<lparr>refcnt := \<lambda>_. 1\<rparr>"

abbreviation child_pt :: u64 where "child_pt \<equiv> 0x8000B000"

lemma parent_vm_ok:
  "two_trees parent_vm empty_pt child_pt" "lookup parent_vm empty_pt v = 0" "lookup parent_vm child_pt v = 0"
proof -
  have f: "pte parent_vm x = (\<lambda>_. 0)" "fresh parent_vm = fresh empty_vm" for x by (simp_all add: parent_vm_def empty_vm_def)
  have d: "distinct (empty_pt # fresh parent_vm)" "distinct (child_pt # fresh parent_vm)" "\<And>x. x \<in> set (fresh parent_vm) \<Longrightarrow> aligned x"
    unfolding f by (auto simp: empty_vm_def aligned_def)
  note e = empty_pgtab_ok [OF f(1) d(1,3)] empty_pgtab_ok [OF f(1) d(2,3)]
  show "lookup parent_vm empty_pt v = 0" "lookup parent_vm child_pt v = 0" using e(2,4) by blast+
  have t: "tab parent_vm x p = (if p = [] then Some x else None)" for x p
  proof (induction p)
    case (Cons k p)
    then show ?case using f(1) by (cases p) simp_all
  qed simp
  have "tables parent_vm x \<subseteq> {x}" for x by (auto simp: tables_def t split: if_splits)
  from this [of empty_pt] this [of child_pt] have "tables parent_vm empty_pt \<inter> tables parent_vm child_pt = {}" by auto
  then show "two_trees parent_vm empty_pt child_pt" using e(1,3) by (simp add: two_trees_def)
qed

lemma parent_page_perm:
  assumes e: "PA2PTE 0x87000000 OR perm OR PTE_V = x" and x: "x AND PTE_V \<noteq> 0" "x AND PTE_U \<noteq> 0" "PTE2PA x = 0x87000000"
  obtains s where "mappages empty_pt 0 PGSZ 0x87000000 perm parent_vm = Inr (s, 0)" "forkable s empty_pt child_pt PGSZ" "uinj s empty_pt"
    "\<And>v. umapped s empty_pt v \<Longrightarrow> lookup s empty_pt v = x" "umapped s empty_pt 0" "upage s empty_pt 0 = 0x87000000"
proof -
  have a: "aligned 0" "(0 :: u64) < MAXVA" "lookup parent_vm empty_pt 0 AND PTE_V = 0" by (simp_all add: aligned_def parent_vm_ok)
  have ok: "pgtab_ok parent_vm empty_pt" using parent_vm_ok(1) by (simp add: two_trees_def)
  obtain s where m: "mappages empty_pt 0 PGSZ 0x87000000 perm parent_vm = Inr (s, 0)" "map_frame parent_vm empty_pt s"
    "length (fresh parent_vm) \<le> length (fresh s) + 2"
    and l: "\<And>v. v < MAXVA \<Longrightarrow> lookup s empty_pt v = (if vpn v = 0 then x else 0)"
  proof (cases rule: mappages_one [OF ok a, of "0x87000000" perm, case_names mapped nomem])
    case (mapped s)
    show ?thesis by (rule that [OF mapped(1-3)]) (simp add: mapped(4) parent_vm_ok flip: e)
  next
    case (nomem s)
    then show ?thesis by (simp add: parent_vm_def empty_vm_def)
  qed
  note two = two_trees_step [OF parent_vm_ok(1) map_frameD(1) [OF m(2)]]
  have ln: "lookup s child_pt v = 0" for v using two(2) parent_vm_ok(3) by simp
  have u: "umapped s empty_pt v \<longleftrightarrow> v < MAXVA \<and> vpn v = 0" for v using x by (auto simp: umapped_def l split: if_splits)
  have p: "upage s empty_pt v = 0x87000000" if "umapped s empty_pt v" for v
    using that x by (simp add: u upage_def l)
  have fr: "set (fresh s) \<subseteq> set (fresh parent_vm)" by (rule tree_step_fresh [OF map_frameD(1) [OF m(2)]])
  then have nf: "0x87000000 \<notin> set (fresh s)" "0 \<notin> set (fresh s)" by (auto simp: parent_vm_def empty_vm_def)
  have rc: "refcnt s 0x87000000 = 1" using map_frameD(5) [OF m(2), of "0x87000000"] by (simp add: parent_vm_def empty_vm_def)
  have len: "2 \<le> length (fresh s)" using m(3) by (simp add: parent_vm_def empty_vm_def)
  have "forkable s empty_pt child_pt PGSZ"
    unfolding forkable_def using two(1) len ln nf(1) rc by (auto simp: u p end_page_def umapped_def [of s child_pt])
  moreover have "uinj s empty_pt" unfolding uinj_def using map_frameD(2) [OF m(2)] nf by (auto simp: u p)
  moreover have "umapped s empty_pt 0" by (simp add: u)
  ultimately show ?thesis using that m(1) l p by (simp add: u)
qed

lemma parent_page:
  obtains s where "mappages empty_pt 0 PGSZ 0x87000000 30 parent_vm = Inr (s, 0)" "forkable s empty_pt child_pt PGSZ" "uinj s empty_pt"
    "lookup s empty_pt 0 = 0x21C0001F" "no_read_only s empty_pt"
proof -
  have e: "PA2PTE 0x87000000 OR 30 OR PTE_V = 0x21C0001F" by (simp add: PA2PTE_def push_bit_eq_mult drop_bit_eq_div)
  have x: "(0x21C0001F :: u64) AND PTE_V \<noteq> 0" "(0x21C0001F :: u64) AND PTE_U \<noteq> 0" "PTE2PA 0x21C0001F = 0x87000000"
    by (simp_all add: PTE2PA_def push_bit_eq_mult drop_bit_eq_div)
  obtain s where s: "mappages empty_pt 0 PGSZ 0x87000000 30 parent_vm = Inr (s, 0)" "forkable s empty_pt child_pt PGSZ" "uinj s empty_pt"
    and l: "\<And>v. umapped s empty_pt v \<Longrightarrow> lookup s empty_pt v = 0x21C0001F" and u: "umapped s empty_pt 0"
    by (rule parent_page_perm [OF e x]) blast
  show ?thesis by (rule that [OF s l [OF u]]) (simp add: no_read_only_def l)
qed

text \<open>
  C21: What \<open>copyout\<close> has written to a range of user memory without an error, \<open>copyin\<close> of the same range reads back,
  also across page boundaries and when pages of the range are copy-on-write and had to be copied first. The page
  table is well-formed, maps no physical page at two addresses and no page that is free.
\<close>

theorem copyout_copyin:
  assumes "uinj s pt" and "copyout pt dst src s = Inr (s', 0)"
  shows "copyin pt dst (length src) s' = (0, src)"
  using assms
proof (induction "length src" arbitrary: dst src s rule: less_induct)
  case less
  let ?v = "PGROUNDDOWN dst"
  show ?case
  proof (cases "src = []")
    case True
    then show ?thesis by (subst copyin.simps) simp
  next
    case False
    obtain s1 pa where t: "target pt ?v s = Inr (s1, pa)" using copyout_target [OF less.prems(2) False] by blast
    note st = copyout_step [OF False t]
    have pz: "pa \<noteq> 0" using less.prems(2) st by (simp split: if_splits)
    let ?n = "page_chunk dst (length src)"
    let ?off = "unat (dst - ?v)"
    let ?s = "write_page pa ?off (take ?n src) s1"
    have r: "copyout pt (?v + PGSZ) (drop ?n src) ?s = Inr (s', 0)" using less.prems(2) st pz by simp
    have s1: "uinj s1 pt" "umapped s1 pt ?v" "upage s1 pt ?v = pa"
      using target_page(2) [OF less.prems(1) aligned_PGROUNDDOWN t pz] by blast+
    have ui: "uinj ?s pt" "umapped ?s pt ?v" "upage ?s pt ?v = pa" by (simp_all add: write_page_view s1)
    have "?v < MAXVA" using s1(2) by (simp add: umapped_def)
    then have "vpn ?v < vpn (?v + PGSZ)" using next_page(2) [OF next_below_MAXVA] by simp
    note k = copyout_keeps [OF ui(1) r ui(2) this, unfolded ui(3)]
    have w: "walkaddr pt ?v s' = pa" using k ui(2,3) by (simp add: walkaddr_upage umapped_def upage_def)
    have n: "?n \<le> length src" "0 < ?n" using False page_chunk_pos [of "length src" dst] by (simp_all add: page_chunk_def)
    have ih: "copyin pt (?v + PGSZ) (length src - ?n) s' = (0, drop ?n src)" using less.hyps [OF _ ui(1) r] n False by simp
    have "map (\<lambda>i. page s' pa (?off + i)) [0..<?n] = take ?n src"
      using k n by (intro nth_equalityI) (simp_all add: write_page_def)
    then show ?thesis using False pz w ih by (subst copyin.simps) (simp add: Let_def)
  qed
qed

theorem copyout_copyin_witness:
  "\<exists>s s'. mappages empty_pt 0 PGSZ 0x87000000 30 parent_vm = Inr (s, 0) \<and> copyout empty_pt 0xFFD [7, 8, 9] s = Inr (s', 0)
     \<and> copyin empty_pt 0xFFD 3 s' = (0, [7, 8, 9])"
proof -
  obtain s where s: "mappages empty_pt 0 PGSZ 0x87000000 30 parent_vm = Inr (s, 0)" "uinj s empty_pt" "lookup s empty_pt 0 = 0x21C0001F"
    by (rule parent_page) blast
  have v: "PGROUNDDOWN 0xFFD = 0" by (simp add: PGROUNDDOWN_def)
  have t: "target empty_pt (PGROUNDDOWN 0xFFD) s = Inr (s, 0x87000000)"
    by (simp add: v target_def cowpage_lookup walkaddr_lookup s(3) PTE2PA_def push_bit_eq_mult drop_bit_eq_div)
  have "page_chunk 0xFFD (Suc (Suc (Suc 0))) = Suc (Suc (Suc 0))" by (simp add: page_chunk_def v)
  then obtain s' where "copyout empty_pt 0xFFD [7, 8, 9] s = Inr (s', 0)"
    using copyout_step [OF _ t, of "[7, 8, 9]"] by (simp add: v copyout.simps [of _ _ "[]"])
  then show ?thesis using s(1) copyout_copyin [OF s(2), of "0xFFD" "[7, 8, 9]" s'] by (auto simp: numeral_3_eq_3)
qed

text \<open>
  C2: After \<open>fork\<close> has copied an address space with \<open>uvmcopy\<close>, the child reads what the parent had, and neither sees
  a later \<open>copyout\<close> to the other: whatever is written through the table of the child, at any address and whether it
  succeeds or not, every \<open>copyin\<close> of the parent returns what it returned before the fork, and the other way round. Every
  user page of the parent must be writable or copy-on-write: the statement leaves out address spaces with
  pages of a mapped area without \<open>PROT_WRITE\<close>.
\<close>

theorem fork_isolation:
  assumes "forkable s old new sz" and "no_read_only s old"
  shows "\<exists>s1. uvmcopy old new sz s = Inr (s1, 0)
    \<and> (\<forall>va len. copyin old va len s1 = copyin old va len s \<and> copyin new va len s1 = copyin old va len s)
    \<and> (\<forall>dst src s2 r va len. copyout new dst src s1 = Inr (s2, r) \<longrightarrow> copyin old va len s2 = copyin old va len s)
    \<and> (\<forall>dst src s2 r va len. copyout old dst src s1 = Inr (s2, r) \<longrightarrow> copyin new va len s2 = copyin old va len s)"
proof -
  obtain s1 where s1: "uvmcopy old new sz s = Inr (s1, 0)" "page s1 = page s" "apart s1 new old" "apart s1 old new"
    and um: "\<And>v. umapped s1 old v = umapped s old v" "\<And>v. umapped s1 new v = umapped s old v"
    and up: "\<And>v. umapped s old v \<Longrightarrow> upage s1 old v = upage s old v" "\<And>v. umapped s old v \<Longrightarrow> upage s1 new v = upage s old v"
    by (rule uvmcopy_forks [OF assms]) blast
  have c: "copyin old va len s1 = copyin old va len s" "copyin new va len s1 = copyin old va len s" for va len
    by (rule copyin_cong [OF um(1) up(1)], simp_all add: s1(2), rule copyin_cong [OF um(2) up(2)], simp_all add: s1(2))
  have "copyin old va len s2 = copyin old va len s" if "copyout new dst src s1 = Inr (s2, r)" for dst src s2 r va len
    using same_view_copyin [OF conjunct2 [OF copyout_apart [OF s1(3) that]]] c(1) by simp
  moreover have "copyin new va len s2 = copyin old va len s" if "copyout old dst src s1 = Inr (s2, r)" for dst src s2 r va len
    using same_view_copyin [OF conjunct2 [OF copyout_apart [OF s1(4) that]]] c(2) by simp
  ultimately show ?thesis using s1(1) c by blast
qed

theorem fork_isolation_witness:
  "\<exists>s s1. mappages empty_pt 0 PGSZ 0x87000000 30 parent_vm = Inr (s, 0) \<and> uvmcopy empty_pt child_pt PGSZ s = Inr (s1, 0)
     \<and> copyin child_pt 0xFFD 3 s1 = copyin empty_pt 0xFFD 3 s"
proof -
  obtain s where "mappages empty_pt 0 PGSZ 0x87000000 30 parent_vm = Inr (s, 0)" "forkable s empty_pt child_pt PGSZ"
    "no_read_only s empty_pt" by (rule parent_page) blast
  then show ?thesis using fork_isolation [of s empty_pt child_pt PGSZ] by blast
qed

text \<open>
  C34: Read-only pages are shared after a fork and \<open>copyout\<close> writes to them. When a user page of the parent is neither
  writable nor copy-on-write, as \<open>mmap_handler\<close> maps the pages of an area without \<open>PROT_WRITE\<close>, \<open>uvmcopy\<close> gives the
  child the same page without marking it, and \<open>copyout\<close> does not test \<open>PTE_W\<close>: a byte that a system call stores there for the
  child is then read by the parent.
\<close>

theorem fork_shares_read_only:
  assumes f: "forkable s old new sz" and v: "umapped s old v" "upage s old v \<noteq> 0"
    and ro: "lookup s old v AND PTE_W = 0" "lookup s old v AND PTE_F = 0"
  shows "\<exists>s1 s2. uvmcopy old new sz s = Inr (s1, 0) \<and> copyout new v [b] s1 = Inr (s2, 0) \<and> copyin old v 1 s2 = (0, [b])"
proof -
  obtain s1 where s1: "uvmcopy old new sz s = Inr (s1, 0)"
    and uo: "\<And>v. umapped s1 old v = umapped s old v" and un: "\<And>v. umapped s1 new v = umapped s old v"
    and po: "\<And>v. umapped s old v \<Longrightarrow> upage s1 old v = upage s old v" and pn: "\<And>v. umapped s old v \<Longrightarrow> upage s1 new v = upage s old v"
    and ln: "\<And>v. umapped s old v \<Longrightarrow> lookup s1 new v = cow_new (lookup s old v)"
    by (rule uvmcopy_shared [OF f]) blast
  let ?v = "PGROUNDDOWN v" and ?p = "upage s old v"
  have lt: "v < MAXVA" and e: "lookup s old v AND PTE_V \<noteq> 0" using v(1) by (simp_all add: umapped_def)
  have l: "lookup t pt ?v = lookup t pt v" for t pt using lookup_vpn [OF PGROUNDDOWN_less [OF lt] lt] by simp
  have w: "walkaddr new ?v s1 = ?p" "walkaddr old ?v s1 = ?p"
    using v(1) uo [of v] un [of v] po [OF v(1)] pn [OF v(1)] PGROUNDDOWN_less [OF lt]
    by (simp_all add: walkaddr_lookup l umapped_def upage_def)
  have "cowpage new ?v s1 \<noteq> 0" using ln [OF v(1)] cow_flags(8) [OF e] ro by (simp add: cowpage_lookup l)
  then have t: "target new ?v s1 = Inr (s1, ?p)" using w(1) by (simp add: target_def)
  have n: "page_chunk v 1 = 1" using page_chunk_pos [of 1 v] by (simp add: page_chunk_def)
  let ?s2 = "write_page ?p (unat (v - ?v)) [b] s1"
  have c: "copyout new v [b] s1 = Inr (?s2, 0)"
    using copyout_step [of "[b]", OF _ t] v(2) n by (simp add: copyout.simps [of _ _ "[]"])
  have "walkaddr old ?v ?s2 = walkaddr old ?v s1" unfolding walkaddr_lookup write_page_view ..
  then have "walkaddr old ?v ?s2 = ?p" using w(2) by (rule trans)
  then have "copyin old v 1 ?s2 = (0, [b])"
    using v(2) n by (subst copyin.simps) (simp add: Let_def copyin.simps [of _ _ 0] write_page_def)
  then show ?thesis using s1 c by blast
qed

theorem fork_shares_read_only_witness:
  "\<exists>s s1 s2. mappages empty_pt 0 PGSZ 0x87000000 18 parent_vm = Inr (s, 0) \<and> uvmcopy empty_pt child_pt PGSZ s = Inr (s1, 0)
     \<and> copyout child_pt 0 [7] s1 = Inr (s2, 0) \<and> copyin empty_pt 0 1 s2 = (0, [7])"
proof -
  have e: "PA2PTE 0x87000000 OR 18 OR PTE_V = 0x21C00013" by (simp add: PA2PTE_def push_bit_eq_mult drop_bit_eq_div)
  have x: "(0x21C00013 :: u64) AND PTE_V \<noteq> 0" "(0x21C00013 :: u64) AND PTE_U \<noteq> 0" "PTE2PA 0x21C00013 = 0x87000000"
    by (simp_all add: PTE2PA_def push_bit_eq_mult drop_bit_eq_div)
  obtain s where s: "mappages empty_pt 0 PGSZ 0x87000000 18 parent_vm = Inr (s, 0)" "forkable s empty_pt child_pt PGSZ"
    and l: "\<And>v. umapped s empty_pt v \<Longrightarrow> lookup s empty_pt v = 0x21C00013" and u: "umapped s empty_pt 0" "upage s empty_pt 0 = 0x87000000"
    by (rule parent_page_perm [OF e x]) blast
  have "upage s empty_pt 0 \<noteq> 0" "lookup s empty_pt 0 AND PTE_W = 0" "lookup s empty_pt 0 AND PTE_F = 0"
    by (simp_all add: u(2) l [OF u(1)])
  from fork_shares_read_only [OF s(2) u(1) this, of 7] show ?thesis using s(1) by blast
qed

end
