(* ===== verification/Vm_Size.thy ===== *)
theory Vm_Size
  imports Vm_Cow
begin

text \<open>
  Faults on user pages, growing and shrinking an address space with \<open>uvmalloc\<close> and \<open>uvmdealloc\<close>, and giving all of
  its pages back with \<open>uvmfree\<close>.
\<close>

section \<open>Page faults\<close>

text \<open>
  C33: Two ways in which a process panics the kernel through the guard page below its stack, a valid entry without
  \<open>PTE_U\<close>. The stack pointer is the process's own to set: with a value below the guard page, a load or store there
  reaches \<open>usertrap\<close>, and the address as an argument of a system call reaches \<open>argaddr\<close>; when \<open>mmap_handler\<close> rejects
  the address, as when no mapped area contains it, and a page is free both take it for a lazily allocated page and map it a second time, which
  \<open>mappages\<close> answers with \<open>panic(remap)\<close>.
\<close>

theorem guard_page_panics:
  assumes "va < MAXVA" and "lookup s pt va AND PTE_V \<noteq> 0" and "lookup s pt va AND PTE_F = 0" and "lookup s pt va AND PTE_U = 0"
    and "PGROUNDUP sp - 1 < va" and "va < sz" and "mmap_handler pt areas rd va cause s = Inr (s, - 1)"
    and "fresh s = pa # ps"
  shows "page_fault pt sz shm sp areas rd cause va s = Inl ''remap'' \<and> argaddr pt sz sp va s = Inl ''remap''"
proof -
  let ?s = "zero_page pa (kalloc_page pa ps s)"
  have e: "pte ?s = pte s" by (simp add: zero_page_def)
  have "lookup ?s pt va = lookup s pt va" unfolding lookup_def leaf_pte_def tab_cong [OF e] e ..
  moreover have "lookup ?s pt (PGROUNDDOWN va) = lookup ?s pt va"
    using lookup_vpn [OF PGROUNDDOWN_less assms(1)] assms(1) by simp
  ultimately have "mappages pt (PGROUNDDOWN va) PGSZ pa perm ?s = Inl ''remap''" for perm
    using mappages_one_valid [OF aligned_PGROUNDDOWN PGROUNDDOWN_less [OF assms(1)], of ?s pt] assms(2) by simp
  moreover have "cowpage pt va s \<noteq> 0" "walkaddr pt va s = 0" using assms(3,4) by (simp_all add: cowpage_lookup walkaddr_lookup)
  ultimately show ?thesis using assms(5-8) by (simp add: page_fault_def lazy_fault_def argaddr_def Let_def)
qed

theorem guard_page_panics_witness:
  "\<exists>s. mappages empty_pt 0x4000 PGSZ 0x87000000 14 empty_vm = Inr (s, 0)
     \<and> page_fault empty_pt 0x8000 0 0x1008 [] (\<lambda>_ _. (0, [])) 13 0x4010 s = Inl ''remap'' \<and> argaddr empty_pt 0x8000 0x1008 0x4010 s = Inl ''remap''"
proof -
  have a: "aligned 0x4000" "(0x4000 :: u64) < MAXVA" "lookup empty_vm empty_pt 0x4000 AND PTE_V = 0"
    by (simp_all add: aligned_def empty_vm_ok)
  have e: "PA2PTE 0x87000000 OR 14 OR PTE_V = 0x21C0000F" by (simp add: PA2PTE_def push_bit_eq_mult drop_bit_eq_div)
  obtain s where m: "mappages empty_pt 0x4000 PGSZ 0x87000000 14 empty_vm = Inr (s, 0)" "length (fresh empty_vm) \<le> length (fresh s) + 2"
    and l: "lookup s empty_pt 0x4010 = 0x21C0000F"
  proof (cases rule: mappages_one [OF empty_vm_ok(1) a, of "0x87000000" 14, case_names mapped nomem])
    case (mapped s)
    show ?thesis by (rule that [OF mapped(1,3)]) (simp add: mapped(4) flip: e)
  next
    case (nomem s)
    then show ?thesis by (simp add: empty_vm_def)
  qed
  obtain pa ps where f: "fresh s = pa # ps" using m(2) by (cases "fresh s") (simp_all add: empty_vm_def)
  have "page_fault empty_pt 0x8000 0 0x1008 [] (\<lambda>_ _. (0, [])) 13 0x4010 s = Inl ''remap'' \<and> argaddr empty_pt 0x8000 0x1008 0x4010 s = Inl ''remap''"
    by (rule guard_page_panics [where pa = pa and ps = ps]) (simp_all add: l f PGROUNDUP_def mmap_handler_def)
  then show ?thesis using m(1) by blast
qed

section \<open>Growing and shrinking\<close>

lemma PGROUNDUP_unat: "unat a \<le> 2 ^ 38 \<Longrightarrow> unat (PGROUNDUP a) = end_page a * 4096"
proof -
  assume a: "unat a \<le> 2 ^ 38"
  have "PGROUNDUP a = PGROUNDDOWN (a + 4095)" by (simp add: PGROUNDUP_def PGROUNDDOWN_def)
  moreover have "unat (a + 4095) = unat a + 4095" using a by (simp add: unat_word_ariths)
  ultimately show ?thesis by (simp add: PGROUNDDOWN_unat end_page_def)
qed

lemma PGROUNDUP_facts:
  assumes "unat a \<le> 2 ^ 38"
  shows "aligned (PGROUNDUP a)" and "vpn (PGROUNDUP a) = end_page a" and "unat (PGROUNDUP a) \<le> 2 ^ 38"
proof -
  note u = PGROUNDUP_unat [OF assms]
  show "aligned (PGROUNDUP a)" "vpn (PGROUNDUP a) = end_page a" by (simp_all add: aligned_unat vpn_def u)
  have "end_page a < Suc (2 ^ 26)" using assms unfolding end_page_def by (simp add: div_less_iff_less_mult)
  then show "unat (PGROUNDUP a) \<le> 2 ^ 38" unfolding u by simp
qed

lemma end_page_aligned: "aligned a \<Longrightarrow> end_page a = vpn a"
proof -
  assume "aligned a"
  then obtain q where q: "unat a = q * 4096" by (auto simp: aligned_unat elim!: dvdE simp flip: dvd_eq_mod_eq_0)
  then have "unat a + 4095 = 4095 + q * 4096" by simp
  then have "end_page a = q" unfolding end_page_def by simp
  then show ?thesis by (simp add: vpn_def q)
qed

lemma uvmdealloc_clears:
  assumes ok: "pgtab_ok s pt" and old: "aligned oldsz" "unat oldsz \<le> 2 ^ 38" and new: "newsz \<le> oldsz" "aligned newsz"
    and leaf: "\<And>v. v < MAXVA \<Longrightarrow> vpn newsz \<le> vpn v \<Longrightarrow> vpn v < vpn oldsz \<Longrightarrow> PTE_FLAGS (lookup s pt v) \<noteq> PTE_V"
  shows "\<exists>s' r. uvmdealloc pt oldsz newsz s = Inr (s', r) \<and> unmap_frame s pt s'
    \<and> vmcalls s' = vmcalls s @ map Kfree_page (mapped_pages s pt newsz (vpn oldsz - vpn newsz))
    \<and> (\<forall>v. v < MAXVA \<longrightarrow> lookup s' pt v =
         (if vpn newsz \<le> vpn v \<and> vpn v < vpn oldsz \<and> lookup s pt v AND PTE_V \<noteq> 0 then 0 else lookup s pt v))"
proof (cases "newsz = oldsz")
  case True
  then show ?thesis using unmap_frame_refl [OF ok] by (auto simp: uvmdealloc_def mapped_pages_def)
next
  case False
  then have lt: "newsz < oldsz" using new(1) by simp
  then have un: "unat newsz \<le> 2 ^ 38" using old(2) by (simp add: word_less_nat_alt)
  have pu: "PGROUNDUP newsz = newsz" "PGROUNDUP oldsz = oldsz"
    using PGROUNDUP_unat [OF un] PGROUNDUP_unat [OF old(2)] old(1) new(2)
    by (auto simp: word_eq_iff_unsigned [where 'a = nat] end_page_aligned vpn_def aligned_unat)
  let ?n = "vpn oldsz - vpn newsz"
  have vo: "unat oldsz = vpn oldsz * 4096" "unat newsz = vpn newsz * 4096" using old(1) new(2) by (auto simp: vpn_def aligned_unat)
  have vl: "vpn newsz < vpn oldsz" using lt vo by (simp add: word_less_nat_alt)
  have vb: "vpn oldsz \<le> 2 ^ 26" using vo(1) old(2) by simp
  have "unat (oldsz - newsz) = unat oldsz - unat newsz" using new(1) by (simp add: unat_sub)
  then have d: "unat ((oldsz - newsz) div PGSZ) = ?n" using vl by (simp add: unat_div vo flip: diff_mult_distrib)
  have ct: "scast (ucast ((oldsz - newsz) div PGSZ) :: u32) = (of_nat ?n :: u64)"
  proof -
    have w: "ucast ((oldsz - newsz) div PGSZ) = (of_nat ?n :: u32)" 
      by (simp add: word_eq_iff_unsigned [where 'a = nat] unsigned_ucast_eq unsigned_of_nat d)
    have "sint (of_nat ?n :: u32) = int ?n" using vb by (simp add: signed_of_nat signed_take_bit_int_eq_self)
    then show ?thesis unfolding w by (simp add: scast_eq)
  qed
  have b: "unat newsz + ?n * 4096 \<le> 2 ^ 38" using vl vo old(2) by (simp flip: add_mult_distrib)
  have leaf': "PTE_FLAGS (lookup s pt v) \<noteq> PTE_V" if "v < MAXVA" "vpn newsz \<le> vpn v" "vpn v < vpn newsz + ?n" for v
    using leaf that vl by simp
  have "uvmdealloc pt oldsz newsz s = map_sum id (\<lambda>s'. (s', newsz)) (uvmunmap_from pt newsz (newsz + of_nat ?n * PGSZ) True s)"
    using lt lt [unfolded not_le [symmetric]] new(2) unfolding uvmdealloc_def Let_def pu ct uvmunmap_def
    by (simp add: aligned_def) (cases "uvmunmap_from pt newsz (newsz + of_nat ?n * PGSZ) True s"; simp)
  then show ?thesis using uvmunmap_from_clears [OF ok new(2) b refl leaf', of True] vl by auto
qed

text \<open>The pages from one number up to another are new zeroed user pages, taken from the free ones, no two of them the
  same; every other entry is as it was.\<close>

definition grown :: "vmstate \<Rightarrow> u64 \<Rightarrow> nat \<Rightarrow> nat \<Rightarrow> vmstate \<Rightarrow> bool" where
  "grown s pt lo hi s' = (\<forall>v. v < MAXVA \<longrightarrow>
     (if lo \<le> vpn v \<and> vpn v < hi
      then PTE_FLAGS (lookup s' pt v) = 31 \<and> upage s' pt v \<in> set (fresh s) \<and> page s' (upage s' pt v) = (\<lambda>_. 0)
        \<and> (\<forall>w. w < MAXVA \<and> lo \<le> vpn w \<and> vpn w < hi \<and> upage s' pt w = upage s' pt v \<longrightarrow> vpn w = vpn v)
      else lookup s' pt v = lookup s pt v))"

definition undone :: "vmstate \<Rightarrow> u64 \<Rightarrow> nat \<Rightarrow> nat \<Rightarrow> vmstate \<Rightarrow> bool" where
  "undone s pt lo hi s' = (\<forall>v. v < MAXVA \<longrightarrow>
     (if lo \<le> vpn v \<and> vpn v < hi then lookup s' pt v AND PTE_V = 0 else lookup s' pt v = lookup s pt v))"

text \<open>No page is lost. The user pages of a range of page numbers; when the call has succeeded, each page it has taken is a
  page of the table or a user page of the range, and none has been freed; when it has failed, the pages that it has taken
  and that are not pages of the table have been freed, each of them once, and no other page has been.\<close>

definition upages :: "vmstate \<Rightarrow> u64 \<Rightarrow> nat \<Rightarrow> nat \<Rightarrow> u64 set" where
  "upages s pt lo hi = {upage s pt v |v. v < MAXVA \<and> lo \<le> vpn v \<and> vpn v < hi}"

definition no_leak :: "vmstate \<Rightarrow> u64 \<Rightarrow> nat \<Rightarrow> nat \<Rightarrow> vmstate \<Rightarrow> bool" where
  "no_leak s pt lo hi s' = (vmcalls s' = vmcalls s \<and> set (fresh s) - set (fresh s') \<subseteq> tables s' pt \<union> upages s' pt lo hi)"

definition returned :: "vmstate \<Rightarrow> u64 \<Rightarrow> u64 set \<Rightarrow> vmstate \<Rightarrow> bool" where
  "returned s pt us s' = (\<exists>ps. vmcalls s' = vmcalls s @ map Kfree_page ps \<and> distinct ps
     \<and> set ps = us \<union> (set (fresh s) - set (fresh s') - tables s' pt))"

text \<open>The user pages of a range are distinct pages that are neither free nor part of the table.\<close>

definition held :: "vmstate \<Rightarrow> u64 \<Rightarrow> nat \<Rightarrow> nat \<Rightarrow> bool" where
  "held s pt lo hi = (\<forall>v. v < MAXVA \<longrightarrow> lo \<le> vpn v \<longrightarrow> vpn v < hi \<longrightarrow>
     PTE_FLAGS (lookup s pt v) = 31 \<and> upage s pt v \<notin> set (fresh s) \<union> tables s pt
     \<and> (\<forall>w. w < MAXVA \<and> lo \<le> vpn w \<and> vpn w < hi \<and> upage s pt w = upage s pt v \<longrightarrow> vpn w = vpn v))"

lemma heldD:
  assumes "held s pt lo hi" and "v < MAXVA" and "lo \<le> vpn v" and "vpn v < hi"
  shows "PTE_FLAGS (lookup s pt v) = 31" and "lookup s pt v AND PTE_V \<noteq> 0" and "upage s pt v \<notin> set (fresh s)" and "upage s pt v \<notin> tables s pt"
    and "w < MAXVA \<Longrightarrow> lo \<le> vpn w \<Longrightarrow> vpn w < hi \<Longrightarrow> upage s pt w = upage s pt v \<Longrightarrow> vpn w = vpn v"
proof -
  show f: "PTE_FLAGS (lookup s pt v) = 31" and "upage s pt v \<notin> set (fresh s)" and "upage s pt v \<notin> tables s pt"
    and "w < MAXVA \<Longrightarrow> lo \<le> vpn w \<Longrightarrow> vpn w < hi \<Longrightarrow> upage s pt w = upage s pt v \<Longrightarrow> vpn w = vpn v"
    using assms unfolding held_def by blast+
  have "bit (PTE_FLAGS (lookup s pt v)) 0" unfolding f by simp
  then show "lookup s pt v AND PTE_V \<noteq> 0" by (simp add: flag_bits bit_FLAGS)
qed

text \<open>What unmapping such a range frees.\<close>

lemma held_mapped:
  assumes h: "held s pt (vpn a) (vpn a + n)" and b: "unat a + n * 4096 \<le> 2 ^ 38"
  shows "set (mapped_pages s pt a n) = upages s pt (vpn a) (vpn a + n)" and "distinct (mapped_pages s pt a n)"
proof -
  let ?v = "\<lambda>i. a + of_nat i * PGSZ"
  note u = page_unat(2,3) [OF b]
  have ok: "lookup s pt (?v i) AND PTE_V \<noteq> 0" if "i < n" for i using heldD(2) [OF h u(1) [OF that]] u(2) [OF that] that by simp
  then have "filter (\<lambda>i. lookup s pt (?v i) AND PTE_V \<noteq> 0) [0..<n] = [0..<n]" by (simp add: filter_id_conv)
  then have m: "mapped_pages s pt a n = map (\<lambda>i. upage s pt (?v i)) [0..<n]" by (simp add: mapped_pages_def upage_def)
  have "upage s pt v = upage s pt (?v (vpn v - vpn a))" if "v < MAXVA" "vpn a \<le> vpn v" "vpn v < vpn a + n" for v
    using lookup_vpn [OF that(1) u(1) [of "vpn v - vpn a"]] u(2) [of "vpn v - vpn a"] that by (simp add: upage_def)
  then have "upage s pt v \<in> (\<lambda>i. upage s pt (?v i)) ` {0..<n}" if "v < MAXVA" "vpn a \<le> vpn v" "vpn v < vpn a + n" for v
    using that by (intro image_eqI [where x = "vpn v - vpn a"]) auto
  then have "upages s pt (vpn a) (vpn a + n) \<subseteq> (\<lambda>i. upage s pt (?v i)) ` {0..<n}" unfolding upages_def by blast
  moreover have "upage s pt (?v i) \<in> upages s pt (vpn a) (vpn a + n)" if "i < n" for i
    unfolding upages_def using u(1) [OF that] u(2) [OF that] that by (intro CollectI exI [of _ "?v i"]) simp
  ultimately show "set (mapped_pages s pt a n) = upages s pt (vpn a) (vpn a + n)" unfolding m by auto
  have "i = j" if "i < n" "j < n" "upage s pt (?v i) = upage s pt (?v j)" for i j
    using heldD(5) [OF h u(1) [OF that(2)] _ _ u(1) [OF that(1)]] u(2) [OF that(1)] u(2) [OF that(2)] that by simp
  then show "distinct (mapped_pages s pt a n)" unfolding m by (simp add: distinct_map inj_on_def)
qed

text \<open>The pages that \<open>walk\<close> and with it the mapping of one page take become pages of the table.\<close>

lemma walk_from_tables:
  assumes "pgtab_ok s pt" and "tab s pt p = Some t" and "path_ok p" and "length p + l = 2" and "walk_from l t va True s = (s', r)"
  shows "tables s pt \<union> (set (fresh s) - set (fresh s')) \<subseteq> tables s' pt"
  using assms
proof (induction l arbitrary: p t s)
  case (Suc l)
  let ?k = "PX (Suc l) va"
  let ?e = "pte s t ?k"
  have pk: "path_ok (?k # p)" "length (?k # p) + l = 2" using Suc.prems(3,4) PX_less [of "Suc l" va] by (simp_all add: path_ok_def)
  show ?case
  proof (cases "?e AND PTE_V = 0")
    case False
    then have "tab s pt (?k # p) = Some (PTE2PA ?e)" "walk_from l (PTE2PA ?e) va True s = (s', r)"
      using Suc.prems(2,5) by (simp_all add: Let_def)
    then show ?thesis using Suc.IH [OF Suc.prems(1) _ pk] by blast
  next
    case True
    show ?thesis
    proof (cases "fresh s")
      case Nil
      then show ?thesis using Suc.prems(5) True by (simp add: Let_def)
    next
      case (Cons n ps)
      let ?s = "set_pte t ?k (PA2PTE n OR PTE_V) (zero_table n (kalloc_page n ps s))"
      note ta = tab_alloc [OF Suc.prems(1) Cons Suc.prems(2) pk(1) True]
      have t: "tab ?s pt (?k # p) = Some n" using ta [OF pk(1)] by simp
      have w: "walk_from l n va True ?s = (s', r)" using Suc.prems(5) True Cons by (simp add: Let_def)
      have f: "fresh ?s = ps" by (simp add: set_pte_def zero_table_def kalloc_page_def)
      have none: "tab s pt (?k # p) = None" using Suc.prems(2) True by simp
      have "tables s pt \<subseteq> tables ?s pt"
      proof
        fix x assume "x \<in> tables s pt"
        then obtain q where q: "path_ok q" "tab s pt q = Some x" by (auto simp: tables_def)
        then have "tab ?s pt q = Some x" using ta [OF q(1)] none by auto
        then show "x \<in> tables ?s pt" by (rule tablesI [OF q(1)])
      qed
      moreover have "n \<in> tables ?s pt" by (rule tablesI [OF pk(1) t])
      ultimately show ?thesis
        using Suc.IH [OF pgtab_alloc(1) [OF Suc.prems(1) Cons Suc.prems(2) pk(1) True] t pk w] unfolding f Cons by auto
    qed
  qed
qed simp

lemma mappages_one_tables:
  assumes ok: "pgtab_ok s pt" and a: "aligned a" "a < MAXVA" and m: "mappages pt a PGSZ pa perm s = Inr (s', r)"
  shows "tables s' pt = tables s pt \<union> (set (fresh s) - set (fresh s'))"
proof -
  have u: "unat a + 0 * 4096 < 2 ^ 38" using a(2) by (simp add: word_less_nat_alt)
  have m': "mappages_from pt a a pa perm s = Inr (s', r)"
    using m last_page [OF a(1) u] by (simp add: mappages_def PGROUNDDOWN_aligned [OF a(1)])
  obtain s1 x where w: "walk pt a True s = Inr (s1, x)" using walk_total [OF a(2)] by blast
  then have wf: "walk_from 2 pt a True s = (s1, x)" by (simp add: walk_def split: if_splits)
  have p: "path_ok []" by (simp add: path_ok_def)
  have t1: "tables s pt \<union> (set (fresh s) - set (fresh s1)) \<subseteq> tables s1 pt" by (rule walk_from_tables [OF ok _ p _ wf]) simp_all
  note wa = walk_alloc [OF ok w]
  have t2: "tables s1 pt \<subseteq> tables s pt \<union> (set (fresh s) - set (fresh s1))" by (rule tree_stepD(3) [OF wa(1)])
  have "tables s' pt = tables s1 pt \<and> fresh s' = fresh s1"
  proof (cases x)
    case None
    then show ?thesis using m' w by (subst (asm) mappages_from.simps) simp
  next
    case (Some tk)
    obtain t k where tk: "tk = (t, k)" by (cases tk)
    have s': "s' = set_pte t k (PA2PTE pa OR perm OR PTE_V) s1"
      using m' w Some tk by (subst (asm) mappages_from.simps) (simp split: if_splits)
    have "tab s1 pt [PX 1 a, PX 2 a] = Some t" using wa(8) [of t k] Some tk by simp
    note tab_leaf_write [OF tree_stepD(1) [OF wa(1)] path_ok_va _ this, of _ k "PA2PTE pa OR perm OR PTE_V"]
    then show ?thesis unfolding s' tables_def by auto
  qed
  then show ?thesis using t1 t2 by auto
qed

lemma user_entry: "aligned mem \<Longrightarrow> PTE2PA (PA2PTE mem OR 30 OR PTE_V) = mem" "PTE_FLAGS (PA2PTE mem OR 30 OR PTE_V) = 31"
proof -
  have b: "bit (30 :: u64) n \<Longrightarrow> n < 10" for n
  proof -
    have "(30 :: u64) AND 1023 = 30" by simp
    then have "bit (30 :: u64) n = (bit (30 :: u64) n \<and> bit (1023 :: u64) n)" by (metis bit_and_iff)
    then show "bit (30 :: u64) n \<Longrightarrow> n < 10" by (simp add: mask10 bit_simps)
  qed
  show "aligned mem \<Longrightarrow> PTE2PA (PA2PTE mem OR 30 OR PTE_V) = mem" by (rule PTE2PA_entry [OF _ b])
  have z: "PA2PTE mem AND 1023 = 0" by (rule bit_word_eqI) (auto simp: mask10 PA2PTE_def bit_simps)
  have "(PA2PTE mem OR 30 OR PTE_V) AND 1023 = (PA2PTE mem AND 1023) OR ((30 OR PTE_V) AND 1023)" by (simp add: bit.conj_disj_distrib2)
  then show "PTE_FLAGS (PA2PTE mem OR 30 OR PTE_V) = 31" by (simp add: PTE_FLAGS_def z)
qed

lemma uvmalloc_undoes:
  assumes ok: "pgtab_ok s pt" and a: "aligned a" "unat a \<le> 2 ^ 38" "aligned oldsz" "vpn oldsz \<le> vpn a" "vpn a \<le> end_page newsz"
    and free: "\<forall>v. v < MAXVA \<longrightarrow> vpn a \<le> vpn v \<longrightarrow> vpn v < end_page newsz \<longrightarrow> lookup s pt v AND PTE_V = 0"
    and h: "held s pt (vpn oldsz) (vpn a)"
  shows "\<exists>s' r. uvmdealloc pt a oldsz s = Inr (s', r) \<and> unmap_frame s pt s' \<and> undone s pt (vpn oldsz) (end_page newsz) s'
    \<and> tables s' pt = tables s pt
    \<and> (\<exists>ps. vmcalls s' = vmcalls s @ map Kfree_page ps \<and> distinct ps \<and> set ps = upages s pt (vpn oldsz) (vpn a))"
proof -
  have un: "unat oldsz = vpn oldsz * 4096" "unat a = vpn a * 4096" using a(1,3) by (auto simp: vpn_def aligned_unat)
  then have le: "oldsz \<le> a" using a(4) by (simp add: word_le_nat_alt)
  have lf: "PTE_FLAGS (lookup s pt v) \<noteq> PTE_V" if "v < MAXVA" "vpn oldsz \<le> vpn v" "vpn v < vpn a" for v
    using heldD(1) [OF h that] by simp
  let ?n = "vpn a - vpn oldsz"
  from uvmdealloc_clears [OF ok a(1,2) le a(3) lf] obtain s' r where s': "uvmdealloc pt a oldsz s = Inr (s', r)" "unmap_frame s pt s'"
    and vc: "vmcalls s' = vmcalls s @ map Kfree_page (mapped_pages s pt oldsz ?n)"
    and l: "\<forall>v. v < MAXVA \<longrightarrow> lookup s' pt v =
         (if vpn oldsz \<le> vpn v \<and> vpn v < vpn a \<and> lookup s pt v AND PTE_V \<noteq> 0 then 0 else lookup s pt v)" by auto
  have undone: "undone s pt (vpn oldsz) (end_page newsz) s'"
    unfolding undone_def
  proof (intro allI impI)
    fix v assume v: "v < MAXVA"
    show "if vpn oldsz \<le> vpn v \<and> vpn v < end_page newsz then lookup s' pt v AND PTE_V = 0 else lookup s' pt v = lookup s pt v"
      using l [rule_format, OF v] free [rule_format, OF v] a(4,5) by (cases "vpn v < vpn a") auto
  qed
  have tabs: "tables s' pt = tables s pt" using unmap_frameD(5) [OF s'(2)] by (auto simp: tables_def)
  have r: "vpn oldsz + ?n = vpn a" "unat oldsz + ?n * 4096 \<le> 2 ^ 38" using a(2,4) un by (simp_all flip: add_mult_distrib)
  have "held s pt (vpn oldsz) (vpn oldsz + ?n)" using h r(1) by simp
  note hm = held_mapped [OF this r(2), unfolded r(1)]
  from undone tabs s' vc hm show ?thesis by blast
qed

text \<open>One more page: the new page becomes the user page of the next number.\<close>

lemma held_step:
  assumes h: "held s pt lo k" and lo: "lo \<le> k"
    and l: "\<And>v. v < MAXVA \<Longrightarrow> lookup s1 pt v = (if vpn v = k then e else lookup s pt v)" and e: "PTE_FLAGS e = 31" "PTE2PA e = mem"
    and f: "mem \<notin> set (fresh s1)" "mem \<in> set (fresh s)" "set (fresh s1) \<subseteq> set (fresh s)"
    and t: "tables s1 pt \<subseteq> tables s pt \<union> (set (fresh s) - {mem})" "mem \<notin> tables s pt"
  shows "held s1 pt lo (Suc k)" and "upages s1 pt lo (Suc k) \<subseteq> insert mem (upages s pt lo k)" and "upages s pt lo k \<subseteq> upages s1 pt lo (Suc k)"
    and "v < MAXVA \<Longrightarrow> vpn v = k \<Longrightarrow> mem \<in> upages s1 pt lo (Suc k)"
proof -
  have new: "upage s1 pt v = mem" if "v < MAXVA" "vpn v = k" for v using l [OF that(1)] that(2) e(2) by (simp add: upage_def)
  have old: "upage s1 pt v = upage s pt v" if "v < MAXVA" "vpn v < k" for v using l [OF that(1)] that(2) by (simp add: upage_def)
  have ne: "upage s pt v \<noteq> mem" if "v < MAXVA" "lo \<le> vpn v" "vpn v < k" for v using heldD(3) [OF h that] f(2) by auto
  show "held s1 pt lo (Suc k)"
    unfolding held_def
  proof (intro allI impI conjI)
    fix v assume v: "v < MAXVA" "lo \<le> vpn v" "vpn v < Suc k"
    show "PTE_FLAGS (lookup s1 pt v) = 31" using l [OF v(1)] e(1) heldD(1) [OF h v(1,2)] v(3) by auto
    show "upage s1 pt v \<notin> set (fresh s1) \<union> tables s1 pt"
      using new [OF v(1)] old [OF v(1)] heldD(3,4) [OF h v(1,2)] f t v(3) by (cases "vpn v = k") auto
    fix w assume w: "w < MAXVA \<and> lo \<le> vpn w \<and> vpn w < Suc k \<and> upage s1 pt w = upage s1 pt v"
    then show "vpn w = vpn v"
      using v new [of v] new [of w] old [of v] old [of w] ne [of v] ne [of w] heldD(5) [OF h v(1,2), of w]
      by (cases "vpn v = k"; cases "vpn w = k") auto
  qed
  show "upages s1 pt lo (Suc k) \<subseteq> insert mem (upages s pt lo k)"
    unfolding upages_def using new old by (auto simp: less_Suc_eq)
  show "upages s pt lo k \<subseteq> upages s1 pt lo (Suc k)"
    unfolding upages_def using old by (force simp: less_Suc_eq)
  show "v < MAXVA \<Longrightarrow> vpn v = k \<Longrightarrow> mem \<in> upages s1 pt lo (Suc k)"
    unfolding upages_def using new lo by force
qed

lemma grown_step:
  assumes g: "grown s1 pt (Suc k) hi s'" and k: "k < hi"
    and l: "\<And>v. v < MAXVA \<Longrightarrow> lookup s1 pt v = (if vpn v = k then e else lookup s pt v)"
    and e: "PTE_FLAGS e = 31" "PTE2PA e = mem" "page s' mem = (\<lambda>_. 0)"
    and f: "mem \<in> set (fresh s)" "mem \<notin> set (fresh s1)" "set (fresh s1) \<subseteq> set (fresh s)"
  shows "grown s pt k hi s'"
  unfolding grown_def
proof (intro allI impI)
  have here: "lookup s' pt v = e \<and> upage s' pt v = mem" if "v < MAXVA" "vpn v = k" for v
    using g that l [OF that(1)] e(2) by (simp add: grown_def upage_def)
  have later: "PTE_FLAGS (lookup s' pt v) = 31 \<and> upage s' pt v \<in> set (fresh s1) \<and> page s' (upage s' pt v) = (\<lambda>_. 0)"
    if "v < MAXVA" "k < vpn v" "vpn v < hi" for v using g that by (simp add: grown_def)
  fix v assume v: "v < MAXVA"
  consider "vpn v = k" | "k < vpn v" "vpn v < hi" | "vpn v < k \<or> hi \<le> vpn v" by linarith
  then show "if k \<le> vpn v \<and> vpn v < hi
      then PTE_FLAGS (lookup s' pt v) = 31 \<and> upage s' pt v \<in> set (fresh s) \<and> page s' (upage s' pt v) = (\<lambda>_. 0)
        \<and> (\<forall>w. w < MAXVA \<and> k \<le> vpn w \<and> vpn w < hi \<and> upage s' pt w = upage s' pt v \<longrightarrow> vpn w = vpn v)
      else lookup s' pt v = lookup s pt v"
  proof cases
    case 1
    have "vpn w = k" if "w < MAXVA" "k \<le> vpn w" "vpn w < hi" "upage s' pt w = mem" for w
      using later [of w] that f(2) by (cases "vpn w = k") auto
    then show ?thesis using 1 k here [OF v] e f(1) by auto
  next
    case 2
    have "vpn w = vpn v" if w: "w < MAXVA" "k \<le> vpn w" "vpn w < hi" "upage s' pt w = upage s' pt v" for w
    proof (cases "vpn w = k")
      case True
      then show ?thesis using here [OF w(1)] later [OF v 2] w(4) f(2) by simp
    next
      case False
      then show ?thesis using g v 2 w unfolding grown_def by (metis Suc_leI le_neq_implies_less)
    qed
    then show ?thesis using later [OF v 2] 2 f(3) by auto
  next
    case 3
    then have "lookup s' pt v = lookup s1 pt v" using g v by (auto simp: grown_def)
    then show ?thesis using l [OF v] 3 k by auto
  qed
qed

text \<open>The outcome of the loop from a page number on, after the pages before it have been mapped.\<close>

definition alloc_outcome :: "vmstate \<Rightarrow> u64 \<Rightarrow> nat \<Rightarrow> nat \<Rightarrow> nat \<Rightarrow> u64 \<Rightarrow> vmstate \<Rightarrow> u64 \<Rightarrow> bool" where
  "alloc_outcome s pt lo k hi newsz s' r = (tree_step s pt s' \<and> tables s pt \<subseteq> tables s' pt
     \<and> (\<forall>x. x \<notin> set (fresh s) \<longrightarrow> page s' x = page s x)
     \<and> (r = newsz \<and> grown s pt k hi s' \<and> no_leak s pt k hi s'
        \<or> r = 0 \<and> undone s pt lo hi s' \<and> returned s pt (upages s pt lo k) s')
     \<and> (3 * (hi - k) \<le> length (fresh s) \<longrightarrow> r = newsz \<and> grown s pt k hi s' \<and> no_leak s pt k hi s'))"

lemma returned_nomem:
  assumes fr: "fresh s = mem # ps" "mem \<notin> set ps" "mem \<notin> us" "mem \<notin> tables s pt" and f': "fresh s' = []"
    and t: "tables s' pt = tables s pt \<union> set ps" and us: "us \<inter> set (fresh s) = {}"
    and c: "vmcalls s' = vmcalls s @ [Kfree_page mem] @ map Kfree_page qs" "distinct qs" "set qs = us"
  shows "returned s pt us s'"
  unfolding returned_def
proof (intro exI conjI)
  show "vmcalls s' = vmcalls s @ map Kfree_page (mem # qs)" using c(1) by simp
  show "distinct (mem # qs)" using c(2,3) fr(3) by simp
  show "set (mem # qs) = us \<union> (set (fresh s) - set (fresh s') - tables s' pt)" using c(3) t fr(1,2,4) f' by auto
qed

lemma returned_step:
  assumes r: "returned s1 pt us1 s'" and us: "us1 = insert mem us" and c: "vmcalls s1 = vmcalls s"
    and fr: "fresh s = mem # ps" "set (fresh s1) \<subseteq> set ps" "mem \<notin> set ps" "mem \<notin> tables s pt"
    and t: "tables s1 pt = tables s pt \<union> (set ps - set (fresh s1))" "tables s1 pt \<subseteq> tables s' pt"
      "tables s' pt \<subseteq> tables s1 pt \<union> (set (fresh s1) - set (fresh s'))" and f: "set (fresh s') \<subseteq> set (fresh s1)"
  shows "returned s pt us s'"
proof -
  obtain ps' where p: "vmcalls s' = vmcalls s1 @ map Kfree_page ps'" "distinct ps'" "set ps' = us1 \<union> (set (fresh s1) - set (fresh s') - tables s' pt)"
    using r unfolding returned_def by blast
  have "mem \<notin> tables s' pt" using t fr f by auto
  then have "set ps' = us \<union> (set (fresh s) - set (fresh s') - tables s' pt)" unfolding p(3) us using t fr f by auto
  then show ?thesis unfolding returned_def using p(1,2) c by auto
qed

lemma no_leak_step:
  assumes n: "no_leak s1 pt (Suc k) hi s'" and k: "k < hi" "v < MAXVA" "vpn v = k" "upage s' pt v = mem" and c: "vmcalls s1 = vmcalls s"
    and fr: "fresh s = mem # ps" and t: "tables s1 pt = tables s pt \<union> (set ps - set (fresh s1))" "tables s1 pt \<subseteq> tables s' pt"
  shows "no_leak s pt k hi s'"
  unfolding no_leak_def
proof
  show "vmcalls s' = vmcalls s" using n c by (simp add: no_leak_def)
  have "upages s' pt (Suc k) hi \<subseteq> upages s' pt k hi" unfolding upages_def by auto
  moreover have "mem \<in> upages s' pt k hi" unfolding upages_def using k by auto
  ultimately show "set (fresh s) - set (fresh s') \<subseteq> tables s' pt \<union> upages s' pt k hi"
    using n t fr unfolding no_leak_def by auto
qed

lemma alloc_outcome_step:
  assumes o: "alloc_outcome s1 pt lo (Suc (vpn a)) hi newsz s' r" and lt: "vpn a < hi" and am: "a < MAXVA"
    and l: "\<And>v. v < MAXVA \<Longrightarrow> lookup s1 pt v = (if vpn v = vpn a then e else lookup s pt v)" and e: "PTE2PA e = mem" "PTE_FLAGS e = 31"
    and pm: "page s1 mem = (\<lambda>_. 0)" and fr: "fresh s = mem # ps" and sub: "set (fresh s1) \<subseteq> set ps"
    and mem: "mem \<notin> set ps" "mem \<notin> tables s pt" and t1: "tables s1 pt = tables s pt \<union> (set ps - set (fresh s1))"
    and us1: "upages s1 pt lo (Suc (vpn a)) = insert mem (upages s pt lo (vpn a))" and c: "vmcalls s1 = vmcalls s"
    and st: "tree_step s pt s1" and pg: "\<And>x. x \<notin> set (fresh s) \<Longrightarrow> page s1 x = page s x" and lo: "lo \<le> vpn a"
    and len: "length ps \<le> length (fresh s1) + 2"
  shows "alloc_outcome s pt lo (vpn a) hi newsz s' r"
proof -
  have st': "tree_step s1 pt s'" and ts: "tables s1 pt \<subseteq> tables s' pt" and p1: "\<And>x. x \<notin> set (fresh s1) \<Longrightarrow> page s' x = page s1 x"
    using o by (auto simp: alloc_outcome_def)
  have ok: "grown s pt (vpn a) hi s' \<and> no_leak s pt (vpn a) hi s'"
    if g: "grown s1 pt (Suc (vpn a)) hi s' \<and> no_leak s1 pt (Suc (vpn a)) hi s'"
  proof
    show "grown s pt (vpn a) hi s'"
      by (rule grown_step [OF conjunct1 [OF g] lt l]) (use e pm p1 [of mem] sub mem fr in auto)
    have "lookup s' pt a = lookup s1 pt a" using g am by (simp add: grown_def)
    then have "upage s' pt a = mem" using l [OF am] e(1) by (simp add: upage_def)
    then show "no_leak s pt (vpn a) hi s'" by (rule no_leak_step [OF conjunct2 [OF g] lt am refl _ c fr t1 ts])
  qed
  have bad: "undone s pt lo hi s' \<and> returned s pt (upages s pt lo (vpn a)) s'"
    if b: "undone s1 pt lo hi s' \<and> returned s1 pt (upages s1 pt lo (Suc (vpn a))) s'"
  proof
    show "undone s pt lo hi s'" using b lt lo l by (auto simp: undone_def)
    show "returned s pt (upages s pt lo (vpn a)) s'"
      by (rule returned_step [OF conjunct2 [OF b] us1 c fr sub mem t1 ts tree_stepD(3) [OF st'] tree_step_fresh [OF st']])
  qed
  have "3 * (hi - Suc (vpn a)) \<le> length (fresh s1)" if "3 * (hi - vpn a) \<le> length (fresh s)" using that len fr lt by simp
  moreover have "tables s pt \<subseteq> tables s' pt" using t1 ts by blast
  moreover have "page s' x = page s x" if "x \<notin> set (fresh s)" for x using pg [OF that] p1 [of x] that sub fr by auto
  ultimately show ?thesis using o ok bad tree_step_trans [OF st st'] unfolding alloc_outcome_def by blast
qed

lemma uvmalloc_nomem:
  assumes ok: "pgtab_ok s pt" and a: "aligned a" "unat a \<le> 2 ^ 38" "aligned oldsz" "vpn oldsz \<le> vpn a"
    and free: "\<forall>v. v < MAXVA \<longrightarrow> vpn a \<le> vpn v \<longrightarrow> vpn v < end_page newsz \<longrightarrow> lookup s pt v AND PTE_V = 0"
    and h: "held s pt (vpn oldsz) (vpn a)" and lt: "vpn a < end_page newsz" and nz: "a < newsz" and am: "a < MAXVA" and Cons: "fresh s = mem # ps"
    and nomem: "mappages pt a PGSZ mem 30 (zero_page mem (kalloc_page mem ps s)) = Inr (s1, - 1)"
      "map_frame (zero_page mem (kalloc_page mem ps s)) pt s1" "fresh s1 = []" "length (fresh (zero_page mem (kalloc_page mem ps s))) < 2"
      "\<And>v. lookup s1 pt v = lookup (zero_page mem (kalloc_page mem ps s)) pt v"
  shows "\<exists>s' r. uvmalloc_from pt a oldsz newsz s = Inr (s', r) \<and> alloc_outcome s pt (vpn oldsz) (vpn a) (end_page newsz) newsz s' r"
proof -
  let ?s = "zero_page mem (kalloc_page mem ps s)"
  have f0: "pte ?s = pte s" "fresh ?s = ps" "vmcalls ?s = vmcalls s" by (simp_all add: zero_page_def kalloc_page_def)
  note k = kalloc_tree [OF ok Cons f0(1,2)]
  have ok0: "pgtab_ok ?s pt" by (rule tree_stepD(1) [OF k(1)])
  have t0: "tables ?s pt = tables s pt" unfolding tables_def tab_cong [OF f0(1)] ..
  have mem: "mem \<notin> set ps" "mem \<notin> tables s pt" using ok Cons by (simp_all add: pgtab_ok_def)
  have us: "upages s pt (vpn oldsz) (vpn a) \<inter> set (fresh s) = {}" using heldD(3) [OF h] by (auto simp: upages_def)
  let ?k = "kfree_page mem s1"
  note fr = map_frameD [OF nomem(2)]
  have e: "pte ?k = pte s1" "fresh ?k = fresh s1" by simp_all
  have l: "lookup ?k pt v = lookup s pt v" for v using nomem(5) k(2) pte_cong(2) [OF e] by simp
  have okk: "pgtab_ok ?k pt" using fr(2) pte_cong(1) [OF e] by simp
  have st: "tree_step s pt ?k" using tree_step_trans [OF k(1) fr(1)] unfolding tree_step_def pte_cong [OF e] e .
  have tk: "tables ?k pt = tables s pt \<union> set ps"
    using mappages_one_tables [OF ok0 a(1) am nomem(1)] nomem(3) f0(2) t0 pte_cong(3) [OF e] by simp
  have uk: "upages ?k pt lo hi = upages s pt lo hi" for lo hi unfolding upages_def upage_def l ..
  have hk: "held ?k pt (vpn oldsz) (vpn a)"
    using h us tk nomem(3) Cons unfolding held_def upage_def l by (auto simp: upages_def upage_def)
  from uvmalloc_undoes [OF okk a _ _ hk, of newsz] lt free obtain s' r qs where
    s': "uvmdealloc pt a oldsz ?k = Inr (s', r)" "unmap_frame ?k pt s'" "undone ?k pt (vpn oldsz) (end_page newsz) s'"
    "tables s' pt = tables ?k pt" and c: "vmcalls s' = vmcalls ?k @ map Kfree_page qs" "distinct qs" "set qs = upages s pt (vpn oldsz) (vpn a)"
    by (auto simp: l uk)
  have "uvmalloc_from pt a oldsz newsz s = Inr (s', 0)" using nz Cons nomem(1) s'(1) by (subst uvmalloc_from.simps) simp
  moreover have "undone s pt (vpn oldsz) (end_page newsz) s'" using s'(3) by (simp add: undone_def l)
  moreover have "page s' x = page s x" if "x \<notin> set (fresh s)" for x
    using unmap_frameD(3) [OF s'(2)] fr(3) that Cons by (simp add: zero_page_def)
  moreover have "returned s pt (upages s pt (vpn oldsz) (vpn a)) s'"
  proof (rule returned_nomem [OF Cons mem(1) _ mem(2) _ _ us _ c(2,3)])
    show "mem \<notin> upages s pt (vpn oldsz) (vpn a)" using us Cons by auto
    show "fresh s' = []" using unmap_frameD(4) [OF s'(2)] nomem(3) by simp
    show "tables s' pt = tables s pt \<union> set ps" using s'(4) tk by simp
    show "vmcalls s' = vmcalls s @ [Kfree_page mem] @ map Kfree_page qs" using c(1) fr(4) f0(3) by (simp add: kfree_page_def)
  qed
  ultimately show ?thesis
    using tree_step_trans [OF st unmap_frameD(1) [OF s'(2)]] s'(4) tk nomem(4) Cons f0(2) lt by (auto simp: alloc_outcome_def)
qed

lemma uvmalloc_from_grows:
  assumes "pgtab_ok s pt" and "aligned a" and "unat a \<le> 2 ^ 38" and "aligned oldsz" and "vpn oldsz \<le> vpn a" and "unat newsz \<le> 2 ^ 38"
    and "\<forall>v. v < MAXVA \<longrightarrow> vpn a \<le> vpn v \<longrightarrow> vpn v < end_page newsz \<longrightarrow> lookup s pt v AND PTE_V = 0"
    and "held s pt (vpn oldsz) (vpn a)"
  shows "\<exists>s' r. uvmalloc_from pt a oldsz newsz s = Inr (s', r) \<and> alloc_outcome s pt (vpn oldsz) (vpn a) (end_page newsz) newsz s' r"
  using assms
proof (induction "end_page newsz - vpn a" arbitrary: a s)
  case 0
  then have "\<not> a < newsz" using end_page_less by simp
  then have "uvmalloc_from pt a oldsz newsz s = Inr (s, newsz)" by (subst uvmalloc_from.simps) simp
  moreover have "grown s pt (vpn a) (end_page newsz) s" using "0.hyps" by (auto simp: grown_def)
  ultimately show ?case using tree_step_refl [OF "0.prems"(1)] by (auto simp: alloc_outcome_def no_leak_def)
next
  case (Suc n)
  have lt: "vpn a < end_page newsz" using Suc.hyps(2) by simp
  have nz: "a < newsz" using end_page_less [OF Suc.prems(2)] lt by simp
  then have am: "a < MAXVA" using Suc.prems(6) by (simp add: word_less_nat_alt)
  note np = next_page [OF next_below_MAXVA [OF Suc.prems(2) am]]
  show ?case
  proof (cases "fresh s")
    case Nil
    from uvmalloc_undoes [OF Suc.prems(1-5) _ Suc.prems(7,8)] lt obtain s' r where
      s': "uvmdealloc pt a oldsz s = Inr (s', r)" "unmap_frame s pt s'" "undone s pt (vpn oldsz) (end_page newsz) s'"
      "tables s' pt = tables s pt"
      "\<exists>ps. vmcalls s' = vmcalls s @ map Kfree_page ps \<and> distinct ps \<and> set ps = upages s pt (vpn oldsz) (vpn a)" by auto
    then have "uvmalloc_from pt a oldsz newsz s = Inr (s', 0)" using nz Nil by (subst uvmalloc_from.simps) simp
    moreover have "returned s pt (upages s pt (vpn oldsz) (vpn a)) s'" using s'(5) Nil by (simp add: returned_def)
    ultimately show ?thesis
      using s'(3,4) unmap_frameD(1,3) [OF s'(2)] Nil lt by (auto simp: alloc_outcome_def)
  next
    case (Cons mem ps)
    let ?s = "zero_page mem (kalloc_page mem ps s)"
    have f0: "pte ?s = pte s" "fresh ?s = ps" "vmcalls ?s = vmcalls s" by (simp_all add: zero_page_def kalloc_page_def)
    note k = kalloc_tree [OF Suc.prems(1) Cons f0(1,2)]
    have ok0: "pgtab_ok ?s pt" by (rule tree_stepD(1) [OF k(1)])
    have t0: "tables ?s pt = tables s pt" unfolding tables_def tab_cong [OF f0(1)] ..
    have inv: "lookup ?s pt a AND PTE_V = 0" using Suc.prems(7) am lt k(2) by simp
    have mem: "mem \<notin> set ps" "mem \<notin> tables s pt" using Suc.prems(1) Cons by (simp_all add: pgtab_ok_def)
    show ?thesis
    proof (cases rule: mappages_one [OF ok0 Suc.prems(2) am inv, of mem 30, case_names mapped nomem])
      case (nomem s1)
      show ?thesis
        by (rule uvmalloc_nomem [OF Suc.prems(1-5,7,8) lt nz am Cons nomem])
    next
      case (mapped s1)
      note fr = map_frameD [OF mapped(2)]
      have st: "tree_step s pt s1" by (rule tree_step_trans [OF k(1) fr(1)])
      have sub: "set (fresh s1) \<subseteq> set ps" using tree_step_fresh [OF fr(1)] f0(2) by simp
      have t1: "tables s1 pt = tables s pt \<union> (set ps - set (fresh s1))"
        using mappages_one_tables [OF ok0 Suc.prems(2) am mapped(1)] f0(2) t0 by simp
      have l: "lookup s1 pt v = (if vpn v = vpn a then PA2PTE mem OR 30 OR PTE_V else lookup s pt v)" if "v < MAXVA" for v
        using mapped(4) [OF that] k(2) by simp
      note ue = user_entry(1) [OF k(3)] user_entry(2) [of mem]
      have pg: "page s1 x = page s x" if "x \<notin> set (fresh s)" for x using fr(3) that Cons by (simp add: zero_page_def)
      have pm: "page s1 mem = (\<lambda>_. 0)" using fr(3) by (simp add: zero_page_def)
      have m: "uvmalloc_from pt a oldsz newsz s = uvmalloc_from pt (a + PGSZ) oldsz newsz s1"
        using nz Cons mapped(1) by (subst uvmalloc_from.simps) simp
      have ne: "n = end_page newsz - vpn (a + PGSZ)" using Suc.hyps(2) np(2) by simp
      have b: "unat (a + PGSZ) \<le> 2 ^ 38" using np(1) next_below_MAXVA [OF Suc.prems(2) am] by simp
      have c7: "\<forall>v. v < MAXVA \<longrightarrow> vpn (a + PGSZ) \<le> vpn v \<longrightarrow> vpn v < end_page newsz \<longrightarrow> lookup s1 pt v AND PTE_V = 0"
        using Suc.prems(7) np(2) l by simp
      have hs: "mem \<notin> set (fresh s1)" "mem \<in> set (fresh s)" "set (fresh s1) \<subseteq> set (fresh s)"
        "tables s1 pt \<subseteq> tables s pt \<union> (set (fresh s) - {mem})" using sub mem Cons t1 by auto
      note H = held_step [OF Suc.prems(8,5) l ue(2,1) hs mem(2)]
      have us1: "upages s1 pt (vpn oldsz) (Suc (vpn a)) = insert mem (upages s pt (vpn oldsz) (vpn a))"
        using H(2,3) H(4) [OF _ am refl] by auto
      have c5: "vpn oldsz \<le> vpn (a + PGSZ)" using Suc.prems(5) np(2) by simp
      from Suc.hyps(1) [OF ne fr(2) np(3) [OF Suc.prems(2)] b Suc.prems(4) c5 Suc.prems(6) c7] H(1) obtain s' r where
        s': "uvmalloc_from pt a oldsz newsz s = Inr (s', r)"
        and o: "alloc_outcome s1 pt (vpn oldsz) (Suc (vpn a)) (end_page newsz) newsz s' r" unfolding m np(2) by blast
      have len: "length ps \<le> length (fresh s1) + 2" using mapped(3) f0(2) by simp
      have "alloc_outcome s pt (vpn oldsz) (vpn a) (end_page newsz) newsz s' r"
        by (rule alloc_outcome_step [OF o lt am l ue pm Cons sub mem t1 us1 fr(4) [unfolded f0] st pg Suc.prems(5) len])
      then show ?thesis using s' by blast
    qed
  qed
qed

text \<open>
  C18: \<open>uvmalloc\<close> from a size to a larger one, on a well-formed table with nothing mapped between them, always
  returns. Either it returns the new size, and the pages in between are zeroed user pages, taken from the free ones
  and no two of them the same, which is so when there are three free pages for each; every page it took is such a user
  page or a page of the table. Or it ran out of pages, returns 0 and has undone its work: no page in between
  is mapped, and the pages it took are pages of the table or have been freed, each of them once, and no other
  page has been freed. In both cases every other entry of the table is as it was, the table is well-formed, and no page that was
  not free has been written.
\<close>

theorem uvmalloc_grows:
  assumes "pgtab_ok s pt" and "oldsz \<le> newsz" and "unat newsz \<le> 2 ^ 38"
    and "\<And>v. v < MAXVA \<Longrightarrow> end_page oldsz \<le> vpn v \<Longrightarrow> vpn v < end_page newsz \<Longrightarrow> lookup s pt v AND PTE_V = 0"
  shows "\<exists>s' r. uvmalloc pt oldsz newsz s = Inr (s', r) \<and> pgtab_ok s' pt \<and> (\<forall>x. x \<notin> set (fresh s) \<longrightarrow> page s' x = page s x)
    \<and> (r = newsz \<and> grown s pt (end_page oldsz) (end_page newsz) s' \<and> no_leak s pt (end_page oldsz) (end_page newsz) s'
       \<or> r = 0 \<and> undone s pt (end_page oldsz) (end_page newsz) s' \<and> returned s pt {} s')
    \<and> (3 * (end_page newsz - end_page oldsz) \<le> length (fresh s) \<longrightarrow> r = newsz \<and> grown s pt (end_page oldsz) (end_page newsz) s')"
proof -
  have "unat oldsz \<le> 2 ^ 38" using assms(2,3) by (simp add: word_le_nat_alt)
  note u = PGROUNDUP_facts [OF this]
  have m: "uvmalloc pt oldsz newsz s = uvmalloc_from pt (PGROUNDUP oldsz) (PGROUNDUP oldsz) newsz s"
    using assms(2) by (simp add: uvmalloc_def not_less [symmetric])
  have h: "held s pt (vpn (PGROUNDUP oldsz)) (vpn (PGROUNDUP oldsz))" and e: "upages s pt k k = {}" for k
    by (auto simp: held_def upages_def)
  obtain s' r where "uvmalloc pt oldsz newsz s = Inr (s', r)"
    "alloc_outcome s pt (end_page oldsz) (end_page oldsz) (end_page newsz) newsz s' r"
    using uvmalloc_from_grows [OF assms(1) u(1,3,1) order_refl assms(3) _ h] assms(4) unfolding u(2) m by blast
  then show ?thesis unfolding alloc_outcome_def e using tree_stepD(1) by blast
qed

theorem uvmalloc_grows_witness:
  "\<exists>s'. uvmalloc empty_pt 100 9000 empty_vm = Inr (s', 9000) \<and> grown empty_vm empty_pt 1 3 s'"
proof -
  have e: "end_page 100 = 1" "end_page 9000 = 3" by (simp_all add: end_page_def)
  have "3 * (end_page 9000 - end_page 100) \<le> length (fresh empty_vm)" by (simp add: e empty_vm_def)
  then show ?thesis using uvmalloc_grows [OF empty_vm_ok(1), of 100 9000] by (auto simp: empty_vm_ok e)
qed

section \<open>Freeing an address space\<close>

text \<open>The page-table pages below a page, children first.\<close>

primrec table_list :: "nat \<Rightarrow> vmstate \<Rightarrow> u64 \<Rightarrow> u64 list" where
  "table_list 0 s t = [t]"
| "table_list (Suc l) s t =
     concat (map (\<lambda>i. if pte s t i AND PTE_V \<noteq> 0 then table_list l s (PTE2PA (pte s t i)) else []) entries) @ [t]"

text \<open>At the upper levels a valid entry points down, at the lowest none does.\<close>

primrec shape :: "nat \<Rightarrow> vmstate \<Rightarrow> u64 \<Rightarrow> bool" where
  "shape 0 s t = (\<forall>i \<in> set entries. \<not> points_down (pte s t i))"
| "shape (Suc l) s t =
     (\<forall>i \<in> set entries. pte s t i AND PTE_V \<noteq> 0 \<longrightarrow> points_down (pte s t i) \<and> shape l s (PTE2PA (pte s t i)))"

lemma root_in_list: "t \<in> set (table_list l s t)"
  by (cases l) simp_all

lemma table_list_cong:
  assumes "\<And>x. x \<in> set (table_list l s t) \<Longrightarrow> pte s' x = pte s x"
  shows "table_list l s' t = table_list l s t" and "shape l s' t = shape l s t"
proof -
  have "table_list l s' t = table_list l s t \<and> shape l s' t = shape l s t"
    using assms
  proof (induction l arbitrary: t)
    case (Suc l)
    have e: "pte s' t = pte s t" by (rule Suc.prems) (rule root_in_list)
    have "table_list l s' (PTE2PA (pte s t i)) = table_list l s (PTE2PA (pte s t i))
      \<and> shape l s' (PTE2PA (pte s t i)) = shape l s (PTE2PA (pte s t i))" if "i \<in> set entries" "pte s t i AND PTE_V \<noteq> 0" for i
      by (rule Suc.IH) (use Suc.prems that in auto)
    then show ?case by (auto simp: e intro!: arg_cong [where f = concat] map_cong)
  qed simp
  then show "table_list l s' t = table_list l s t" and "shape l s' t = shape l s t" by blast+
qed

text \<open>What freeing some tables does.\<close>

definition freed :: "vmstate \<Rightarrow> u64 list \<Rightarrow> vmstate \<Rightarrow> bool" where
  "freed s ts s' = (vmcalls s' = vmcalls s @ map Kfree_page ts \<and> page s' = page s \<and> fresh s' = fresh s
     \<and> (\<forall>x. x \<notin> set ts \<longrightarrow> pte s' x = pte s x))"

definition sub_list :: "nat \<Rightarrow> vmstate \<Rightarrow> u64 \<Rightarrow> nat list \<Rightarrow> u64 list" where
  "sub_list l s t is = concat (map (\<lambda>i. if pte s t i AND PTE_V \<noteq> 0 then table_list l s (PTE2PA (pte s t i)) else []) is)"

lemma freewalk_entries:
  assumes ih: "\<And>t s. shape l s t \<Longrightarrow> distinct (table_list l s t) \<Longrightarrow> \<exists>s'. freewalk (Suc l) t s = Some s' \<and> freed s (table_list l s t) s'"
    and sh: "\<And>i. i \<in> set is \<Longrightarrow> pte s t i AND PTE_V \<noteq> 0 \<Longrightarrow> points_down (pte s t i) \<and> shape l s (PTE2PA (pte s t i))"
    and d: "distinct is" "distinct (sub_list l s t is)" "t \<notin> set (sub_list l s t is)"
  shows "\<exists>s'. fold (\<lambda>i r. case r of None \<Rightarrow> None | Some s \<Rightarrow>
        (if points_down (pte s t i) then map_option (set_pte t i 0) (freewalk (Suc l) (PTE2PA (pte s t i)) s) else Some s)) is (Some s) = Some s'
    \<and> vmcalls s' = vmcalls s @ map Kfree_page (sub_list l s t is) \<and> page s' = page s \<and> fresh s' = fresh s
    \<and> (\<forall>x. x \<notin> set (sub_list l s t is) \<longrightarrow> x \<noteq> t \<longrightarrow> pte s' x = pte s x)"
  using sh d
proof (induction "is" arbitrary: s)
  case Nil
  then show ?case by (simp add: sub_list_def)
next
  case (Cons i "is")
  show ?case
  proof (cases "pte s t i AND PTE_V = 0")
    case True
    then have np: "\<not> points_down (pte s t i)" by (simp add: points_down_def)
    have e: "sub_list l s t (i # is) = sub_list l s t is" using True by (simp add: sub_list_def)
    show ?thesis using Cons.IH [of s] Cons.prems np unfolding e by simp
  next
    case False
    let ?c = "PTE2PA (pte s t i)"
    let ?T = "table_list l s ?c"
    have e: "sub_list l s t (i # is) = ?T @ sub_list l s t is" using False by (simp add: sub_list_def)
    have pd: "points_down (pte s t i)" "shape l s ?c" using Cons.prems(1) [of i] False by simp_all
    have dT: "distinct ?T" "t \<notin> set ?T" "set ?T \<inter> set (sub_list l s t is) = {}" using Cons.prems(3,4) unfolding e by simp_all
    obtain s1 where s1: "freewalk (Suc l) ?c s = Some s1" and fr: "freed s ?T s1" using ih [OF pd(2) dT(1)] by blast
    let ?s = "set_pte t i 0 s1"
    have pe: "pte ?s x = pte s x" if "x \<notin> set ?T" "x \<noteq> t" for x using fr that by (simp add: freed_def set_pte_def)
    have pt: "pte ?s t j = pte s t j" if "j \<in> set is" for j
      using fr that dT(2) Cons.prems(2) by (auto simp: freed_def set_pte_def)
    have sub: "table_list l ?s (PTE2PA (pte s t j)) = table_list l s (PTE2PA (pte s t j))"
      "shape l ?s (PTE2PA (pte s t j)) = shape l s (PTE2PA (pte s t j))" if j: "j \<in> set is" "pte s t j AND PTE_V \<noteq> 0" for j
    proof -
      have in_sub: "set (table_list l s (PTE2PA (pte s t j))) \<subseteq> set (sub_list l s t is)" using j by (auto simp: sub_list_def)
      have c: "pte ?s x = pte s x" if "x \<in> set (table_list l s (PTE2PA (pte s t j)))" for x
        by (rule pe) (use in_sub that dT(3) Cons.prems(4) e in auto)
      show "table_list l ?s (PTE2PA (pte s t j)) = table_list l s (PTE2PA (pte s t j))"
        "shape l ?s (PTE2PA (pte s t j)) = shape l s (PTE2PA (pte s t j))" using table_list_cong [OF c] by blast+
    qed
    have sl: "sub_list l ?s t is = sub_list l s t is"
      unfolding sub_list_def by (intro arg_cong [where f = concat] map_cong refl) (simp add: pt sub)
    have "\<exists>s'. fold (\<lambda>i r. case r of None \<Rightarrow> None | Some s \<Rightarrow>
        (if points_down (pte s t i) then map_option (set_pte t i 0) (freewalk (Suc l) (PTE2PA (pte s t i)) s) else Some s)) is (Some ?s) = Some s'
      \<and> vmcalls s' = vmcalls ?s @ map Kfree_page (sub_list l ?s t is) \<and> page s' = page ?s \<and> fresh s' = fresh ?s
      \<and> (\<forall>x. x \<notin> set (sub_list l ?s t is) \<longrightarrow> x \<noteq> t \<longrightarrow> pte s' x = pte ?s x)"
      by (rule Cons.IH) (use Cons.prems pt sub sl e in auto)
    then obtain s' where s': "fold (\<lambda>i r. case r of None \<Rightarrow> None | Some s \<Rightarrow>
        (if points_down (pte s t i) then map_option (set_pte t i 0) (freewalk (Suc l) (PTE2PA (pte s t i)) s) else Some s)) is (Some ?s) = Some s'"
      "vmcalls s' = vmcalls s1 @ map Kfree_page (sub_list l s t is)" "page s' = page s1" "fresh s' = fresh s1"
      "\<forall>x. x \<notin> set (sub_list l s t is) \<longrightarrow> x \<noteq> t \<longrightarrow> pte s' x = pte ?s x" unfolding sl by auto
    show ?thesis
    proof (intro exI [of _ s'] conjI allI impI)
      show "vmcalls s' = vmcalls s @ map Kfree_page (sub_list l s t (i # is))" using s'(2) fr unfolding e by (simp add: freed_def)
      show "page s' = page s" "fresh s' = fresh s" using s'(3,4) fr by (simp_all add: freed_def)
      show "pte s' x = pte s x" if "x \<notin> set (sub_list l s t (i # is))" "x \<noteq> t" for x using s'(5) that pe unfolding e by simp
    qed (use s'(1) s1 pd(1) in simp)
  qed
qed

lemma fold_skip: "(\<And>i. i \<in> set is \<Longrightarrow> f i r = r) \<Longrightarrow> fold f is r = r"
  by (induction "is") simp_all

lemma freewalk_frees:
  "shape l s t \<Longrightarrow> distinct (table_list l s t) \<Longrightarrow> \<exists>s'. freewalk (Suc l) t s = Some s' \<and> freed s (table_list l s t) s'"
proof (induction l arbitrary: t s)
  case 0
  have "freewalk (Suc 0) t s = Some (kfree_page t s)"
    using "0.prems"(1) unfolding freewalk.simps by (subst fold_skip) simp_all
  then show ?case by (simp add: freed_def)
next
  case (Suc l)
  have sl: "table_list (Suc l) s t = sub_list l s t entries @ [t]" by (simp add: sub_list_def)
  have d: "distinct entries" "distinct (sub_list l s t entries)" "t \<notin> set (sub_list l s t entries)"
    using Suc.prems(2) unfolding sl by (simp_all add: entries_def)
  from Suc.prems(1) have sh: "points_down (pte s t i) \<and> shape l s (PTE2PA (pte s t i))" if "i \<in> set entries" "pte s t i AND PTE_V \<noteq> 0" for i
    using that by simp
  from freewalk_entries [OF Suc.IH sh d] obtain s1 where
    "fold (\<lambda>i r. case r of None \<Rightarrow> None | Some s \<Rightarrow>
        (if points_down (pte s t i) then map_option (set_pte t i 0) (freewalk (Suc l) (PTE2PA (pte s t i)) s) else Some s)) entries (Some s) = Some s1"
    and s1: "vmcalls s1 = vmcalls s @ map Kfree_page (sub_list l s t entries)" "page s1 = page s" "fresh s1 = fresh s"
    "\<forall>x. x \<notin> set (sub_list l s t entries) \<longrightarrow> x \<noteq> t \<longrightarrow> pte s1 x = pte s x" by blast
  then have "freewalk (Suc (Suc l)) t s = Some (kfree_page t s1)" by (subst freewalk.simps) simp
  moreover have "freed s (table_list (Suc l) s t) (kfree_page t s1)" unfolding sl freed_def using s1 by simp
  ultimately show ?case by blast
qed

text \<open>The list in terms of the paths of the tree.\<close>

primrec plist :: "nat \<Rightarrow> nat list \<Rightarrow> nat list list" where
  "plist 0 p = [p]"
| "plist (Suc l) p = concat (map (\<lambda>i. plist l (i # p)) entries) @ [p]"

lemma set_plist: "set (plist l p) = {r @ p | r. length r \<le> l \<and> set r \<subseteq> set entries}"
proof (induction l arbitrary: p)
  case (Suc l)
  have "set (plist (Suc l) p) = insert p (\<Union>i \<in> set entries. {r @ i # p | r. length r \<le> l \<and> set r \<subseteq> set entries})"
    using Suc.IH by auto
  also have "\<dots> = {r @ p | r. length r \<le> Suc l \<and> set r \<subseteq> set entries}"
  proof (intro set_eqI iffI)
    fix q assume "q \<in> insert p (\<Union>i \<in> set entries. {r @ i # p | r. length r \<le> l \<and> set r \<subseteq> set entries})"
    then consider "q = p" | i r where "i \<in> set entries" "q = (r @ [i]) @ p" "length r \<le> l" "set r \<subseteq> set entries" by auto
    then show "q \<in> {r @ p | r. length r \<le> Suc l \<and> set r \<subseteq> set entries}"
    proof cases
      case (2 i r)
      then show ?thesis by (intro CollectI exI [of _ "r @ [i]"]) auto
    qed auto
  next
    fix q assume "q \<in> {r @ p | r. length r \<le> Suc l \<and> set r \<subseteq> set entries}"
    then obtain r where r: "q = r @ p" "length r \<le> Suc l" "set r \<subseteq> set entries" by blast
    show "q \<in> insert p (\<Union>i \<in> set entries. {r @ i # p | r. length r \<le> l \<and> set r \<subseteq> set entries})"
      using r by (cases r rule: rev_cases) auto
  qed
  finally show ?case .
qed auto

lemma distinct_concat_map:
  "distinct is \<Longrightarrow> (\<And>i. i \<in> set is \<Longrightarrow> distinct (f i)) \<Longrightarrow>
   (\<And>i j. i \<in> set is \<Longrightarrow> j \<in> set is \<Longrightarrow> i \<noteq> j \<Longrightarrow> set (f i) \<inter> set (f j) = {}) \<Longrightarrow> distinct (concat (map f is))"
proof (induction "is")
  case (Cons i "is")
  have "set (f i) \<inter> set (concat (map f is)) = {}" using Cons.prems(1,3) by fastforce
  then show ?case using Cons by simp
qed simp

lemma distinct_plist: "distinct (plist l p)"
proof (induction l arbitrary: p)
  case (Suc l)
  have "distinct (concat (map (\<lambda>i. plist l (i # p)) entries))"
    by (rule distinct_concat_map) (auto simp: Suc.IH set_plist entries_def)
  moreover have "p \<notin> set (concat (map (\<lambda>i. plist l (i # p)) entries))" by (auto simp: set_plist)
  ultimately show ?case by simp
qed simp

lemma tab_plist_None: "tab s pt p = None \<Longrightarrow> q \<in> set (plist l p) \<Longrightarrow> tab s pt q = None"
proof (induction l arbitrary: p)
  case (Suc l)
  have "tab s pt (i # p) = None" for i using Suc.prems(1) by simp
  then show ?case using Suc.IH Suc.prems by (auto simp del: tab.simps)
qed simp

lemma table_list_paths:
  "tab s pt p = Some t \<Longrightarrow> table_list l s t = map (\<lambda>q. the (tab s pt q)) (filter (\<lambda>q. tab s pt q \<noteq> None) (plist l p))"
proof (induction l arbitrary: p t)
  case (Suc l)
  have "(if pte s t i AND PTE_V \<noteq> 0 then table_list l s (PTE2PA (pte s t i)) else []) =
    map (\<lambda>q. the (tab s pt q)) (filter (\<lambda>q. tab s pt q \<noteq> None) (plist l (i # p)))" for i
  proof (cases "pte s t i AND PTE_V = 0")
    case True
    then have "tab s pt (i # p) = None" using Suc.prems by simp
    then have "filter (\<lambda>q. tab s pt q \<noteq> None) (plist l (i # p)) = []" using tab_plist_None by (auto simp: filter_empty_conv simp del: tab.simps)
    then show ?thesis using True by (simp del: filter_empty_conv)
  next
    case False
    then have "tab s pt (i # p) = Some (PTE2PA (pte s t i))" using Suc.prems by simp
    from Suc.IH [OF this] show ?thesis using False by simp
  qed
  then show ?case using Suc.prems by (simp add: map_concat filter_concat comp_def)
qed simp

lemma table_list_tables:
  assumes ok: "pgtab_ok s pt"
  shows "distinct (table_list 2 s pt)" and "set (table_list 2 s pt) = tables s pt"
proof -
  note tl = table_list_paths [of s pt "[]" pt 2, simplified tab.simps, OF refl]
  have p: "path_ok q \<longleftrightarrow> q \<in> set (plist 2 [])" for q by (auto simp: set_plist path_ok_def entries_def)
  have "inj_on (\<lambda>q. the (tab s pt q)) (set (filter (\<lambda>q. tab s pt q \<noteq> None) (plist 2 [])))"
    by (rule inj_onI) (use pgtab_inj [OF ok] p in \<open>auto simp del: tab.simps\<close>)
  then show "distinct (table_list 2 s pt)" unfolding tl by (simp add: distinct_map distinct_plist del: tab.simps)
  show "set (table_list 2 s pt) = tables s pt" unfolding tl tables_def using p by (force simp del: tab.simps)
qed

text \<open>A tree of three levels: above the lowest every valid entry points down, at the lowest every valid entry is a leaf.\<close>

definition tree_shape :: "vmstate \<Rightarrow> u64 \<Rightarrow> bool" where
  "tree_shape s pt = (\<forall>q t i. path_ok q \<and> tab s pt q = Some t \<and> i < 512 \<longrightarrow>
     (if length q = 2 then \<not> points_down (pte s t i) else pte s t i AND PTE_V \<noteq> 0 \<longrightarrow> points_down (pte s t i)))"

lemma tree_shapeD:
  assumes "tree_shape s pt" and "path_ok q" and "tab s pt q = Some t" and "i < 512"
  shows "length q = 2 \<Longrightarrow> \<not> points_down (pte s t i)"
    and "length q < 2 \<Longrightarrow> pte s t i AND PTE_V \<noteq> 0 \<Longrightarrow> points_down (pte s t i)"
  using assms unfolding tree_shape_def by (metis nat_neq_iff)+

lemma shape_tree: "tree_shape s pt \<Longrightarrow> path_ok p \<Longrightarrow> length p + l = 2 \<Longrightarrow> tab s pt p = Some t \<Longrightarrow> shape l s t"
proof (induction l arbitrary: p t)
  case 0
  then show ?case using tree_shapeD(1) [OF 0(1,2,4)] by (simp add: entries_def)
next
  case (Suc l)
  have "points_down (pte s t i) \<and> shape l s (PTE2PA (pte s t i))" if i: "i < 512" "pte s t i AND PTE_V \<noteq> 0" for i
  proof
    show "points_down (pte s t i)" using tree_shapeD(2) [OF Suc.prems(1,2,4) i(1)] Suc.prems(3) i(2) by simp
    show "shape l s (PTE2PA (pte s t i))"
      by (rule Suc.IH [of "i # p"]) (use Suc.prems i in \<open>auto simp: path_ok_def\<close>)
  qed
  then show ?case by (simp add: entries_def)
qed

lemma tree_shape_leaf:
  assumes "tree_shape s pt" shows "PTE_FLAGS (lookup s pt v) \<noteq> PTE_V"
proof (cases "tab s pt [PX 1 v, PX 2 v]")
  case None
  then show ?thesis unfolding lookup_def leaf_pte_def None by (simp add: PTE_FLAGS_def)
next
  case (Some t)
  let ?e = "pte s t (PX 0 v)"
  have np: "\<not> points_down ?e" using tree_shapeD(1) [OF assms path_ok_va Some PX_less] by simp
  have "lookup s pt v = ?e" unfolding lookup_def leaf_pte_def Some by simp
  moreover have "PTE_FLAGS ?e \<noteq> PTE_V"
  proof
    assume f: "PTE_FLAGS ?e = PTE_V"
    then have b: "bit ?e n \<longleftrightarrow> n = 0" if "n < 10" for n using bit_FLAGS [of ?e n] that by (simp add: flag_consts(1))
    have "?e AND (PTE_R OR PTE_W OR PTE_X) = 0"
    proof (rule bit_word_eqI)
      fix n assume "n < LENGTH(64)"
      have "(PTE_R OR PTE_W OR PTE_X) AND 1023 = PTE_R OR PTE_W OR PTE_X" "\<not> bit (PTE_R OR PTE_W OR PTE_X) 0" by simp_all
      then have "bit (PTE_R OR PTE_W OR PTE_X) n \<Longrightarrow> n < 10 \<and> n \<noteq> 0" by (metis bit_and_iff bit_mask_iff mask10)
      then show "bit (?e AND (PTE_R OR PTE_W OR PTE_X)) n = bit 0 n" using b by (auto simp: bit_and_iff)
    qed
    moreover have "?e AND PTE_V \<noteq> 0" using b [of 0] by (simp add: flag_bits)
    ultimately show False using np by (simp add: points_down_def)
  qed
  ultimately show ?thesis by simp
qed

text \<open>
  C10: \<open>uvmfree\<close> of a well-formed three-level page table returns, with a depth of three for the recursion of \<open>freewalk\<close>,
  and gives every page back exactly once: \<open>kfree\<close> is called for the pages mapped below the size, in order, and then for
  each page of the page table itself, no one twice and none left out.
\<close>

theorem uvmfree_frees:
  assumes "pgtab_ok s pt" and "tree_shape s pt" and "unat sz \<le> 2 ^ 38"
  shows "\<exists>s' ts. uvmfree 3 pt sz s = Inr (Some s') \<and> distinct ts \<and> set ts = tables s pt
    \<and> vmcalls s' = vmcalls s @ map Kfree_page (mapped_pages s pt 0 (end_page sz) @ ts)"
proof -
  have n: "unat (PGROUNDUP sz div PGSZ) = end_page sz" using PGROUNDUP_unat [OF assms(3)] by (simp add: unat_div)
  have a: "aligned 0" "unat (0 :: u64) + end_page sz * 4096 \<le> 2 ^ 38"
    using PGROUNDUP_facts(3) [OF assms(3)] PGROUNDUP_unat [OF assms(3)] by (simp_all add: aligned_def)
  have l: "0 + of_nat (end_page sz) * PGSZ = 0 + PGROUNDUP sz div PGSZ * PGSZ" unfolding n [symmetric] by simp
  obtain s1 where s1: "(if 0 < sz then uvmunmap pt 0 (PGROUNDUP sz div PGSZ) True s else Inr s) = Inr s1" "unmap_frame s pt s1"
    "vmcalls s1 = vmcalls s @ map Kfree_page (mapped_pages s pt 0 (end_page sz))"
  proof (cases "0 < sz")
    case True
    from uvmunmap_from_clears [OF assms(1) a l [symmetric], of True] tree_shape_leaf [OF assms(2)] show ?thesis
      using that True by (auto simp: uvmunmap_def)
  next
    case False
    then have "sz = 0" by (simp add: word_gt_0)
    then show ?thesis using that [of s] unmap_frame_refl [OF assms(1)] by (simp add: end_page_def mapped_pages_def)
  qed
  note fr = unmap_frameD [OF s1(2)]
  have "tree_shape s1 pt"
    unfolding tree_shape_def
  proof (intro allI impI)
    fix q t and i :: nat assume h: "path_ok q \<and> tab s1 pt q = Some t \<and> i < 512"
    then have t: "tab s pt q = Some t" using fr(5) [of q] by auto
    have np: "\<not> points_down 0" by (simp add: points_down_def)
    have len: "length q \<noteq> 2 \<Longrightarrow> length q < 2" using h by (simp add: path_ok_def)
    show "if length q = 2 then \<not> points_down (pte s1 t i) else pte s1 t i AND PTE_V \<noteq> 0 \<longrightarrow> points_down (pte s1 t i)"
      using tree_shapeD [OF assms(2) _ t, of i] fr(6) [of t i] h np len by auto
  qed
  then have "shape 2 s1 pt" using shape_tree [of s1 pt "[]" 2 pt] by (simp add: path_ok_def)
  moreover have tl: "distinct (table_list 2 s1 pt)" "set (table_list 2 s1 pt) = tables s1 pt" by (rule table_list_tables [OF fr(2)])+
  ultimately obtain s' where s': "freewalk 3 pt s1 = Some s'" "vmcalls s' = vmcalls s1 @ map Kfree_page (table_list 2 s1 pt)"
    using freewalk_frees [of 2 s1 pt] by (auto simp: freed_def)
  have "tables s1 pt = tables s pt" using fr(5) by (auto simp: tables_def)
  moreover have "uvmfree 3 pt sz s = Inr (Some s')" using s1(1) s'(1) by (simp add: uvmfree_def)
  ultimately show ?thesis using tl s'(2) s1(3) by (intro exI [of _ s'] exI [of _ "table_list 2 s1 pt"]) simp
qed

text \<open>A table with one user page, written out.\<close>

definition one_page_vm :: vmstate where
  "one_page_vm = empty_vm\<lparr>pte := \<lambda>t k.
     if k \<noteq> 0 then 0
     else if t = 0x80001000 then 0x2000E001 else if t = 0x80038000 then 0x2000E401 else if t = 0x80039000 then 0x21C0001F
     else 0\<rparr>"

lemma one_page_tab:
  "path_ok q \<Longrightarrow> tab one_page_vm empty_pt q =
     (if q = [] then Some empty_pt else if q = [0] then Some 0x80038000 else if q = [0, 0] then Some 0x80039000 else None)"
proof -
  assume "path_ok q"
  then consider "q = []" | i where "q = [i]" | i j where "q = [i, j]"
    by (cases q; cases "tl q") (auto simp: path_ok_def)
  then show ?thesis by cases (auto simp: one_page_vm_def PTE2PA_def push_bit_eq_mult drop_bit_eq_div)
qed

lemma one_page_ok: "pgtab_ok one_page_vm empty_pt" "tree_shape one_page_vm empty_pt" "tables one_page_vm empty_pt = {empty_pt, 0x80038000, 0x80039000}"
proof -
  have p: "path_ok []" "path_ok [0]" "path_ok [0, 0]" by (simp_all add: path_ok_def)
  show t: "tables one_page_vm empty_pt = {empty_pt, 0x80038000, 0x80039000}"
    unfolding tables_def
  proof (intro set_eqI iffI)
    fix x assume "x \<in> {t. \<exists>q. path_ok q \<and> tab one_page_vm empty_pt q = Some t}"
    then show "x \<in> {empty_pt, 0x80038000, 0x80039000}" by (auto simp: one_page_tab simp del: tab.simps split: if_splits)
  next
    fix x assume "x \<in> {empty_pt, 0x80038000, 0x80039000 :: u64}"
    then show "x \<in> {t. \<exists>q. path_ok q \<and> tab one_page_vm empty_pt q = Some t}"
      using one_page_tab [OF p(1)] one_page_tab [OF p(2)] one_page_tab [OF p(3)] p by (auto simp del: tab.simps)
  qed
  have i: "q = r" if "path_ok q" "path_ok r" "tab one_page_vm empty_pt q \<noteq> None" "tab one_page_vm empty_pt q = tab one_page_vm empty_pt r" for q r
    using that one_page_tab [OF that(1)] one_page_tab [OF that(2)] by (auto simp del: tab.simps split: if_splits)
  have f: "distinct (fresh one_page_vm)" "\<And>x. x \<in> set (fresh one_page_vm) \<Longrightarrow> aligned x \<and> x \<notin> {empty_pt, 0x80038000, 0x80039000}"
    by (auto simp: one_page_vm_def empty_vm_def aligned_def)
  show "pgtab_ok one_page_vm empty_pt" unfolding pgtab_ok_def t using i f by blast
  show "tree_shape one_page_vm empty_pt"
    unfolding tree_shape_def
  proof (intro allI impI)
    fix q t and k :: nat assume h: "path_ok q \<and> tab one_page_vm empty_pt q = Some t \<and> k < 512"
    then consider "q = []" "t = empty_pt" | "q = [0]" "t = 0x80038000" | "q = [0, 0]" "t = 0x80039000"
      using one_page_tab [of q] by (auto simp del: tab.simps split: if_splits)
    then show "if length q = 2 then \<not> points_down (pte one_page_vm t k)
      else pte one_page_vm t k AND PTE_V \<noteq> 0 \<longrightarrow> points_down (pte one_page_vm t k)"
      by cases (auto simp: one_page_vm_def points_down_def)
  qed
qed

theorem uvmfree_frees_witness:
  "\<exists>s' ts. uvmfree 3 empty_pt 5000 one_page_vm = Inr (Some s') \<and> distinct ts \<and> set ts = {empty_pt, 0x80038000, 0x80039000}
     \<and> vmcalls s' = map Kfree_page (0x87000000 # ts)"
proof -
  have p: "path_ok [0, 0]" by (simp add: path_ok_def)
  have x: "PX 1 0 = 0" "PX 2 0 = 0" "PX 0 0 = 0" "PX 1 0x1000 = 0" "PX 2 0x1000 = 0" "PX 0 0x1000 = 1"
    by (simp_all add: PX_def drop_bit_eq_div)
  have "lookup one_page_vm empty_pt 0 = 0x21C0001F" "lookup one_page_vm empty_pt 0x1000 = 0"
    unfolding lookup_def leaf_pte_def x one_page_tab [OF p] by (simp_all add: one_page_vm_def)
  then have m: "mapped_pages one_page_vm empty_pt 0 (end_page 5000) = [0x87000000]"
    by (simp add: mapped_pages_def end_page_def upt_rec PTE2PA_def push_bit_eq_mult drop_bit_eq_div)
  have "vmcalls one_page_vm = []" by (simp add: one_page_vm_def empty_vm_def)
  then show ?thesis using uvmfree_frees [OF one_page_ok(1,2), of 5000] unfolding m one_page_ok(3) by auto
qed

end
