(* ===== verification/Vm_Reach.thy ===== *)
theory Vm_Reach
  imports Vm_Size
begin

text \<open>
  Every operation on a page table keeps it well-formed, whatever its arguments and whether it succeeds or not: the
  pages of the tree stay pages of the tree alone, and what it grows by were free pages. The contents of the list of
  free pages after other parts of the kernel have run are a hypothesis of the reachability relation below.
\<close>

section \<open>The operations one by one\<close>

lemma tree_step_cong:
  assumes "tree_step s pt s1" and "pte s' = pte s1" and "fresh s' = fresh s1"
  shows "tree_step s pt s'"
  using assms(1) unfolding tree_step_def pte_cong [OF assms(2,3)] assms(2,3) .

lemma walk_tree:
  assumes ok: "pgtab_ok s pt" and w: "walk pt a alloc s = Inr (s1, Some (t, k))"
  shows "tree_step s pt (set_pte t k e s1)" and "tree_step s pt s1"
proof -
  have a: "a < MAXVA" by (rule walk_below [OF w])
  have "tree_step s pt s1 \<and> tab s1 pt [PX 1 a, PX 2 a] = Some t"
  proof (cases alloc)
    case True
    then show ?thesis using walk_alloc(1,8) [OF ok, of a s1 "Some (t, k)"] w by auto
  next
    case False
    then have "s1 = s" "map_option (\<lambda>t. (t, PX 0 a)) (tab s pt [PX 1 a, PX 2 a]) = Some (t, k)" using w walk_lookup [OF a, of pt s] by (auto simp del: tab.simps)
    then show ?thesis using tree_step_refl [OF ok] by (auto simp del: tab.simps)
  qed
  then have st: "tree_step s pt s1" and t: "tab s1 pt [PX 1 a, PX 2 a] = Some t" by blast+
  show "tree_step s pt s1" by (rule st)
  show "tree_step s pt (set_pte t k e s1)"
    by (rule tree_step_trans [OF st leaf_write(1) [OF tree_stepD(1) [OF st] path_ok_va _ t]]) simp
qed

lemma walk_tree_None:
  "pgtab_ok s pt \<Longrightarrow> walk pt a alloc s = Inr (s1, None) \<Longrightarrow> tree_step s pt s1"
proof -
  assume ok: "pgtab_ok s pt" and w: "walk pt a alloc s = Inr (s1, None)"
  show ?thesis
  proof (cases alloc)
    case True
    then show ?thesis using walk_alloc(1) [OF ok, of a s1 None] w by simp
  next
    case False
    then have "s1 = s" using w walk_lookup [OF walk_below [OF w], of pt s] by simp
    then show ?thesis using tree_step_refl [OF ok] by simp
  qed
qed

lemma mappages_from_tree: "pgtab_ok s pt \<Longrightarrow> mappages_from pt a final pa perm s = Inr (s', r) \<Longrightarrow> tree_step s pt s'"
proof (induction pt a final pa perm s rule: mappages_from.induct)
  case (1 pt a final pa perm s)
  show ?case
  proof (cases "walk pt a True s")
    case (Inl e)
    then show ?thesis using "1.prems"(2) by (subst (asm) mappages_from.simps) simp
  next
    case (Inr w)
    obtain s1 o1 where w: "w = (s1, o1)" by (cases w)
    show ?thesis
    proof (cases o1)
      case None
      then show ?thesis using "1.prems" Inr w walk_tree_None by (subst (asm) mappages_from.simps) simp
    next
      case (Some tk)
      obtain t k where tk: "tk = (t, k)" by (cases tk)
      let ?s = "set_pte t k (PA2PTE pa OR perm OR PTE_V) s1"
      have wk: "walk pt a True s = Inr (s1, Some (t, k))" using Inr w Some tk by simp
      note st = walk_tree(1) [OF "1.prems"(1) wk, of "PA2PTE pa OR perm OR PTE_V"]
      show ?thesis
      proof (cases "pte s1 t k AND PTE_V = 0 \<and> a \<noteq> final")
        case True
        then have "mappages_from pt (a + PGSZ) final (pa + PGSZ) perm ?s = Inr (s', r)"
          using "1.prems"(2) wk by (subst (asm) mappages_from.simps) simp
        then show ?thesis
          using "1.IH" [OF Inr w [symmetric] Some tk [symmetric] _ refl] True tree_stepD(1) [OF st] tree_step_trans [OF st] by auto
      next
        case False
        then have "s' = ?s" using "1.prems"(2) wk by (subst (asm) mappages_from.simps) (auto split: if_splits)
        then show ?thesis using st by simp
      qed
    qed
  qed
qed

lemma mappages_tree: "pgtab_ok s pt \<Longrightarrow> mappages pt va sz pa perm s = Inr (s', r) \<Longrightarrow> tree_step s pt s'"
  unfolding mappages_def by (rule mappages_from_tree)

lemma uvmunmap_from_tree: "pgtab_ok s pt \<Longrightarrow> uvmunmap_from pt a lim do_free s = Inr s' \<Longrightarrow> tree_step s pt s'"
proof (induction pt a lim do_free s rule: uvmunmap_from.induct)
  case (1 pt a lim do_free s)
  show ?case
  proof (cases "a < lim")
    case False
    then have "s' = s" using "1.prems"(2) by (subst (asm) uvmunmap_from.simps) simp
    then show ?thesis using tree_step_refl [OF "1.prems"(1)] by simp
  next
    case lim: True
    show ?thesis
    proof (cases "walk pt a False s")
      case (Inl e)
      then show ?thesis using "1.prems"(2) lim by (subst (asm) uvmunmap_from.simps) simp
    next
      case (Inr w)
      obtain s1 o1 where w: "w = (s1, o1)" by (cases w)
      show ?thesis
      proof (cases o1)
        case None
        then have "uvmunmap_from pt (a + PGSZ) lim do_free s = Inr s'"
          using "1.prems"(2) Inr w lim by (subst (asm) uvmunmap_from.simps) simp
        then show ?thesis by (rule "1.IH"(1) [OF lim Inr w [symmetric] None "1.prems"(1)])
      next
        case (Some tk)
        obtain t k where tk: "tk = (t, k)" by (cases tk)
        have wk: "walk pt a False s = Inr (s1, Some (t, k))" using Inr w Some tk by simp
        let ?k = "if do_free then kfree_page (PTE2PA (pte s t k)) s else s"
        have s1: "s1 = s" using wk walk_lookup [OF walk_below [OF wk], of pt s] by simp
        have "tree_step s pt (set_pte t k 0 s)" using walk_tree(1) [OF "1.prems"(1) wk, of 0] s1 by simp
        then have st: "tree_step s pt (set_pte t k 0 ?k)" by (rule tree_step_cong) (simp_all add: set_pte_def)
        show ?thesis
        proof (cases "pte s t k AND PTE_V = 0")
          case True
          then have "uvmunmap_from pt (a + PGSZ) lim do_free s = Inr s'"
            using "1.prems"(2) wk lim by (subst (asm) uvmunmap_from.simps) simp
          then show ?thesis by (rule "1.IH"(2) [OF lim Inr w [symmetric] Some tk [symmetric] True "1.prems"(1)])
        next
          case False
          then have f: "PTE_FLAGS (pte s t k) \<noteq> PTE_V" "uvmunmap_from pt (a + PGSZ) lim do_free (set_pte t k 0 ?k) = Inr s'"
            using "1.prems"(2) wk lim by (subst (asm) uvmunmap_from.simps, simp split: if_splits)+
          have "tree_step (set_pte t k 0 ?k) pt s'"
            using "1.IH"(3) [OF lim Inr w [symmetric] Some tk [symmetric] _ f(1) tree_stepD(1) [OF st] f(2)] False by simp
          then show ?thesis by (rule tree_step_trans [OF st])
        qed
      qed
    qed
  qed
qed

lemma uvmunmap_tree: "pgtab_ok s pt \<Longrightarrow> uvmunmap pt va n do_free s = Inr s' \<Longrightarrow> tree_step s pt s'"
  unfolding uvmunmap_def using uvmunmap_from_tree by (simp split: if_splits)

lemma uvmclear_tree: "pgtab_ok s pt \<Longrightarrow> uvmclear pt va s = Inr s' \<Longrightarrow> tree_step s pt s'"
proof -
  assume ok: "pgtab_ok s pt" and u: "uvmclear pt va s = Inr s'"
  then obtain s1 t k where w: "walk pt va False s = Inr (s1, Some (t, k))" "s' = set_pte t k (pte s t k AND NOT PTE_U) s"
    by (auto simp: uvmclear_def split: sum.splits option.splits)
  moreover have "s1 = s" using w(1) walk_lookup [OF walk_below [OF w(1)], of pt s] by simp
  ultimately show ?thesis using walk_tree(1) [OF ok w(1)] by simp
qed

lemma uvmdealloc_tree: "pgtab_ok s pt \<Longrightarrow> uvmdealloc pt oldsz newsz s = Inr (s', r) \<Longrightarrow> tree_step s pt s'"
  unfolding uvmdealloc_def using uvmunmap_tree tree_step_refl
  by (auto simp: Let_def split: if_splits sum.splits)

text \<open>A new user page at an address, as \<open>uvmalloc\<close>, \<open>usertrap\<close> and \<open>argaddr\<close> make it.\<close>

lemma new_page_tree:
  assumes ok: "pgtab_ok s pt" and fr: "fresh s = mem # ps" and m: "mappages pt a sz mem perm (zero_page mem (kalloc_page mem ps s)) = Inr (s', r)"
  shows "tree_step s pt s'" and "tree_step s pt (kfree_page p s')"
proof -
  have e: "pte (zero_page mem (kalloc_page mem ps s)) = pte s" "fresh (zero_page mem (kalloc_page mem ps s)) = ps" by (simp_all add: zero_page_def)
  note k = kalloc_tree(1) [OF ok fr e]
  show st: "tree_step s pt s'" by (rule tree_step_trans [OF k mappages_tree [OF tree_stepD(1) [OF k] m]])
  show "tree_step s pt (kfree_page p s')" by (rule tree_step_cong [OF st]) simp_all
qed

lemma uvmalloc_from_tree: "pgtab_ok s pt \<Longrightarrow> uvmalloc_from pt a oldsz newsz s = Inr (s', r) \<Longrightarrow> tree_step s pt s'"
proof (induction pt a oldsz newsz s rule: uvmalloc_from.induct)
  case (1 pt a oldsz newsz s)
  show ?case
  proof (cases "a < newsz")
    case False
    then have "s' = s" using "1.prems"(2) by (subst (asm) uvmalloc_from.simps) simp
    then show ?thesis using tree_step_refl [OF "1.prems"(1)] by simp
  next
    case lt: True
    show ?thesis
    proof (cases "fresh s")
      case Nil
      then obtain q where "uvmdealloc pt a oldsz s = Inr (s', q)"
        using "1.prems"(2) lt by (subst (asm) uvmalloc_from.simps) (cases "uvmdealloc pt a oldsz s"; auto)
      then show ?thesis by (rule uvmdealloc_tree [OF "1.prems"(1)])
    next
      case (Cons mem ps)
      let ?m = "mappages pt a PGSZ mem (PTE_W OR PTE_X OR PTE_R OR PTE_U) (zero_page mem (kalloc_page mem ps s))"
      show ?thesis
      proof (cases ?m)
        case (Inl e)
        then show ?thesis using "1.prems"(2) lt Cons by (subst (asm) uvmalloc_from.simps) simp
      next
        case (Inr w)
        obtain s1 q where w: "w = (s1, q)" by (cases w)
        note st = new_page_tree [OF "1.prems"(1) Cons Inr [unfolded w]]
        show ?thesis
        proof (cases "q = 0")
          case True
          then have "uvmalloc_from pt (a + PGSZ) oldsz newsz s1 = Inr (s', r)"
            using "1.prems"(2) lt Cons Inr w by (subst (asm) uvmalloc_from.simps) simp
          then show ?thesis
            using "1.IH" [OF lt Cons Inr w [symmetric] _ tree_stepD(1) [OF st(1)]] True tree_step_trans [OF st(1)] by simp
        next
          case False
          then obtain x where "uvmdealloc pt a oldsz (kfree_page mem s1) = Inr (s', x)"
            using "1.prems"(2) lt Cons Inr w
            by (subst (asm) uvmalloc_from.simps) (cases "uvmdealloc pt a oldsz (kfree_page mem s1)"; auto)
          then show ?thesis using uvmdealloc_tree [OF tree_stepD(1) [OF st(2)]] tree_step_trans [OF st(2)] by blast
        qed
      qed
    qed
  qed
qed

lemma uvmalloc_tree: "pgtab_ok s pt \<Longrightarrow> uvmalloc pt oldsz newsz s = Inr (s', r) \<Longrightarrow> tree_step s pt s'"
  unfolding uvmalloc_def using uvmalloc_from_tree tree_step_refl by (auto split: if_splits)

lemma cowalloc_tree: "pgtab_ok s pt \<Longrightarrow> cowalloc pt va s = Inr (s', r) \<Longrightarrow> tree_step s pt s'"
proof -
  assume ok: "pgtab_ok s pt" and c: "cowalloc pt va s = Inr (s', r)"
  show ?thesis
  proof (cases "aligned va \<and> umapped s pt va \<and> upage s pt va \<noteq> 0")
    case False
    then have "s' = s" using c by (auto simp: cowalloc_def walkaddr_upage aligned_def Let_def split: if_splits)
    then show ?thesis using tree_step_refl [OF ok] by simp
  next
    case True
    then have u: "aligned va" "umapped s pt va" "upage s pt va \<noteq> 0" by blast+
    show ?thesis
    proof (cases "refcnt s (upage s pt va) = 1")
      case True
      show ?thesis by (rule cowalloc_last [OF ok u(1,2) True u(3)]) (use c in simp)
    next
      case rc: False
      show ?thesis
      proof (cases "fresh s")
        case Nil
        have "va < MAXVA" "lookup s pt va AND PTE_V \<noteq> 0" using u(2) by (simp_all add: umapped_def)
        then obtain t where "walk pt va False s = Inr (s, Some (t, PX 0 va))" by (rule walk_valid)
        then have "s' = s" using c u rc Nil by (simp add: cowalloc_def walkaddr_upage aligned_def Let_def)
        then show ?thesis using tree_step_refl [OF ok] by simp
      next
        case (Cons mem ps)
        show ?thesis by (rule cowalloc_shared [OF ok u(1,2) rc u(3) Cons]) (use c in simp)
      qed
    qed
  qed
qed

lemma copyout_tree: "pgtab_ok s pt \<Longrightarrow> copyout pt dst src s = Inr (s', r) \<Longrightarrow> tree_step s pt s'"
proof (induction "length src" arbitrary: dst src s rule: less_induct)
  case less
  let ?v = "PGROUNDDOWN dst"
  show ?case
  proof (cases "src = []")
    case True
    then have "s' = s" using less.prems(2) by (subst (asm) copyout.simps) simp
    then show ?thesis using tree_step_refl [OF less.prems(1)] by simp
  next
    case False
    obtain s1 pa where t: "target pt ?v s = Inr (s1, pa)" using copyout_target [OF less.prems(2) False] by blast
    have st: "tree_step s pt s1"
      using t cowalloc_tree [OF less.prems(1)] tree_step_refl [OF less.prems(1)] by (auto simp: target_def split: if_splits)
    show ?thesis
    proof (cases "pa = 0")
      case True
      then show ?thesis using less.prems(2) copyout_step [OF False t] st by simp
    next
      case pz: False
      let ?n = "page_chunk dst (length src)"
      let ?s = "write_page pa (unat (dst - ?v)) (take ?n src) s1"
      have r: "copyout pt (?v + PGSZ) (drop ?n src) ?s = Inr (s', r)" using less.prems(2) copyout_step [OF False t] pz by simp
      have sw: "tree_step s pt ?s" by (rule tree_step_cong [OF st]) simp_all
      have "length (drop ?n src) < length src" using False page_chunk_pos [of "length src" dst] by simp
      then have "tree_step ?s pt s'" using less.hyps tree_stepD(1) [OF sw] r by blast
      then show ?thesis by (rule tree_step_trans [OF sw])
    qed
  qed
qed

lemma mmap_handler_tree:
  assumes ok: "pgtab_ok s pt" and m: "mmap_handler pt areas rd va cause s = Inr (s', r)"
  shows "tree_step s pt s'"
proof (cases "\<exists>v pa ps. fresh s = pa # ps \<and> find (in_area (scast (ucast va :: u32))) areas = Some v")
  case False
  then have "s' = s" using m by (auto simp: mmap_handler_def Let_def split: option.splits list.splits if_splits)
  then show ?thesis using tree_step_refl [OF ok] by simp
next
  case True
  then obtain v pa ps where fr: "fresh s = pa # ps" and v: "find (in_area (scast (ucast va :: u32))) areas = Some v" by blast
  let ?s = "zero_page pa (kalloc_page pa ps s)"
  have k: "tree_step s pt t" if "pte t = pte s" "fresh t = ps" for t by (rule kalloc_tree(1) [OF ok fr that])
  have free: "tree_step s pt (kfree_page pa ?s)" by (rule k) (simp_all add: zero_page_def)
  have st: "tree_step s pt (write_page pa 0 bs ?s)" for bs by (rule k) (simp_all add: zero_page_def)
  have mp: "tree_step s pt t" "tree_step s pt (kfree_page pa t)"
    if "mappages pt x PGSZ pa perm (write_page pa 0 bs ?s) = Inr (t, q)" for bs t q x perm
  proof -
    show t: "tree_step s pt t" by (rule tree_step_trans [OF st mappages_tree [OF tree_stepD(1) [OF st] that]])
    show "tree_step s pt (kfree_page pa t)" by (rule tree_step_cong [OF t]) simp_all
  qed
  show ?thesis
    using m fr v free mp tree_step_refl [OF ok]
    by (auto simp: mmap_handler_def Let_def split: prod.splits sum.splits if_splits)
qed

lemma lazy_fault_tree:
  assumes ok: "pgtab_ok s pt" and p: "lazy_fault pt sz shm sp va s = Inr (s', k)"
  shows "tree_step s pt s'"
  using p tree_step_refl [OF ok] new_page_tree [OF ok]
  by (cases "fresh s") (auto simp: lazy_fault_def Let_def split: if_splits sum.splits)

lemma page_fault_tree:
  assumes ok: "pgtab_ok s pt" and p: "page_fault pt sz shm sp areas rd cause va s = Inr (s', k)"
  shows "tree_step s pt s'"
proof (cases "cowpage pt va s = 0")
  case True
  then show ?thesis
    using p cowalloc_tree [OF ok] tree_step_refl [OF ok] by (auto simp: page_fault_def split: if_splits sum.splits)
next
  case False
  show ?thesis
  proof (cases "PGROUNDUP sp - 1 < va \<and> va < sz")
    case True
    then obtain s1 r where m: "mmap_handler pt areas rd va cause s = Inr (s1, r)"
      and s1: "r = 0 \<and> s' = s1 \<or> lazy_fault pt sz shm sp va s1 = Inr (s', k)"
      using p False by (auto simp: page_fault_def split: if_splits sum.splits)
    note st = mmap_handler_tree [OF ok m]
    show ?thesis using s1 st lazy_fault_tree [OF tree_stepD(1) [OF st]] tree_step_trans [OF st] by blast
  next
    case no: False
    then have "lazy_fault pt sz shm sp va s = Inr (s', k)" using p False by (auto simp: page_fault_def split: if_splits)
    then show ?thesis by (rule lazy_fault_tree [OF ok])
  qed
qed

lemma argaddr_tree:
  assumes ok: "pgtab_ok s pt" and p: "argaddr pt sz sp va s = Inr (s', r)"
  shows "tree_step s pt s'"
  using p tree_step_refl [OF ok] new_page_tree [OF ok]
  by (auto simp: argaddr_def split: if_splits sum.splits list.splits)

lemma growproc_tree:
  assumes ok: "pgtab_ok s pt" and g: "growproc pt psz n s = Inr (s', r)"
  shows "tree_step s pt s'"
  using g tree_step_refl [OF ok] uvmalloc_tree [OF ok] uvmdealloc_tree [OF ok]
  by (auto simp: growproc_def Let_def split: if_splits sum.splits)

section \<open>Reachable page tables\<close>

text \<open>A page table from its creation on. Between its operations the rest of the kernel runs: it writes no page of the
  table, and the pages that \<open>kalloc\<close> will return are none of its pages.\<close>

inductive pgtab_reach :: "u64 \<Rightarrow> vmstate \<Rightarrow> bool" for pt where
  create: "distinct (fresh s) \<Longrightarrow> (\<And>x. x \<in> set (fresh s) \<Longrightarrow> aligned x) \<Longrightarrow> fresh s \<noteq> [] \<Longrightarrow> uvmcreate s = (s', pt) \<Longrightarrow> pgtab_reach pt s'"
| map: "pgtab_reach pt s \<Longrightarrow> mappages pt va sz pa perm s = Inr (s', r) \<Longrightarrow> pgtab_reach pt s'"
| unmap: "pgtab_reach pt s \<Longrightarrow> uvmunmap pt va npages do_free s = Inr s' \<Longrightarrow> pgtab_reach pt s'"
| clear: "pgtab_reach pt s \<Longrightarrow> uvmclear pt va s = Inr s' \<Longrightarrow> pgtab_reach pt s'"
| grow: "pgtab_reach pt s \<Longrightarrow> growproc pt psz n s = Inr (s', r) \<Longrightarrow> pgtab_reach pt s'"
| alloc: "pgtab_reach pt s \<Longrightarrow> uvmalloc pt oldsz newsz s = Inr (s', sz) \<Longrightarrow> pgtab_reach pt s'"
| dealloc: "pgtab_reach pt s \<Longrightarrow> uvmdealloc pt oldsz newsz s = Inr (s', sz) \<Longrightarrow> pgtab_reach pt s'"
| cow: "pgtab_reach pt s \<Longrightarrow> cowalloc pt va s = Inr (s', pa) \<Longrightarrow> pgtab_reach pt s'"
| copyout: "pgtab_reach pt s \<Longrightarrow> copyout pt dst src s = Inr (s', r) \<Longrightarrow> pgtab_reach pt s'"
| fault: "pgtab_reach pt s \<Longrightarrow> page_fault pt psz shm sp areas rd cause va s = Inr (s', killed) \<Longrightarrow> pgtab_reach pt s'"
| arg: "pgtab_reach pt s \<Longrightarrow> argaddr pt psz sp va s = Inr (s', r) \<Longrightarrow> pgtab_reach pt s'"
| other: "pgtab_reach pt s \<Longrightarrow> (\<And>x. x \<in> tables s pt \<Longrightarrow> pte s' x = pte s x) \<Longrightarrow> distinct (fresh s') \<Longrightarrow>
    (\<And>x. x \<in> set (fresh s') \<Longrightarrow> aligned x \<and> x \<notin> tables s pt) \<Longrightarrow> pgtab_reach pt s'"

lemma uvmcreate_ok:
  assumes "distinct (fresh s)" and "\<And>x. x \<in> set (fresh s) \<Longrightarrow> aligned x" and "fresh s \<noteq> []" and "uvmcreate s = (s', pt)"
  shows "pgtab_ok s' pt"
proof -
  obtain ps where f: "fresh s = pt # ps" "s' = zero_table pt (kalloc_page pt ps s)"
    using assms(3,4) by (auto simp: uvmcreate_def split: list.splits)
  show ?thesis
    by (rule empty_pgtab_ok(1)) (use assms(1,2) f in \<open>auto simp: zero_table_def kalloc_page_def\<close>)
qed

text \<open>The rest of the kernel, which writes to no table of the tree and frees none of them, keeps the tree.\<close>

lemma pgtab_ok_frame:
  assumes ok: "pgtab_ok s pt" and same: "\<And>x. x \<in> tables s pt \<Longrightarrow> pte s' x = pte s x"
    and dist: "distinct (fresh s')" and fr: "\<And>x. x \<in> set (fresh s') \<Longrightarrow> aligned x \<and> x \<notin> tables s pt"
  shows "pgtab_ok s' pt"
proof -
  have t: "tab s' pt p = tab s pt p" if "path_ok p" for p by (rule tab_frame [OF same that])
  then have tb: "tables s' pt = tables s pt" by (auto simp: tables_def)
  show ?thesis
    unfolding pgtab_ok_def tb
  proof (intro conjI allI impI ballI)
    fix p q assume "path_ok p \<and> path_ok q \<and> tab s' pt p \<noteq> None \<and> tab s' pt p = tab s' pt q"
    then show "p = q" using t pgtab_inj [OF ok, of p q] by (cases "tab s pt p") auto
  qed (use dist fr in blast)+
qed

text \<open>
  From its creation by \<open>uvmcreate\<close> on, through any sequence of mapping, unmapping, growing, shrinking, copy-on-write,
  copying and page faults with any arguments, successful or not, a page table is a tree: no page of it is reached by
  two paths, and no page of it is free. A freed page is not put back on the list of free pages here: which pages \<open>kalloc\<close> will
  return is left to the steps of the rest of the kernel, and that these return no page of the tree is a hypothesis of rule \<open>other\<close>.
\<close>

lemma page_table_type:
  assumes "pgtab_reach pt s"
  shows "pgtab_ok s pt"
  using assms
proof (induction rule: pgtab_reach.induct)
  case (create s s')
  then show ?case using uvmcreate_ok by blast
next
  case (other s s')
  show ?case by (rule pgtab_ok_frame [OF other.IH other.hyps(2-4)])
next
  case (map s va sz pa perm s' r)
  show ?case by (rule tree_stepD(1) [OF mappages_tree [OF map.IH map.hyps(2)]])
next
  case (unmap s va npages do_free s')
  show ?case by (rule tree_stepD(1) [OF uvmunmap_tree [OF unmap.IH unmap.hyps(2)]])
next
  case (clear s va s')
  show ?case by (rule tree_stepD(1) [OF uvmclear_tree [OF clear.IH clear.hyps(2)]])
next
  case (grow s psz n s' r)
  show ?case by (rule tree_stepD(1) [OF growproc_tree [OF grow.IH grow.hyps(2)]])
next
  case (alloc s oldsz newsz s' sz)
  show ?case by (rule tree_stepD(1) [OF uvmalloc_tree [OF alloc.IH alloc.hyps(2)]])
next
  case (dealloc s oldsz newsz s' sz)
  show ?case by (rule tree_stepD(1) [OF uvmdealloc_tree [OF dealloc.IH dealloc.hyps(2)]])
next
  case (cow s va s' pa)
  show ?case by (rule tree_stepD(1) [OF cowalloc_tree [OF cow.IH cow.hyps(2)]])
next
  case (copyout s dst src s' r)
  show ?case by (rule tree_stepD(1) [OF copyout_tree [OF copyout.IH copyout.hyps(2)]])
next
  case (fault s psz shm sp areas rd cause va s' killed)
  show ?case by (rule tree_stepD(1) [OF page_fault_tree [OF fault.IH fault.hyps(2)]])
next
  case (arg s psz sp va s' r)
  show ?case by (rule tree_stepD(1) [OF argaddr_tree [OF arg.IH arg.hyps(2)]])
qed

lemma page_table_type_example:
  "\<exists>s. mappages 0x80002000 0 0x3000 0x87000000 22 (fst (uvmcreate empty_vm)) = Inr (s, 0) \<and> pgtab_ok s 0x80002000"
proof -
  let ?s = "fst (uvmcreate empty_vm)"
  have f: "distinct (fresh empty_vm)" "\<And>x. x \<in> set (fresh empty_vm) \<Longrightarrow> aligned x" "fresh empty_vm \<noteq> []"
    "uvmcreate empty_vm = (?s, 0x80002000)" by (auto simp: empty_vm_def aligned_def uvmcreate_def)
  have z: "pte ?s 0x80002000 = (\<lambda>_. 0)" "distinct (0x80002000 # fresh ?s)" "\<And>x. x \<in> set (fresh ?s) \<Longrightarrow> aligned x"
    by (auto simp: empty_vm_def uvmcreate_def zero_table_def kalloc_page_def aligned_def)
  note ok = empty_pgtab_ok [OF z]
  have r: "0 < (0x3000 :: u64)" "unat (0 :: u64) + unat (0x3000 :: u64) \<le> 2 ^ 38" by simp_all
  have l: "lookup ?s 0x80002000 v AND PTE_V = 0" for v by (simp add: ok(2))
  have "2 * Suc (vpn (0 + 0x3000 - 1) - vpn 0) \<le> length (fresh ?s)"
    by (simp add: empty_vm_def uvmcreate_def zero_table_def kalloc_page_def)
  from mappages_from_maps [OF ok(1) aligned_PGROUNDDOWN mappages_range(2) [OF r] refl l this, of "0x87000000" 22] obtain s where
    m: "mappages 0x80002000 0 0x3000 0x87000000 22 ?s = Inr (s, 0)" unfolding mappages_range(1) [OF r] by blast
  have "pgtab_reach 0x80002000 s" by (rule pgtab_reach.map [OF pgtab_reach.create [OF f] m])
  then show ?thesis using m page_table_type by blast
qed

end
