(* ===== verification/Spec2Isabelle.thy ===== *)
theory Spec2Isabelle
  imports Slab Log Kstring Pipe Spinlock Semaphore Capability Fs_Dir File Vm_Reach
begin

text \<open>
  A verification development for a multi-core RISC-V teaching kernel written in C, derived from xv6, under
  \<open>src/kernel\<close>. All file names below are relative to that directory.

  \<^bold>\<open>The program and its parts.\<close> Memory comes from the page allocator (\<open>mm/kalloc.c\<close>), which gives whole pages with
  reference counts, and from the slab allocator on top of it (\<open>mm/slab.c\<close>). Page tables and user memory
  (\<open>mm/vm.c\<close>) take their pages from the page allocator and share user pages copy-on-write after a fork.
  The file system is a stack: the buffer cache (\<open>filesystem/bio.c\<close>) over the disk, the write-ahead log
  (\<open>filesystem/log.c\<close>) over the cache, then blocks, inodes, files and directories (\<open>filesystem/fs.c\<close>) inside transactions
  of the log, and the open files (\<open>filesystem/file.c\<close>) over inodes and pipes (\<open>proc/pipe.c\<close>). Processes live in one table
  (\<open>proc/proc.c\<close>), which the scheduler, the freezer (\<open>proc/freezer.c\<close>) and the capabilities (\<open>proc/capability.c\<close>) share.
  Spin locks and sleep locks (\<open>lock\<close>) protect all of these.

  \<^bold>\<open>How the code is modelled.\<close> A struct is a record, a table an array as a list, a pointer into a table an index. A
  kernel panic is the value \<open>Inl\<close> of type \<open>'a kres\<close>; where a routine may also wait, its result is an \<open>outcome\<close>: \<open>Done\<close>,
  \<open>Panics\<close> or \<open>Sleeps\<close> (theory \<open>Kernel_Prelude\<close>). A routine maps a state to a state and its result. A loop is a
  recursive function with a termination proof. What the code obtains from outside of a component (the CPU it runs on, the
  clock, whether an allocation or a copy to user memory succeeds, what a driver returns) is an argument, so that
  the theorems hold for all of its values. Sequences of calls are inductive relations: one rule per routine, one for what the rest of
  the kernel may do in between; invariants are proved by rule induction over them.

  \<^bold>\<open>Memory.\<close> \<open>Page_Allocator\<close> is the contract of a reference-counted allocator as a locale, with what clients conclude
  from it; \<open>Kalloc\<close> has \<open>kinit\<close>, \<open>kalloc\<close>, \<open>kfree\<close>, the counts and \<open>freebytes\<close>, with the free lists chained through
  the memory itself, and interprets the locale on them. Its lemmas show that a page handed out is held by
  nobody else and what the free of a holder does. \<open>Slab\<close> has \<open>slab_alloc\<close>, \<open>slab_free\<close> and \<open>slab_shrink\<close> over \<open>Kalloc\<close>:
  no two live objects overlap, freeing an object changes no other.
  \<open>Page_Table\<close> has \<open>walk\<close>, \<open>mappages\<close> and \<open>uvmunmap\<close>, with the view of a page table as a tree; \<open>Vm\<close> the operations on
  user memory, from \<open>uvmcreate\<close> to \<open>copyinstr\<close>, \<open>cowalloc\<close>, the page faults of \<open>usertrap\<close> with \<open>mmap_handler\<close>
  (\<open>interrupt/trap.c\<close>), \<open>argaddr\<close> (\<open>syscall.c\<close>) and \<open>growproc\<close>. \<open>Vm_Cow\<close> shows what copy-on-write isolates and what it does
  not, \<open>Vm_Size\<close> that growing and freeing lose no page, \<open>Vm_Reach\<close> that every operation keeps the tree.

  \<^bold>\<open>File system.\<close> \<open>Disk_Block\<close> has integers in blocks; \<open>Bcache\<close> the cache, which always gives the latest contents; \<open>Log\<close>
  the log, with a crash after any prefix of the disk writes of a commit and the recovery by \<open>initlog\<close>: all or none of the
  blocks of a transaction are on disk. \<open>Fs_Block\<close> has the bitmap of blocks, \<open>Fs_Dinode\<close> the inodes on disk, \<open>Fs_Map\<close> the block
  map \<open>bmap\<close> and \<open>itrunc\<close>, \<open>Fs_File\<close> \<open>readi\<close> and \<open>writei\<close>, \<open>Icache\<close> the table of inodes in memory, \<open>Fs_Dir\<close> directories and
  paths, \<open>File\<close> the open files. The abstract view is a file as a list of bytes and a directory as a map from names to
  inode numbers; reading, writing, truncating, looking up and linking are proved to act on these views and to leave the
  other files, the other inodes on disk and the other blocks alone. \<open>Kstring\<close> has \<open>lib/string.c\<close>.

  \<^bold>\<open>Processes.\<close> \<open>Proc_Table\<close> has the table and \<open>allocproc\<close>, \<open>fork\<close>, \<open>clone\<close>, \<open>exit\<close>, \<open>wait\<close>, \<open>join\<close>, \<open>sleep\<close>, the wakeups and
  \<open>kill\<close>; \<open>Proc_Life\<close> the invariant of the table and what the calls do; \<open>Scheduler\<close> one turn of \<open>scheduler\<close> with the
  three policies, whose two scans for the best process share the locale \<open>best_scan\<close>; \<open>Freezer\<close> and \<open>Capability\<close> the operations on the
  fields of these components. \<open>Spinlock\<close> has \<open>acquire\<close> and \<open>release\<close> step by step on any number of CPUs, and sleep locks;
  \<open>Semaphore\<close> the semaphores of \<open>lock/spinlock.c\<close> and \<open>sysproc.c\<close>; \<open>Pipe\<close> the ring buffer with its sleeping readers and writers.

  \<^bold>\<open>Bounds and fuel.\<close> \<open>freewalk\<close> recurses over pages without a measure of its own; it gets its depth as an argument, and
  the theorem on \<open>uvmfree\<close> proves that depth three, the number of levels of a page table, gives a result. \<open>freebytes\<close> follows a chain in
  memory with fuel; a theorem of \<open>Kalloc\<close> shows that one step more than there are pages is enough. \<open>strlen\<close> may run past
  the end of memory and is a partial function. All other loops are total. Words are kept at their width in page tables, disk
  blocks, pipes, capability sets and counters, process numbers and reference counts of buffers.

  \<^bold>\<open>What is abstracted.\<close> Apart from the spin lock routines, a routine is one step: interleavings inside it and the order in which
  it takes locks are not represented, nor are the fences and the memory model. In \<open>Page_Table\<close> and the theories over it
  the free of a page is the recorded call and a lowered count: the page is neither overwritten nor given out again, and
  the panics of \<open>kfree\<close> are in \<open>Kalloc\<close> only. Reference counts of pages and the counters of semaphores are unbounded
  integers. The header of a slab page is a record beside the memory; only the links of free objects are in it. The
  routines of \<open>fs.c\<close> work on the latest contents of the blocks, which \<open>Bcache\<close> and \<open>Log\<close> justify but which are not
  connected to them by a theorem. \<open>Proc_Table\<close> records the calls to other components (freeing a page table, duplicating a
  file) instead of performing them. Addresses and sizes in \<open>Kalloc\<close>, \<open>Slab\<close> and \<open>Kstring\<close> are natural numbers.

  \<^bold>\<open>Not modelled.\<close> The system calls on paths (\<open>sysfile.c\<close>) and \<open>exec\<close>, which need the log, the inodes and user memory in
  one state; the dispatch of system calls; traps other than page faults, context switch and boot code, which are machine-level
  code; the drivers, the console and the network, whose devices are outside of the sources; shared memory, message queues, the areas of
  \<open>mm/vma.c\<close>, futexes, checkpoints, processor affinity, quality of service, control groups, abilities, the embassy and
  inter-process call services, the distributed file system, versioning and the information files, which are tables of their own
  behind their own system calls; printing and statistics; the user programs under \<open>src/user\<close>.
\<close>

end
